(* ===== verification/Prelude.thy ===== *)
theory Prelude
  imports Main "HOL-Library.Word"
begin

text \<open>
  Shared vocabulary of the development: bytes, the outcomes of a C++ call, computations on an
  explicit state, and the generic list and word lemmas that several components use.

  A call of the source ends in one of four ways, the constructors of \<open>outcome\<close>: it returns
  a value; it throws; the coroutine is still suspended at a \<open>co_await\<close> because the awaited
  completion has not arrived; or its behaviour is undefined (a read or write outside an object, a
  null dereference, a loop without forward progress). Every operation that touches state returns
  an outcome together with the state it left behind, so side effects that precede an exception
  are visible.
\<close>

unbundle bit_operations_syntax

named_theorems wf_intros \<open>preservation of well-formedness invariants\<close>
named_theorems comp_simps \<open>unfolding of sequential composition\<close>

section \<open>Bytes and characters\<close>

type_synonym byte = "8 word"

text \<open>\<open>static_cast\<close> between \<open>std::byte\<close> / \<open>uint8_t\<close> and \<open>char\<close>.\<close>

definition char_of_byte :: "byte \<Rightarrow> char" where
  "char_of_byte b = char_of (unat b)"

definition byte_of_char :: "char \<Rightarrow> byte" where
  "byte_of_char c = of_nat (of_char c)"

lemma unat_byte_less [simp]: "unat (b :: byte) < 256"
  using unsigned_less [of b] by simp

lemma unat_byte_of_char: "unat (byte_of_char c) = of_char c"
  by (simp add: byte_of_char_def unat_of_nat)

lemma byte_of_char_of_byte [simp]: "byte_of_char (char_of_byte b) = b"
proof -
  have "(of_char (char_of (unat b) :: char) :: nat) = unat b"
    by (simp only: of_char_of) simp
  then show ?thesis
    by (simp add: byte_of_char_def char_of_byte_def)
qed

lemma char_of_byte_of_char [simp]: "char_of_byte (byte_of_char c) = c"
  by (simp add: char_of_byte_def unat_byte_of_char)

definition chars :: "byte list \<Rightarrow> string" where
  "chars = map char_of_byte"

definition bytes :: "string \<Rightarrow> byte list" where
  "bytes = map byte_of_char"

lemma chars_bytes [simp]: "chars (bytes s) = s"
  by (simp add: chars_def bytes_def comp_def)

lemma bytes_chars [simp]: "bytes (chars bs) = bs"
  by (simp add: chars_def bytes_def comp_def)

lemma length_chars [simp]: "length (chars bs) = length bs"
  by (simp add: chars_def)

lemma length_bytes [simp]: "length (bytes s) = length s"
  by (simp add: bytes_def)

lemma chars_append [simp]: "chars (xs @ ys) = chars xs @ chars ys"
  by (simp add: chars_def)

lemma bytes_append [simp]: "bytes (xs @ ys) = bytes xs @ bytes ys"
  by (simp add: bytes_def)

lemma chars_Nil [simp]: "chars [] = []" and bytes_Nil [simp]: "bytes [] = []"
  by (simp_all add: chars_def bytes_def)

lemma chars_eq_Nil [simp]: "chars bs = [] \<longleftrightarrow> bs = []"
  by (simp add: chars_def)

lemma bytes_eq_Nil [simp]: "bytes s = [] \<longleftrightarrow> s = []"
  by (simp add: bytes_def)

lemma take_chars [simp]: "take n (chars bs) = chars (take n bs)"
  by (simp add: chars_def take_map)

lemma drop_chars [simp]: "drop n (chars bs) = chars (drop n bs)"
  by (simp add: chars_def drop_map)

lemma bytes_inject [simp]: "bytes s = bytes t \<longleftrightarrow> s = t"
  by (metis chars_bytes)

section \<open>Outcomes and computations\<close>

text \<open>
  \<open>Runtime_error\<close> carries the literal message of a \<open>std::runtime_error\<close>;
  \<open>Errno_error\<close> is one whose message is the prefix followed by \<open>strerror\<close> of the
  number; \<open>Length_error\<close> is the \<open>std::length_error\<close> of \<open>std::string::append\<close>.
\<close>

datatype error = Runtime_error string | Errno_error string int | Length_error

datatype 'a outcome = Done 'a | Threw error | Suspended | Undefined

type_synonym ('s, 'a) comp = "'s \<Rightarrow> 'a outcome \<times> 's"

definition return :: "'a \<Rightarrow> ('s, 'a) comp" where
  "return a s = (Done a, s)"

definition throw :: "error \<Rightarrow> ('s, 'a) comp" where
  "throw e s = (Threw e, s)"

text \<open>Sequencing: the continuation runs only when the first computation returned.\<close>

fun pass_on :: "'a outcome \<Rightarrow> 's \<Rightarrow> ('a \<Rightarrow> ('s, 'b) comp) \<Rightarrow> 'b outcome \<times> 's" where
  "pass_on (Done a) s f = f a s"
| "pass_on (Threw e) s f = (Threw e, s)"
| "pass_on Suspended s f = (Suspended, s)"
| "pass_on Undefined s f = (Undefined, s)"

definition and_then :: "('s, 'a) comp \<Rightarrow> ('a \<Rightarrow> ('s, 'b) comp) \<Rightarrow> ('s, 'b) comp" where
  "and_then m f s = (case m s of (r, s') \<Rightarrow> pass_on r s' f)"

lemma and_then_Done: "m s = (Done a, s') \<Longrightarrow> and_then m f s = f a s'"
  by (simp add: and_then_def)

lemma and_then_Threw: "m s = (Threw e, s') \<Longrightarrow> and_then m f s = (Threw e, s')"
  by (simp add: and_then_def)

lemma and_then_Suspended: "m s = (Suspended, s') \<Longrightarrow> and_then m f s = (Suspended, s')"
  by (simp add: and_then_def)

lemma and_then_Undefined: "m s = (Undefined, s') \<Longrightarrow> and_then m f s = (Undefined, s')"
  by (simp add: and_then_def)

lemmas and_then_outcomes = and_then_Done and_then_Threw and_then_Suspended and_then_Undefined

lemma and_then_return [comp_simps]: "and_then (return a) f s = f a s"
  by (simp add: and_then_def return_def)

lemma and_then_throw [comp_simps]: "and_then (throw e) f s = (Threw e, s)"
  by (simp add: and_then_def throw_def)

lemma and_then_assoc: "and_then (and_then m f) g = and_then m (\<lambda>a. and_then (f a) g)"
proof
  fix s
  obtain r s' where "m s = (r, s')" by fastforce
  then show "and_then (and_then m f) g s = and_then m (\<lambda>a. and_then (f a) g) s"
    by (cases r) (simp_all add: and_then_def)
qed

lemma and_then_DoneE:
  assumes "and_then m f s = (Done b, s2)"
  obtains a s1 where "m s = (Done a, s1)" "f a s1 = (Done b, s2)"
proof -
  obtain r s1 where *: "m s = (r, s1)" by fastforce
  with assms that show ?thesis by (cases r) (auto simp: and_then_def)
qed

lemma and_then_cong [fundef_cong]:
  assumes "s = s'" and "m s' = m' s'"
    and "\<And>a t. m' s' = (Done a, t) \<Longrightarrow> f a t = f' a t"
  shows "and_then m f s = and_then m' f' s'"
proof -
  obtain r t where *: "m' s' = (r, t)" by fastforce
  with assms show ?thesis by (cases r) (simp_all add: and_then_def)
qed

text \<open>The same for a stateless call.\<close>

fun out_bind :: "'a outcome \<Rightarrow> ('a \<Rightarrow> 'b outcome) \<Rightarrow> 'b outcome" where
  "out_bind (Done a) f = f a"
| "out_bind (Threw e) f = Threw e"
| "out_bind Suspended f = Suspended"
| "out_bind Undefined f = Undefined"

lemma out_bind_cong [fundef_cong]:
  "m = m' \<Longrightarrow> (\<And>a. m' = Done a \<Longrightarrow> f a = f' a) \<Longrightarrow> out_bind m f = out_bind m' f'"
  by (cases m') simp_all

lemma out_bind_DoneE:
  assumes "out_bind m f = Done b"
  obtains a where "m = Done a" "f a = Done b"
  using assms that by (cases m) auto

text \<open>A computation on one component of a paired state.\<close>

definition on_fst :: "('s, 'a) comp \<Rightarrow> ('s \<times> 't, 'a) comp" where
  "on_fst m p = (case m (fst p) of (r, s') \<Rightarrow> (r, (s', snd p)))"

definition on_snd :: "('t, 'a) comp \<Rightarrow> ('s \<times> 't, 'a) comp" where
  "on_snd m p = (case m (snd p) of (r, t') \<Rightarrow> (r, (fst p, t')))"

lemma on_snd_eq: "m t = (r, t') \<Longrightarrow> on_snd m (s, t) = (r, (s, t'))"
  by (simp add: on_snd_def)

lemma on_fst_eq: "m s = (r, s') \<Longrightarrow> on_fst m (s, t) = (r, (s', t))"
  by (simp add: on_fst_def)

section \<open>Memory\<close>

text \<open>
  A pointer into an array is the array and an offset. \<open>memcpy\<close> overwrites the bytes from
  the offset on; writing past the end of the array is undefined (\<open>None\<close>).
\<close>

definition memcpy :: "'a list \<Rightarrow> nat \<Rightarrow> 'a list \<Rightarrow> 'a list option" where
  "memcpy dest off src =
     (if off + length src \<le> length dest
      then Some (take off dest @ src @ drop (off + length src) dest) else None)"

lemma memcpy_Nil: "off \<le> length dest \<Longrightarrow> memcpy dest off [] = Some dest"
  by (simp add: memcpy_def)

lemma memcpy_length: "memcpy dest off src = Some d \<Longrightarrow> length d = length dest"
  by (auto simp: memcpy_def split: if_splits)

lemma memcpy_memcpy:
  assumes "memcpy dest off xs = Some d"
  shows "memcpy d (off + length xs) ys = memcpy dest off (xs @ ys)"
  using assms by (auto simp: memcpy_def ac_simps split: if_splits)

section \<open>Codecs\<close>

text \<open>
  The contract of an encoding that can be read back, with what it gives to every client: encoded
  values can be compared instead of the values.
\<close>

locale codec =
  fixes enc :: "'a \<Rightarrow> 'b" and dec :: "'b \<Rightarrow> 'a option" and dom_ok :: "'a \<Rightarrow> bool"
  assumes dec_enc: "dom_ok x \<Longrightarrow> dec (enc x) = Some x"
begin

lemma enc_inject: "dom_ok x \<Longrightarrow> dom_ok y \<Longrightarrow> enc x = enc y \<longleftrightarrow> x = y"
  by (metis dec_enc option.inject)

lemma enc_map_inject:
  "list_all dom_ok xs \<Longrightarrow> list_all dom_ok ys \<Longrightarrow> map enc xs = map enc ys \<longleftrightarrow> xs = ys"
proof (induction xs arbitrary: ys)
  case Nil
  then show ?case by auto
next
  case (Cons x xs)
  then show ?case by (cases ys) (auto simp: enc_inject)
qed

end

section \<open>Keyed stores\<close>

text \<open>
  What the clients of \<open>std::unordered_map\<close> rely on: an assignment through \<open>operator[]\<close> is found
  under every key the map identifies with it and disturbs no other key. A client that assigns
  several entries in turn then finds the last one of its key.
\<close>

locale keyed_store =
  fixes empty :: "'m" and put :: "'k \<Rightarrow> 'v \<Rightarrow> 'm \<Rightarrow> 'm" and look :: "'m \<Rightarrow> 'k \<Rightarrow> 'v option"
    and same :: "'k \<Rightarrow> 'k \<Rightarrow> bool"
  assumes look_empty: "look empty k = None"
    and look_put: "look (put k v m) k' = (if same k k' then Some v else look m k')"
begin

lemma look_fold:
  "look (fold (\<lambda>(k, v). put k v) kvs m) q
   = (case filter (\<lambda>p. same (fst p) q) (rev kvs) of [] \<Rightarrow> look m q | p # _ \<Rightarrow> Some (snd p))"
proof (induction kvs arbitrary: m)
  case (Cons p kvs)
  obtain k v where "p = (k, v)" by fastforce
  with Cons show ?case by (simp add: look_put split: list.split)
qed simp

lemma look_fold_empty:
  "look (fold (\<lambda>(k, v). put k v) kvs empty) q
   = map_option snd (find (\<lambda>p. same (fst p) q) (rev kvs))"
proof -
  have "find P xs = (case filter P xs of [] \<Rightarrow> None | x # _ \<Rightarrow> Some x)" for P and xs :: "('k \<times> 'v) list"
    by (induction xs) auto
  then show ?thesis by (simp add: look_fold look_empty split: list.split)
qed

end

section \<open>Generic list lemmas\<close>

lemma take_min_length [simp]: "take (min n (length xs)) xs = take n xs"
  by (simp add: min_def)

lemma drop_min_length [simp]: "drop (min n (length xs)) xs = drop n xs"
  by (simp add: min_def)

lemma take_drop_split: "n \<le> m \<Longrightarrow> take m xs = take n xs @ take (m - n) (drop n xs)"
  by (metis le_add_diff_inverse take_add)

lemma takeWhile_append_stop: "\<not> P x \<Longrightarrow> takeWhile P (xs @ x # ys) = takeWhile P xs"
  by (induction xs) auto

lemma takeWhile_none [simp]: "a \<notin> set xs \<Longrightarrow> takeWhile (\<lambda>c. c \<noteq> a) xs = xs"
  by (induction xs) auto

lemma takeWhile_upto [simp]: "a \<notin> set xs \<Longrightarrow> takeWhile (\<lambda>c. c \<noteq> a) (xs @ a # ys) = xs"
  by (induction xs) auto

lemma list_update_two:
  assumes "i + 2 \<le> length xs"
  shows "xs[i := a, Suc i := b] = take i xs @ [a, b] @ drop (i + 2) xs"
proof -
  have "2 \<le> length (drop i xs)" using assms by simp
  then obtain x y zs where d: "drop i xs = x # y # zs"
    by (cases "drop i xs"; cases "tl (drop i xs)") (auto simp del: length_drop)
  have xs: "xs = take i xs @ x # y # zs" by (metis append_take_drop_id d)
  have z: "drop (i + 2) xs = zs" using d by (metis add.commute drop_drop drop_0 drop_Suc_Cons numeral_2_eq_2)
  have l: "length (take i xs) = i" using assms by simp
  have "(take i xs @ x # y # zs)[i := a, Suc i := b] = take i xs @ a # b # zs"
    using l by (simp add: list_update_append)
  then show ?thesis using xs z by simp
qed

end
