(* ===== verification/Cpp_Util.thy ===== *)
theory Cpp_Util
  imports Prelude
begin

text \<open>
  \<open>cppevent_base/util\<close>: big-endian integer access and the error helpers. A pointer is an
  array with an offset; an access that leaves the array is \<open>None\<close> (undefined in the source).
\<close>

section \<open>Errors\<close>

text \<open>\<open>errno\<close> is an argument: the number that the last failing call of the C library left there.\<close>

definition throw_error :: "string \<Rightarrow> int \<Rightarrow> 'a outcome" where
  "throw_error prefix errnum = Threw (Errno_error prefix errnum)"

definition throw_error_errno :: "int \<Rightarrow> string \<Rightarrow> 'a outcome" where
  "throw_error_errno errno prefix = throw_error prefix errno"

definition throw_if_error :: "int \<Rightarrow> int \<Rightarrow> string \<Rightarrow> unit outcome" where
  "throw_if_error errno status prefix = (if status < 0 then throw_error_errno errno prefix else Done ())"

lemma throw_if_error_eq:
  "throw_if_error errno status prefix = (if status < 0 then Threw (Errno_error prefix errno) else Done ())"
  by (simp add: throw_if_error_def throw_error_errno_def throw_error_def)

section \<open>Reading and writing big-endian integers\<close>

definition read_u16_be :: "byte list \<Rightarrow> nat \<Rightarrow> 16 word option" where
  "read_u16_be src i =
     (if i + 2 \<le> length src
      then Some (push_bit 8 (ucast (src ! i)) + ucast (src ! (i + 1)))
      else None)"

definition read_u32_be :: "byte list \<Rightarrow> nat \<Rightarrow> 32 word option" where
  "read_u32_be src i =
     (case (read_u16_be src i, read_u16_be src (i + 2)) of
        (Some h, Some l) \<Rightarrow> Some (push_bit 16 (ucast h) + ucast l)
      | _ \<Rightarrow> None)"

definition write_u16_be :: "byte list \<Rightarrow> nat \<Rightarrow> 16 word \<Rightarrow> byte list option" where
  "write_u16_be dest i val =
     (if i + 2 \<le> length dest
      then Some (dest[i := ucast (drop_bit 8 val AND 0xFF), i + 1 := ucast (val AND 0xFF)])
      else None)"

definition write_u32_be :: "byte list \<Rightarrow> nat \<Rightarrow> 32 word \<Rightarrow> byte list option" where
  "write_u32_be dest i val =
     (case write_u16_be dest i (ucast (drop_bit 16 val AND 0xFFFF)) of
        None \<Rightarrow> None
      | Some d \<Rightarrow> write_u16_be d (i + 2) (ucast (val AND 0xFFFF)))"

text \<open>The two and four bytes that a write stores, most significant first.\<close>

definition u16_bytes :: "16 word \<Rightarrow> byte list" where
  "u16_bytes v = [ucast (drop_bit 8 v), ucast v]"

definition u32_bytes :: "32 word \<Rightarrow> byte list" where
  "u32_bytes v = u16_bytes (ucast (drop_bit 16 v)) @ u16_bytes (ucast v)"

lemma length_u16_bytes [simp]: "length (u16_bytes v) = 2"
  by (simp add: u16_bytes_def)

lemma length_u32_bytes [simp]: "length (u32_bytes v) = 4"
  by (simp add: u32_bytes_def)

lemma mask_byte: "(ucast (v AND 0xFF) :: byte) = ucast (v :: 16 word)"
proof -
  have "(0xFF :: 16 word) = mask 8" by (simp add: mask_eq_exp_minus_1)
  then have "v AND 0xFF = take_bit 8 v" by (simp add: take_bit_eq_mask)
  then show ?thesis by (auto simp: bit_simps intro!: bit_word_eqI)
qed

lemma mask_half: "(ucast (v AND 0xFFFF) :: 16 word) = ucast (v :: 32 word)"
proof -
  have "(0xFFFF :: 32 word) = mask 16" by (simp add: mask_eq_exp_minus_1)
  then have "v AND 0xFFFF = take_bit 16 v" by (simp add: take_bit_eq_mask)
  then show ?thesis by (auto simp: bit_simps intro!: bit_word_eqI)
qed

lemma u16_join: "push_bit 8 (ucast (ucast (drop_bit 8 v) :: byte)) + ucast (ucast v :: byte) = (v :: 16 word)"
proof -
  have "push_bit 8 (ucast (ucast (drop_bit 8 v) :: byte)) + ucast (ucast v :: byte)
      = (push_bit 8 (ucast (ucast (drop_bit 8 v) :: byte)) OR ucast (ucast v :: byte) :: 16 word)"
    by (rule disjunctive_add) (auto simp: bit_simps)
  also have "\<dots> = v"
    by (rule bit_word_eqI) (auto simp: bit_simps)
  finally show ?thesis .
qed

lemma u32_join: "push_bit 16 (ucast (ucast (drop_bit 16 v) :: 16 word)) + ucast (ucast v :: 16 word) = (v :: 32 word)"
proof -
  have "push_bit 16 (ucast (ucast (drop_bit 16 v) :: 16 word)) + ucast (ucast v :: 16 word)
      = (push_bit 16 (ucast (ucast (drop_bit 16 v) :: 16 word)) OR ucast (ucast v :: 16 word) :: 32 word)"
    by (rule disjunctive_add) (auto simp: bit_simps)
  also have "\<dots> = v"
    by (rule bit_word_eqI) (auto simp: bit_simps)
  finally show ?thesis .
qed

lemma write_u16_be_eq:
  "i + 2 \<le> length dest \<Longrightarrow>
   write_u16_be dest i v = Some (take i dest @ u16_bytes v @ drop (i + 2) dest)"
proof -
  have "ucast (drop_bit 8 v AND 0xFF) = (ucast (drop_bit 8 v) :: byte)"
    by (rule mask_byte)
  moreover assume "i + 2 \<le> length dest"
  ultimately show ?thesis
    by (simp add: write_u16_be_def u16_bytes_def mask_byte list_update_two)
qed

lemma write_u32_be_eq:
  assumes "i + 4 \<le> length dest"
  shows "write_u32_be dest i v = Some (take i dest @ u32_bytes v @ drop (i + 4) dest)"
proof -
  define d where "d = take i dest @ u16_bytes (ucast (drop_bit 16 v)) @ drop (i + 2) dest"
  have l: "length d = length dest" using assms by (simp add: d_def)
  have "write_u16_be dest i (ucast (drop_bit 16 v AND 0xFFFF)) = Some d"
    using assms by (simp add: write_u16_be_eq mask_half d_def)
  moreover have "write_u16_be d (i + 2) (ucast (v AND 0xFFFF))
      = Some (take (i + 2) d @ u16_bytes (ucast v) @ drop (i + 4) d)"
    using assms l
    by (subst write_u16_be_eq) (simp_all add: mask_half add.commute del: add_2_eq_Suc add_2_eq_Suc')
  moreover have "take (i + 2) d = take i dest @ u16_bytes (ucast (drop_bit 16 v))"
    using assms by (simp add: d_def)
  moreover have "drop (i + 4) d = drop (i + 4) dest"
    using assms by (simp add: d_def) (simp add: eval_nat_numeral)
  ultimately show ?thesis
    by (simp add: write_u32_be_def u32_bytes_def)
qed

lemma write_u32_be_None: "length dest < i + 4 \<Longrightarrow> write_u32_be dest i v = None"
  by (auto simp: write_u32_be_def write_u16_be_def)

lemma read_u16_be_bytes:
  "read_u16_be (pre @ u16_bytes v @ post) (length pre) = Some v"
  by (simp add: read_u16_be_def u16_bytes_def nth_append u16_join)

lemma read_u32_be_bytes:
  "read_u32_be (pre @ u32_bytes v @ post) (length pre) = Some v"
proof -
  let ?h = "u16_bytes (ucast (drop_bit 16 v))" and ?l = "u16_bytes (ucast v)"
  have "read_u16_be (pre @ ?h @ ?l @ post) (length pre) = Some (ucast (drop_bit 16 v))"
    by (rule read_u16_be_bytes)
  moreover have "read_u16_be ((pre @ ?h) @ ?l @ post) (length (pre @ ?h)) = Some (ucast v)"
    by (rule read_u16_be_bytes)
  ultimately show ?thesis
    by (simp add: read_u32_be_def u32_bytes_def u32_join)
qed

text \<open>Network byte order: the bytes are the base-256 digits of the value.\<close>

lemma unat_u16_read:
  "unat (push_bit 8 (ucast (a :: byte)) + ucast (b :: byte) :: 16 word) = 256 * unat a + unat b"
proof -
  have a: "unat a < 256" and b: "unat b < 256" by simp_all
  have ab: "unat a * 256 + unat b < 65536" using a b by linarith
  have b': "unat b < 65536" using b by linarith
  have a': "unat a < 65536" "unat a * 256 < 65536" using a by linarith+
  have "unat (push_bit 8 (ucast a :: 16 word)) = unat a * 256"
    unfolding unsigned_push_bit_eq unsigned_ucast_eq
    by (simp add: take_bit_eq_mod push_bit_eq_mult mod_less [OF a'(1)] mod_less [OF a'(2)])
  moreover have "unat (ucast b :: 16 word) = unat b"
    by (simp add: unsigned_ucast_eq take_bit_eq_mod mod_less [OF b'])
  ultimately show ?thesis
    by (simp add: unat_word_ariths mod_less [OF ab])
qed

lemma read_u16_be_value:
  "i + 2 \<le> length src \<Longrightarrow>
   map_option unat (read_u16_be src i) = Some (256 * unat (src ! i) + unat (src ! (i + 1)))"
  by (simp add: read_u16_be_def unat_u16_read)

lemma unat_u32_join:
  "unat (push_bit 16 (ucast (h :: 16 word)) + ucast (l :: 16 word) :: 32 word) = 65536 * unat h + unat l"
proof -
  have h: "unat h < 65536" and l: "unat l < 65536"
    using unsigned_less [of h] unsigned_less [of l] by simp_all
  have "unat (push_bit 16 (ucast h :: 32 word)) = unat h * 65536"
    using h unfolding unsigned_push_bit_eq unsigned_ucast_eq
    by (simp add: take_bit_eq_mod push_bit_eq_mult)
  moreover have "unat (ucast l :: 32 word) = unat l"
    using l by (simp add: unsigned_ucast_eq take_bit_eq_mod)
  ultimately show ?thesis
    using h l by (simp add: unat_word_ariths)
qed

interpretation u16: codec u16_bytes "\<lambda>bs. read_u16_be bs 0" "\<lambda>_. True"
  by unfold_locales (use read_u16_be_bytes [of "[]" _ "[]"] in simp)

interpretation u32: codec u32_bytes "\<lambda>bs. read_u32_be bs 0" "\<lambda>_. True"
  by unfold_locales (use read_u32_be_bytes [of "[]" _ "[]"] in simp)

section \<open>Properties\<close>

text \<open>
  writing a 32-bit value at an offset inside an array stores exactly its four bytes there,
  leaves every other byte alone, and reading at the same offset gives the value back.
\<close>

theorem write_read_u32_be:
  assumes "i + 4 \<le> length dest"
  shows "\<exists>d. write_u32_be dest i v = Some d \<and> read_u32_be d i = Some v
    \<and> d = take i dest @ u32_bytes v @ drop (i + 4) dest"
proof -
  have "length (take i dest) = i" using assms by simp
  then have "read_u32_be (take i dest @ u32_bytes v @ drop (i + 4) dest) i = Some v"
    using read_u32_be_bytes [of "take i dest"] by metis
  then show ?thesis using write_u32_be_eq [OF assms] by simp
qed

theorem write_read_u32_be_witness:
  "\<exists>d. write_u32_be [1, 0, 0, 0, 0, 9] 1 0xAABBCCDD = Some d \<and> read_u32_be d 1 = Some 0xAABBCCDD
    \<and> d = take 1 [1, 0, 0, 0, 0, 9] @ u32_bytes 0xAABBCCDD @ drop (1 + 4) [1, 0, 0, 0, 0, 9]"
  by (rule write_read_u32_be) simp

text \<open>
  reading is big-endian: the value read at an offset is the base-256 number of the four bytes
  found there, most significant first, with no overflow in the intermediate 16-bit sums.
\<close>

theorem read_u32_be_big_endian:
  assumes "i + 4 \<le> length src"
  shows "map_option unat (read_u32_be src i) =
    Some (16777216 * unat (src ! i) + 65536 * unat (src ! (i + 1))
        + 256 * unat (src ! (i + 2)) + unat (src ! (i + 3)))"
  using assms
  by (simp add: read_u32_be_def read_u16_be_def unat_u32_join unat_u16_read numeral_3_eq_3)

theorem read_u32_be_big_endian_witness:
  "map_option unat (read_u32_be [7, 0xAA, 0xBB, 0xCC, 0xDD] 1) = Some 0xAABBCCDD"
proof -
  have "1 + 4 \<le> length [7, 0xAA, 0xBB, 0xCC, 0xDD :: byte]" by simp
  from read_u32_be_big_endian [OF this] show ?thesis by simp
qed

end
