(* ===== verification/Encoding.thy ===== *)
theory Encoding
  imports Prelude
begin

text \<open>
  \<open>cppevent_crypto/encoding.cpp\<close>: base64. The accumulator \<open>num\<close> is a \<open>uint64_t\<close>
  that is never cleared between groups, so stale bits travel through it and fall off its top;
  \<open>num_bits\<close> is a \<open>long\<close>. A shift by a negative amount or by 64 and more is undefined.
\<close>

type_synonym u64 = "64 word"

section \<open>The alphabet\<close>

definition base64_enc :: "byte \<Rightarrow> char outcome" where
  "base64_enc b =
     (let n = unat b in
      if n \<le> 25 then Done (char_of (65 + n))
      else if n \<le> 51 then Done (char_of (97 + n - 26))
      else if n \<le> 61 then Done (char_of (48 + n - 52))
      else if n = 62 then Done (CHR ''+'')
      else if n = 63 then Done (CHR ''/'')
      else Threw (Runtime_error ''base64 encode out of range''))"

definition base64_dec :: "char \<Rightarrow> byte outcome" where
  "base64_dec c =
     (let n = of_char c :: nat in
      if 65 \<le> n \<and> n \<le> 90 then Done (of_nat (n - 65))
      else if 97 \<le> n \<and> n \<le> 122 then Done (of_nat (n - 97 + 26))
      else if 48 \<le> n \<and> n \<le> 57 then Done (of_nat (n - 48 + 52))
      else if c = CHR ''+'' then Done 62
      else if c = CHR ''/'' then Done 63
      else Threw (Runtime_error ''unrecognized character base64''))"

section \<open>Bit extraction\<close>

primrec generate_mask :: "nat \<Rightarrow> u64" where
  "generate_mask 0 = 0"
| "generate_mask (Suc n) = push_bit 1 (generate_mask n) + 1"

definition get_msb :: "nat \<Rightarrow> u64 \<Rightarrow> int \<Rightarrow> u64 outcome" where
  "get_msb msb_bits num total_bits =
     (let shift = total_bits - int msb_bits in
      if 0 \<le> shift \<and> shift < 64
      then Done (drop_bit (nat shift) num AND generate_mask msb_bits) else Undefined)"

section \<open>Encoding and decoding\<close>

text \<open>The inner loops: emit sextets (octets) while bits are left.\<close>

function emit_sextets :: "u64 \<Rightarrow> int \<Rightarrow> string \<Rightarrow> (string \<times> int) outcome" where
  "emit_sextets num num_bits result =
     (if num_bits > 0
      then out_bind (get_msb 6 num num_bits) (\<lambda>m.
           out_bind (base64_enc (ucast m)) (\<lambda>c.
           emit_sextets num (num_bits - 6) (result @ [c])))
      else Done (result, num_bits))"
  by pat_completeness auto
termination by (relation "measure (\<lambda>(_, n, _). nat n)") auto

function emit_octets :: "u64 \<Rightarrow> int \<Rightarrow> byte list \<Rightarrow> (byte list \<times> int) outcome" where
  "emit_octets num num_bits result =
     (if num_bits > 0
      then out_bind (get_msb 8 num num_bits) (\<lambda>m.
           emit_octets num (num_bits - 8) (result @ [ucast m]))
      else Done (result, num_bits))"
  by pat_completeness auto
termination by (relation "measure (\<lambda>(_, n, _). nat n)") auto

declare emit_sextets.simps [simp del] emit_octets.simps [simp del]

fun encode_loop :: "byte list \<Rightarrow> u64 \<Rightarrow> int \<Rightarrow> string \<Rightarrow> (u64 \<times> int \<times> string) outcome" where
  "encode_loop [] num num_bits result = Done (num, num_bits, result)"
| "encode_loop (b # data) num num_bits result =
     (let num = push_bit 8 num + ucast b; num_bits = num_bits + 8 in
      if num_bits mod 6 \<noteq> 0 then encode_loop data num num_bits result
      else out_bind (emit_sextets num num_bits result) (\<lambda>(result, num_bits).
           encode_loop data num num_bits result))"

text \<open>After the main loop: pad the last group with zero bits, emit it, and append the padding signs.\<close>

definition encode_finish :: "(u64 \<times> int \<times> string) outcome \<Rightarrow> string outcome" where
  "encode_finish r =
     out_bind r (\<lambda>(num, num_bits, result).
     let padding_bits = (if num_bits = 8 then 4 else if num_bits = 16 then 2 else 0 :: nat) in
     out_bind (emit_sextets (push_bit padding_bits num) (num_bits + int padding_bits) result) (\<lambda>(result, _).
     Done (result @ replicate (padding_bits div 2) (CHR ''=''))))"

definition base64_encode :: "byte list \<Rightarrow> string outcome" where
  "base64_encode data = encode_finish (encode_loop data 0 0 [])"

text \<open>
  \<open>num_bits % OCTET\<close> truncates towards zero in C++, but only whether it is zero matters, and
  that is the same for the mathematical remainder.
\<close>

fun decode_loop :: "string \<Rightarrow> u64 \<Rightarrow> int \<Rightarrow> byte list \<Rightarrow> byte list outcome" where
  "decode_loop [] num num_bits result = Done result"
| "decode_loop (c # str) num num_bits result =
     out_bind (if c \<noteq> CHR ''=''
               then out_bind (base64_dec c) (\<lambda>v. Done (push_bit 6 num + ucast v, num_bits + 6))
               else Done (drop_bit 2 num, num_bits - 2)) (\<lambda>(num, num_bits).
     if num_bits mod 8 \<noteq> 0 then decode_loop str num num_bits result
     else out_bind (emit_octets num num_bits result) (\<lambda>(result, num_bits).
          decode_loop str num num_bits result))"

definition base64_decode :: "string \<Rightarrow> byte list outcome" where
  "base64_decode str = decode_loop str 0 0 []"

section \<open>Sextets and octets as bits\<close>

lemma generate_mask_eq: "generate_mask n = mask n"
proof -
  have "generate_mask n + 1 = 2 ^ n"
  proof (induction n)
    case (Suc n)
    have "generate_mask (Suc n) + 1 = 2 * (generate_mask n + 1)"
      by (simp add: push_bit_eq_mult algebra_simps)
    then show ?case by (simp only: Suc power_Suc)
  qed simp
  then show ?thesis by (simp add: mask_eq_exp_minus_1 eq_diff_eq)
qed

lemma bit_byte_less: "bit (b :: byte) n \<Longrightarrow> n < 8"
  using bit_imp_le_length [of b n] by simp

lemma get_msb_eq: "int m \<le> t \<Longrightarrow> t < 64 + int m \<Longrightarrow> get_msb m num t = Done (take_bit m (drop_bit (nat (t - int m)) num))"
  by (simp add: get_msb_def generate_mask_eq take_bit_eq_mask)

lemma push_add_byte: "push_bit 8 (num :: u64) + ucast (b :: byte) = push_bit 8 num OR ucast b"
  by (rule disjunctive_add) (auto simp: bit_simps dest: bit_byte_less)

lemma push_add_sextet:
  "(v :: byte) = take_bit 6 v \<Longrightarrow> push_bit 6 (num :: u64) + ucast v = push_bit 6 num OR ucast v"
  by (rule disjunctive_add) (metis bit_push_bit_iff bit_take_bit_iff bit_ucast_iff linorder_not_less)

text \<open>The sextets of a three-byte group, and of the one- and two-byte tails.\<close>

definition sextet :: "byte \<Rightarrow> byte \<Rightarrow> byte \<Rightarrow> nat \<Rightarrow> byte" where
  "sextet a b c i =
     (if i = 0 then drop_bit 2 a
      else if i = 1 then push_bit 4 (take_bit 2 a) OR drop_bit 4 b
      else if i = 2 then push_bit 2 (take_bit 4 b) OR drop_bit 6 c
      else take_bit 6 c)"

text \<open>The alphabet of RFC 4648 (table 1), written out; the pad character stands for what is not a sextet.\<close>

definition base64_table :: string where
  "base64_table = ''ABCDEFGHIJKLMNOPQRSTUVWXYZabcdefghijklmnopqrstuvwxyz0123456789+/''"

definition enc_char :: "byte \<Rightarrow> char" where
  "enc_char v = (if unat v < 64 then base64_table ! unat v else CHR ''='')"

definition group_chars :: "byte \<Rightarrow> byte \<Rightarrow> byte \<Rightarrow> string" where
  "group_chars a b c = map (\<lambda>i. enc_char (sextet a b c i)) [0, 1, 2, 3]"


lemma group_sextets:
  fixes num :: u64 and a b c :: byte
  defines "v \<equiv> push_bit 8 (push_bit 8 (push_bit 8 num OR ucast a) OR ucast b) OR ucast c"
  shows "(ucast (take_bit 6 (drop_bit 18 v)) :: byte) = sextet a b c 0"
    and "(ucast (take_bit 6 (drop_bit 12 v)) :: byte) = sextet a b c 1"
    and "(ucast (take_bit 6 (drop_bit 6 v)) :: byte) = sextet a b c 2"
    and "(ucast (take_bit 6 v) :: byte) = sextet a b c 3"
  by (rule bit_word_eqI, auto simp: v_def sextet_def bit_simps dest: bit_byte_less)+

lemma bit_byte_ge: "8 \<le> n \<Longrightarrow> \<not> bit (b :: byte) n"
  using bit_byte_less [of b n] by auto

lemma byte_eqI: "\<forall>n \<in> {0, 1, 2, 3, 4, 5, 6, 7}. bit (x :: byte) n = bit y n \<Longrightarrow> x = y"
proof (rule bit_word_eqI)
  fix n assume "\<forall>n \<in> {0, 1, 2, 3, 4, 5, 6, 7}. bit x n = bit y n" "n < LENGTH(8)"
  then show "bit x n = bit y n" by (auto simp: eval_nat_numeral less_Suc_eq)
qed

lemma group_octets:
  fixes num :: u64 and a b c :: byte
  defines "s \<equiv> sextet a b c"
  defines "v \<equiv> push_bit 6 (push_bit 6 (push_bit 6 (push_bit 6 num OR ucast (s 0)) OR ucast (s 1))
      OR ucast (s 2)) OR ucast (s 3)"
  shows "(ucast (take_bit 8 (drop_bit 16 v)) :: byte) = a"
    and "(ucast (take_bit 8 (drop_bit 8 v)) :: byte) = b"
    and "(ucast (take_bit 8 v) :: byte) = c"
  by (rule byte_eqI, simp add: v_def s_def sextet_def bit_simps bit_byte_ge,
      (simp add: eval_nat_numeral)?)+

lemma char_of_noteq: "k < 256 \<Longrightarrow> k \<noteq> of_char c \<Longrightarrow> char_of (k :: nat) \<noteq> c"
  by auto

text \<open>The two switches of the code are the table, both ways.\<close>

lemma base64_table_ok:
  "list_all (\<lambda>n. base64_enc (of_nat n) = Done (base64_table ! n) \<and> base64_dec (base64_table ! n) = Done (of_nat n)
     \<and> base64_table ! n \<noteq> CHR ''='') [0..<64]"
  by code_simp

lemma enc_char_ok:
  assumes "unat v < 64"
  shows "base64_enc v = Done (enc_char v)" "base64_dec (enc_char v) = Done v" "enc_char v \<noteq> CHR ''=''"
proof -
  have "unat v \<in> set [0..<64]" using assms by simp
  with base64_table_ok have "base64_enc (of_nat (unat v)) = Done (base64_table ! unat v)
      \<and> base64_dec (base64_table ! unat v) = Done (of_nat (unat v)) \<and> base64_table ! unat v \<noteq> CHR ''=''"
    unfolding list_all_iff by blast
  then show "base64_enc v = Done (enc_char v)" "base64_dec (enc_char v) = Done v" "enc_char v \<noteq> CHR ''=''"
    using assms by (simp_all add: enc_char_def)
qed

lemma unat_take_bit_6: "unat (take_bit 6 (v :: byte)) < 64"
  using take_bit_nat_less_exp [of 6 "unat v"] by (simp add: unsigned_take_bit_eq)

lemma sextet_low: "take_bit 6 (sextet a b c i) = sextet a b c i"
  by (rule byte_eqI) (simp add: sextet_def bit_simps bit_byte_ge)

lemma sextet_less: "unat (sextet a b c i) < 64"
  using unat_take_bit_6 [of "sextet a b c i"] by (simp add: sextet_low)

section \<open>One group at a time\<close>

lemma emit_sextets_step:
  assumes "6 \<le> n" "n < 70"
  shows "emit_sextets num n res =
    emit_sextets num (n - 6) (res @ [enc_char (ucast (take_bit 6 (drop_bit (nat (n - 6)) num)))])"
proof -
  have "(ucast (take_bit 6 (drop_bit (nat (n - 6)) num)) :: byte)
      = take_bit 6 (ucast (drop_bit (nat (n - 6)) num))"
    by (rule bit_word_eqI) (auto simp: bit_simps)
  then have "unat (ucast (take_bit 6 (drop_bit (nat (n - 6)) num)) :: byte) < 64"
    by (simp add: unat_take_bit_6)
  then show ?thesis
    using assms by (subst emit_sextets.simps) (simp add: get_msb_eq enc_char_ok)
qed

lemma emit_octets_step:
  assumes "8 \<le> n" "n < 72"
  shows "emit_octets num n res =
    emit_octets num (n - 8) (res @ [ucast (take_bit 8 (drop_bit (nat (n - 8)) num))])"
  using assms by (subst emit_octets.simps) (simp add: get_msb_eq)

lemma emit_sextets_0: "emit_sextets num 0 res = Done (res, 0)"
  by (simp add: emit_sextets.simps)

lemma emit_octets_0: "emit_octets num 0 res = Done (res, 0)"
  by (simp add: emit_octets.simps)

lemma emit_sextets_24:
  "emit_sextets v 24 res = Done (res @ [enc_char (ucast (take_bit 6 (drop_bit 18 v))),
     enc_char (ucast (take_bit 6 (drop_bit 12 v))), enc_char (ucast (take_bit 6 (drop_bit 6 v))),
     enc_char (ucast (take_bit 6 v))], 0)"
  by (simp add: emit_sextets_step emit_sextets_0)

lemma emit_sextets_18:
  "emit_sextets v 18 res = Done (res @ [enc_char (ucast (take_bit 6 (drop_bit 12 v))),
     enc_char (ucast (take_bit 6 (drop_bit 6 v))), enc_char (ucast (take_bit 6 v))], 0)"
  by (simp add: emit_sextets_step emit_sextets_0)

lemma emit_sextets_12:
  "emit_sextets v 12 res = Done (res @ [enc_char (ucast (take_bit 6 (drop_bit 6 v))),
     enc_char (ucast (take_bit 6 v))], 0)"
  by (simp add: emit_sextets_step emit_sextets_0)

lemma emit_octets_24:
  "emit_octets v 24 res = Done (res @ [ucast (take_bit 8 (drop_bit 16 v)),
     ucast (take_bit 8 (drop_bit 8 v)), ucast (take_bit 8 v)], 0)"
  by (simp add: emit_octets_step emit_octets_0)

lemma emit_octets_16:
  "emit_octets v 16 res = Done (res @ [ucast (take_bit 8 (drop_bit 8 v)), ucast (take_bit 8 v)], 0)"
  by (simp add: emit_octets_step emit_octets_0)

lemma emit_octets_8: "emit_octets v 8 res = Done (res @ [ucast (take_bit 8 v)], 0)"
  by (simp add: emit_octets_step emit_octets_0)

lemmas emit_all = emit_sextets_24 emit_sextets_18 emit_sextets_12 emit_octets_24 emit_octets_16 emit_octets_8

lemma encode_loop_group:
  "\<exists>num'. encode_loop (a # b # c # data) num 0 res = encode_loop data num' 0 (res @ group_chars a b c)"
proof -
  define v where "v = push_bit 8 (push_bit 8 (push_bit 8 num + ucast a) + ucast b) + ucast c"
  have "encode_loop (a # b # c # data) num 0 res
      = out_bind (emit_sextets v 24 res) (\<lambda>(result, num_bits). encode_loop data v num_bits result)"
    by (simp add: Let_def v_def)
  also have "\<dots> = encode_loop data v 0 (res @ group_chars a b c)"
    unfolding v_def push_add_byte by (simp only: emit_all group_sextets group_chars_def) simp
  finally show ?thesis by blast
qed

lemma base64_dec_sextet [simp]: "base64_dec (enc_char (sextet a b c i)) = Done (sextet a b c i)"
  by (simp add: enc_char_ok sextet_less)

lemma enc_char_sextet_noteq [simp]: "enc_char (sextet a b c i) \<noteq> CHR ''=''"
  by (simp add: enc_char_ok sextet_less)

lemma push_add_sextet': "push_bit 6 (num :: u64) + ucast (sextet a b c i) = push_bit 6 num OR ucast (sextet a b c i)"
  by (rule push_add_sextet) (simp add: sextet_low)

lemma decode_loop_group:
  "\<exists>num'. decode_loop (group_chars a b c @ str) num 0 res = decode_loop str num' 0 (res @ [a, b, c])"
proof -
  let ?s = "\<lambda>i. ucast (sextet a b c i) :: u64"
  define v where "v = push_bit 6 (push_bit 6 (push_bit 6 (push_bit 6 num + ?s 0) + ?s 1) + ?s 2) + ?s 3"
  have "decode_loop (group_chars a b c @ str) num 0 res
      = out_bind (emit_octets v 24 res) (\<lambda>(result, num_bits). decode_loop str v num_bits result)"
    by (simp add: Let_def v_def group_chars_def)
  also have "\<dots> = decode_loop str v 0 (res @ [a, b, c])"
    unfolding v_def push_add_sextet' by (simp only: emit_all group_octets) simp
  finally show ?thesis by blast
qed

section \<open>The reference encoding\<close>

text \<open>The textbook description, by groups of three bytes, and its agreement with the loop.\<close>

fun base64_ref :: "byte list \<Rightarrow> string" where
  "base64_ref [] = []"
| "base64_ref [a] = [enc_char (sextet a 0 0 0), enc_char (sextet a 0 0 1), CHR ''='', CHR ''='']"
| "base64_ref [a, b] = [enc_char (sextet a b 0 0), enc_char (sextet a b 0 1), enc_char (sextet a b 0 2), CHR ''='']"
| "base64_ref (a # b # c # data) = group_chars a b c @ base64_ref data"

lemma tail1_sextets:
  fixes num :: u64 and a :: byte
  defines "v \<equiv> push_bit 4 (push_bit 8 num OR ucast a)"
  shows "(ucast (take_bit 6 (drop_bit 6 v)) :: byte) = sextet a 0 0 0"
    and "(ucast (take_bit 6 v) :: byte) = sextet a 0 0 1"
  by (rule bit_word_eqI, auto simp: v_def sextet_def bit_simps dest: bit_byte_less)+

lemma tail2_sextets:
  fixes num :: u64 and a b :: byte
  defines "v \<equiv> push_bit 2 (push_bit 8 (push_bit 8 num OR ucast a) OR ucast b)"
  shows "(ucast (take_bit 6 (drop_bit 12 v)) :: byte) = sextet a b 0 0"
    and "(ucast (take_bit 6 (drop_bit 6 v)) :: byte) = sextet a b 0 1"
    and "(ucast (take_bit 6 v) :: byte) = sextet a b 0 2"
  by (rule bit_word_eqI, auto simp: v_def sextet_def bit_simps dest: bit_byte_less)+

lemma tail1_octets:
  fixes num :: u64 and a :: byte
  defines "v \<equiv> drop_bit 2 (drop_bit 2 (push_bit 6 (push_bit 6 num OR ucast (sextet a 0 0 0)) OR ucast (sextet a 0 0 1)))"
  shows "(ucast (take_bit 8 v) :: byte) = a"
  by (rule byte_eqI) (simp add: v_def sextet_def bit_simps bit_byte_ge, (simp add: eval_nat_numeral)?)

lemma tail2_octets:
  fixes num :: u64 and a b :: byte
  defines "v \<equiv> drop_bit 2 (push_bit 6 (push_bit 6 (push_bit 6 num OR ucast (sextet a b 0 0)) OR ucast (sextet a b 0 1))
      OR ucast (sextet a b 0 2))"
  shows "(ucast (take_bit 8 (drop_bit 8 v)) :: byte) = a"
    and "(ucast (take_bit 8 v) :: byte) = b"
  by (rule byte_eqI, simp add: v_def sextet_def bit_simps bit_byte_ge, (simp add: eval_nat_numeral)?)+

lemma replicate_2: "replicate 2 x = [x, x]"
  by (simp add: numeral_2_eq_2)

lemma encode_ref: "encode_finish (encode_loop data num 0 res) = Done (res @ base64_ref data)"
proof (induction data arbitrary: num res rule: base64_ref.induct)
  case 1
  show ?case by (simp add: encode_finish_def emit_sextets_0)
next
  case (2 a)
  have "encode_finish (encode_loop [a] num 0 res)
      = out_bind (emit_sextets (push_bit 4 (push_bit 8 num + ucast a)) 12 res)
          (\<lambda>(result, _). Done (result @ ''==''))"
    by (simp add: encode_finish_def Let_def replicate_2)
  then show ?case
    unfolding push_add_byte by (simp only: emit_all tail1_sextets) simp
next
  case (3 a b)
  have "encode_finish (encode_loop [a, b] num 0 res)
      = out_bind (emit_sextets (push_bit 2 (push_bit 8 (push_bit 8 num + ucast a) + ucast b)) 18 res)
          (\<lambda>(result, _). Done (result @ ''=''))"
    by (simp add: encode_finish_def Let_def)
  then show ?case
    unfolding push_add_byte by (simp only: emit_all tail2_sextets) simp
next
  case (4 a b c data)
  obtain num' where "encode_loop (a # b # c # data) num 0 res = encode_loop data num' 0 (res @ group_chars a b c)"
    using encode_loop_group by blast
  with "4.IH" show ?case by simp
qed

lemma base64_encode_ref: "base64_encode data = Done (base64_ref data)"
  using encode_ref [of data 0 "[]"] by (simp add: base64_encode_def)

lemma decode_ref: "decode_loop (base64_ref data) num 0 res = Done (res @ data)"
proof (induction data arbitrary: num res rule: base64_ref.induct)
  case 1
  show ?case by simp
next
  case (2 a)
  let ?v = "drop_bit 2 (drop_bit 2 (push_bit 6 (push_bit 6 num + ucast (sextet a 0 0 0)) + ucast (sextet a 0 0 1)))"
  have "decode_loop (base64_ref [a]) num 0 res
      = out_bind (emit_octets ?v 8 res) (\<lambda>(result, _). Done result)"
    by (simp add: Let_def)
  then show ?case
    unfolding push_add_sextet' by (simp only: emit_all tail1_octets) simp
next
  case (3 a b)
  let ?v = "drop_bit 2 (push_bit 6 (push_bit 6 (push_bit 6 num + ucast (sextet a b 0 0)) + ucast (sextet a b 0 1))
      + ucast (sextet a b 0 2))"
  have "decode_loop (base64_ref [a, b]) num 0 res
      = out_bind (emit_octets ?v 16 res) (\<lambda>(result, _). Done result)"
    by (simp add: Let_def)
  then show ?case
    unfolding push_add_sextet' by (simp only: emit_all tail2_octets) simp
next
  case (4 a b c data)
  obtain num' where "decode_loop (group_chars a b c @ base64_ref data) num 0 res
      = decode_loop (base64_ref data) num' 0 (res @ [a, b, c])"
    using decode_loop_group by blast
  with "4.IH" show ?case by simp
qed

lemma base64_decode_ref: "base64_decode (base64_ref data) = Done data"
  using decode_ref [of data 0 "[]"] by (simp add: base64_decode_def)

definition base64_decode_opt :: "string outcome \<Rightarrow> byte list option" where
  "base64_decode_opt r = (case out_bind r base64_decode of Done d \<Rightarrow> Some d | _ \<Rightarrow> None)"

interpretation b64: codec base64_encode base64_decode_opt "\<lambda>_. True"
  by unfold_locales (simp add: base64_decode_opt_def base64_encode_ref base64_decode_ref)

lemma length_base64_ref: "length (base64_ref data) = 4 * ((length data + 2) div 3)"
proof (induction data rule: base64_ref.induct)
  case (4 a b c data)
  have "(length data + 5) div 3 = (length data + 2) div 3 + 1" by presburger
  with 4 show ?case by (simp add: group_chars_def add.commute)
qed simp_all

lemma enc_char_table: "enc_char (sextet a b c i) \<in> set base64_table"
proof -
  have "length base64_table = 64" by (simp add: base64_table_def)
  then show ?thesis using sextet_less [of a b c i] by (simp add: enc_char_def)
qed

lemma set_base64_ref: "set (base64_ref data) \<subseteq> insert (CHR ''='') (set base64_table)"
  by (induction data rule: base64_ref.induct) (auto simp: group_chars_def enc_char_table)

section \<open>Decoding arbitrary input\<close>

text \<open>
  The bit count over any input: even, never above 24, and at a multiple of 8 only when not
  positive (otherwise the octets have just been emitted). A leading padding sign makes it negative.
\<close>

definition bits_ok :: "int \<Rightarrow> bool" where
  "bits_ok n \<longleftrightarrow> even n \<and> (if n mod 8 = 0 then n \<le> 0 else n + 3 * (n mod 8) \<le> 24)"

lemma bits_ok_step:
  assumes "bits_ok n" "m = n + 6 \<or> m = n - 2"
  shows "if m mod 8 \<noteq> 0 then bits_ok m else m = 8 \<or> m = 16 \<or> m = 24 \<or> m \<le> 0"
proof -
  define q where "q = n div 8"
  have "even n" using assms(1) by (simp add: bits_ok_def)
  then have "n mod 8 = 0 \<or> n mod 8 = 2 \<or> n mod 8 = 4 \<or> n mod 8 = 6" by presburger
  moreover have "n = 8 * q + n mod 8" by (simp add: q_def)
  moreover have "(n + 6) mod 8 = (n mod 8 + 6) mod 8" "(n - 2) mod 8 = (n mod 8 - 2) mod 8"
    by (simp_all add: mod_simps)
  ultimately show ?thesis
    using assms unfolding bits_ok_def by (elim disjE) (simp_all, presburger+)
qed

lemma bits_ok_nonpos: "m mod 8 = 0 \<Longrightarrow> m \<le> 0 \<Longrightarrow> bits_ok m"
  unfolding bits_ok_def by simp presburger

lemma emit_octets_total:
  assumes "m = 8 \<or> m = 16 \<or> m = 24 \<or> m \<le> 0" "m mod 8 = 0"
  obtains res' n' where "emit_octets num m res = Done (res', n')" "bits_ok n'"
proof (cases "m \<le> 0")
  case True
  then have "emit_octets num m res = Done (res, m)" by (simp add: emit_octets.simps)
  moreover have "bits_ok m" using True assms(2) by (intro bits_ok_nonpos)
  ultimately show thesis by (rule that)
next
  case False
  then have "m = 8 \<or> m = 16 \<or> m = 24" using assms(1) by simp
  then obtain r where "emit_octets num m res = Done (r, 0)"
    by (auto simp: emit_octets_24 emit_octets_16 emit_octets_8)
  then show thesis using that by (simp add: bits_ok_def)
qed

definition base64_valid :: "char \<Rightarrow> bool" where
  "base64_valid c \<longleftrightarrow> c = CHR ''='' \<or> (case base64_dec c of Done _ \<Rightarrow> True | _ \<Rightarrow> False)"

lemma base64_dec_outcome: "base64_dec c \<noteq> Undefined" "base64_dec c \<noteq> Suspended"
  by (simp_all add: base64_dec_def Let_def)

lemma decode_loop_total:
  "bits_ok n \<Longrightarrow> if list_all base64_valid str then (\<exists>bs. decode_loop str num n res = Done bs)
    else (\<exists>e. decode_loop str num n res = Threw e)"
proof (induction str arbitrary: num n res)
  case Nil
  then show ?case by simp
next
  case (Cons c str)
  define next_bits where
    "next_bits = (if c \<noteq> CHR ''='' then out_bind (base64_dec c) (\<lambda>v. Done (push_bit 6 num + ucast v, n + 6))
       else Done (drop_bit 2 num, n - 2))"
  show ?case
  proof (cases "base64_valid c")
    case False
    then obtain e where "next_bits = Threw e"
      using base64_dec_outcome [of c]
      by (cases "base64_dec c") (auto simp: base64_valid_def next_bits_def)
    then show ?thesis using False by (simp flip: next_bits_def)
  next
    case True
    then have "\<exists>num' m. next_bits = Done (num', m) \<and> (m = n + 6 \<or> m = n - 2)"
      by (cases "base64_dec c") (auto simp: base64_valid_def next_bits_def)
    then obtain num' m where nb: "next_bits = Done (num', m)" "m = n + 6 \<or> m = n - 2" by blast
    note step = bits_ok_step [OF Cons.prems nb(2)]
    show ?thesis
    proof (cases "m mod 8 = 0")
      case True
      then obtain res' n' where "emit_octets num' m res = Done (res', n')" "bits_ok n'"
        using step emit_octets_total [of m num' res] by auto
      then show ?thesis using Cons.IH [of n' num' res'] \<open>base64_valid c\<close> True nb(1)
        by (simp flip: next_bits_def)
    next
      case False
      then show ?thesis using Cons.IH [of m num' res] step \<open>base64_valid c\<close> nb(1)
        by (simp flip: next_bits_def)
    qed
  qed
qed

section \<open>Properties\<close>

text \<open>
  C37: base64 round trip. Encoding any byte string succeeds and decoding the result gives the bytes
  back, although the 64-bit accumulator is never cleared between groups.
\<close>

theorem base64_roundtrip: "out_bind (base64_encode data) base64_decode = Done data"
  by (simp add: base64_encode_ref base64_decode_ref)

text \<open>
  C40: the loop of \<open>base64_encode\<close> computes the encoding of RFC 4648 by groups of three bytes, with the alphabet
  of its first table, written out here, and its padding: it never throws or shifts out of range, its output has four characters per
  started group, all of them in the alphabet or padding signs. The test vectors of its section 10 come out as printed there.
\<close>

theorem base64_encode_reference:
  "base64_encode data = Done (base64_ref data) \<and> length (base64_ref data) = 4 * ((length data + 2) div 3)
    \<and> set (base64_ref data) \<subseteq> insert (CHR ''='') (set base64_table)
    \<and> map (base64_encode \<circ> bytes) [[], ''f'', ''fo'', ''foo'', ''foob'', ''fooba'', ''foobar'']
      = map Done [[], ''Zg=='', ''Zm8='', ''Zm9v'', ''Zm9vYg=='', ''Zm9vYmE='', ''Zm9vYmFy'']"
proof -
  have "map (base64_ref \<circ> bytes) [[], ''f'', ''fo'', ''foo'', ''foob'', ''fooba'', ''foobar'']
      = [[], ''Zg=='', ''Zm8='', ''Zm9v'', ''Zm9vYg=='', ''Zm9vYmE='', ''Zm9vYmFy'']"
    by code_simp
  then show ?thesis by (simp add: base64_encode_ref length_base64_ref set_base64_ref)
qed

text \<open>
  decoding is defined on every input, padding signs in any place included: it returns when every
  character is a padding sign or in the alphabet, throws otherwise, and never shifts out of range.
\<close>

theorem base64_decode_total:
  "if list_all base64_valid str then (\<exists>bs. base64_decode str = Done bs)
   else (\<exists>e. base64_decode str = Threw e)"
  using decode_loop_total [of 0 str 0 "[]"] by (simp add: base64_decode_def bits_ok_def)

text \<open>different byte strings have different encodings, so comparing encodings compares the bytes.\<close>

theorem base64_encode_injective: "base64_encode x = base64_encode y \<longleftrightarrow> x = y"
  by (simp add: b64.enc_inject)

end
