(* ===== verification/Events.thy ===== *)
theory Events
  imports Prelude "HOL-Library.AList"
begin

text \<open>
  \<open>cppevent_base\<close>: callbacks with an id, the bus that finds them, the awaiter behind every \<open>co_await\<close> on
  a completion, and the loop that dispatches events. A coroutine handle is a number; resuming a handle
  runs code of a client, so \<open>notify\<close> returns the handle to resume (\<open>None\<close> for the no-op
  coroutine) and the loop takes what resuming does as an argument. A callback is referred to by a number too.
\<close>

section \<open>Identifiers and events\<close>

type_synonym e_id = "64 word"
type_synonym e_status = int
type_synonym handle = nat

record e_event =
  ev_id :: e_id
  ev_status :: e_status

section \<open>Suspended coroutine\<close>

record suspended_coro =
  m_handle :: "handle option"
  m_stored :: bool

definition new_suspended_coro :: suspended_coro where
  "new_suspended_coro = \<lparr>m_handle = None, m_stored = False\<rparr>"

definition has_handle :: "suspended_coro \<Rightarrow> bool" where
  "has_handle c = m_stored c"

definition store_handle :: "handle \<Rightarrow> suspended_coro \<Rightarrow> suspended_coro" where
  "store_handle h c = c\<lparr>m_handle := Some h, m_stored := True\<rparr>"

definition coro_reset :: "suspended_coro \<Rightarrow> suspended_coro" where
  "coro_reset c = c\<lparr>m_handle := None, m_stored := False\<rparr>"

definition retrieve_handle :: "suspended_coro \<Rightarrow> handle option \<times> suspended_coro" where
  "retrieve_handle c = (let retrieved = m_handle c in (retrieved, coro_reset c))"

section \<open>Event callback\<close>

record event_callback =
  m_id :: e_id
  m_status_opt :: "e_status option"
  m_suspended :: suspended_coro

definition new_event_callback :: "e_id \<Rightarrow> event_callback" where
  "new_event_callback i = \<lparr>m_id = i, m_status_opt = None, m_suspended = new_suspended_coro\<rparr>"

definition get_id :: "event_callback \<Rightarrow> e_id" where
  [simp]: "get_id cb = m_id cb"

definition set_handle :: "handle \<Rightarrow> (event_callback, unit) comp" where
  "set_handle h cb =
     (if has_handle (m_suspended cb)
      then (Threw (Runtime_error ''event_callback set_handle: handle already set''), cb)
      else (Done (), cb\<lparr>m_suspended := store_handle h (m_suspended cb)\<rparr>))"

definition cb_notify :: "e_status \<Rightarrow> event_callback \<Rightarrow> handle option \<times> event_callback" where
  "cb_notify status cb =
     (case retrieve_handle (m_suspended cb) of
        (h, c) \<Rightarrow> (h, cb\<lparr>m_status_opt := Some status, m_suspended := c\<rparr>))"

definition has_status :: "event_callback \<Rightarrow> bool" where
  "has_status cb \<longleftrightarrow> m_status_opt cb \<noteq> None"

text \<open>\<open>std::optional::value\<close> throws when there is none.\<close>

definition get_status :: "event_callback \<Rightarrow> e_status outcome" where
  "get_status cb = (case m_status_opt cb of None \<Rightarrow> Threw (Runtime_error ''bad optional access'') | Some s \<Rightarrow> Done s)"

definition cb_reset :: "event_callback \<Rightarrow> event_callback" where
  "cb_reset cb = cb\<lparr>m_suspended := coro_reset (m_suspended cb), m_status_opt := None\<rparr>"

section \<open>Status awaiter\<close>

text \<open>
  The awaiter refers to its callback until it has been resumed; \<open>None\<close> is the null pointer it has
  after a move or a resumption.
\<close>

type_synonym status_awaiter = "event_callback option"

definition await_status :: "event_callback \<Rightarrow> status_awaiter" where
  "await_status cb = Some cb"

definition await_ready :: "status_awaiter \<Rightarrow> bool" where
  "await_ready w = (case w of Some cb \<Rightarrow> has_status cb | None \<Rightarrow> True)"

definition await_suspend :: "handle \<Rightarrow> (status_awaiter, unit) comp" where
  "await_suspend h w =
     (case w of
        None \<Rightarrow> (Undefined, w)
      | Some cb \<Rightarrow> (case set_handle h cb of (r, cb') \<Rightarrow> (r, Some cb')))"

text \<open>The result, and the callback as it leaves it.\<close>

definition await_resume :: "status_awaiter \<Rightarrow> e_status outcome \<times> event_callback option" where
  "await_resume w =
     (case w of
        None \<Rightarrow> (Done 0, None)
      | Some cb \<Rightarrow> (case get_status cb of
            Done s \<Rightarrow> (Done s, Some (cb_reset cb))
          | Threw e \<Rightarrow> (Threw e, Some cb)
          | Suspended \<Rightarrow> (Suspended, Some cb)
          | Undefined \<Rightarrow> (Undefined, Some cb)))"

text \<open>Destruction of an awaiter that is not null: the coroutine that was waiting is gone.\<close>

definition awaiter_destroyed :: "status_awaiter \<Rightarrow> event_callback option" where
  "awaiter_destroyed w = map_option cb_reset w"

text \<open>The move constructor, and the assignment, which does not reset the callback that the target had.\<close>

definition awaiter_move :: "status_awaiter \<Rightarrow> status_awaiter \<times> status_awaiter" where
  "awaiter_move other = (other, None)"

definition awaiter_assign :: "status_awaiter \<Rightarrow> status_awaiter \<Rightarrow> status_awaiter \<times> status_awaiter" where
  "awaiter_assign this other = (other, None)"

text \<open>
  \<open>co_await callback.await_status()\<close> by the coroutine \<open>h\<close>: at once, or suspended. The awaiter is a temporary of the expression; it
  lives on in a suspended coroutine, and when \<open>await_suspend\<close> throws it is destroyed with its callback still set, which resets the callback.
\<close>

definition callback_of :: "event_callback \<Rightarrow> event_callback option \<Rightarrow> event_callback" where
  "callback_of cb w = (case w of None \<Rightarrow> cb | Some cb' \<Rightarrow> cb')"

definition co_await :: "handle \<Rightarrow> (event_callback, e_status) comp" where
  "co_await h cb =
     (let w = await_status cb in
      if await_ready w
      then (case await_resume w of
              (Threw e, w') \<Rightarrow> (Threw e, callback_of cb (awaiter_destroyed w'))
            | (r, w') \<Rightarrow> (r, callback_of cb w'))
      else (case await_suspend h w of
              (Done _, w') \<Rightarrow> (Suspended, callback_of cb w')
            | (Threw e, w') \<Rightarrow> (Threw e, callback_of cb (awaiter_destroyed w'))
            | (Suspended, w') \<Rightarrow> (Suspended, callback_of cb w')
            | (Undefined, w') \<Rightarrow> (Undefined, callback_of cb w')))"

text \<open>What a resumed coroutine does first, with the awaiter in its frame.\<close>

definition resumed :: "(event_callback, e_status) comp" where
  "resumed cb =
     (case await_resume (Some cb) of
        (Threw e, w') \<Rightarrow> (Threw e, callback_of cb (awaiter_destroyed w'))
      | (r, w') \<Rightarrow> (r, callback_of cb w'))"

lemma co_await_eq:
  "co_await h cb = (case m_status_opt cb of
     Some s \<Rightarrow> (Done s, cb_reset cb)
   | None \<Rightarrow> if m_stored (m_suspended cb)
             then (Threw (Runtime_error ''event_callback set_handle: handle already set''), cb_reset cb)
             else (Suspended, cb\<lparr>m_suspended := store_handle h (m_suspended cb)\<rparr>))"
  by (simp add: co_await_def callback_of_def await_status_def await_ready_def has_status_def await_resume_def get_status_def
      await_suspend_def set_handle_def has_handle_def awaiter_destroyed_def Let_def split: option.split)

lemma resumed_eq:
  "resumed cb = (case m_status_opt cb of
     Some s \<Rightarrow> (Done s, cb_reset cb)
   | None \<Rightarrow> (Threw (Runtime_error ''bad optional access''), cb_reset cb))"
  by (simp add: resumed_def callback_of_def await_resume_def get_status_def awaiter_destroyed_def split: option.split)

lemma cb_notify_eq:
  "cb_notify s cb = (m_handle (m_suspended cb), cb\<lparr>m_status_opt := Some s, m_suspended := coro_reset (m_suspended cb)\<rparr>)"
  by (simp add: cb_notify_def retrieve_handle_def)

lemma cb_reset_simps [simp]:
  "m_id (cb_reset cb) = m_id cb" "m_status_opt (cb_reset cb) = None"
  "m_handle (m_suspended (cb_reset cb)) = None" "m_stored (m_suspended (cb_reset cb)) = False"
  by (simp_all add: cb_reset_def coro_reset_def)

lemma store_handle_simps [simp]: "m_handle (store_handle h c) = Some h" "m_stored (store_handle h c)"
  by (simp_all add: store_handle_def)

lemma coro_reset_simps [simp]: "m_handle (coro_reset c) = None" "m_stored (coro_reset c) = False"
  by (simp_all add: coro_reset_def)

text \<open>A callback at rest, and one with a coroutine waiting on it.\<close>

definition idle :: "event_callback \<Rightarrow> bool" where
  "idle cb \<longleftrightarrow> m_handle (m_suspended cb) = None \<and> \<not> m_stored (m_suspended cb)"

definition waiting :: "handle \<Rightarrow> event_callback \<Rightarrow> bool" where
  "waiting h cb \<longleftrightarrow> m_handle (m_suspended cb) = Some h \<and> m_stored (m_suspended cb) \<and> m_status_opt cb = None"

lemma cb_reset_idle: "idle cb \<Longrightarrow> m_status_opt cb = None \<Longrightarrow> cb_reset cb = cb"
  by (cases cb; cases "m_suspended cb") (simp add: cb_reset_def coro_reset_def idle_def)

section \<open>Event bus\<close>

record event_bus =
  m_id_counter :: e_id
  m_callbacks :: "(e_id \<times> nat) list"

definition new_event_bus :: event_bus where
  "new_event_bus = \<lparr>m_id_counter = 0, m_callbacks = []\<rparr>"

definition register_event_callback :: "nat \<Rightarrow> event_bus \<Rightarrow> e_id \<times> event_bus" where
  "register_event_callback callback bus =
     (let i = m_id_counter bus + 1 in
      (i, bus\<lparr>m_id_counter := i, m_callbacks := AList.update i callback (m_callbacks bus)\<rparr>))"

definition deregister_event_callback :: "e_id \<Rightarrow> event_bus \<Rightarrow> event_bus" where
  "deregister_event_callback i bus = bus\<lparr>m_callbacks := AList.delete i (m_callbacks bus)\<rparr>"

text \<open>The callback that an event with this id is delivered to, if any.\<close>

definition bus_find :: "e_id \<Rightarrow> event_bus \<Rightarrow> nat option" where
  "bus_find i bus = map_of (m_callbacks bus) i"

datatype bus_op = Register nat | Deregister e_id

text \<open>A history of the bus: the ids given out, with their callbacks, and those taken back.\<close>

fun bus_run :: "bus_op list \<Rightarrow> event_bus \<Rightarrow> (e_id \<times> nat) list \<times> event_bus" where
  "bus_run [] bus = ([], bus)"
| "bus_run (Register c # ops) bus =
     (case register_event_callback c bus of
        (i, bus) \<Rightarrow> (case bus_run ops bus of (ids, bus) \<Rightarrow> ((i, c) # ids, bus)))"
| "bus_run (Deregister i # ops) bus = bus_run ops (deregister_event_callback i bus)"

definition registrations :: "bus_op list \<Rightarrow> nat" where
  "registrations ops = length (filter (\<lambda>opn. case opn of Register _ \<Rightarrow> True | Deregister _ \<Rightarrow> False) ops)"

definition bus_wf :: "event_bus \<Rightarrow> bool" where
  "bus_wf bus \<longleftrightarrow> (\<forall>i c. bus_find i bus = Some c \<longrightarrow> 0 < unat i \<and> unat i \<le> unat (m_id_counter bus))"

lemma bus_wf_new [simp, wf_intros]: "bus_wf new_event_bus"
  by (simp add: bus_wf_def new_event_bus_def bus_find_def)

lemma counter_Suc:
  "unat (m_id_counter bus) + 1 < 2 ^ 64 \<Longrightarrow> unat (m_id_counter bus + 1) = unat (m_id_counter bus) + 1"
  by (simp add: unat_word_ariths)

lemma register_fresh:
  assumes "bus_wf bus" "unat (m_id_counter bus) + 1 < 2 ^ 64" "register_event_callback c bus = (i, bus')"
  shows "bus_find i bus = None" "bus_wf bus'" "unat i = unat (m_id_counter bus) + 1"
    "m_id_counter bus' = i" "bus_find j bus' = (if j = i then Some c else bus_find j bus)"
proof -
  have i: "i = m_id_counter bus + 1" "m_id_counter bus' = i"
    "m_callbacks bus' = AList.update i c (m_callbacks bus)"
    using assms(3) by (auto simp: register_event_callback_def Let_def)
  show u: "unat i = unat (m_id_counter bus) + 1" using counter_Suc [OF assms(2)] i(1) by simp
  show "m_id_counter bus' = i" by (rule i(2))
  have f: "bus_find j bus' = (if j = i then Some c else bus_find j bus)" for j
    by (simp add: bus_find_def i(3) update_conv')
  show "bus_find j bus' = (if j = i then Some c else bus_find j bus)" by (rule f)
  show "bus_find i bus = None"
  proof (rule ccontr)
    assume "bus_find i bus \<noteq> None"
    then have "unat i \<le> unat (m_id_counter bus)" using assms(1) by (auto simp: bus_wf_def)
    with u show False by simp
  qed
  show "bus_wf bus'"
    using assms(1) u by (auto simp: bus_wf_def f i(2) split: if_splits intro: le_SucI)
qed

lemma deregister_find: "bus_find j (deregister_event_callback i bus) = (if j = i then None else bus_find j bus)"
  by (simp add: bus_find_def deregister_event_callback_def delete_conv')

lemma deregister_wf [wf_intros]: "bus_wf bus \<Longrightarrow> bus_wf (deregister_event_callback i bus)"
  by (simp add: bus_wf_def deregister_find) (simp add: deregister_event_callback_def)

lemma bus_run_ids:
  assumes "bus_wf bus" "unat (m_id_counter bus) + registrations ops < 2 ^ 64" "bus_run ops bus = (ids, bus')"
  shows "bus_wf bus' \<and> distinct (map fst ids) \<and> unat (m_id_counter bus') = unat (m_id_counter bus) + length ids
    \<and> (\<forall>i \<in> fst ` set ids. unat (m_id_counter bus) < unat i \<and> bus_find i bus = None)
    \<and> (\<forall>i c. bus_find i bus' = Some c \<longrightarrow> (i, c) \<in> set ids \<or> bus_find i bus = Some c)
    \<and> length ids = registrations ops"
  using assms
proof (induction ops arbitrary: bus ids)
  case Nil
  then show ?case by (simp add: registrations_def)
next
  case (Cons opn ops)
  show ?case
  proof (cases opn)
    case (Register c)
    obtain i bus1 where r: "register_event_callback c bus = (i, bus1)" by fastforce
    obtain ids1 where run: "bus_run ops bus1 = (ids1, bus')" "ids = (i, c) # ids1"
      using Cons.prems(3) Register r by (auto split: prod.splits)
    have n: "unat (m_id_counter bus) + 1 + registrations ops < 2 ^ 64"
      using Cons.prems(2) Register by (simp add: registrations_def)
    then have lt: "unat (m_id_counter bus) + 1 < 2 ^ 64" by simp
    note f = register_fresh [OF Cons.prems(1) lt r]
    have IH: "bus_wf bus'" "distinct (map fst ids1)" "unat (m_id_counter bus') = unat i + length ids1"
      "\<forall>j \<in> fst ` set ids1. unat i < unat j \<and> bus_find j bus1 = None"
      "\<forall>j d. bus_find j bus' = Some d \<longrightarrow> (j, d) \<in> set ids1 \<or> bus_find j bus1 = Some d"
      "length ids1 = registrations ops"
      using Cons.IH [OF f(2) _ run(1)] n f(3,4) by simp_all
    have "i \<notin> fst ` set ids1" using IH(4) by auto
    moreover have "\<forall>j \<in> fst ` set ids1. bus_find j bus = None"
      using IH(4) f(5) by (metis option.distinct(1))
    ultimately show ?thesis
      using IH f(1,3,5) run(2) Register by (auto simp: registrations_def split: if_splits)
  next
    case (Deregister i)
    have run: "bus_run ops (deregister_event_callback i bus) = (ids, bus')"
      using Cons.prems(3) Deregister by simp
    have c: "m_id_counter (deregister_event_callback i bus) = m_id_counter bus"
      by (simp add: deregister_event_callback_def)
    have bound: "unat (m_id_counter (deregister_event_callback i bus)) + registrations ops < 2 ^ 64"
      using Cons.prems(2) Deregister by (simp add: c registrations_def)
    have fresh: "bus_find j bus = None" if "unat (m_id_counter bus) < unat j" for j
    proof (rule ccontr)
      assume "bus_find j bus \<noteq> None"
      then have "unat j \<le> unat (m_id_counter bus)" using Cons.prems(1) by (auto simp: bus_wf_def)
      with that show False by simp
    qed
    show ?thesis
      using Cons.IH [OF deregister_wf [OF Cons.prems(1)] bound run] Deregister fresh
      by (auto simp: c registrations_def deregister_find split: if_splits)
  qed
qed

lemma bus_delivery:
  assumes "bus_wf bus" "unat (m_id_counter bus) + 1 + registrations ops < 2 ^ 64"
    "register_event_callback c bus = (i, bus1)" "bus_run ops (deregister_event_callback i bus1) = (ids, bus')"
  shows "bus_find i bus' = None" "i \<notin> fst ` set ids"
proof -
  have lt: "unat (m_id_counter bus) + 1 < 2 ^ 64" using assms(2) by simp
  note f = register_fresh [OF assms(1) lt assms(3)]
  have d: "m_id_counter (deregister_event_callback i bus1) = i"
    using f(4) by (simp add: deregister_event_callback_def)
  have "unat (m_id_counter (deregister_event_callback i bus1)) + registrations ops < 2 ^ 64"
    using assms(2) f(3) d by simp
  note r = bus_run_ids [OF deregister_wf [OF f(2)] this assms(4)]
  from r show n: "i \<notin> fst ` set ids" unfolding d by auto
  show "bus_find i bus' = None"
  proof (cases "bus_find i bus'")
    case (Some x)
    then have "(i, x) \<in> set ids \<or> bus_find i (deregister_event_callback i bus1) = Some x" using r by blast
    then show ?thesis using n by (auto simp: deregister_find image_iff)
  qed
qed

section \<open>Event loop\<close>

text \<open>
  The loop is extended by the state of what runs on it. \<open>notify\<close> delivers an event, and runs what it
  resumes; \<open>poll\<close> waits for a completion of the kernel (\<open>None\<close>: it does not return).
\<close>

record event_loop =
  m_running :: bool
  m_events :: "e_event list"
  m_event_bus :: event_bus

definition add_event :: "e_event \<Rightarrow> 'z event_loop_scheme \<Rightarrow> 'z event_loop_scheme" where
  "add_event ev l = l\<lparr>m_events := m_events l @ [ev]\<rparr>"

definition loop_stop :: "'z event_loop_scheme \<Rightarrow> 'z event_loop_scheme" where
  "loop_stop l = l\<lparr>m_running := False\<rparr>"

definition run_turn :: "(e_event \<Rightarrow> 'z event_loop_scheme \<Rightarrow> 'z event_loop_scheme)
    \<Rightarrow> ('z event_loop_scheme \<Rightarrow> (e_event \<times> 'z event_loop_scheme) option)
    \<Rightarrow> 'z event_loop_scheme \<Rightarrow> 'z event_loop_scheme option" where
  "run_turn notify poll l =
     (case m_events l of
        event # events \<Rightarrow> Some (notify event (l\<lparr>m_events := events\<rparr>))
      | [] \<Rightarrow> (case poll l of None \<Rightarrow> None | Some (ev, l') \<Rightarrow> Some (add_event ev l')))"

text \<open>\<open>None\<close>: still running after \<open>fuel\<close> turns, or blocked in \<open>poll\<close>.\<close>

fun loop_run :: "nat \<Rightarrow> (e_event \<Rightarrow> 'z event_loop_scheme \<Rightarrow> 'z event_loop_scheme)
    \<Rightarrow> ('z event_loop_scheme \<Rightarrow> (e_event \<times> 'z event_loop_scheme) option)
    \<Rightarrow> 'z event_loop_scheme \<Rightarrow> 'z event_loop_scheme option" where
  "loop_run 0 notify poll l = None"
| "loop_run (Suc fuel) notify poll l =
     (if m_running l
      then (case run_turn notify poll l of None \<Rightarrow> None | Some l' \<Rightarrow> loop_run fuel notify poll l')
      else Some l)"

text \<open>Events are delivered in the order they were added.\<close>

fun dispatch_all :: "(e_event \<Rightarrow> 'z event_loop_scheme \<Rightarrow> 'z event_loop_scheme)
    \<Rightarrow> ('z event_loop_scheme \<Rightarrow> (e_event \<times> 'z event_loop_scheme) option)
    \<Rightarrow> nat \<Rightarrow> 'z event_loop_scheme \<Rightarrow> 'z event_loop_scheme option" where
  "dispatch_all notify poll 0 l = Some l"
| "dispatch_all notify poll (Suc n) l =
     (case run_turn notify poll l of None \<Rightarrow> None | Some l' \<Rightarrow> dispatch_all notify poll n l')"

section \<open>Properties\<close>

text \<open>
  C29: ids are never given out twice and stale events are dropped: after a callback has been taken back, no
  event with its id is delivered to anyone, whatever is registered later, as long as fewer than \<open>2^64\<close>
  callbacks are registered; the ids of a history are distinct and each is delivered to its own callback.
\<close>

theorem event_bus_ids_never_reused:
  assumes "bus_wf bus" "unat (m_id_counter bus) + 1 + registrations ops < 2 ^ 64"
    "register_event_callback c bus = (i, bus1)"
  shows "bus_find i bus1 = Some c
    \<and> (case bus_run ops (deregister_event_callback i bus1) of
         (ids, bus') \<Rightarrow> bus_find i bus' = None \<and> distinct (i # map fst ids)
           \<and> (\<forall>j d. bus_find j bus' = Some d \<longrightarrow> (j, d) \<in> set ids \<or> bus_find j bus = Some d))"
proof -
  obtain ids bus' where run: "bus_run ops (deregister_event_callback i bus1) = (ids, bus')" by fastforce
  have lt: "unat (m_id_counter bus) + 1 < 2 ^ 64" using assms(2) by simp
  note f = register_fresh [OF assms(1) lt assms(3)]
  have d: "m_id_counter (deregister_event_callback i bus1) = i"
    using f(4) by (simp add: deregister_event_callback_def)
  have "unat (m_id_counter (deregister_event_callback i bus1)) + registrations ops < 2 ^ 64"
    using assms(2) f(3) d by simp
  note r = bus_run_ids [OF deregister_wf [OF f(2)] this run]
  then have "\<forall>j d. bus_find j bus' = Some d \<longrightarrow> (j, d) \<in> set ids \<or> bus_find j bus = Some d"
    by (metis deregister_find f(5) option.distinct(1))
  then show ?thesis
    using bus_delivery [OF assms run] r f(5) run by simp
qed

theorem event_bus_ids_never_reused_witness:
  "bus_find 1 (snd (bus_run [Register 8] (deregister_event_callback 1 (snd (register_event_callback 7 new_event_bus))))) = None"
proof -
  have "register_event_callback 7 new_event_bus = (1, snd (register_event_callback 7 new_event_bus))"
    by (simp add: register_event_callback_def new_event_bus_def Let_def)
  from event_bus_ids_never_reused [OF bus_wf_new _ this, of "[Register 8]"]
  show ?thesis by (simp add: registrations_def new_event_bus_def split: prod.splits)
qed

text \<open>
  C15: the protocol of \<open>co_await\<close>: a coroutine that awaits an idle callback is suspended, and the next status
  resumes exactly this coroutine, once, with that status, and leaves the callback as it was; a status
  that comes first is kept, the latest one, and returned at once. A second coroutine that awaits the same callback gets an
  exception, and the first one is lost by it: the awaiter of the second resets the callback, so nobody is resumed by the
  next status, which is kept and taken by whoever awaits then.
\<close>

theorem co_await_protocol:
  assumes "idle cb" "m_status_opt cb = None"
  shows "(case co_await h cb of (r, cb1) \<Rightarrow> r = Suspended \<and> waiting h cb1
      \<and> (case cb_notify st cb1 of (who, cb2) \<Rightarrow> who = Some h \<and> resumed cb2 = (Done st, cb)
           \<and> fst (cb_notify st' cb2) = None)
      \<and> (case co_await h' cb1 of (r', cb2) \<Rightarrow> r' = Threw (Runtime_error ''event_callback set_handle: handle already set'') \<and> cb2 = cb
           \<and> (case cb_notify st cb2 of (who, cb3) \<Rightarrow> who = None \<and> co_await h'' cb3 = (Done st, cb))))
    \<and> (case cb_notify st cb of (who, cb1) \<Rightarrow> who = None
         \<and> co_await h (snd (cb_notify st' cb1)) = (Done st', cb))"
proof -
  have r: "cb_reset cb = cb" using cb_reset_idle [OF assms] .
  have r2: "cb_reset (cb\<lparr>m_status_opt := Some s, m_suspended := coro_reset c\<rparr>) = cb_reset cb" for s c
    by (simp add: cb_reset_def coro_reset_def)
  have r3: "cb_reset (cb\<lparr>m_suspended := store_handle k c\<rparr>) = cb" for k c
    using r by (cases c; cases "m_suspended cb") (simp add: cb_reset_def coro_reset_def store_handle_def)
  show ?thesis
    using assms by (simp add: co_await_eq cb_notify_eq resumed_eq r2 r r3 idle_def waiting_def)
qed

theorem co_await_protocol_witness:
  "co_await 5 (snd (cb_notify 3 (snd (cb_notify 2 (new_event_callback 1))))) = (Done 3, new_event_callback 1)"
proof -
  have i: "idle (new_event_callback 1)" "m_status_opt (new_event_callback 1) = None"
    by (simp_all add: idle_def new_event_callback_def new_suspended_coro_def)
  show ?thesis
    using co_await_protocol [OF i, where h = 5 and st = 2 and st' = 3 and h' = 0 and h'' = 0] by (simp add: case_prod_unfold)
qed

text \<open>
  when the awaiting coroutine is destroyed while an operation is in flight, the completion is kept and
  handed to the next operation that is awaited on the callback, as if it were its own.
\<close>

theorem destroyed_awaiter_leaves_stale_status:
  assumes "idle cb" "m_status_opt cb = None" "co_await h cb = (Suspended, cb1)"
    "awaiter_destroyed (Some cb1) = Some cb2"
  shows "fst (cb_notify st cb2) = None \<and> co_await h' (snd (cb_notify st cb2)) = (Done st, cb)"
proof -
  have "cb2 = cb_reset cb1" "cb1 = cb\<lparr>m_suspended := store_handle h (m_suspended cb)\<rparr>"
    using assms by (simp_all add: awaiter_destroyed_def co_await_eq idle_def)
  then have "cb2 = cb_reset cb" by (simp add: cb_reset_def store_handle_def coro_reset_def)
  then have "cb2 = cb" using cb_reset_idle [OF assms(1,2)] by simp
  then show ?thesis
    using assms(1) cb_reset_idle [OF assms(1,2)]
    by (simp add: cb_notify_eq co_await_eq idle_def) (simp add: cb_reset_def coro_reset_def)
qed

theorem destroyed_awaiter_leaves_stale_status_witness:
  "co_await 6 (snd (cb_notify 9 (cb_reset (snd (co_await 5 (new_event_callback 1)))))) = (Done 9, new_event_callback 1)"
proof -
  have i: "idle (new_event_callback 1)" "m_status_opt (new_event_callback 1) = None"
    by (simp_all add: idle_def new_event_callback_def new_suspended_coro_def)
  have "co_await 5 (new_event_callback 1) = (Suspended, snd (co_await 5 (new_event_callback 1)))"
    by (simp add: co_await_eq new_event_callback_def new_suspended_coro_def)
  from destroyed_awaiter_leaves_stale_status [OF i this, of _ 9 6]
  show ?thesis by (simp add: awaiter_destroyed_def)
qed

end
