(* ===== verification/Io_Uring.thy ===== *)
theory Io_Uring
  imports Events Cpp_Util
begin

text \<open>
  \<open>io_listener\<close>, \<open>io_service\<close> and the part of \<open>event_loop\<close> that uses them: requests that go into the ring of io\_uring with the id of a
  callback, and completions that come back as events.

  liburing is not part of the source: its calls are the record \<open>liburing\<close>, an argument of the definitions, on a ring of any type. What
  the code relies on is the predicate \<open>uring_contract\<close>, in terms of a view \<open>under_way\<close> of a ring, the requests that were prepared and
  have not been completed. An object that others point to (a listener) has an address, a number.
\<close>

section \<open>liburing\<close>

type_synonym pointer = "64 word"

text \<open>The \<open>io_uring_prep\<close> functions with their arguments behind the descriptor, in the types of their declarations.\<close>

datatype uring_op =
    Prep_accept int pointer pointer int
  | Prep_connect int pointer "32 word"
  | Prep_read int pointer "32 word" "64 word"
  | Prep_write int pointer "32 word" "64 word"
  | Prep_recv int pointer "64 word" int
  | Prep_send int pointer "64 word" int
  | Prep_readv int pointer "32 word" "64 word"
  | Prep_writev int pointer "32 word" "64 word"

record uring_cqe =
  cqe_data :: e_id
  cqe_res :: e_status

text \<open>
  An entry of the submission queue is a number (\<open>None\<close>: the null pointer). \<open>u_wait_cqe\<close> returns its status and the completion it
  found, or does not return (\<open>None\<close>).
\<close>

record 'r liburing =
  u_queue_init :: "nat \<Rightarrow> int \<times> 'r"
  u_get_sqe :: "'r \<Rightarrow> nat option \<times> 'r"
  u_sqe_set_data64 :: "nat \<Rightarrow> e_id \<Rightarrow> 'r \<Rightarrow> 'r"
  u_prep :: "nat \<Rightarrow> uring_op \<Rightarrow> 'r \<Rightarrow> 'r"
  u_submit :: "'r \<Rightarrow> int \<times> 'r"
  u_wait_cqe :: "'r \<Rightarrow> (int \<times> uring_cqe option \<times> 'r) option"
  u_cqe_seen :: "uring_cqe \<Rightarrow> 'r \<Rightarrow> 'r"
  u_queue_exit :: "'r \<Rightarrow> 'r"

section \<open>Listener\<close>

record io_listener =
  l_callback :: event_callback
  l_fd :: int

text \<open>The constructor, for a listener at the address \<open>a\<close>.\<close>

definition new_io_listener :: "nat \<Rightarrow> event_bus \<Rightarrow> int \<Rightarrow> io_listener \<times> event_bus" where
  "new_io_listener a bus fd =
     (case register_event_callback a bus of (i, bus1) \<Rightarrow> (\<lparr>l_callback = new_event_callback i, l_fd = fd\<rparr>, bus1))"

definition listener_get_sqe :: "'r liburing \<Rightarrow> io_listener \<Rightarrow> ('r, nat) comp" where
  "listener_get_sqe U li r =
     (case u_get_sqe U r of
        (None, r1) \<Rightarrow> (Undefined, r1)
      | (Some sqe, r1) \<Rightarrow> (Done sqe, u_sqe_set_data64 U sqe (get_id (l_callback li)) r1))"

definition get_status_awaiter :: "io_listener \<Rightarrow> status_awaiter" where
  "get_status_awaiter li = await_status (l_callback li)"

definition listener_on_accept :: "'r liburing \<Rightarrow> pointer \<Rightarrow> pointer \<Rightarrow> io_listener \<Rightarrow> ('r, status_awaiter) comp" where
  "listener_on_accept U addr len li = and_then (listener_get_sqe U li)
     (\<lambda>sqe r. (Done (get_status_awaiter li), u_prep U sqe (Prep_accept (l_fd li) addr len 0) r))"

definition listener_on_connect :: "'r liburing \<Rightarrow> pointer \<Rightarrow> 32 word \<Rightarrow> io_listener \<Rightarrow> ('r, status_awaiter) comp" where
  "listener_on_connect U addr len li = and_then (listener_get_sqe U li)
     (\<lambda>sqe r. (Done (get_status_awaiter li), u_prep U sqe (Prep_connect (l_fd li) addr len) r))"

text \<open>The count of a read or a write is an \<open>unsigned\<close> in liburing, and \<open>long\<close> here: the upper half of the size is lost.\<close>

definition listener_on_read :: "'r liburing \<Rightarrow> pointer \<Rightarrow> int \<Rightarrow> io_listener \<Rightarrow> ('r, status_awaiter) comp" where
  "listener_on_read U dest sz li = and_then (listener_get_sqe U li)
     (\<lambda>sqe r. (Done (get_status_awaiter li), u_prep U sqe (Prep_read (l_fd li) dest (of_int sz) 0) r))"

definition listener_on_write :: "'r liburing \<Rightarrow> pointer \<Rightarrow> int \<Rightarrow> io_listener \<Rightarrow> ('r, status_awaiter) comp" where
  "listener_on_write U src sz li = and_then (listener_get_sqe U li)
     (\<lambda>sqe r. (Done (get_status_awaiter li), u_prep U sqe (Prep_write (l_fd li) src (of_int sz) 0) r))"

definition listener_on_recv :: "'r liburing \<Rightarrow> pointer \<Rightarrow> int \<Rightarrow> int \<Rightarrow> io_listener \<Rightarrow> ('r, status_awaiter) comp" where
  "listener_on_recv U dest sz flags li = and_then (listener_get_sqe U li)
     (\<lambda>sqe r. (Done (get_status_awaiter li), u_prep U sqe (Prep_recv (l_fd li) dest (of_int sz) flags) r))"

definition listener_on_send :: "'r liburing \<Rightarrow> pointer \<Rightarrow> int \<Rightarrow> int \<Rightarrow> io_listener \<Rightarrow> ('r, status_awaiter) comp" where
  "listener_on_send U src sz flags li = and_then (listener_get_sqe U li)
     (\<lambda>sqe r. (Done (get_status_awaiter li), u_prep U sqe (Prep_send (l_fd li) src (of_int sz) flags) r))"

definition listener_on_readv :: "'r liburing \<Rightarrow> pointer \<Rightarrow> int \<Rightarrow> io_listener \<Rightarrow> ('r, status_awaiter) comp" where
  "listener_on_readv U iov iovcnt li = and_then (listener_get_sqe U li)
     (\<lambda>sqe r. (Done (get_status_awaiter li), u_prep U sqe (Prep_readv (l_fd li) iov (of_int iovcnt) 0) r))"

definition listener_on_writev :: "'r liburing \<Rightarrow> pointer \<Rightarrow> int \<Rightarrow> io_listener \<Rightarrow> ('r, status_awaiter) comp" where
  "listener_on_writev U iov iovcnt li = and_then (listener_get_sqe U li)
     (\<lambda>sqe r. (Done (get_status_awaiter li), u_prep U sqe (Prep_writev (l_fd li) iov (of_int iovcnt) 0) r))"

text \<open>A call of one of the eight, as a value.\<close>

datatype io_request =
    Accept pointer pointer
  | Connect pointer "32 word"
  | Read pointer int
  | Write pointer int
  | Recv pointer int int
  | Send pointer int int
  | Readv pointer int
  | Writev pointer int

fun listener_request :: "'r liburing \<Rightarrow> io_request \<Rightarrow> io_listener \<Rightarrow> ('r, status_awaiter) comp" where
  "listener_request U (Accept addr len) = listener_on_accept U addr len"
| "listener_request U (Connect addr len) = listener_on_connect U addr len"
| "listener_request U (Read dest sz) = listener_on_read U dest sz"
| "listener_request U (Write src sz) = listener_on_write U src sz"
| "listener_request U (Recv dest sz flags) = listener_on_recv U dest sz flags"
| "listener_request U (Send src sz flags) = listener_on_send U src sz flags"
| "listener_request U (Readv iov cnt) = listener_on_readv U iov cnt"
| "listener_request U (Writev iov cnt) = listener_on_writev U iov cnt"

text \<open>What the kernel is to be asked for.\<close>

fun request_op :: "io_request \<Rightarrow> int \<Rightarrow> uring_op" where
  "request_op (Accept addr len) fd = Prep_accept fd addr len 0"
| "request_op (Connect addr len) fd = Prep_connect fd addr len"
| "request_op (Read dest sz) fd = Prep_read fd dest (of_int sz) 0"
| "request_op (Write src sz) fd = Prep_write fd src (of_int sz) 0"
| "request_op (Recv dest sz flags) fd = Prep_recv fd dest (of_int sz) flags"
| "request_op (Send src sz flags) fd = Prep_send fd src (of_int sz) flags"
| "request_op (Readv iov cnt) fd = Prep_readv fd iov (of_int cnt) 0"
| "request_op (Writev iov cnt) fd = Prep_writev fd iov (of_int cnt) 0"

lemma listener_request_eq:
  "listener_request U req li r = (case u_get_sqe U r of
     (None, r1) \<Rightarrow> (Undefined, r1)
   | (Some sqe, r1) \<Rightarrow> (Done (Some (l_callback li)),
       u_prep U sqe (request_op req (l_fd li)) (u_sqe_set_data64 U sqe (m_id (l_callback li)) r1)))"
  by (cases req)
    (simp_all add: listener_on_accept_def listener_on_connect_def listener_on_read_def listener_on_write_def
      listener_on_recv_def listener_on_send_def listener_on_readv_def listener_on_writev_def
      and_then_def listener_get_sqe_def get_status_awaiter_def await_status_def split: prod.split option.split)

declare listener_request.simps [simp del]

section \<open>Service\<close>

definition EINTR :: int where
  "EINTR = 4"

text \<open>\<open>errno\<close> is whatever it was: liburing returns its error numbers.\<close>

definition new_io_service :: "'r liburing \<Rightarrow> int \<Rightarrow> unit outcome \<times> 'r" where
  "new_io_service U errno =
     (case u_queue_init U 1024 of (status, r) \<Rightarrow> (throw_if_error errno status ''Failed to init io_uring: '', r))"

definition destroy_io_service :: "'r liburing \<Rightarrow> 'r \<Rightarrow> 'r" where
  "destroy_io_service U r = u_queue_exit U r"

text \<open>The loop of \<open>poll\<close>, which goes on as long as signals interrupt it; \<open>None\<close>: it does not end.\<close>

partial_function (option) wait_completion :: "'r liburing \<Rightarrow> 'r \<Rightarrow> (int \<times> uring_cqe option \<times> 'r) option" where
  "wait_completion U r =
     (case u_wait_cqe U r of
        None \<Rightarrow> None
      | Some (ret, cqe, r1) \<Rightarrow>
          (let wait_status = 0 - ret in
           if wait_status = EINTR then wait_completion U r1 else Some (wait_status, cqe, r1)))"

definition io_poll :: "'r liburing \<Rightarrow> ('r, e_event) comp" where
  "io_poll U r =
     (case u_submit U r of
        (_, r1) \<Rightarrow>
          (case wait_completion U r1 of
             None \<Rightarrow> (Suspended, r1)
           | Some (wait_status, cqe, r2) \<Rightarrow>
               if wait_status > 0 then (throw_error ''Failed to wait cqe: '' wait_status, r2)
               else (case cqe of
                       None \<Rightarrow> (Undefined, r2)
                     | Some c \<Rightarrow>
                         (let notify_id = cqe_data c; status = cqe_res c in
                          (Done \<lparr>ev_id = notify_id, ev_status = status\<rparr>, u_cqe_seen U c r2)))))"

section \<open>The loop with its listeners\<close>

record 'r io_loop = event_loop +
  m_listeners :: "nat \<Rightarrow> io_listener option"
  m_ring :: 'r

definition new_io_loop :: "'r \<Rightarrow> 'r io_loop" where
  "new_io_loop r = \<lparr>m_running = True, m_events = [], m_event_bus = new_event_bus, m_listeners = Map.empty, m_ring = r\<rparr>"

text \<open>\<open>event_loop::get_io_listener\<close> and \<open>io_service::get_listener\<close>: the new listener is at the address \<open>a\<close>.\<close>

definition get_listener :: "nat \<Rightarrow> int \<Rightarrow> event_bus \<Rightarrow> io_listener \<times> event_bus" where
  "get_listener a fd bus = new_io_listener a bus fd"

lemma get_listener_eq:
  "get_listener a fd bus =
     (case register_event_callback a bus of (i, bus1) \<Rightarrow> (\<lparr>l_callback = new_event_callback i, l_fd = fd\<rparr>, bus1))"
  by (simp add: get_listener_def new_io_listener_def)

definition get_io_listener :: "nat \<Rightarrow> int \<Rightarrow> 'r io_loop \<Rightarrow> e_id \<times> 'r io_loop" where
  "get_io_listener a fd l =
     (case get_listener a fd (m_event_bus l) of
        (li, bus) \<Rightarrow> (m_id (l_callback li), l\<lparr>m_event_bus := bus, m_listeners := (m_listeners l)(a \<mapsto> li)\<rparr>))"

text \<open>The destructor of a listener is that of its callback.\<close>

definition destroy_listener :: "nat \<Rightarrow> ('r io_loop, unit) comp" where
  "destroy_listener a l =
     (case m_listeners l a of
        None \<Rightarrow> (Undefined, l)
      | Some li \<Rightarrow> (Done (), l\<lparr>m_event_bus := deregister_event_callback (m_id (l_callback li)) (m_event_bus l),
                             m_listeners := (m_listeners l)(a := None)\<rparr>))"

text \<open>\<open>co_await listener->on_X(...)\<close> by the coroutine \<open>h\<close>.\<close>

definition await_request :: "'r liburing \<Rightarrow> handle \<Rightarrow> nat \<Rightarrow> io_request \<Rightarrow> ('r io_loop, e_status) comp" where
  "await_request U h a req l =
     (case m_listeners l a of
        None \<Rightarrow> (Undefined, l)
      | Some li \<Rightarrow>
          (case listener_request U req li (m_ring l) of
             (Done _, r) \<Rightarrow>
               (case co_await h (l_callback li) of
                  (res, cb) \<Rightarrow> (res, l\<lparr>m_listeners := (m_listeners l)(a \<mapsto> li\<lparr>l_callback := cb\<rparr>), m_ring := r\<rparr>))
           | (Threw e, r) \<Rightarrow> (Threw e, l\<lparr>m_ring := r\<rparr>)
           | (Suspended, r) \<Rightarrow> (Suspended, l\<lparr>m_ring := r\<rparr>)
           | (Undefined, r) \<Rightarrow> (Undefined, l\<lparr>m_ring := r\<rparr>)))"

text \<open>
  \<open>event_bus::notify\<close>: the coroutine that is resumed, with what its \<open>co_await\<close> gives. Other callbacks on the bus (queues, signals,
  pools) do not concern the listeners.
\<close>

definition io_notify :: "e_event \<Rightarrow> 'r io_loop \<Rightarrow> (handle \<times> e_status outcome) option \<times> 'r io_loop" where
  "io_notify ev l =
     (case bus_find (ev_id ev) (m_event_bus l) of
        None \<Rightarrow> (None, l)
      | Some a \<Rightarrow>
          (case m_listeners l a of
             None \<Rightarrow> (None, l)
           | Some li \<Rightarrow>
               (case cb_notify (ev_status ev) (l_callback li) of
                  (None, cb) \<Rightarrow> (None, l\<lparr>m_listeners := (m_listeners l)(a \<mapsto> li\<lparr>l_callback := cb\<rparr>)\<rparr>)
                | (Some h, cb) \<Rightarrow>
                    (case resumed cb of
                       (res, cb1) \<Rightarrow> (Some (h, res), l\<lparr>m_listeners := (m_listeners l)(a \<mapsto> li\<lparr>l_callback := cb1\<rparr>)\<rparr>)))))"

definition loop_poll :: "'r liburing \<Rightarrow> 'r io_loop \<Rightarrow> (e_event \<times> 'r io_loop) option" where
  "loop_poll U l = (case io_poll U (m_ring l) of (Done ev, r) \<Rightarrow> Some (ev, l\<lparr>m_ring := r\<rparr>) | _ \<Rightarrow> None)"

definition io_turn :: "'r liburing \<Rightarrow> 'r io_loop \<Rightarrow> 'r io_loop option" where
  "io_turn U l = (if m_running l then run_turn (\<lambda>ev l. snd (io_notify ev l)) (loop_poll U) l else None)"

end
