(* ===== verification/Io_Loop.thy ===== *)
theory Io_Loop
  imports Io_Uring "HOL-Library.Multiset"
begin

text \<open>
  Histories of the event loop with any number of listeners: opening and closing them, coroutines that request operations and wait, the turns
  of the loop, and other users of the same bus. The specification is a table of what every open listener is doing; every history
  of the code is one of the specification, as long as a coroutine requests an operation only on a listener that is not in use.
\<close>

section \<open>What the code relies on\<close>

text \<open>
  An entry that is taken, tagged and prepared is under way; submitting and waiting complete nothing; a completion that is found carries the
  tag of something under way, which is not under way any more when the completion is marked as seen.
\<close>

definition uring_contract :: "'r liburing \<Rightarrow> ('r \<Rightarrow> (e_id \<times> uring_op) multiset) \<Rightarrow> bool" where
  "uring_contract U under_way \<longleftrightarrow>
     (\<forall>r sqe r1 i op. u_get_sqe U r = (Some sqe, r1) \<longrightarrow>
        under_way (u_prep U sqe op (u_sqe_set_data64 U sqe i r1)) = add_mset (i, op) (under_way r))
   \<and> (\<forall>r. under_way (snd (u_submit U r)) = under_way r)
   \<and> (\<forall>r ret cqe r1. u_wait_cqe U r = Some (ret, cqe, r1) \<longrightarrow> under_way r1 = under_way r \<and> ret \<le> 0
        \<and> (ret = 0 \<longrightarrow> (\<exists>c op. cqe = Some c \<and> (cqe_data c, op) \<in># under_way r
             \<and> under_way (u_cqe_seen U c r1) = under_way r - {#(cqe_data c, op)#})))"

lemma contract_prep:
  "\<lbrakk>uring_contract U w; u_get_sqe U r = (Some sqe, r1)\<rbrakk>
    \<Longrightarrow> w (u_prep U sqe op (u_sqe_set_data64 U sqe i r1)) = add_mset (i, op) (w r)"
  by (simp add: uring_contract_def)

lemma contract_submit: "uring_contract U w \<Longrightarrow> w (snd (u_submit U r)) = w r"
  by (simp add: uring_contract_def)

lemma contract_wait:
  assumes "uring_contract U w" "u_wait_cqe U r = Some (ret, cqe, r1)"
  shows "w r1 = w r" "ret \<le> 0"
    "ret = 0 \<Longrightarrow> \<exists>c op. cqe = Some c \<and> (cqe_data c, op) \<in># w r \<and> w (u_cqe_seen U c r1) = w r - {#(cqe_data c, op)#}"
  using assms unfolding uring_contract_def by blast+

lemma wait_completion_finds:
  assumes "wait_completion U r = Some res" "uring_contract U w"
  shows "\<exists>ret cqe r0 r1. u_wait_cqe U r0 = Some (ret, cqe, r1) \<and> w r0 = w r \<and> res = (- ret, cqe, r1)"
proof -
  have "uring_contract U w \<longrightarrow> (\<exists>ret cqe r0 r1. u_wait_cqe U r0 = Some (ret, cqe, r1) \<and> w r0 = w r \<and> res = (- ret, cqe, r1))"
  proof (rule wait_completion.raw_induct [OF _ assms(1), where P = "\<lambda>U r res. uring_contract U w \<longrightarrow>
      (\<exists>ret cqe r0 r1. u_wait_cqe U r0 = Some (ret, cqe, r1) \<and> w r0 = w r \<and> res = (- ret, cqe, r1))"], rule impI)
    fix wc and U :: "'a liburing" and r res
    assume IH: "\<And>(U :: 'a liburing) r res. wc U r = Some res \<Longrightarrow> uring_contract U w \<longrightarrow>
        (\<exists>ret cqe r0 r1. u_wait_cqe U r0 = Some (ret, cqe, r1) \<and> w r0 = w r \<and> res = (- ret, cqe, r1))"
      and body: "(case u_wait_cqe U r of None \<Rightarrow> None
        | Some (ret, cqe, r1) \<Rightarrow> let wait_status = 0 - ret in
            if wait_status = EINTR then wc U r1 else Some (wait_status, cqe, r1)) = Some res"
      and c: "uring_contract U w"
    obtain ret cqe r1 where x: "u_wait_cqe U r = Some (ret, cqe, r1)" using body by (auto split: option.splits)
    show "\<exists>ret cqe r0 r1. u_wait_cqe U r0 = Some (ret, cqe, r1) \<and> w r0 = w r \<and> res = (- ret, cqe, r1)"
    proof (cases "0 - ret = EINTR")
      case True
      then have "wc U r1 = Some res" using body x by (simp add: Let_def)
      with IH c contract_wait(1) [OF c x] show ?thesis by fastforce
    next
      case False
      then show ?thesis using body x by (auto simp: Let_def)
    qed
  qed
  then show ?thesis using assms(2) by blast
qed

lemma io_poll_finds:
  assumes "uring_contract U w" "io_poll U r = (Done ev, r')"
  shows "\<exists>op. (ev_id ev, op) \<in># w r \<and> w r' = w r - {#(ev_id ev, op)#}"
proof -
  obtain n r1 where s: "u_submit U r = (n, r1)" by fastforce
  then have w1: "w r1 = w r" using contract_submit [OF assms(1), of r] by simp
  obtain ws cqe r2 where c: "wait_completion U r1 = Some (ws, cqe, r2)"
    using assms(2) s by (auto simp: io_poll_def split: option.splits)
  obtain ret r0 where f: "u_wait_cqe U r0 = Some (ret, cqe, r2)" "w r0 = w r1" "ws = - ret"
    using wait_completion_finds [OF c assms(1)] by auto
  note k = contract_wait [OF assms(1) f(1)]
  have "\<not> ws > 0" using assms(2) s c by (auto simp: io_poll_def throw_error_def)
  then have z: "ret = 0" using f(3) k(2) by simp
  then obtain d op where d: "cqe = Some d" "(cqe_data d, op) \<in># w r0"
    "w (u_cqe_seen U d r2) = w r0 - {#(cqe_data d, op)#}" using k(3) by auto
  then have "ev_id ev = cqe_data d" "r' = u_cqe_seen U d r2"
    using assms(2) s c f(3) z by (auto simp: io_poll_def Let_def)
  then show ?thesis using d f(2) w1 by auto
qed

section \<open>The specification\<close>

datatype io_state = Ready | Running handle uring_op | Finished handle uring_op e_status

datatype io_label =
    Opened e_id
  | Closed e_id
  | Requested handle e_id uring_op
  | Completed e_id e_status
  | Resumed handle e_id "e_status outcome"
  | Dropped e_id
  | Internal

text \<open>What every open listener is doing, and what may happen next (\<open>None\<close>: not this).\<close>

fun io_spec_step :: "io_label \<Rightarrow> (e_id \<Rightarrow> io_state option) \<Rightarrow> (e_id \<Rightarrow> io_state option) option" where
  "io_spec_step (Opened i) m = (if m i = None then Some (m(i \<mapsto> Ready)) else None)"
| "io_spec_step (Closed i) m = (if m i = None then None else Some (m(i := None)))"
| "io_spec_step (Requested h i op) m = (if m i = Some Ready then Some (m(i \<mapsto> Running h op)) else None)"
| "io_spec_step (Completed i st) m =
     (case m i of None \<Rightarrow> Some m | Some (Running h op) \<Rightarrow> Some (m(i \<mapsto> Finished h op st)) | Some _ \<Rightarrow> None)"
| "io_spec_step (Resumed h i res) m =
     (case m i of Some (Finished h' op st) \<Rightarrow> if h' = h \<and> res = Done st then Some (m(i \<mapsto> Ready)) else None | _ \<Rightarrow> None)"
| "io_spec_step (Dropped i) m = (if m i = None then Some m else None)"
| "io_spec_step Internal m = Some m"

fun io_spec_run :: "io_label list \<Rightarrow> (e_id \<Rightarrow> io_state option) \<Rightarrow> (e_id \<Rightarrow> io_state option) option" where
  "io_spec_run [] m = Some m"
| "io_spec_run (x # xs) m = (case io_spec_step x m of None \<Rightarrow> None | Some m1 \<Rightarrow> io_spec_run xs m1)"

lemma io_spec_run_append:
  "io_spec_run (xs @ ys) m = (case io_spec_run xs m of None \<Rightarrow> None | Some m1 \<Rightarrow> io_spec_run ys m1)"
  by (induction xs arbitrary: m) (auto split: option.split)

section \<open>Histories of the code\<close>

definition turn_label :: "'r liburing \<Rightarrow> 'r io_loop \<Rightarrow> io_label" where
  "turn_label U l =
     (case m_events l of
        ev # _ \<Rightarrow> (case fst (io_notify ev l) of Some (h, res) \<Rightarrow> Resumed h (ev_id ev) res | None \<Rightarrow> Dropped (ev_id ev))
      | [] \<Rightarrow> (case loop_poll U l of Some (ev, _) \<Rightarrow> Completed (ev_id ev) (ev_status ev) | None \<Rightarrow> Internal))"

text \<open>No listener and no other callback on the bus is at this address.\<close>

definition address_free :: "nat \<Rightarrow> 'r io_loop \<Rightarrow> bool" where
  "address_free a l \<longleftrightarrow> m_listeners l a = None \<and> a \<notin> snd ` set (m_callbacks (m_event_bus l))"

text \<open>
  The steps: a listener is made and destroyed; a coroutine requests an operation on a listener that is at rest; the loop makes a turn; a
  queue, signal or pool registers its callback, takes it back, or adds an event for it; the loop is stopped.
\<close>

inductive io_step :: "'r liburing \<Rightarrow> io_label \<Rightarrow> 'r io_loop \<Rightarrow> 'r io_loop \<Rightarrow> bool" for U where
  opened: "\<lbrakk>address_free a l; get_io_listener a fd l = (i, l')\<rbrakk> \<Longrightarrow> io_step U (Opened i) l l'"
| closed: "\<lbrakk>m_listeners l a = Some li; destroy_listener a l = (Done (), l')\<rbrakk>
    \<Longrightarrow> io_step U (Closed (m_id (l_callback li))) l l'"
| requested: "\<lbrakk>m_listeners l a = Some li; idle (l_callback li); m_status_opt (l_callback li) = None;
      await_request U h a req l = (Suspended, l')\<rbrakk>
    \<Longrightarrow> io_step U (Requested h (m_id (l_callback li)) (request_op req (l_fd li))) l l'"
| turn: "io_turn U l = Some l' \<Longrightarrow> io_step U (turn_label U l) l l'"
| registered: "address_free c l
    \<Longrightarrow> io_step U Internal l (l\<lparr>m_event_bus := snd (register_event_callback c (m_event_bus l))\<rparr>)"
| deregistered: "\<lbrakk>bus_find i (m_event_bus l) = Some c; m_listeners l c = None\<rbrakk>
    \<Longrightarrow> io_step U Internal l (l\<lparr>m_event_bus := deregister_event_callback i (m_event_bus l)\<rparr>)"
| added: "\<lbrakk>bus_find (ev_id ev) (m_event_bus l) = Some c; m_listeners l c = None\<rbrakk> \<Longrightarrow> io_step U Internal l (add_event ev l)"
| stopped: "io_step U Internal l (loop_stop l)"

inductive io_history :: "'r liburing \<Rightarrow> 'r \<Rightarrow> io_label list \<Rightarrow> 'r io_loop \<Rightarrow> bool" for U r where
  start: "io_history U r [] (new_io_loop r)"
| step: "\<lbrakk>io_history U r tr l; io_step U x l l'\<rbrakk> \<Longrightarrow> io_history U r (tr @ [x]) l'"

section \<open>Relation to the specification\<close>

text \<open>What is under way, and which events are queued, for an id.\<close>

definition ops_of :: "e_id \<Rightarrow> (e_id \<times> uring_op) multiset \<Rightarrow> (e_id \<times> uring_op) multiset" where
  "ops_of i ops = filter_mset (\<lambda>e. fst e = i) ops"

definition events_of :: "e_id \<Rightarrow> e_event list \<Rightarrow> e_event list" where
  "events_of i evs = filter (\<lambda>ev. ev_id ev = i) evs"

lemma ops_of_add [simp]: "ops_of i (add_mset (j, op) ops) = (if j = i then add_mset (j, op) (ops_of i ops) else ops_of i ops)"
  by (simp add: ops_of_def)

lemma ops_of_remove: "ops_of i (ops - {#(j, op)#}) = (if j = i then ops_of i ops - {#(j, op)#} else ops_of i ops)"
  by (simp add: ops_of_def filter_diff_mset)

lemma ops_of_member: "(i, op) \<in># ops \<Longrightarrow> (i, op) \<in># ops_of i ops"
  by (simp add: ops_of_def)

lemma events_of_simps [simp]:
  "events_of i [] = []"
  "events_of i (ev # evs) = (if ev_id ev = i then ev # events_of i evs else events_of i evs)"
  "events_of i (evs @ evs') = events_of i evs @ events_of i evs'"
  by (simp_all add: events_of_def)

fun state_ok :: "io_state \<Rightarrow> event_callback \<Rightarrow> (e_id \<times> uring_op) multiset \<Rightarrow> e_event list \<Rightarrow> bool" where
  "state_ok Ready cb ops evs \<longleftrightarrow> idle cb \<and> m_status_opt cb = None \<and> ops = {#} \<and> evs = []"
| "state_ok (Running h op) cb ops evs \<longleftrightarrow> waiting h cb \<and> ops = {#(m_id cb, op)#} \<and> evs = []"
| "state_ok (Finished h op st) cb ops evs \<longleftrightarrow> waiting h cb \<and> ops = {#} \<and> evs = [\<lparr>ev_id = m_id cb, ev_status = st\<rparr>]"

definition listener_ok :: "(e_id \<times> uring_op) multiset \<Rightarrow> (e_id \<Rightarrow> io_state option) \<Rightarrow> 'r io_loop \<Rightarrow> nat \<Rightarrow> io_listener \<Rightarrow> bool" where
  "listener_ok ops m l a li \<longleftrightarrow> (let i = m_id (l_callback li) in
     bus_find i (m_event_bus l) = Some a
   \<and> (\<exists>s. m i = Some s \<and> state_ok s (l_callback li) (ops_of i ops) (events_of i (m_events l))))"

definition io_related :: "(e_id \<times> uring_op) multiset \<Rightarrow> (e_id \<Rightarrow> io_state option) \<Rightarrow> 'r io_loop \<Rightarrow> bool" where
  "io_related ops m l \<longleftrightarrow>
     bus_wf (m_event_bus l)
   \<and> (\<forall>a li. m_listeners l a = Some li \<longrightarrow> listener_ok ops m l a li)
   \<and> (\<forall>i s. m i = Some s \<longrightarrow> (\<exists>a li. m_listeners l a = Some li \<and> m_id (l_callback li) = i))
   \<and> (\<forall>i a li. bus_find i (m_event_bus l) = Some a \<and> m_listeners l a = Some li \<longrightarrow> m_id (l_callback li) = i)
   \<and> (\<forall>i. unat (m_id_counter (m_event_bus l)) < unat i \<longrightarrow> ops_of i ops = {#} \<and> events_of i (m_events l) = [])"

lemma relatedD:
  assumes "io_related ops m l"
  shows "bus_wf (m_event_bus l)"
    "m_listeners l a = Some li \<Longrightarrow> bus_find (m_id (l_callback li)) (m_event_bus l) = Some a"
    "m_listeners l a = Some li \<Longrightarrow> \<exists>s. m (m_id (l_callback li)) = Some s
       \<and> state_ok s (l_callback li) (ops_of (m_id (l_callback li)) ops) (events_of (m_id (l_callback li)) (m_events l))"
    "m i = Some s \<Longrightarrow> \<exists>a li. m_listeners l a = Some li \<and> m_id (l_callback li) = i"
    "\<lbrakk>bus_find i (m_event_bus l) = Some a; m_listeners l a = Some li\<rbrakk> \<Longrightarrow> m_id (l_callback li) = i"
    "unat (m_id_counter (m_event_bus l)) < unat i \<Longrightarrow> ops_of i ops = {#}"
    "unat (m_id_counter (m_event_bus l)) < unat i \<Longrightarrow> events_of i (m_events l) = []"
  using assms unfolding io_related_def listener_ok_def Let_def by blast+

lemma relatedI:
  assumes "bus_wf (m_event_bus l)"
    "\<And>a li. m_listeners l a = Some li \<Longrightarrow> listener_ok ops m l a li"
    "\<And>i s. m i = Some s \<Longrightarrow> \<exists>a li. m_listeners l a = Some li \<and> m_id (l_callback li) = i"
    "\<And>i a li. \<lbrakk>bus_find i (m_event_bus l) = Some a; m_listeners l a = Some li\<rbrakk> \<Longrightarrow> m_id (l_callback li) = i"
    "\<And>i. unat (m_id_counter (m_event_bus l)) < unat i \<Longrightarrow> ops_of i ops = {#} \<and> events_of i (m_events l) = []"
  shows "io_related ops m l"
  using assms unfolding io_related_def by blast

text \<open>One listener changes, and what concerns the others stays as it is.\<close>

lemma related_update:
  assumes rel: "io_related ops m l" and li: "m_listeners l a = Some li" "m_id (l_callback li) = i" "m_id cb = i"
    and l': "m_event_bus l' = m_event_bus l" "m_listeners l' = (m_listeners l)(a \<mapsto> li\<lparr>l_callback := cb\<rparr>)"
    and rest: "\<And>j. j \<noteq> i \<Longrightarrow> ops_of j ops' = ops_of j ops \<and> events_of j (m_events l') = events_of j (m_events l)"
    and ok: "state_ok s cb (ops_of i ops') (events_of i (m_events l'))"
  shows "io_related ops' (m(i \<mapsto> s)) l'"
proof (rule relatedI)
  have b: "bus_find i (m_event_bus l) = Some a" using relatedD(2) [OF rel li(1)] li(2) by simp
  show "bus_wf (m_event_bus l')" using relatedD(1) [OF rel] l'(1) by simp
  show "listener_ok ops' (m(i \<mapsto> s)) l' c lc" if c: "m_listeners l' c = Some lc" for c lc
  proof (cases "c = a")
    case True
    then show ?thesis using c l' b ok li(3) by (auto simp: listener_ok_def Let_def)
  next
    case False
    then have k: "m_listeners l c = Some lc" using c l'(2) by simp
    then have "m_id (l_callback lc) \<noteq> i" using relatedD(2) [OF rel k] b False by auto
    then show ?thesis
      using relatedD(2,3) [OF rel k] rest [of "m_id (l_callback lc)"] l'(1) by (simp add: listener_ok_def Let_def)
  qed
  show "\<exists>c lc. m_listeners l' c = Some lc \<and> m_id (l_callback lc) = j" if j: "(m(i \<mapsto> s)) j = Some t" for j t
  proof (cases "j = i")
    case True
    then show ?thesis using l'(2) li(3) by (intro exI [of _ a]) simp
  next
    case False
    then obtain c lc where k: "m_listeners l c = Some lc" "m_id (l_callback lc) = j"
      using relatedD(4) [OF rel, of j t] j by auto
    then have "c \<noteq> a" using li False by auto
    then show ?thesis using k l'(2) by (intro exI [of _ c]) simp
  qed
  show "m_id (l_callback lc) = j" if "bus_find j (m_event_bus l') = Some c" "m_listeners l' c = Some lc" for j c lc
    using that relatedD(5) [OF rel] l' li by (cases "c = a") (auto simp del: fun_upd_apply simp: fun_upd_same fun_upd_other)
  show "ops_of j ops' = {#} \<and> events_of j (m_events l') = []" if j: "unat (m_id_counter (m_event_bus l')) < unat j" for j
  proof -
    have "j \<noteq> i" using relatedD(1) [OF rel] b j l'(1) by (auto simp: bus_wf_def)
    then show ?thesis using rest relatedD(6,7) [OF rel, of j] j l'(1) by simp
  qed
qed

text \<open>Only what concerns no listener changes.\<close>

lemma related_others:
  assumes rel: "io_related ops m l" and l': "m_event_bus l' = m_event_bus l" "m_listeners l' = m_listeners l"
    and rest: "\<And>j. m j \<noteq> None \<Longrightarrow> ops_of j ops' = ops_of j ops \<and> events_of j (m_events l') = events_of j (m_events l)"
    and new: "\<And>j. unat (m_id_counter (m_event_bus l)) < unat j \<Longrightarrow> ops_of j ops' = {#} \<and> events_of j (m_events l') = []"
  shows "io_related ops' m l'"
proof (rule relatedI)
  show "bus_wf (m_event_bus l')" using relatedD(1) [OF rel] l'(1) by simp
  show "listener_ok ops' m l' c lc" if c: "m_listeners l' c = Some lc" for c lc
  proof -
    have k: "m_listeners l c = Some lc" using c l'(2) by simp
    show ?thesis
      using relatedD(2,3) [OF rel k] rest [of "m_id (l_callback lc)"] l'(1) by (auto simp: listener_ok_def Let_def)
  qed
qed (use relatedD(4,5) [OF rel] l' new in auto)

text \<open>The cases of a step.\<close>

lemma related_opened:
  assumes rel: "io_related ops m l" and free: "address_free a l" and lt: "unat (m_id_counter (m_event_bus l)) + 1 < 2 ^ 64"
    and g: "get_io_listener a fd l = (i, l')"
  shows "m i = None" "io_related ops (m(i \<mapsto> Ready)) l'" "m_ring l' = m_ring l"
    "unat (m_id_counter (m_event_bus l')) = unat (m_id_counter (m_event_bus l)) + 1"
proof -
  let ?li = "\<lparr>l_callback = new_event_callback i, l_fd = fd\<rparr>"
  obtain bus where r: "register_event_callback a (m_event_bus l) = (i, bus)"
    and l': "l' = l\<lparr>m_event_bus := bus, m_listeners := (m_listeners l)(a \<mapsto> ?li)\<rparr>"
    using g by (auto simp: get_io_listener_def get_listener_eq new_event_callback_def split: prod.splits)
  note f = register_fresh [OF relatedD(1) [OF rel] lt r]
  show n: "m i = None" using relatedD(2,4) [OF rel] f(1) by (cases "m i") fastforce+
  show "m_ring l' = m_ring l" by (simp add: l')
  show c: "unat (m_id_counter (m_event_bus l')) = unat (m_id_counter (m_event_bus l)) + 1" using f(3,4) by (simp add: l')
  have none: "ops_of i ops = {#}" "events_of i (m_events l) = []" using relatedD(6,7) [OF rel] f(3) by simp_all
  have old: "m_listeners l a = None" "bus_find j (m_event_bus l) \<noteq> Some a" for j
    using free by (force simp: address_free_def bus_find_def dest!: map_of_SomeD)+
  show "io_related ops (m(i \<mapsto> Ready)) l'"
  proof (rule relatedI)
    show "bus_wf (m_event_bus l')" using f(2) by (simp add: l')
    show "listener_ok ops (m(i \<mapsto> Ready)) l' c lc" if k: "m_listeners l' c = Some lc" for c lc
    proof (cases "c = a")
      case True
      then show ?thesis using k none f(5)
        by (auto simp: l' listener_ok_def new_event_callback_def new_suspended_coro_def idle_def)
    next
      case False
      then have k': "m_listeners l c = Some lc" using k by (simp add: l')
      have "m_id (l_callback lc) \<noteq> i" using relatedD(2) [OF rel k'] f(1) by auto
      then show ?thesis using relatedD(2,3) [OF rel k'] f(5) by (simp add: l' listener_ok_def Let_def)
    qed
    show "\<exists>c lc. m_listeners l' c = Some lc \<and> m_id (l_callback lc) = j" if j: "(m(i \<mapsto> Ready)) j = Some t" for j t
    proof (cases "j = i")
      case True
      then show ?thesis by (auto simp: l' new_event_callback_def)
    next
      case False
      then obtain c lc where "m_listeners l c = Some lc" "m_id (l_callback lc) = j"
        using j relatedD(4) [OF rel, of j t] by auto
      then show ?thesis using old(1) by (intro exI [of _ c] exI [of _ lc]) (auto simp: l')
    qed
    show "m_id (l_callback lc) = j" if "bus_find j (m_event_bus l') = Some c" "m_listeners l' c = Some lc" for j c lc
      using that relatedD(5) [OF rel] f(5) old(2) by (auto simp: l' new_event_callback_def split: if_splits)
    show "ops_of j ops = {#} \<and> events_of j (m_events l') = []" if "unat (m_id_counter (m_event_bus l')) < unat j" for j
      using that relatedD(6,7) [OF rel, of j] c by (simp add: l')
  qed
qed

lemma related_closed:
  assumes rel: "io_related ops m l" and li: "m_listeners l a = Some li" and d: "destroy_listener a l = (Done (), l')"
  shows "m (m_id (l_callback li)) \<noteq> None" "io_related ops (m(m_id (l_callback li) := None)) l'" "m_ring l' = m_ring l"
    "m_id_counter (m_event_bus l') = m_id_counter (m_event_bus l)"
proof -
  let ?i = "m_id (l_callback li)"
  have l': "l' = l\<lparr>m_event_bus := deregister_event_callback ?i (m_event_bus l), m_listeners := (m_listeners l)(a := None)\<rparr>"
    using d li by (simp add: destroy_listener_def)
  show "m ?i \<noteq> None" using relatedD(3) [OF rel li] by auto
  show "m_ring l' = m_ring l" by (simp add: l')
  show c: "m_id_counter (m_event_bus l') = m_id_counter (m_event_bus l)" by (simp add: l' deregister_event_callback_def)
  have others: "m_id (l_callback lc) \<noteq> ?i" if "m_listeners l c = Some lc" "c \<noteq> a" for c lc
    using relatedD(2) [OF rel that(1)] relatedD(2) [OF rel li] that(2) by auto
  show "io_related ops (m(?i := None)) l'"
  proof (rule relatedI)
    show "bus_wf (m_event_bus l')" using relatedD(1) [OF rel] by (simp add: l' deregister_wf)
    show "listener_ok ops (m(?i := None)) l' c lc" if k: "m_listeners l' c = Some lc" for c lc
    proof -
      have k': "m_listeners l c = Some lc" "c \<noteq> a" using k by (auto simp: l' split: if_splits)
      show ?thesis using others [OF k'] relatedD(2,3) [OF rel k'(1)] by (simp add: l' listener_ok_def deregister_find)
    qed
    show "\<exists>c lc. m_listeners l' c = Some lc \<and> m_id (l_callback lc) = j" if j: "(m(?i := None)) j = Some t" for j t
    proof -
      have "j \<noteq> ?i" "m j = Some t" using j by (auto split: if_splits)
      then obtain c lc where "m_listeners l c = Some lc" "m_id (l_callback lc) = j" using relatedD(4) [OF rel] by blast
      then show ?thesis using \<open>j \<noteq> ?i\<close> li by (intro exI [of _ c] exI [of _ lc]) (auto simp: l')
    qed
    show "m_id (l_callback lc) = j" if "bus_find j (m_event_bus l') = Some c" "m_listeners l' c = Some lc" for j c lc
      using that relatedD(5) [OF rel] by (auto simp: l' deregister_find split: if_splits)
    show "ops_of j ops = {#} \<and> events_of j (m_events l') = []" if "unat (m_id_counter (m_event_bus l')) < unat j" for j
      using that relatedD(6,7) [OF rel, of j] c by (simp add: l')
  qed
qed

lemma related_requested:
  assumes contract: "uring_contract U w" and rel: "io_related (w (m_ring l)) m l" and li: "m_listeners l a = Some li"
    and rest: "idle (l_callback li)" "m_status_opt (l_callback li) = None"
    and req: "await_request U h a req l = (Suspended, l')"
  defines "i \<equiv> m_id (l_callback li)" and "op \<equiv> request_op req (l_fd li)"
  shows "m i = Some Ready" "io_related (w (m_ring l')) (m(i \<mapsto> Running h op)) l'"
    "m_id_counter (m_event_bus l') = m_id_counter (m_event_bus l)"
proof -
  let ?cb = "(l_callback li)\<lparr>m_suspended := store_handle h (m_suspended (l_callback li))\<rparr>"
  have co: "co_await h (l_callback li) = (Suspended, ?cb)" using rest by (simp add: co_await_eq idle_def)
  obtain sqe r1 where s: "u_get_sqe U (m_ring l) = (Some sqe, r1)"
    using req li by (auto simp: await_request_def listener_request_eq split: prod.splits option.splits)
  define r where "r = u_prep U sqe op (u_sqe_set_data64 U sqe i r1)"
  have l': "l' = l\<lparr>m_listeners := (m_listeners l)(a \<mapsto> li\<lparr>l_callback := ?cb\<rparr>), m_ring := r\<rparr>"
    using req li s co by (simp add: await_request_def listener_request_eq r_def i_def op_def)
  have wr: "w r = add_mset (i, op) (w (m_ring l))" unfolding r_def by (rule contract_prep [OF contract s])
  obtain st where st: "m i = Some st" "state_ok st (l_callback li) (ops_of i (w (m_ring l))) (events_of i (m_events l))"
    using relatedD(3) [OF rel li] by (auto simp: i_def)
  then have ready: "st = Ready" using rest by (cases st) (auto simp: waiting_def idle_def)
  then show "m i = Some Ready" using st(1) by simp
  show "m_id_counter (m_event_bus l') = m_id_counter (m_event_bus l)" by (simp add: l')
  show "io_related (w (m_ring l')) (m(i \<mapsto> Running h op)) l'"
  proof (rule related_update [OF rel li])
    show "state_ok (Running h op) ?cb (ops_of i (w (m_ring l'))) (events_of i (m_events l'))"
      using st(2) ready rest wr by (simp add: l' waiting_def i_def)
  qed (use wr in \<open>simp_all add: l' i_def\<close>)
qed

lemma related_polled:
  assumes contract: "uring_contract U w" and rel: "io_related (w (m_ring l)) m l" and none: "m_events l = []"
    and poll: "loop_poll U l = Some (ev, l1)"
  shows "\<exists>m'. io_spec_step (Completed (ev_id ev) (ev_status ev)) m = Some m' \<and> io_related (w (m_ring (add_event ev l1))) m' (add_event ev l1)
    \<and> m_event_bus (add_event ev l1) = m_event_bus l"
proof -
  let ?i = "ev_id ev" and ?l = "add_event ev l1"
  obtain r where r: "io_poll U (m_ring l) = (Done ev, r)" "l1 = l\<lparr>m_ring := r\<rparr>"
    using poll by (auto simp: loop_poll_def split: prod.splits outcome.splits)
  have l': "?l = l\<lparr>m_events := [ev], m_ring := r\<rparr>" using none by (simp add: r(2) add_event_def)
  obtain op where op: "(?i, op) \<in># w (m_ring l)" "w r = w (m_ring l) - {#(?i, op)#}"
    using io_poll_finds [OF contract r(1)] by blast
  have rest: "ops_of j (w r) = ops_of j (w (m_ring l))" "events_of j [ev] = []" if "j \<noteq> ?i" for j
    using that by (simp_all add: op(2) ops_of_remove)
  show ?thesis
  proof (cases "m ?i")
    case None
    have "ops_of ?i (w (m_ring l)) \<noteq> {#}" using ops_of_member [OF op(1)] by auto
    then have "io_related (w r) m ?l"
      by (intro related_others [OF rel])
        (use None rest relatedD(6) [OF rel] none in \<open>force simp: l'\<close>)+
    then show ?thesis using None by (simp add: l')
  next
    case (Some s)
    then obtain a li where li: "m_listeners l a = Some li" "m_id (l_callback li) = ?i" using relatedD(4) [OF rel] by blast
    have ok: "state_ok s (l_callback li) (ops_of ?i (w (m_ring l))) (events_of ?i (m_events l))"
      using relatedD(3) [OF rel li(1)] li(2) Some by auto
    then obtain h where s: "s = Running h op" using ops_of_member [OF op(1)] li(2) none by (cases s) auto
    have "io_related (w r) (m(?i \<mapsto> Finished h op (ev_status ev))) ?l"
    proof (rule related_update [OF rel li(1,2) li(2)])
      show "m_listeners ?l = (m_listeners l)(a \<mapsto> li\<lparr>l_callback := l_callback li\<rparr>)"
        using li(1) by (simp add: l' fun_upd_idem)
      show "state_ok (Finished h op (ev_status ev)) (l_callback li) (ops_of ?i (w r)) (events_of ?i (m_events ?l))"
        using ok s li(2) by (simp add: l' op(2) ops_of_remove)
    qed (use rest none in \<open>simp_all add: l'\<close>)
    then show ?thesis using Some s by (simp add: l')
  qed
qed

lemma related_notified:
  assumes rel: "io_related ops m l" and evs: "m_events l = ev # evs"
    and n: "io_notify ev (l\<lparr>m_events := evs\<rparr>) = (who, l')"
  shows "\<exists>m'. io_spec_step (case who of Some (h, res) \<Rightarrow> Resumed h (ev_id ev) res | None \<Rightarrow> Dropped (ev_id ev)) m = Some m'
    \<and> io_related ops m' l' \<and> m_event_bus l' = m_event_bus l \<and> m_ring l' = m_ring l"
proof -
  let ?i = "ev_id ev"
  have rest: "events_of j evs = events_of j (m_events l)" if "j \<noteq> ?i" for j using that evs by simp
  show ?thesis
  proof (cases "m ?i")
    case None
    have "m_listeners l a = None" if "bus_find ?i (m_event_bus l) = Some a" for a
      using that relatedD(3,5) [OF rel] None by (cases "m_listeners l a") fastforce+
    then have w: "who = None" "l' = l\<lparr>m_events := evs\<rparr>" using n by (auto simp: io_notify_def split: option.splits)
    have new: "events_of j evs = []" if "unat (m_id_counter (m_event_bus l)) < unat j" for j
      using relatedD(7) [OF rel that] evs by (simp split: if_splits)
    have "io_related ops m l'"
    proof (rule related_others [OF rel])
      show "ops_of j ops = ops_of j ops \<and> events_of j (m_events l') = events_of j (m_events l)" if "m j \<noteq> None" for j
        using that None rest by (cases "j = ?i") (simp_all add: w(2))
    qed (use new relatedD(6) [OF rel] in \<open>simp_all add: w(2)\<close>)
    then show ?thesis using None w by simp
  next
    case (Some s)
    then obtain a li where li: "m_listeners l a = Some li" "m_id (l_callback li) = ?i" using relatedD(4) [OF rel] by blast
    have ok: "state_ok s (l_callback li) (ops_of ?i ops) (events_of ?i (m_events l))"
      using relatedD(3) [OF rel li(1)] li(2) Some by auto
    then obtain h op st where s: "s = Finished h op st" using evs by (cases s) auto
    then have st: "ev_status ev = st" "events_of ?i evs = []" "waiting h (l_callback li)" "ops_of ?i ops = {#}"
      using ok evs by (auto simp: waiting_def)
    let ?cb = "cb_reset ((l_callback li)\<lparr>m_status_opt := Some st, m_suspended := coro_reset (m_suspended (l_callback li))\<rparr>)"
    have "bus_find ?i (m_event_bus l) = Some a" using relatedD(2) [OF rel li(1)] li(2) by simp
    then have w: "who = Some (h, Done st)"
      "l' = l\<lparr>m_events := evs, m_listeners := (m_listeners l)(a \<mapsto> li\<lparr>l_callback := ?cb\<rparr>)\<rparr>"
      using n li(1) st(1,3) by (simp_all add: io_notify_def cb_notify_eq resumed_eq waiting_def)
    have "io_related ops (m(?i \<mapsto> Ready)) l'"
    proof (rule related_update [OF rel li])
      show "state_ok Ready ?cb (ops_of ?i ops) (events_of ?i (m_events l'))"
        using st by (simp add: w(2) idle_def)
    qed (use rest li in \<open>simp_all add: w(2)\<close>)
    then show ?thesis using Some s w by simp
  qed
qed

lemma related_turn:
  assumes contract: "uring_contract U w" and rel: "io_related (w (m_ring l)) m l" and t: "io_turn U l = Some l'"
  shows "\<exists>m'. io_spec_step (turn_label U l) m = Some m' \<and> io_related (w (m_ring l')) m' l' \<and> m_event_bus l' = m_event_bus l"
proof (cases "m_events l")
  case Nil
  then obtain ev l1 where p: "loop_poll U l = Some (ev, l1)" "l' = add_event ev l1"
    using t by (auto simp: io_turn_def run_turn_def split: if_splits option.splits)
  then show ?thesis using related_polled [OF contract rel Nil p(1)] Nil by (simp add: turn_label_def)
next
  case (Cons ev evs)
  obtain who l1 where n: "io_notify ev (l\<lparr>m_events := evs\<rparr>) = (who, l1)" by fastforce
  then have l1: "l' = l1" using t Cons by (simp add: io_turn_def run_turn_def split: if_splits)
  have "fst (io_notify ev l) = who" using n by (auto simp: io_notify_def split: option.splits prod.splits)
  then have "turn_label U l = (case who of Some (h, res) \<Rightarrow> Resumed h (ev_id ev) res | None \<Rightarrow> Dropped (ev_id ev))"
    using Cons by (simp add: turn_label_def)
  then show ?thesis using related_notified [OF rel Cons n] l1 by fastforce
qed

lemma related_bus:
  assumes rel: "io_related ops m l" and wf: "bus_wf bus" and le: "unat (m_id_counter (m_event_bus l)) \<le> unat (m_id_counter bus)"
    and find: "\<And>j c. m_listeners l c \<noteq> None \<Longrightarrow> bus_find j bus = Some c \<longleftrightarrow> bus_find j (m_event_bus l) = Some c"
  shows "io_related ops m (l\<lparr>m_event_bus := bus\<rparr>)"
proof (rule relatedI)
  show "listener_ok ops m (l\<lparr>m_event_bus := bus\<rparr>) c lc" if "m_listeners (l\<lparr>m_event_bus := bus\<rparr>) c = Some lc" for c lc
    using relatedD(2,3) [OF rel, of c lc] that find by (simp add: listener_ok_def Let_def)
  show "m_id (l_callback lc) = j"
    if "bus_find j (m_event_bus (l\<lparr>m_event_bus := bus\<rparr>)) = Some c" "m_listeners (l\<lparr>m_event_bus := bus\<rparr>) c = Some lc" for j c lc
    using relatedD(5) [OF rel, of j c lc] that find by simp
qed (use relatedD(4,6,7) [OF rel] wf le in \<open>auto intro: le_less_trans\<close>)

lemma related_registered:
  assumes rel: "io_related ops m l" and free: "address_free c l" and lt: "unat (m_id_counter (m_event_bus l)) + 1 < 2 ^ 64"
  shows "io_related ops m (l\<lparr>m_event_bus := snd (register_event_callback c (m_event_bus l))\<rparr>)"
    "unat (m_id_counter (snd (register_event_callback c (m_event_bus l)))) = unat (m_id_counter (m_event_bus l)) + 1"
proof -
  obtain i bus where r: "register_event_callback c (m_event_bus l) = (i, bus)" by fastforce
  note f = register_fresh [OF relatedD(1) [OF rel] lt r]
  show "unat (m_id_counter (snd (register_event_callback c (m_event_bus l)))) = unat (m_id_counter (m_event_bus l)) + 1"
    using f(3,4) r by simp
  show "io_related ops m (l\<lparr>m_event_bus := snd (register_event_callback c (m_event_bus l))\<rparr>)"
  proof (rule related_bus [OF rel])
    show "bus_find j (snd (register_event_callback c (m_event_bus l))) = Some d \<longleftrightarrow> bus_find j (m_event_bus l) = Some d"
      if "m_listeners l d \<noteq> None" for j d
      using that free f(1,5) r by (auto simp: address_free_def)
  qed (use f r in simp_all)
qed

lemma related_deregistered:
  assumes rel: "io_related ops m l" and c: "bus_find i (m_event_bus l) = Some c" "m_listeners l c = None"
  shows "io_related ops m (l\<lparr>m_event_bus := deregister_event_callback i (m_event_bus l)\<rparr>)"
proof (rule related_bus [OF rel deregister_wf [OF relatedD(1) [OF rel]]])
  show "unat (m_id_counter (m_event_bus l)) \<le> unat (m_id_counter (deregister_event_callback i (m_event_bus l)))"
    by (simp add: deregister_event_callback_def)
qed (use c in \<open>auto simp: deregister_find\<close>)

lemma related_added:
  assumes rel: "io_related ops m l" and c: "bus_find (ev_id ev) (m_event_bus l) = Some c" "m_listeners l c = None"
  shows "io_related ops m (add_event ev l)"
proof (rule related_others [OF rel])
  have no: "m (ev_id ev) = None" using relatedD(2,4) [OF rel] c by (cases "m (ev_id ev)") fastforce+
  show "ops_of j ops = ops_of j ops \<and> events_of j (m_events (add_event ev l)) = events_of j (m_events l)" if "m j \<noteq> None" for j
    using that no by (auto simp: add_event_def)
  show "ops_of j ops = {#} \<and> events_of j (m_events (add_event ev l)) = []"
    if "unat (m_id_counter (m_event_bus l)) < unat j" for j
    using that relatedD(1,6,7) [OF rel] c(1) by (fastforce simp: add_event_def bus_wf_def)
qed (simp_all add: add_event_def)

lemma io_step_simulated:
  assumes "io_step U x l l'" and contract: "uring_contract U w" and rel: "io_related (w (m_ring l)) m l"
    and lt: "unat (m_id_counter (m_event_bus l)) + 1 < 2 ^ 64"
  shows "\<exists>m'. io_spec_step x m = Some m' \<and> io_related (w (m_ring l')) m' l'
    \<and> unat (m_id_counter (m_event_bus l')) \<le> unat (m_id_counter (m_event_bus l)) + 1"
  using assms(1)
proof cases
  case (opened a fd i)
  show ?thesis using related_opened [OF rel opened(2) lt opened(3)] opened(1) by simp
next
  case (closed a li)
  show ?thesis using related_closed [OF rel closed(2,3)] closed(1) by simp
next
  case (requested a li h req)
  show ?thesis using related_requested [OF contract rel requested(2-5)] requested(1) by simp
next
  case turn
  show ?thesis using related_turn [OF contract rel turn(2)] turn(1) by auto
next
  case (registered c)
  show ?thesis using related_registered [OF rel registered(3) lt] registered(1,2) by simp
next
  case (deregistered i c)
  show ?thesis using related_deregistered [OF rel deregistered(3,4)] deregistered(1,2) by (simp add: deregister_event_callback_def)
next
  case (added ev c)
  show ?thesis using related_added [OF rel added(3,4)] added(1,2) by (simp add: add_event_def)
next
  case stopped
  have "io_related (w (m_ring l')) m l'"
    by (rule related_others [OF rel]) (use relatedD(6,7) [OF rel] stopped(2) in \<open>simp_all add: loop_stop_def\<close>)
  then show ?thesis using stopped by (simp add: loop_stop_def)
qed

lemma io_history_simulated:
  assumes "io_history U r tr l" "uring_contract U w" "w r = {#}" "length tr < 2 ^ 64"
  shows "\<exists>m. io_spec_run tr Map.empty = Some m \<and> io_related (w (m_ring l)) m l
    \<and> unat (m_id_counter (m_event_bus l)) \<le> length tr"
  using assms(1,4)
proof (induction rule: io_history.induct)
  case start
  show ?case using assms(3)
    by (auto simp: new_io_loop_def io_related_def ops_of_def) (simp add: new_event_bus_def bus_find_def)
next
  case (step tr l x l')
  then obtain m where m: "io_spec_run tr Map.empty = Some m" "io_related (w (m_ring l)) m l"
    "unat (m_id_counter (m_event_bus l)) \<le> length tr" by auto
  have "unat (m_id_counter (m_event_bus l)) + 1 < 2 ^ 64" using m(3) step.prems by simp
  from io_step_simulated [OF step.hyps(2) assms(2) m(2) this] m(1,3) show ?case
    by (fastforce simp: io_spec_run_append)
qed

section \<open>A ring that meets the contract\<close>

text \<open>For the witnesses: completions come in the order of the requests; the script says how waits end (\<open>None\<close>: interrupted).\<close>

record fifo_ring =
  f_queue :: "(e_id \<times> uring_op) list"
  f_kernel :: "(e_id \<times> uring_op) list"
  f_script :: "int option list"

definition fifo_uring :: "fifo_ring liburing" where
  "fifo_uring =
     \<lparr>u_queue_init = \<lambda>n. (0, \<lparr>f_queue = [], f_kernel = [], f_script = []\<rparr>),
      u_get_sqe = \<lambda>r. (if length (f_queue r) < 1024
        then (Some (length (f_queue r)), r\<lparr>f_queue := f_queue r @ [(0, Prep_read 0 0 0 0)]\<rparr>) else (None, r)),
      u_sqe_set_data64 = \<lambda>n i r. r\<lparr>f_queue := (f_queue r)[n := (i, snd (f_queue r ! n))]\<rparr>,
      u_prep = \<lambda>n op r. r\<lparr>f_queue := (f_queue r)[n := (fst (f_queue r ! n), op)]\<rparr>,
      u_submit = \<lambda>r. (int (length (f_queue r)), r\<lparr>f_queue := [], f_kernel := f_kernel r @ f_queue r\<rparr>),
      u_wait_cqe = \<lambda>r. (case (f_kernel r, f_script r) of
          ((i, _) # _, None # ns) \<Rightarrow> Some (- EINTR, None, r\<lparr>f_script := ns\<rparr>)
        | ((i, _) # _, Some n # ns) \<Rightarrow> Some (0, Some \<lparr>cqe_data = i, cqe_res = n\<rparr>, r\<lparr>f_script := ns\<rparr>)
        | _ \<Rightarrow> None),
      u_cqe_seen = \<lambda>c r. r\<lparr>f_kernel := tl (f_kernel r)\<rparr>,
      u_queue_exit = \<lambda>r. r\<rparr>"

definition fifo_under_way :: "fifo_ring \<Rightarrow> (e_id \<times> uring_op) multiset" where
  "fifo_under_way r = mset (f_queue r @ f_kernel r)"

lemma fifo_contract: "uring_contract fifo_uring fifo_under_way"
  by (auto simp: uring_contract_def fifo_uring_def fifo_under_way_def nth_append EINTR_def union_commute
      split: if_splits list.splits option.splits)

section \<open>Properties\<close>

text \<open>
  C3: with any number of listeners, coroutines and other users of the bus, and whatever the order in which the kernel completes, a
  coroutine that waits for an operation is resumed exactly once, by the completion of its own operation and with its result; nothing else
  resumes it; a completion for a listener that was destroyed goes to nobody, also when listeners are made later; and every operation that
  is waited for is under way in the kernel or its event is queued, so that none is lost.
\<close>

theorem io_completions_reach_submitters:
  assumes "uring_contract U under_way" "io_history U r tr l" "under_way r = {#}" "length tr < 2 ^ 64"
  shows "\<exists>m. io_spec_run tr Map.empty = Some m
    \<and> (\<forall>i h op. m i = Some (Running h op) \<longrightarrow> (i, op) \<in># under_way (m_ring l))
    \<and> (\<forall>i h op st. m i = Some (Finished h op st) \<longrightarrow> \<lparr>ev_id = i, ev_status = st\<rparr> \<in> set (m_events l))
    \<and> (\<forall>a li h. m_listeners l a = Some li \<and> waiting h (l_callback li)
        \<longrightarrow> (\<exists>op st. m (m_id (l_callback li)) \<in> {Some (Running h op), Some (Finished h op st)}))"
proof -
  obtain m where m: "io_spec_run tr Map.empty = Some m" and rel: "io_related (under_way (m_ring l)) m l"
    using io_history_simulated [OF assms(2,1,3,4)] by blast
  have "(i, op) \<in># under_way (m_ring l)" if run: "m i = Some (Running h op)" for i h op
  proof -
    obtain a li where "m_listeners l a = Some li" "m_id (l_callback li) = i" using relatedD(4) [OF rel run] by blast
    then have "ops_of i (under_way (m_ring l)) = {#(i, op)#}" using relatedD(3) [OF rel] run by fastforce
    then have "(i, op) \<in># ops_of i (under_way (m_ring l))" by simp
    then show ?thesis by (simp add: ops_of_def)
  qed
  moreover have "\<lparr>ev_id = i, ev_status = st\<rparr> \<in> set (m_events l)" if fin: "m i = Some (Finished h op st)" for i h op st
  proof -
    obtain a li where "m_listeners l a = Some li" "m_id (l_callback li) = i" using relatedD(4) [OF rel fin] by blast
    then have "events_of i (m_events l) = [\<lparr>ev_id = i, ev_status = st\<rparr>]" using relatedD(3) [OF rel] fin by fastforce
    then have "\<lparr>ev_id = i, ev_status = st\<rparr> \<in> set (events_of i (m_events l))" by simp
    then show ?thesis by (simp add: events_of_def)
  qed
  moreover have "\<exists>op st. m (m_id (l_callback li)) \<in> {Some (Running h op), Some (Finished h op st)}"
    if li: "m_listeners l a = Some li" and h: "waiting h (l_callback li)" for a li h
  proof -
    obtain s where "m (m_id (l_callback li)) = Some s"
      "state_ok s (l_callback li) (ops_of (m_id (l_callback li)) (under_way (m_ring l))) (events_of (m_id (l_callback li)) (m_events l))"
      using relatedD(3) [OF rel li] by blast
    then show ?thesis using h by (cases s) (auto simp: waiting_def idle_def)
  qed
  ultimately show ?thesis using m by blast
qed

text \<open>One request, an interrupted wait, the completion, and the coroutine runs again.\<close>

definition demo_ring :: fifo_ring where
  "demo_ring = \<lparr>f_queue = [], f_kernel = [], f_script = [None, Some 5]\<rparr>"

definition demo_trace :: "io_label list" where
  "demo_trace = [Opened 1, Requested 7 1 (Prep_recv 3 100 8 0), Completed 1 5, Resumed 7 1 (Done 5)]"

lemma demo_completed:
  obtains l l' li where "io_history fifo_uring demo_ring [Opened 1, Requested 7 1 (Prep_recv 3 100 8 0), Completed 1 5] l"
    "io_step fifo_uring (Resumed 7 1 (Done 5)) l l'" "m_listeners l 20 = Some li" "waiting 7 (l_callback li)"
    "m_id (l_callback li) = 1" "m_events l = [\<lparr>ev_id = 1, ev_status = 5\<rparr>]"
proof -
  let ?cb = "new_event_callback 1"
  let ?l1 = "snd (get_io_listener 20 3 (new_io_loop demo_ring))"
  let ?l2 = "snd (await_request fifo_uring 7 20 (Recv 100 8 0) ?l1)"
  let ?l3 = "the (io_turn fifo_uring ?l2)"
  let ?l4 = "the (io_turn fifo_uring ?l3)"
  note eqs = get_io_listener_def get_listener_eq new_io_loop_def register_event_callback_def new_event_bus_def
    Let_def new_event_callback_def new_suspended_coro_def await_request_def listener_request_eq fifo_uring_def demo_ring_def
    co_await_eq store_handle_def io_turn_def run_turn_def loop_poll_def io_poll_def wait_completion.simps EINTR_def
    add_event_def io_notify_def bus_find_def cb_notify_eq resumed_eq cb_reset_def coro_reset_def turn_label_def
  have h1: "io_step fifo_uring (Opened 1) (new_io_loop demo_ring) ?l1"
    by (rule io_step.opened [of 20 _ 3]) (simp_all add: address_free_def eqs)
  have h2: "io_step fifo_uring (Requested 7 1 (Prep_recv 3 100 8 0)) ?l1 ?l2"
    using io_step.requested [of ?l1 20 "\<lparr>l_callback = ?cb, l_fd = 3\<rparr>" fifo_uring 7 "Recv 100 8 0" ?l2]
    by (simp add: eqs idle_def)
  have t3: "io_turn fifo_uring ?l2 = Some ?l3" "turn_label fifo_uring ?l2 = Completed 1 5" by (simp_all add: eqs)
  have h3: "io_step fifo_uring (Completed 1 5) ?l2 ?l3" using io_step.turn [OF t3(1)] t3(2) by simp
  have t4: "io_turn fifo_uring ?l3 = Some ?l4" "turn_label fifo_uring ?l3 = Resumed 7 1 (Done 5)" by (simp_all add: eqs)
  have h4: "io_step fifo_uring (Resumed 7 1 (Done 5)) ?l3 ?l4" using io_step.turn [OF t4(1)] t4(2) by simp
  have hist: "io_history fifo_uring demo_ring [Opened 1, Requested 7 1 (Prep_recv 3 100 8 0), Completed 1 5] ?l3"
    using io_history.step [OF io_history.step [OF io_history.step [OF io_history.start h1] h2] h3] by simp
  obtain li where "m_listeners ?l3 20 = Some li" "waiting 7 (l_callback li)" "m_id (l_callback li) = 1"
    by (simp add: eqs waiting_def)
  moreover have "m_events ?l3 = [\<lparr>ev_id = 1, ev_status = 5\<rparr>]" by (simp add: eqs)
  ultimately show thesis using that hist h4 by blast
qed

lemma demo_history: "\<exists>l. io_history fifo_uring demo_ring demo_trace l"
proof -
  obtain l l' where "io_history fifo_uring demo_ring [Opened 1, Requested 7 1 (Prep_recv 3 100 8 0), Completed 1 5] l"
    "io_step fifo_uring (Resumed 7 1 (Done 5)) l l'" by (rule demo_completed)
  from io_history.step [OF this] show ?thesis unfolding demo_trace_def by auto
qed

theorem io_completions_reach_submitters_witness:
  "\<exists>m. io_spec_run demo_trace Map.empty = Some m"
proof -
  obtain l where "io_history fifo_uring demo_ring demo_trace l" using demo_history by blast
  from io_completions_reach_submitters [OF fifo_contract this] show ?thesis
    by (fastforce simp: fifo_under_way_def demo_ring_def demo_trace_def)
qed

text \<open>
  polling submits what was requested and waits for a completion, however often a signal interrupts the wait, and returns its
  id and its status as an event; any other failure of the wait is thrown with its number.
\<close>

theorem io_poll_retries:
  assumes "snd (u_submit U r) = rs 0" "\<forall>k<n. \<exists>cqe. u_wait_cqe U (rs k) = Some (- EINTR, cqe, rs (Suc k))"
    "u_wait_cqe U (rs n) = Some (ret, cqe, r')" "ret \<noteq> - EINTR"
  shows "io_poll U r = (if ret < 0 then (Threw (Errno_error ''Failed to wait cqe: '' (- ret)), r')
    else case cqe of None \<Rightarrow> (Undefined, r') | Some c \<Rightarrow> (Done \<lparr>ev_id = cqe_data c, ev_status = cqe_res c\<rparr>, u_cqe_seen U c r'))"
proof -
  have "wait_completion U (rs (n - k)) = Some (- ret, cqe, r')" if "k \<le> n" for k
    using that
  proof (induction k)
    case 0
    then show ?case using assms(3,4) by (auto simp: wait_completion.simps [of U "rs n"] Let_def)
  next
    case (Suc k)
    obtain c where "u_wait_cqe U (rs (n - Suc k)) = Some (- EINTR, c, rs (Suc (n - Suc k)))"
      using assms(2) Suc.prems by (meson diff_less Suc_le_lessD zero_less_Suc le_less_trans less_le_trans)
    moreover have "Suc (n - Suc k) = n - k" using Suc.prems by simp
    ultimately show ?case using Suc by (simp add: wait_completion.simps [of U "rs (n - Suc k)"])
  qed
  from this [of n] have "wait_completion U (rs 0) = Some (- ret, cqe, r')" by simp
  then show ?thesis using assms(1) by (auto simp: io_poll_def throw_error_def Let_def split: prod.split option.split)
qed

theorem io_poll_retries_witness:
  "fst (io_poll fifo_uring \<lparr>f_queue = [(4, Prep_connect 3 0 16)], f_kernel = [], f_script = [None, None, Some 0]\<rparr>)
    = Done \<lparr>ev_id = 4, ev_status = 0\<rparr>"
proof -
  let ?rs = "\<lambda>k. \<lparr>f_queue = [], f_kernel = [(4, Prep_connect 3 0 16)], f_script = drop k [None, None, Some 0]\<rparr>"
  let ?r' = "\<lparr>f_queue = [], f_kernel = [(4, Prep_connect 3 0 16)], f_script = []\<rparr>"
  have w: "\<forall>k<2. \<exists>cqe. u_wait_cqe fifo_uring (?rs k) = Some (- EINTR, cqe, ?rs (Suc k))"
  proof (intro allI impI)
    fix k :: nat
    assume "k < 2"
    then consider "k = 0" | "k = 1" by linarith
    then show "\<exists>cqe. u_wait_cqe fifo_uring (?rs k) = Some (- EINTR, cqe, ?rs (Suc k))"
      by cases (simp_all add: fifo_uring_def)
  qed
  show ?thesis
    using io_poll_retries [OF _ w, where ret = 0 and cqe = "Some \<lparr>cqe_data = 4, cqe_res = 0\<rparr>" and r' = ?r'
        and r = "\<lparr>f_queue = [(4, Prep_connect 3 0 16)], f_kernel = [], f_script = [None, None, Some 0]\<rparr>"]
    by (simp add: fifo_uring_def EINTR_def)
qed

text \<open>The submission queue has 1024 entries: the request that does not fit writes to a null pointer.\<close>

theorem full_queue_undefined:
  assumes "m_listeners l a = Some li" "u_get_sqe U (m_ring l) = (None, r)"
  shows "fst (await_request U h a req l) = Undefined"
  using assms by (simp add: await_request_def listener_request_eq)

theorem full_queue_undefined_witness:
  "fst (await_request fifo_uring 7 20 (Read 0 8) (snd (get_io_listener 20 3
     (new_io_loop \<lparr>f_queue = replicate 1024 (1, Prep_read 0 0 0 0), f_kernel = [], f_script = []\<rparr>)))) = Undefined"
  by (rule full_queue_undefined [where li = "\<lparr>l_callback = new_event_callback 1, l_fd = 3\<rparr>"])
    (simp_all add: get_io_listener_def get_listener_eq new_io_loop_def register_event_callback_def new_event_bus_def Let_def
      new_event_callback_def fifo_uring_def)

text \<open>
  A second request on a listener that is in use is thrown out, but only after its operation has been prepared: two operations with
  the same id are under way, and the first coroutine has been forgotten by the callback: a completion resumes nobody.
\<close>

theorem second_request_is_under_way:
  assumes "uring_contract U under_way" "m_listeners l a = Some li" "waiting h (l_callback li)"
    "bus_find (m_id (l_callback li)) (m_event_bus l) = Some a" "u_get_sqe U (m_ring l) = (Some sqe, r)"
    "await_request U h' a req l = (res, l')"
  shows "res = Threw (Runtime_error ''event_callback set_handle: handle already set'')
    \<and> under_way (m_ring l') = add_mset (m_id (l_callback li), request_op req (l_fd li)) (under_way (m_ring l))
    \<and> fst (io_notify \<lparr>ev_id = m_id (l_callback li), ev_status = st\<rparr> l') = None"
proof -
  have co: "co_await h' (l_callback li) = (Threw (Runtime_error ''event_callback set_handle: handle already set''), cb_reset (l_callback li))"
    using assms(3) by (simp add: co_await_eq waiting_def)
  have "l' = l\<lparr>m_listeners := (m_listeners l)(a \<mapsto> li\<lparr>l_callback := cb_reset (l_callback li)\<rparr>),
      m_ring := u_prep U sqe (request_op req (l_fd li)) (u_sqe_set_data64 U sqe (m_id (l_callback li)) r)\<rparr>"
    "res = Threw (Runtime_error ''event_callback set_handle: handle already set'')"
    using assms(2,5,6) co by (auto simp: await_request_def listener_request_eq)
  then show ?thesis
    using assms(2-4) contract_prep [OF assms(1,5)] by (simp add: io_notify_def cb_notify_eq waiting_def)
qed

end
