(* ===== verification/Os.thy ===== *)
theory Os
  imports Io_Loop
begin

text \<open>
  The calls of the operating system that sockets and timers make outside the ring. They are not part of the source: the record \<open>posix\<close> is
  an argument of the definitions, on a state of any type, and \<open>posix_contract\<close> says what the code relies on, in terms of a view \<open>held\<close> of
  that state, the descriptors that are open and the results of \<open>getaddrinfo\<close> that have not been freed.
\<close>

section \<open>System calls\<close>

record sockaddr_un =
  sun_family :: int
  sun_path :: "byte list"

datatype sockaddr = Sockaddr "byte list" | Sockaddr_un sockaddr_un

record addrinfo =
  ai_flags :: int
  ai_family :: int
  ai_socktype :: int
  ai_protocol :: int
  ai_addr :: sockaddr
  ai_addrlen :: "32 word"

record timespec =
  tv_sec :: int
  tv_nsec :: int

record itimerspec =
  it_interval :: timespec
  it_value :: timespec

record 'k posix =
  p_errno :: "'k \<Rightarrow> int"
  p_getaddrinfo :: "string \<Rightarrow> string \<Rightarrow> addrinfo \<Rightarrow> 'k \<Rightarrow> int \<times> addrinfo \<times> 'k"
  p_gai_strerror :: "int \<Rightarrow> string"
  p_freeaddrinfo :: "addrinfo \<Rightarrow> 'k \<Rightarrow> 'k"
  p_socket :: "int \<Rightarrow> int \<Rightarrow> int \<Rightarrow> 'k \<Rightarrow> int \<times> 'k"
  p_bind :: "int \<Rightarrow> sockaddr \<Rightarrow> 32 word \<Rightarrow> 'k \<Rightarrow> int \<times> 'k"
  p_listen :: "int \<Rightarrow> int \<Rightarrow> 'k \<Rightarrow> int \<times> 'k"
  p_access :: "string \<Rightarrow> int \<Rightarrow> 'k \<Rightarrow> int \<times> 'k"
  p_unlink :: "string \<Rightarrow> 'k \<Rightarrow> int \<times> 'k"
  p_chmod :: "string \<Rightarrow> int \<Rightarrow> 'k \<Rightarrow> int \<times> 'k"
  p_shutdown :: "int \<Rightarrow> int \<Rightarrow> 'k \<Rightarrow> int \<times> 'k"
  p_close :: "int \<Rightarrow> 'k \<Rightarrow> int \<times> 'k"
  p_timerfd_create :: "int \<Rightarrow> int \<Rightarrow> 'k \<Rightarrow> int \<times> 'k"
  p_timerfd_settime :: "int \<Rightarrow> int \<Rightarrow> itimerspec \<Rightarrow> 'k \<Rightarrow> int \<times> 'k"

datatype resource = Fd int | Info addrinfo

text \<open>A call that gives a descriptor or fails, and one that gives and takes nothing.\<close>

definition opens_fd :: "('k \<Rightarrow> resource multiset) \<Rightarrow> ('k \<Rightarrow> int \<times> 'k) \<Rightarrow> bool" where
  "opens_fd held f \<longleftrightarrow> (\<forall>k status k'. f k = (status, k') \<longrightarrow>
     (if status < 0 then held k' = held k else Fd status \<notin># held k \<and> held k' = add_mset (Fd status) (held k)))"

definition keeps_all :: "('k \<Rightarrow> resource multiset) \<Rightarrow> ('k \<Rightarrow> int \<times> 'k) \<Rightarrow> bool" where
  "keeps_all held f \<longleftrightarrow> (\<forall>k. held (snd (f k)) = held k)"

definition posix_contract :: "'k posix \<Rightarrow> ('k \<Rightarrow> resource multiset) \<Rightarrow> bool" where
  "posix_contract P held \<longleftrightarrow>
     (\<forall>d ty proto. opens_fd held (p_socket P d ty proto))
   \<and> (\<forall>clock flags. opens_fd held (p_timerfd_create P clock flags))
   \<and> (\<forall>fd addr len. keeps_all held (p_bind P fd addr len))
   \<and> (\<forall>fd n. keeps_all held (p_listen P fd n))
   \<and> (\<forall>path mode. keeps_all held (p_access P path mode))
   \<and> (\<forall>path. keeps_all held (p_unlink P path))
   \<and> (\<forall>path mode. keeps_all held (p_chmod P path mode))
   \<and> (\<forall>fd how. keeps_all held (p_shutdown P fd how))
   \<and> (\<forall>fd flags spec. keeps_all held (p_timerfd_settime P fd flags spec))
   \<and> (\<forall>fd k status k'. p_close P fd k = (status, k') \<and> 0 \<le> status \<longrightarrow> held k' = held k - {#Fd fd#})
   \<and> (\<forall>name service hints k status res k'. p_getaddrinfo P name service hints k = (status, res, k') \<longrightarrow>
        held k' = (if status = 0 then add_mset (Info res) (held k) else held k))
   \<and> (\<forall>res k. held (p_freeaddrinfo P res k) = held k - {#Info res#})"

lemma opens_fdD:
  "\<lbrakk>opens_fd held f; f k = (status, k'); 0 \<le> status\<rbrakk> \<Longrightarrow> held k' = add_mset (Fd status) (held k)"
  "\<lbrakk>opens_fd held f; f k = (status, k'); status < 0\<rbrakk> \<Longrightarrow> held k' = held k"
  by (auto simp: opens_fd_def split: if_splits)

lemma keeps_allD: "\<lbrakk>keeps_all held f; f k = (status, k')\<rbrakk> \<Longrightarrow> held k' = held k"
  unfolding keeps_all_def by (metis snd_conv)

lemma posix_contractD:
  assumes "posix_contract P held"
  shows "opens_fd held (p_socket P d ty proto)" "opens_fd held (p_timerfd_create P clock flags)"
    "keeps_all held (p_bind P fd addr len)" "keeps_all held (p_listen P fd n)" "keeps_all held (p_access P path mode)"
    "keeps_all held (p_unlink P path)" "keeps_all held (p_chmod P path mode')" "keeps_all held (p_shutdown P fd how)"
    "keeps_all held (p_timerfd_settime P fd flags' spec)"
    "\<lbrakk>p_close P fd k = (status, k'); 0 \<le> status\<rbrakk> \<Longrightarrow> held k' = held k - {#Fd fd#}"
    "p_getaddrinfo P name service hints k = (status, res, k')
       \<Longrightarrow> held k' = (if status = 0 then add_mset (Info res) (held k) else held k)"
    "held (p_freeaddrinfo P res k) = held k - {#Info res#}"
  using assms unfolding posix_contract_def by simp_all

section \<open>The world: the operating system and the loop\<close>

record ('k, 'r) world =
  w_os :: 'k
  w_loop :: "'r io_loop"

definition call :: "('k \<Rightarrow> int \<times> 'k) \<Rightarrow> (('k, 'r) world, int) comp" where
  "call f w = (case f (w_os w) of (status, k) \<Rightarrow> (Done status, w\<lparr>w_os := k\<rparr>))"

text \<open>\<open>throw_if_error\<close> with the \<open>errno\<close> of the moment.\<close>

definition check :: "'k posix \<Rightarrow> int \<Rightarrow> string \<Rightarrow> (('k, 'r) world, unit) comp" where
  "check P status prefix w = (throw_if_error (p_errno P (w_os w)) status prefix, w)"

definition on_loop :: "('r io_loop, 'a) comp \<Rightarrow> (('k, 'r) world, 'a) comp" where
  "on_loop m w = (case m (w_loop w) of (r, l) \<Rightarrow> (r, w\<lparr>w_loop := l\<rparr>))"

text \<open>\<open>event_loop::get_io_listener\<close>, for an object whose new listener is at \<open>a\<close>.\<close>

definition make_listener :: "nat \<Rightarrow> int \<Rightarrow> (('k, 'r) world, unit) comp" where
  "make_listener a fd w = (case get_io_listener a fd (w_loop w) of (_, l) \<Rightarrow> (Done (), w\<lparr>w_loop := l\<rparr>))"

definition free_info :: "'k posix \<Rightarrow> addrinfo \<Rightarrow> (('k, 'r) world, unit) comp" where
  "free_info P res w = (Done (), w\<lparr>w_os := p_freeaddrinfo P res (w_os w)\<rparr>)"

lemma and_then_cases:
  assumes "and_then m f s = (r, s')"
  obtains a s1 where "m s = (Done a, s1)" "f a s1 = (r, s')"
    | e where "m s = (Threw e, s')" "r = Threw e"
    | "m s = (Suspended, s')" "r = Suspended"
    | "m s = (Undefined, s')" "r = Undefined"
proof -
  obtain r1 s1 where "m s = (r1, s1)" by fastforce
  then show thesis using that assms by (cases r1) (simp_all add: and_then_def)
qed

text \<open>What holds behind a computation: when it returns, when it throws; whether it may be undefined.\<close>

definition triple :: "('s, 'a) comp \<Rightarrow> 's \<Rightarrow> ('a \<Rightarrow> 's \<Rightarrow> bool) \<Rightarrow> (error \<Rightarrow> 's \<Rightarrow> bool) \<Rightarrow> bool \<Rightarrow> bool" where
  "triple m s Q E u \<longleftrightarrow>
     (case m s of (Done a, s') \<Rightarrow> Q a s' | (Threw e, s') \<Rightarrow> E e s' | (Suspended, _) \<Rightarrow> False | (Undefined, _) \<Rightarrow> u)"

lemma triple_bind:
  assumes "triple m s Q E1 u" "\<And>e s1. E1 e s1 \<Longrightarrow> E e s1" "\<And>a s1. Q a s1 \<Longrightarrow> triple (f a) s1 R E u"
  shows "triple (and_then m f) s R E u"
proof -
  obtain r s1 where m: "m s = (r, s1)" by fastforce
  then have "triple (f a) s1 R E u" if "r = Done a" for a using assms(1,3) that by (simp add: triple_def)
  then show ?thesis using assms(1,2) m by (cases r) (simp_all add: triple_def and_then_def)
qed

lemma triple_return [simp]: "triple (return a) s Q E u \<longleftrightarrow> Q a s"
  by (simp add: triple_def return_def)

lemma triple_weaken:
  assumes "triple m s Q1 E1 u1" "\<And>a s1. Q1 a s1 \<Longrightarrow> Q a s1" "\<And>e s1. E1 e s1 \<Longrightarrow> E e s1" "u1 \<Longrightarrow> u"
  shows "triple m s Q E u"
  using assms by (auto simp: triple_def split: prod.splits outcome.splits)

text \<open>A call whose failure throws: how it ends, and what it leaves.\<close>

definition checked_call :: "'k posix \<Rightarrow> ('k \<Rightarrow> int \<times> 'k) \<Rightarrow> string \<Rightarrow> (('k, 'r) world, int) comp" where
  "checked_call P f prefix = and_then (call f) (\<lambda>status. and_then (check P status prefix) (\<lambda>_. return status))"

lemma checked_call_eq:
  "checked_call P f prefix w = (case f (w_os w) of (status, k) \<Rightarrow>
     (if status < 0 then (Threw (Errno_error prefix (p_errno P k)), w\<lparr>w_os := k\<rparr>) else (Done status, w\<lparr>w_os := k\<rparr>)))"
  by (simp add: checked_call_def and_then_def call_def check_def throw_if_error_eq return_def split: prod.split)

lemma checked_call_cases:
  assumes "checked_call P f prefix w = (r, w')"
  obtains status k where "f (w_os w) = (status, k)" "status < 0" "r = Threw (Errno_error prefix (p_errno P k))" "w' = w\<lparr>w_os := k\<rparr>"
    | status k where "f (w_os w) = (status, k)" "0 \<le> status" "r = Done status" "w' = w\<lparr>w_os := k\<rparr>"
  using assms by (auto simp: checked_call_eq not_less split: prod.splits if_splits)

text \<open>The world with other contents of what is held, and the same loop.\<close>

definition holds_at :: "('k \<Rightarrow> resource multiset) \<Rightarrow> resource multiset \<Rightarrow> 'r io_loop \<Rightarrow> ('k, 'r) world \<Rightarrow> bool" where
  "holds_at held h l w \<longleftrightarrow> held (w_os w) = h \<and> w_loop w = l"

lemma checked_keeps:
  assumes "posix_contract P held" "keeps_all held f" "holds_at held h l w"
  shows "triple (checked_call P f prefix) w (\<lambda>_. holds_at held h l)
    (\<lambda>e w'. e = Errno_error prefix (p_errno P (w_os w')) \<and> holds_at held h l w') u"
  using assms(3) keeps_allD [OF assms(2)]
  by (auto simp: triple_def checked_call_eq holds_at_def split: prod.split)

lemma checked_opens:
  assumes "posix_contract P held" "opens_fd held f" "holds_at held h l w"
  shows "triple (checked_call P f prefix) w (\<lambda>fd. holds_at held (add_mset (Fd fd) h) l)
    (\<lambda>e w'. e = Errno_error prefix (p_errno P (w_os w')) \<and> holds_at held h l w') u"
  using assms(3) opens_fdD [OF assms(2)]
  by (auto simp: triple_def checked_call_eq holds_at_def split: prod.split)

lemma make_listener_leaves:
  "holds_at held h l w \<Longrightarrow> triple (make_listener a fd) w (\<lambda>_. holds_at held h (snd (get_io_listener a fd l))) E u"
  by (auto simp: triple_def make_listener_def holds_at_def split: prod.split)

section \<open>Operations of the world as histories of the loop\<close>

lemma update_subset: "e \<in> set (AList.update i c xs) \<Longrightarrow> e = (i, c) \<or> e \<in> set xs"
  by (induction xs) (auto split: if_splits)

lemma make_listener_history:
  assumes h: "io_history U r tr (w_loop w)" and free: "address_free a (w_loop w)" and m: "make_listener a fd w = (res, w')"
  shows "res = Done ()" "w_os w' = w_os w" "m_ring (w_loop w') = m_ring (w_loop w)"
    "\<exists>i. io_history U r (tr @ [Opened i]) (w_loop w')
      \<and> m_listeners (w_loop w') = (m_listeners (w_loop w))(a \<mapsto> \<lparr>l_callback = new_event_callback i, l_fd = fd\<rparr>)"
    "address_free b (w_loop w) \<Longrightarrow> b \<noteq> a \<Longrightarrow> address_free b (w_loop w')"
proof -
  obtain i l where g: "get_io_listener a fd (w_loop w) = (i, l)" by fastforce
  have w': "res = Done ()" "w' = w\<lparr>w_loop := l\<rparr>" using m g by (simp_all add: make_listener_def)
  then show "res = Done ()" "w_os w' = w_os w" by simp_all
  show "m_ring (w_loop w') = m_ring (w_loop w)"
    using g by (auto simp: w'(2) get_io_listener_def split: prod.splits)
  have "io_history U r (tr @ [Opened i]) l" by (rule io_history.step [OF h io_step.opened [OF free g]])
  moreover have "m_listeners l = (m_listeners (w_loop w))(a \<mapsto> \<lparr>l_callback = new_event_callback i, l_fd = fd\<rparr>)"
    using g by (auto simp: get_io_listener_def get_listener_eq new_event_callback_def split: prod.splits)
  ultimately show "\<exists>i. io_history U r (tr @ [Opened i]) (w_loop w')
      \<and> m_listeners (w_loop w') = (m_listeners (w_loop w))(a \<mapsto> \<lparr>l_callback = new_event_callback i, l_fd = fd\<rparr>)"
    by (auto simp: w'(2))
  show "address_free b (w_loop w')" if "address_free b (w_loop w)" "b \<noteq> a"
    using that g update_subset
    by (fastforce simp: w'(2) address_free_def get_io_listener_def get_listener_eq register_event_callback_def Let_def
        image_iff)
qed

lemma destroy_listener_history:
  assumes h: "io_history U r tr (w_loop w)" and li: "m_listeners (w_loop w) a = Some li"
    and d: "on_loop (destroy_listener a) w = (res, w')"
  shows "res = Done ()" "w_os w' = w_os w" "m_ring (w_loop w') = m_ring (w_loop w)"
    "io_history U r (tr @ [Closed (m_id (l_callback li))]) (w_loop w')"
    "m_listeners (w_loop w') = (m_listeners (w_loop w))(a := None)"
proof -
  obtain l where l: "destroy_listener a (w_loop w) = (Done (), l)" using li by (simp add: destroy_listener_def)
  have w': "res = Done ()" "w' = w\<lparr>w_loop := l\<rparr>" using d l by (simp_all add: on_loop_def)
  then show "res = Done ()" "w_os w' = w_os w" by simp_all
  show "io_history U r (tr @ [Closed (m_id (l_callback li))]) (w_loop w')"
    using io_history.step [OF h io_step.closed [OF li l]] by (simp add: w'(2))
  show "m_ring (w_loop w') = m_ring (w_loop w)" "m_listeners (w_loop w') = (m_listeners (w_loop w))(a := None)"
    using l li by (auto simp: w'(2) destroy_listener_def)
qed

text \<open>A request on a listener that is at rest suspends the coroutine; a listener that has just been made is at rest.\<close>

lemma idle_request_history:
  assumes h: "io_history U r tr (w_loop w)" and li: "m_listeners (w_loop w) a = Some li"
    and idle: "idle (l_callback li)" "m_status_opt (l_callback li) = None"
    and room: "u_get_sqe U (m_ring (w_loop w)) = (Some sqe, r1)" and a: "on_loop (await_request U h' a req) w = (res, w')"
  shows "res = Suspended" "w_os w' = w_os w"
    "io_history U r (tr @ [Requested h' (m_id (l_callback li)) (request_op req (l_fd li))]) (w_loop w')"
proof -
  obtain cb where co: "co_await h' (l_callback li) = (Suspended, cb)"
    using idle by (simp add: co_await_eq idle_def)
  obtain l where l: "await_request U h' a req (w_loop w) = (Suspended, l)"
    using li room co by (auto simp: await_request_def listener_request_eq split: prod.split)
  have w': "res = Suspended" "w' = w\<lparr>w_loop := l\<rparr>" using a l by (simp_all add: on_loop_def)
  then show "res = Suspended" "w_os w' = w_os w" by simp_all
  show "io_history U r (tr @ [Requested h' (m_id (l_callback li)) (request_op req (l_fd li))]) (w_loop w')"
    using io_history.step [OF h io_step.requested [OF li idle l]] by (simp add: w'(2))
qed

lemma new_callback_idle [simp]: "idle (new_event_callback i)" "m_status_opt (new_event_callback i) = None" "m_id (new_event_callback i) = i"
  by (simp_all add: new_event_callback_def new_suspended_coro_def idle_def)

lemma await_request_history:
  assumes "io_history U r tr (w_loop w)" "m_listeners (w_loop w) a = Some \<lparr>l_callback = new_event_callback i, l_fd = fd\<rparr>"
    "u_get_sqe U (m_ring (w_loop w)) = (Some sqe, r1)" "on_loop (await_request U h' a req) w = (res, w')"
  shows "res = Suspended" "w_os w' = w_os w" "io_history U r (tr @ [Requested h' i (request_op req fd)]) (w_loop w')"
  using idle_request_history [OF assms(1,2) _ _ assms(3,4)] by simp_all

section \<open>An operating system that meets the contract\<close>

text \<open>
  For the witnesses: what is held, the error number of the last failure, and the names of the calls that fail, with their error numbers.
\<close>

record plain_os =
  o_held :: "resource list"
  o_errno :: int
  o_fails :: "(string \<times> int) list"

definition fresh_fd :: "resource list \<Rightarrow> int" where
  "fresh_fd rs = foldr (\<lambda>x n. case x of Fd fd \<Rightarrow> max n (fd + 1) | Info _ \<Rightarrow> n) rs 3"

definition plain_call :: "string \<Rightarrow> (plain_os \<Rightarrow> int \<times> plain_os) \<Rightarrow> plain_os \<Rightarrow> int \<times> plain_os" where
  "plain_call name f k = (case map_of (o_fails k) name of Some e \<Rightarrow> (- 1, k\<lparr>o_errno := e\<rparr>) | None \<Rightarrow> f k)"

definition plain_open :: "plain_os \<Rightarrow> int \<times> plain_os" where
  "plain_open k = (fresh_fd (o_held k), k\<lparr>o_held := Fd (fresh_fd (o_held k)) # o_held k\<rparr>)"

definition plain_posix :: "plain_os posix" where
  "plain_posix =
     \<lparr>p_errno = o_errno,
      p_getaddrinfo = \<lambda>name service hints k. (if map_of (o_fails k) ''getaddrinfo'' = None
        then (0, hints, k\<lparr>o_held := Info hints # o_held k\<rparr>) else (- 2, hints, k)),
      p_gai_strerror = \<lambda>n. ''Name or service not known'',
      p_freeaddrinfo = \<lambda>res k. k\<lparr>o_held := remove1 (Info res) (o_held k)\<rparr>,
      p_socket = \<lambda>d ty proto. plain_call ''socket'' plain_open,
      p_bind = \<lambda>fd addr len. plain_call ''bind'' (Pair 0),
      p_listen = \<lambda>fd n. plain_call ''listen'' (Pair 0),
      p_access = \<lambda>path mode. plain_call ''access'' (Pair 0),
      p_unlink = \<lambda>path. plain_call ''unlink'' (Pair 0),
      p_chmod = \<lambda>path mode. plain_call ''chmod'' (Pair 0),
      p_shutdown = \<lambda>fd how. plain_call ''shutdown'' (Pair 0),
      p_close = \<lambda>fd. plain_call ''close'' (\<lambda>k. (0, k\<lparr>o_held := remove1 (Fd fd) (o_held k)\<rparr>)),
      p_timerfd_create = \<lambda>clock flags. plain_call ''timerfd_create'' plain_open,
      p_timerfd_settime = \<lambda>fd flags spec. plain_call ''timerfd_settime'' (Pair 0)\<rparr>"

definition plain_held :: "plain_os \<Rightarrow> resource multiset" where
  "plain_held k = mset (o_held k)"

lemma fresh_fd_greater: "Fd n \<in> set rs \<Longrightarrow> n < fresh_fd rs"
  by (induction rs) (auto simp: fresh_fd_def split: resource.split)

lemma fresh_fd_ge: "3 \<le> fresh_fd rs"
  by (induction rs) (auto simp: fresh_fd_def split: resource.split)

lemma plain_opens: "opens_fd plain_held (plain_call name plain_open)"
  unfolding opens_fd_def
proof (intro allI impI)
  fix k status k'
  assume c: "plain_call name plain_open k = (status, k')"
  show "if status < 0 then plain_held k' = plain_held k
    else Fd status \<notin># plain_held k \<and> plain_held k' = add_mset (Fd status) (plain_held k)"
    using c fresh_fd_greater [of "fresh_fd (o_held k)" "o_held k"] fresh_fd_ge [of "o_held k"]
    by (auto simp: plain_call_def plain_open_def plain_held_def split: option.splits)
qed

lemma plain_keeps: "keeps_all plain_held (plain_call name (Pair 0))"
  by (simp add: keeps_all_def plain_call_def plain_held_def split: option.split)

lemma plain_contract: "posix_contract plain_posix plain_held"
  unfolding posix_contract_def
  by (intro conjI) (auto simp: plain_posix_def plain_opens plain_keeps plain_held_def plain_call_def split: if_splits option.splits)

end
