(* ===== verification/Task.thy ===== *)
theory Task
  imports Events
begin

text \<open>
  \<open>task<>\<close> of \<open>cppevent_base/task.hpp\<close>, the task that owns the frame of a coroutine without a value. A coroutine runs at once when it
  is called, up to its first suspension; its body ends by returning or with an exception, and control goes on to the coroutine that awaits
  the task. \<open>task<T>\<close>, for a coroutine with a value, is in theory \<open>Task_Value\<close>.
  \<open>server::accept_connections\<close> is the one place that lets go of the frames. What the body does is not looked at here.
\<close>

section \<open>The frame of a coroutine\<close>

text \<open>A frame is running (or suspended in its body), at its final suspension, or freed.\<close>

datatype place = In_body | At_final | Freed

record promise_type =
  m_exception :: "error option"
  m_promise_linked :: bool
  m_outer :: suspended_coro
  m_place :: place

definition new_promise :: promise_type where
  "new_promise = \<lparr>m_exception = None, m_promise_linked = True, m_outer = new_suspended_coro, m_place = In_body\<rparr>"

definition return_void :: "promise_type \<Rightarrow> promise_type" where
  "return_void p = p"

definition unhandled_exception :: "error \<Rightarrow> promise_type \<Rightarrow> promise_type" where
  "unhandled_exception e p = p\<lparr>m_exception := Some e\<rparr>"

text \<open>
  The awaiter of the final suspension: a frame that is not linked runs off its end and is freed; otherwise it stays
  suspended, and the stored handle, if any, is resumed.
\<close>

record final_awaiter =
  m_final_linked :: bool

definition final_suspend :: "promise_type \<Rightarrow> final_awaiter" where
  "final_suspend p = \<lparr>m_final_linked = m_promise_linked p\<rparr>"

definition final_ready :: "final_awaiter \<Rightarrow> bool" where
  "final_ready a \<longleftrightarrow> \<not> m_final_linked a"

definition final_suspended :: "promise_type \<Rightarrow> handle option \<times> promise_type" where
  "final_suspended p = (case retrieve_handle (m_outer p) of (h, c) \<Rightarrow> (h, p\<lparr>m_outer := c, m_place := At_final\<rparr>))"

text \<open>The end of the body, by returning or with an exception, and who is resumed.\<close>

definition body_ends :: "error option \<Rightarrow> promise_type \<Rightarrow> handle option \<times> promise_type" where
  "body_ends result p =
     (let p1 = (case result of Some e \<Rightarrow> unhandled_exception e p | None \<Rightarrow> return_void p) in
      if final_ready (final_suspend p1) then (None, p1\<lparr>m_place := Freed\<rparr>) else final_suspended p1)"

section \<open>The task\<close>

record task =
  m_linked :: bool
  m_promise :: "promise_type"

definition new_task :: task where
  "new_task = \<lparr>m_linked = True, m_promise = new_promise\<rparr>"

definition task_ready :: "task \<Rightarrow> bool outcome" where
  "task_ready t = (case m_place (m_promise t) of Freed \<Rightarrow> Undefined | At_final \<Rightarrow> Done True | In_body \<Rightarrow> Done False)"

definition task_suspend :: "handle \<Rightarrow> task \<Rightarrow> task" where
  "task_suspend h t = t\<lparr>m_promise := (m_promise t)\<lparr>m_outer := store_handle h (m_outer (m_promise t))\<rparr>\<rparr>"

definition task_resume :: "task \<Rightarrow> unit outcome" where
  "task_resume t =
     (case m_exception (m_promise t) of Some e \<Rightarrow> Threw e | None \<Rightarrow> Done ())"

definition co_await_task :: "handle \<Rightarrow> (task, unit) comp" where
  "co_await_task h t =
     (case task_ready t of
        Done True \<Rightarrow> (task_resume t, t)
      | Done False \<Rightarrow> (Suspended, task_suspend h t)
      | _ \<Rightarrow> (Undefined, t))"

definition unlink :: "(task, unit) comp" where
  "unlink t =
     (if m_place (m_promise t) = Freed then (Undefined, t)
      else (Done (), t\<lparr>m_promise := (m_promise t)\<lparr>m_promise_linked := False\<rparr>, m_linked := False\<rparr>))"

text \<open>The destructor frees the frame, wherever the coroutine is.\<close>

definition destroy_task :: "(task, unit) comp" where
  "destroy_task t =
     (if \<not> m_linked t then (Done (), t)
      else if m_place (m_promise t) = Freed then (Undefined, t)
      else (Done (), t\<lparr>m_promise := (m_promise t)\<lparr>m_place := Freed\<rparr>\<rparr>))"

section \<open>Properties\<close>

definition ended_with :: "error option \<Rightarrow> unit outcome" where
  "ended_with result = (case result of Some e \<Rightarrow> Threw e | None \<Rightarrow> Done ())"

definition body_of :: "task \<Rightarrow> error option \<Rightarrow> handle option \<times> task" where
  "body_of t result = (case body_ends result (m_promise t) of (h, p) \<Rightarrow> (h, t\<lparr>m_promise := p\<rparr>))"

text \<open>
  whoever awaits a task goes on when its body has returned, or gets the exception it threw: when the body has
  ended, at once and nobody is resumed; otherwise the awaiting coroutine is suspended, the end of the body resumes
  exactly it, and then it gets the result. The task frees the frame when it is destroyed.
\<close>

theorem task_await_protocol:
  "(case body_of new_task result of (who, t) \<Rightarrow>
      who = None \<and> co_await_task h t = (ended_with result, t)
      \<and> (case destroy_task t of (r, t') \<Rightarrow> r = Done () \<and> m_place (m_promise t') = Freed))
   \<and> (case co_await_task h new_task of (r, t) \<Rightarrow>
      r = Suspended
      \<and> (case body_of t result of (who, t') \<Rightarrow>
           who = Some h \<and> task_resume t' = ended_with result
           \<and> (case destroy_task t' of (r', t'') \<Rightarrow> r' = Done () \<and> m_place (m_promise t'') = Freed)))"
  by (cases result)
    (simp_all add: body_of_def body_ends_def new_task_def new_promise_def final_ready_def final_suspend_def final_suspended_def
      retrieve_handle_def coro_reset_def store_handle_def new_suspended_coro_def return_void_def unhandled_exception_def
      co_await_task_def task_ready_def task_resume_def task_suspend_def destroy_task_def ended_with_def Let_def)

text \<open>
  What can happen to a task: its body ends, somebody awaits it, it is let go of, once, and it is destroyed, in any order that the
  language allows. \<open>alive\<close>: it has not been destroyed; \<open>late\<close>: it was let go of when its body had ended already.
\<close>

inductive task_reached :: "task \<Rightarrow> bool \<Rightarrow> bool \<Rightarrow> bool" where
  called: "task_reached new_task True False"
| ended: "task_reached t alive late \<Longrightarrow> m_place (m_promise t) = In_body \<Longrightarrow> task_reached (snd (body_of t result)) alive late"
| awaited: "task_reached t True late \<Longrightarrow> m_linked t \<Longrightarrow> task_reached (snd (co_await_task h t)) True late"
| let_go: "task_reached t True late \<Longrightarrow> m_linked t \<Longrightarrow> task_reached (snd (unlink t)) True (m_place (m_promise t) = At_final)"
| destroyed: "task_reached t True late \<Longrightarrow> task_reached (snd (destroy_task t)) False late"

lemma body_of_eq:
  "body_of t result =
     (let p = m_promise t\<lparr>m_exception := (case result of Some e \<Rightarrow> Some e | None \<Rightarrow> m_exception (m_promise t))\<rparr> in
      if m_promise_linked p
      then (m_handle (m_outer p), t\<lparr>m_promise := p\<lparr>m_outer := coro_reset (m_outer p), m_place := At_final\<rparr>\<rparr>)
      else (None, t\<lparr>m_promise := p\<lparr>m_place := Freed\<rparr>\<rparr>))"
  by (cases result) (simp_all add: body_of_def body_ends_def final_ready_def final_suspend_def final_suspended_def
      return_void_def unhandled_exception_def retrieve_handle_def Let_def)

lemma body_of_simps:
  "m_linked (snd (body_of t result)) = m_linked t"
  "m_promise_linked (m_promise (snd (body_of t result))) = m_promise_linked (m_promise t)"
  "m_place (m_promise (snd (body_of t result))) = (if m_promise_linked (m_promise t) then At_final else Freed)"
  unfolding body_of_eq by (simp_all add: Let_def)

lemma co_await_simps:
  "m_linked (snd (co_await_task h t)) = m_linked t"
  "m_promise_linked (m_promise (snd (co_await_task h t))) = m_promise_linked (m_promise t)"
  "m_place (m_promise (snd (co_await_task h t))) = m_place (m_promise t)"
  by (cases "m_place (m_promise t)"; simp add: co_await_task_def task_ready_def task_suspend_def)+

text \<open>A frame is freed only by the destructor of a linked task, or by the end of the body of one that is not.\<close>

lemma task_reached_frame:
  "task_reached t alive late \<Longrightarrow> m_promise_linked (m_promise t) = m_linked t
     \<and> (m_place (m_promise t) = Freed \<longleftrightarrow> \<not> alive \<and> m_linked t \<or> \<not> m_linked t \<and> \<not> late \<and> m_place (m_promise t) \<noteq> In_body)
     \<and> (late \<longrightarrow> m_place (m_promise t) = At_final \<and> \<not> m_linked t)"
proof (induction rule: task_reached.induct)
  case called
  then show ?case by (simp add: new_task_def new_promise_def)
next
  case (ended t alive late result)
  then show ?case by (auto simp: body_of_simps)
next
  case (awaited t late h)
  then show ?case by (simp add: co_await_simps)
next
  case (let_go t late)
  then show ?case by (cases "m_place (m_promise t)") (auto simp: unlink_def)
next
  case (destroyed t late)
  then show ?case by (auto simp: destroy_task_def)
qed

text \<open>
  C19: the frame of a coroutine is never used after it has been freed and never freed twice, whatever the order of the end of the body, an
  await, letting go and the destructor. Once the task is gone, the frame is freed, or its body is still running on its own
  and will free it; the exception is a task that is let go of when its body has ended already, whose frame is never freed.
\<close>

theorem task_frame_lifetime:
  assumes "task_reached t alive late"
  shows "(alive \<longrightarrow> fst (destroy_task t) = Done () \<and> (m_linked t \<longrightarrow> fst (unlink t) = Done () \<and> fst (co_await_task h t) \<noteq> Undefined))
    \<and> (\<not> alive \<longrightarrow> m_place (m_promise t) = (if late then At_final else if m_linked t then Freed else m_place (m_promise t))
         \<and> (\<not> late \<and> m_place (m_promise t) = In_body \<longrightarrow> m_place (m_promise (snd (body_of t result))) = Freed))
    \<and> (late \<longrightarrow> m_place (m_promise t) = At_final)"
proof -
  note f = task_reached_frame [OF assms]
  have "fst (co_await_task h t) \<noteq> Undefined" if "m_place (m_promise t) \<noteq> Freed"
    using that by (cases "m_place (m_promise t)")
      (auto simp: co_await_task_def task_ready_def task_resume_def split: option.splits)
  then show ?thesis
    using f by (auto simp: destroy_task_def unlink_def body_of_simps)
qed

theorem task_frame_lifetime_witness:
  "task_reached (snd (unlink (snd (body_of new_task None)))) True True
    \<and> m_place (m_promise (snd (unlink (snd (body_of new_task None))))) = At_final"
proof -
  let ?t = "snd (body_of new_task None)"
  have "task_reached ?t True False"
    by (rule task_reached.ended [OF task_reached.called]) (simp add: new_task_def new_promise_def)
  from task_reached.let_go [OF this] have r: "task_reached (snd (unlink ?t)) True True"
    by (simp add: body_of_simps) (simp add: new_task_def new_promise_def)
  with task_frame_lifetime [OF r] show ?thesis by simp
qed

end
