(* ===== verification/Server.thy ===== *)
theory Server
  imports Task
begin

text \<open>
  \<open>cppevent_net/server\<close> and the \<open>accept\<close> of \<open>server_socket\<close>: the coroutine that accepts connections. The answers of the kernel are a list
  of statuses, a descriptor or a negated error number; the handler is the application's, and gives the task of a connection as it is
  when its coroutine is first suspended, or has ended.
\<close>

definition server_accept :: "int \<Rightarrow> nat outcome" where
  "server_accept status =
     (if status < 0 then Threw (Errno_error ''server_socket accept failed: '' (0 - status)) else Done (nat status))"

text \<open>The connections that were handled, with what their tasks leave behind, and how the loop ends: it waits, or throws.\<close>

fun accept_connections :: "(nat \<Rightarrow> task) \<Rightarrow> int list \<Rightarrow> (nat \<times> task) list \<times> unit outcome" where
  "accept_connections on_connection [] = ([], Suspended)"
| "accept_connections on_connection (status # statuses) =
     (case server_accept status of
        Done sock \<Rightarrow>
          (case unlink (on_connection sock) of
             (Done _, t) \<Rightarrow>
               (case accept_connections on_connection statuses of
                  (conns, r) \<Rightarrow> ((sock, snd (destroy_task t)) # conns, r))
           | _ \<Rightarrow> ([], Undefined))
      | Threw e \<Rightarrow> ([], Threw e)
      | Suspended \<Rightarrow> ([], Suspended)
      | Undefined \<Rightarrow> ([], Undefined))"

definition connection_task_ok :: "task \<Rightarrow> bool" where
  "connection_task_ok t \<longleftrightarrow> task_reached t True False \<and> m_linked t"

text \<open>
  every connection that the kernel hands over is handled, in order, until an accept fails; the first failure, of whatever kind,
  ends the loop with an exception, and the connections that come later are not handled. The frame of a connection's coroutine is
  let go of: it is still running when the coroutine has been suspended, and is left behind when it ended at once.
\<close>

theorem server_accepts_until_error:
  assumes "\<forall>sock. connection_task_ok (on_connection sock)"
  shows "case accept_connections on_connection statuses of (conns, r) \<Rightarrow>
     map fst conns = map nat (takeWhile (\<lambda>s. 0 \<le> s) statuses)
   \<and> r = (case dropWhile (\<lambda>s. 0 \<le> s) statuses of
            [] \<Rightarrow> Suspended | s # _ \<Rightarrow> Threw (Errno_error ''server_socket accept failed: '' (- s)))
   \<and> (\<forall>(sock, t) \<in> set conns. task_reached t False (m_place (m_promise (on_connection sock)) = At_final)
        \<and> \<not> m_linked t \<and> m_place (m_promise t) = m_place (m_promise (on_connection sock)))"
proof (induction statuses)
  case Nil
  then show ?case by simp
next
  case (Cons status statuses)
  show ?case
  proof (cases "status < 0")
    case True
    then show ?thesis by (simp add: server_accept_def)
  next
    case False
    let ?t = "on_connection (nat status)"
    have ok: "task_reached ?t True False" "m_linked ?t" using assms by (simp_all add: connection_task_ok_def)
    have fr: "m_place (m_promise ?t) \<noteq> Freed" using task_reached_frame [OF ok(1)] ok(2) by simp
    then obtain u where u: "unlink ?t = (Done (), u)" "\<not> m_linked u" "m_place (m_promise u) = m_place (m_promise ?t)"
      by (simp add: unlink_def)
    have r: "task_reached u True (m_place (m_promise ?t) = At_final)" using task_reached.let_go [OF ok] u(1) by simp
    have d: "snd (destroy_task u) = u" using u(2) by (simp add: destroy_task_def)
    have c: "task_reached u False (m_place (m_promise ?t) = At_final)" using task_reached.destroyed [OF r] d by simp
    obtain conns res where rest: "accept_connections on_connection statuses = (conns, res)" by fastforce
    have "accept_connections on_connection (status # statuses) = ((nat status, u) # conns, res)"
      using False u(1) d rest by (simp add: server_accept_def)
    then show ?thesis using Cons.IH False u(2,3) c unfolding rest by simp
  qed
qed

theorem server_accepts_until_error_witness:
  "map fst (fst (accept_connections (\<lambda>_. new_task) [7, 8, - 24, 9])) = [7, 8]
    \<and> snd (accept_connections (\<lambda>_. new_task) [7, 8, - 24, 9]) = Threw (Errno_error ''server_socket accept failed: '' 24)"
proof -
  have "\<forall>sock. connection_task_ok ((\<lambda>_. new_task) (sock :: nat))"
    using task_reached.called by (auto simp: connection_task_ok_def new_task_def)
  from server_accepts_until_error [OF this, of "[7, 8, - 24, 9]"] show ?thesis by (simp split: prod.splits)
qed

end
