(* ===== verification/Net.thy ===== *)
theory Net
  imports Os Server
begin

text \<open>
  \<open>cppevent_net\<close> around a connected socket: \<open>client_socket\<close>, the constructors, the destructor and \<open>accept\<close> of \<open>server_socket\<close>,
  \<open>get_addrinfo\<close>, and the constructors, \<open>shutdown\<close> and the destructor of \<open>socket\<close>; its buffers and what it reads and writes are
  in theory \<open>Socket\<close>. A coroutine is cut at its suspension: the part before it, and the part that is given the status.
\<close>

section \<open>Constants\<close>

definition AF_UNSPEC :: int where "AF_UNSPEC = 0"
definition AF_UNIX :: int where "AF_UNIX = 1"
definition SOCK_STREAM :: int where "SOCK_STREAM = 1"
definition AI_PASSIVE :: int where "AI_PASSIVE = 1"
definition AI_ADDRCONFIG :: int where "AI_ADDRCONFIG = 32"
definition F_OK :: int where "F_OK = 0"
definition SHUT_RDWR :: int where "SHUT_RDWR = 2"

text \<open>Read and write for the owner, the group and others.\<close>

definition SOCKET_MODE :: int where
  "SOCKET_MODE = 256 OR 128 OR 32 OR 16 OR 4 OR 2"

section \<open>Addresses\<close>

definition addr_hints :: "bool \<Rightarrow> addrinfo" where
  "addr_hints to_bind =
     \<lparr>ai_flags = (if to_bind then AI_ADDRCONFIG OR AI_PASSIVE else AI_ADDRCONFIG), ai_family = AF_UNSPEC,
      ai_socktype = SOCK_STREAM, ai_protocol = 0, ai_addr = Sockaddr [], ai_addrlen = 0\<rparr>"

definition get_addrinfo :: "'k posix \<Rightarrow> string \<Rightarrow> string \<Rightarrow> bool \<Rightarrow> (('k, 'r) world, addrinfo) comp" where
  "get_addrinfo P name service to_bind w =
     (case p_getaddrinfo P name service (addr_hints to_bind) (w_os w) of
        (status, res, k) \<Rightarrow>
          (if status \<noteq> 0 then Threw (Runtime_error (''getaddrinfo failed: '' @ p_gai_strerror P status)) else Done res,
           w\<lparr>w_os := k\<rparr>))"

text \<open>\<open>strcpy\<close> into the 108 bytes of \<open>sun_path\<close>, which were zero; \<open>None\<close>: out of bounds.\<close>

definition sun_path_of :: "string \<Rightarrow> byte list option" where
  "sun_path_of path = (if length path + 1 \<le> 108 then Some (bytes path @ replicate (108 - length path) 0) else None)"

definition unix_addr :: "string \<Rightarrow> (('k, 'r) world, sockaddr_un) comp" where
  "unix_addr path w =
     (case sun_path_of path of
        None \<Rightarrow> (Undefined, w)
      | Some p \<Rightarrow> (Done \<lparr>sun_family = AF_UNIX, sun_path = p\<rparr>, w))"

text \<open>\<open>sizeof(sockaddr_un)\<close>\<close>

definition SOCKADDR_UN_SIZE :: "32 word" where
  "SOCKADDR_UN_SIZE = 110"

section \<open>Socket\<close>

record socket_ends =
  so_fd :: int
  so_read_listener :: nat
  so_write_listener :: nat

definition socket_of_listeners :: "int \<Rightarrow> nat \<Rightarrow> nat \<Rightarrow> (('k, 'r) world, socket_ends) comp" where
  "socket_of_listeners fd rl wl = return \<lparr>so_fd = fd, so_read_listener = rl, so_write_listener = wl\<rparr>"

definition socket_of_fd :: "int \<Rightarrow> nat \<Rightarrow> nat \<Rightarrow> (('k, 'r) world, socket_ends) comp" where
  "socket_of_fd fd rl wl =
     and_then (make_listener rl fd) (\<lambda>_. and_then (make_listener wl fd) (\<lambda>_. socket_of_listeners fd rl wl))"

definition socket_shutdown :: "'k posix \<Rightarrow> socket_ends \<Rightarrow> (('k, 'r) world, unit) comp" where
  "socket_shutdown P so =
     and_then (checked_call P (p_shutdown P (so_fd so) SHUT_RDWR) ''Failed to shutdown socket fd: '') (\<lambda>_. return ())"

text \<open>
  A destructor does not throw: when its outcome is an exception the program is terminated. Behind its body the members are
  destroyed, the last one first.
\<close>

definition destroy_socket :: "'k posix \<Rightarrow> socket_ends \<Rightarrow> (('k, 'r) world, unit) comp" where
  "destroy_socket P so =
     and_then (checked_call P (p_close P (so_fd so)) ''Failed to close socket fd: '') (\<lambda>_.
     and_then (on_loop (destroy_listener (so_write_listener so))) (\<lambda>_. on_loop (destroy_listener (so_read_listener so))))"

section \<open>Client\<close>

datatype client_socket = Client_inet addrinfo | Client_unix sockaddr_un

definition new_client_inet :: "'k posix \<Rightarrow> string \<Rightarrow> string \<Rightarrow> (('k, 'r) world, client_socket) comp" where
  "new_client_inet P name service = and_then (get_addrinfo P name service False) (\<lambda>res. return (Client_inet res))"

definition new_client_unix :: "string \<Rightarrow> (('k, 'r) world, client_socket) comp" where
  "new_client_unix path = and_then (unix_addr path) (\<lambda>addr. return (Client_unix addr))"

fun destroy_client :: "'k posix \<Rightarrow> client_socket \<Rightarrow> (('k, 'r) world, unit) comp" where
  "destroy_client P (Client_inet res) = free_info P res"
| "destroy_client P (Client_unix addr) = return ()"

fun client_open :: "'k posix \<Rightarrow> client_socket \<Rightarrow> 'k \<Rightarrow> int \<times> 'k" where
  "client_open P (Client_unix addr) = p_socket P AF_UNIX SOCK_STREAM 0"
| "client_open P (Client_inet res) = p_socket P (ai_family res) (ai_socktype res) (ai_protocol res)"

fun client_addrlen :: "client_socket \<Rightarrow> 32 word" where
  "client_addrlen (Client_unix addr) = SOCKADDR_UN_SIZE"
| "client_addrlen (Client_inet res) = ai_addrlen res"

text \<open>
  \<open>connect\<close> by the coroutine \<open>h\<close> up to its suspension: the address is in memory at \<open>addr_at\<close>, the listeners are made at
  \<open>rl\<close> and \<open>wl\<close>. It gives the descriptor, which is a local variable of the coroutine.
\<close>

definition connect_start :: "'k posix \<Rightarrow> 'r liburing \<Rightarrow> handle \<Rightarrow> pointer \<Rightarrow> nat \<Rightarrow> nat \<Rightarrow> client_socket
    \<Rightarrow> (('k, 'r) world, int \<times> e_status outcome) comp" where
  "connect_start P U h addr_at rl wl cl =
     and_then (checked_call P (client_open P cl) ''client_socket failed to create socket: '') (\<lambda>fd.
     and_then (make_listener rl fd) (\<lambda>_.
     and_then (make_listener wl fd) (\<lambda>_ w.
       (case on_loop (await_request U h wl (Connect addr_at (client_addrlen cl))) w of (r, w1) \<Rightarrow> (Done (fd, r), w1)))))"

text \<open>The rest of \<open>connect\<close>: when it throws, its locals are destroyed, the last one first.\<close>

definition connect_resumed :: "int \<Rightarrow> nat \<Rightarrow> nat \<Rightarrow> e_status \<Rightarrow> (('k, 'r) world, socket_ends) comp" where
  "connect_resumed fd rl wl status =
     (if status < 0
      then and_then (on_loop (destroy_listener wl)) (\<lambda>_. and_then (on_loop (destroy_listener rl)) (\<lambda>_ w.
             (throw_error ''client_socket failed to connect: '' (0 - status), w)))
      else socket_of_listeners fd rl wl)"

section \<open>Server\<close>

record server_socket =
  ss_fd :: int
  ss_listener :: nat

definition listen_on :: "'k posix \<Rightarrow> int \<Rightarrow> nat \<Rightarrow> (('k, 'r) world, server_socket) comp" where
  "listen_on P fd a =
     and_then (checked_call P (p_listen P fd 5) ''server_socket listen failed: '') (\<lambda>_.
     and_then (make_listener a fd) (\<lambda>_. return \<lparr>ss_fd = fd, ss_listener = a\<rparr>))"

definition new_server_inet :: "'k posix \<Rightarrow> string \<Rightarrow> string \<Rightarrow> nat \<Rightarrow> (('k, 'r) world, server_socket) comp" where
  "new_server_inet P name service a =
     and_then (get_addrinfo P name service True) (\<lambda>res.
     and_then (checked_call P (p_socket P (ai_family res) (ai_socktype res) (ai_protocol res))
       ''server_socket failed to create socket: '') (\<lambda>fd.
     and_then (checked_call P (p_bind P fd (ai_addr res) (ai_addrlen res)) ''server_socket bind failed: '') (\<lambda>_.
     and_then (listen_on P fd a) (\<lambda>ss.
     and_then (free_info P res) (\<lambda>_. return ss)))))"

definition remove_path :: "'k posix \<Rightarrow> string \<Rightarrow> (('k, 'r) world, unit) comp" where
  "remove_path P path =
     and_then (call (p_access P path F_OK)) (\<lambda>status.
       if status = 0
       then and_then (checked_call P (p_unlink P path) ''server_socket failed to unlink unix path: '') (\<lambda>_. return ())
       else return ())"

definition new_server_unix :: "'k posix \<Rightarrow> string \<Rightarrow> nat \<Rightarrow> (('k, 'r) world, server_socket) comp" where
  "new_server_unix P path a =
     and_then (remove_path P path) (\<lambda>_.
     and_then (checked_call P (p_socket P AF_UNIX SOCK_STREAM 0) ''server_socket failed to create socket: '') (\<lambda>fd.
     and_then (unix_addr path) (\<lambda>addr.
     and_then (checked_call P (p_bind P fd (Sockaddr_un addr) SOCKADDR_UN_SIZE) ''server_socket bind failed: '') (\<lambda>_.
     and_then (checked_call P (p_chmod P path SOCKET_MODE) ''server_socket chmod failed: '') (\<lambda>_.
     listen_on P fd a)))))"

definition destroy_server :: "'k posix \<Rightarrow> server_socket \<Rightarrow> (('k, 'r) world, unit) comp" where
  "destroy_server P ss =
     and_then (checked_call P (p_close P (ss_fd ss)) ''server_socket close failed: '') (\<lambda>_. on_loop (destroy_listener (ss_listener ss)))"

text \<open>\<open>accept\<close> up to its suspension, with its local variables in memory at the two addresses, and behind it.\<close>

definition accept_start :: "'r liburing \<Rightarrow> handle \<Rightarrow> pointer \<Rightarrow> pointer \<Rightarrow> server_socket \<Rightarrow> (('k, 'r) world, e_status) comp" where
  "accept_start U h addr_at len_at ss = on_loop (await_request U h (ss_listener ss) (Accept addr_at len_at))"

definition accept_resumed :: "nat \<Rightarrow> nat \<Rightarrow> e_status \<Rightarrow> (('k, 'r) world, socket_ends) comp" where
  "accept_resumed rl wl status =
     (if status < 0 then (\<lambda>w. (throw_error ''server_socket accept failed: '' (0 - status), w)) else socket_of_fd status rl wl)"

text \<open>\<open>server\<close>: its socket, and the accept loop up to its first suspension.\<close>

definition new_server :: "(('k, 'r) world, server_socket) comp \<Rightarrow> 'r liburing \<Rightarrow> handle \<Rightarrow> pointer \<Rightarrow> pointer
    \<Rightarrow> (('k, 'r) world, server_socket \<times> e_status outcome) comp" where
  "new_server construct U h addr_at len_at =
     and_then construct (\<lambda>ss w. (case accept_start U h addr_at len_at ss w of (r, w1) \<Rightarrow> (Done (ss, r), w1)))"

section \<open>What a constructor leaves behind\<close>

lemma get_addrinfo_leaves:
  assumes "posix_contract P held" "holds_at held h l w"
  shows "triple (get_addrinfo P name service to_bind) w (\<lambda>res. holds_at held (add_mset (Info res) h) l)
    (\<lambda>e w'. (\<exists>msg. e = Runtime_error msg) \<and> holds_at held h l w') u"
  using assms(2) posix_contractD(11) [OF assms(1)]
  by (auto simp: triple_def get_addrinfo_def holds_at_def split: prod.split)

lemma free_info_leaves:
  "\<lbrakk>posix_contract P held; holds_at held h l w\<rbrakk> \<Longrightarrow> triple (free_info P res) w (\<lambda>_. holds_at held (h - {#Info res#}) l) E u"
  using posix_contractD(12) [of P held] by (simp add: triple_def free_info_def holds_at_def)

lemma listen_on_leaves:
  assumes "posix_contract P held" "holds_at held h l w"
  shows "triple (listen_on P fd a) w (\<lambda>ss w'. ss = \<lparr>ss_fd = fd, ss_listener = a\<rparr> \<and> holds_at held h (snd (get_io_listener a fd l)) w')
    (\<lambda>e w'. e = Errno_error ''server_socket listen failed: '' (p_errno P (w_os w')) \<and> holds_at held h l w') u"
  unfolding listen_on_def
  by (rule triple_bind [OF checked_keeps [OF assms(1) posix_contractD(4) [OF assms(1)] assms(2)]], assumption,
      rule triple_bind [OF make_listener_leaves], assumption, assumption) simp

text \<open>What an exception of a constructor loses: nothing, the address list, a descriptor, or both.\<close>

fun server_loss :: "'k posix \<Rightarrow> bool \<Rightarrow> error \<Rightarrow> 'k \<Rightarrow> resource multiset \<Rightarrow> bool" where
  "server_loss P is_unix (Runtime_error msg) k lost \<longleftrightarrow> \<not> is_unix \<and> lost = {#}"
| "server_loss P is_unix (Errno_error prefix n) k lost \<longleftrightarrow> n = p_errno P k \<and>
     (if is_unix
      then prefix \<in> {''server_socket failed to unlink unix path: '', ''server_socket failed to create socket: ''} \<and> lost = {#}
        \<or> prefix \<in> {''server_socket bind failed: '', ''server_socket chmod failed: '', ''server_socket listen failed: ''}
          \<and> (\<exists>fd. lost = {#Fd fd#})
      else prefix = ''server_socket failed to create socket: '' \<and> (\<exists>res. lost = {#Info res#})
        \<or> prefix \<in> {''server_socket bind failed: '', ''server_socket listen failed: ''} \<and> (\<exists>res fd. lost = {#Info res, Fd fd#}))"
| "server_loss P is_unix Length_error k lost \<longleftrightarrow> False"

lemma server_lossI:
  "\<lbrakk>n = p_errno P k; prefix \<in> {''server_socket failed to unlink unix path: '', ''server_socket failed to create socket: ''}\<rbrakk>
    \<Longrightarrow> server_loss P True (Errno_error prefix n) k {#}"
  "\<lbrakk>n = p_errno P k; prefix \<in> {''server_socket bind failed: '', ''server_socket chmod failed: '', ''server_socket listen failed: ''}\<rbrakk>
    \<Longrightarrow> server_loss P True (Errno_error prefix n) k {#Fd fd#}"
  "n = p_errno P k \<Longrightarrow> server_loss P False (Errno_error ''server_socket failed to create socket: '' n) k {#Info res#}"
  "\<lbrakk>n = p_errno P k; prefix \<in> {''server_socket bind failed: '', ''server_socket listen failed: ''}\<rbrakk>
    \<Longrightarrow> server_loss P False (Errno_error prefix n) k {#Info res, Fd fd#}"
  unfolding server_loss.simps if_True if_False by blast+

declare server_loss.simps [simp del]

lemma loses_info_fd:
  assumes "e = Errno_error prefix (p_errno P (w_os w1)) \<and> holds_at held (add_mset (Fd fd) (add_mset (Info res) h)) l w1"
    "prefix \<in> {''server_socket bind failed: '', ''server_socket listen failed: ''}"
  shows "\<exists>lost. server_loss P False e (w_os w1) lost \<and> holds_at held (h + lost) l w1"
proof (intro exI conjI)
  show "server_loss P False e (w_os w1) {#Info res, Fd fd#}" using server_lossI(4) [OF refl assms(2)] assms(1) by simp
  show "holds_at held (h + {#Info res, Fd fd#}) l w1" using assms(1) by (simp add: add_mset_commute)
qed

lemma loses_fd:
  assumes "e = Errno_error prefix (p_errno P (w_os w1)) \<and> holds_at held (add_mset (Fd fd) h) l w1"
    "prefix \<in> {''server_socket bind failed: '', ''server_socket chmod failed: '', ''server_socket listen failed: ''}"
  shows "\<exists>lost. server_loss P True e (w_os w1) lost \<and> holds_at held (h + lost) l w1"
proof (intro exI conjI)
  show "server_loss P True e (w_os w1) {#Fd fd#}" using server_lossI(2) [OF refl assms(2)] assms(1) by simp
  show "holds_at held (h + {#Fd fd#}) l w1" using assms(1) by simp
qed

lemma loses_nothing:
  assumes "e = Errno_error prefix (p_errno P (w_os w1)) \<and> holds_at held h l w1"
    "prefix \<in> {''server_socket failed to unlink unix path: '', ''server_socket failed to create socket: ''}"
  shows "\<exists>lost. server_loss P True e (w_os w1) lost \<and> holds_at held (h + lost) l w1"
proof (intro exI conjI)
  show "server_loss P True e (w_os w1) {#}" using server_lossI(1) [OF refl assms(2)] assms(1) by simp
  show "holds_at held (h + {#}) l w1" using assms(1) by simp
qed

lemma loses_info:
  assumes "e = Errno_error ''server_socket failed to create socket: '' (p_errno P (w_os w1)) \<and> holds_at held (add_mset (Info res) h) l w1"
  shows "\<exists>lost. server_loss P False e (w_os w1) lost \<and> holds_at held (h + lost) l w1"
proof (intro exI conjI)
  show "server_loss P False e (w_os w1) {#Info res#}" using server_lossI(3) [OF refl] assms by simp
  show "holds_at held (h + {#Info res#}) l w1" using assms by simp
qed

lemma server_inet_leaves:
  assumes P: "posix_contract P held" and w: "holds_at held h l w"
  shows "triple (new_server_inet P name service a) w
    (\<lambda>ss w'. ss_listener ss = a \<and> holds_at held (add_mset (Fd (ss_fd ss)) h) (snd (get_io_listener a (ss_fd ss) l)) w')
    (\<lambda>e w'. \<exists>lost. server_loss P False e (w_os w') lost \<and> holds_at held (h + lost) l w') u"
  unfolding new_server_inet_def
proof (rule triple_bind [OF get_addrinfo_leaves [OF P w]])
  fix res w1
  assume w1: "holds_at held (add_mset (Info res) h) l w1"
  show "triple (and_then (checked_call P (p_socket P (ai_family res) (ai_socktype res) (ai_protocol res))
       ''server_socket failed to create socket: '') (\<lambda>fd.
     and_then (checked_call P (p_bind P fd (ai_addr res) (ai_addrlen res)) ''server_socket bind failed: '') (\<lambda>_.
     and_then (listen_on P fd a) (\<lambda>ss. and_then (free_info P res) (\<lambda>_. return ss))))) w1
    (\<lambda>ss w'. ss_listener ss = a \<and> holds_at held (add_mset (Fd (ss_fd ss)) h) (snd (get_io_listener a (ss_fd ss) l)) w')
    (\<lambda>e w'. \<exists>lost. server_loss P False e (w_os w') lost \<and> holds_at held (h + lost) l w') u"
  proof (rule triple_bind [OF checked_opens [OF P posix_contractD(1) [OF P] w1]])
    fix fd w2
    assume w2: "holds_at held (add_mset (Fd fd) (add_mset (Info res) h)) l w2"
    show "triple (and_then (checked_call P (p_bind P fd (ai_addr res) (ai_addrlen res)) ''server_socket bind failed: '') (\<lambda>_.
       and_then (listen_on P fd a) (\<lambda>ss. and_then (free_info P res) (\<lambda>_. return ss)))) w2
      (\<lambda>ss w'. ss_listener ss = a \<and> holds_at held (add_mset (Fd (ss_fd ss)) h) (snd (get_io_listener a (ss_fd ss) l)) w')
      (\<lambda>e w'. \<exists>lost. server_loss P False e (w_os w') lost \<and> holds_at held (h + lost) l w') u"
      by (rule triple_bind [OF checked_keeps [OF P posix_contractD(3) [OF P] w2]], erule loses_info_fd, simp,
          rule triple_bind [OF listen_on_leaves [OF P]], assumption, erule loses_info_fd, simp,
          erule conjE, rule triple_bind [OF free_info_leaves [OF P, where E = "\<lambda>_ _. False"]], assumption, erule FalseE)
        (simp add: holds_at_def)
  qed (rule loses_info)
qed (rule exI [of _ "{#}"], auto simp: server_loss.simps)

lemma remove_path_leaves:
  assumes P: "posix_contract P held" and w: "holds_at held h l w"
  shows "triple (remove_path P path) w (\<lambda>_. holds_at held h l)
    (\<lambda>e w'. e = Errno_error ''server_socket failed to unlink unix path: '' (p_errno P (w_os w')) \<and> holds_at held h l w') u"
  unfolding remove_path_def
proof (rule triple_bind)
  show "triple (call (p_access P path F_OK)) w (\<lambda>_. holds_at held h l) (\<lambda>_ _. False) u"
    using w keeps_allD [OF posix_contractD(5) [OF P]] by (auto simp: triple_def call_def holds_at_def split: prod.split)
  show "triple (if status = 0
       then and_then (checked_call P (p_unlink P path) ''server_socket failed to unlink unix path: '') (\<lambda>_. return ())
       else return ()) w1 (\<lambda>_. holds_at held h l)
    (\<lambda>e w'. e = Errno_error ''server_socket failed to unlink unix path: '' (p_errno P (w_os w')) \<and> holds_at held h l w') u"
    if "holds_at held h l w1" for status :: int and w1
    using that by (auto intro!: triple_bind [OF checked_keeps [OF P posix_contractD(6) [OF P] that]])
qed simp

lemma unix_addr_leaves:
  "holds_at held h l w \<Longrightarrow> triple (unix_addr path) w (\<lambda>_. holds_at held h l) E (108 \<le> length path)"
  by (simp add: triple_def unix_addr_def sun_path_of_def)

lemma server_unix_leaves:
  assumes P: "posix_contract P held" and w: "holds_at held h l w"
  shows "triple (new_server_unix P path a) w
    (\<lambda>ss w'. ss_listener ss = a \<and> holds_at held (add_mset (Fd (ss_fd ss)) h) (snd (get_io_listener a (ss_fd ss) l)) w')
    (\<lambda>e w'. \<exists>lost. server_loss P True e (w_os w') lost \<and> holds_at held (h + lost) l w') (108 \<le> length path)"
  unfolding new_server_unix_def
  by (rule triple_bind [OF remove_path_leaves [OF P w]], erule loses_nothing, simp,
      rule triple_bind [OF checked_opens [OF P posix_contractD(1) [OF P]]], assumption, erule loses_nothing, simp,
      rule triple_bind [OF unix_addr_leaves [where E = "\<lambda>_ _. False"]], assumption, erule FalseE,
      rule triple_bind [OF checked_keeps [OF P posix_contractD(3) [OF P]]], assumption, erule loses_fd, simp,
      rule triple_bind [OF checked_keeps [OF P posix_contractD(7) [OF P]]], assumption, erule loses_fd, simp,
      rule triple_weaken [OF listen_on_leaves [OF P]], assumption, simp, erule loses_fd, simp, assumption)

text \<open>
  The contract of the constructors: which calls they make, in order, up to the first one that fails, with the text its failure is
  reported with.
\<close>

fun succeed_all :: "'k posix \<Rightarrow> (string \<times> ('k \<Rightarrow> int \<times> 'k)) list \<Rightarrow> 'k \<Rightarrow> error option \<times> 'k" where
  "succeed_all P [] k = (None, k)"
| "succeed_all P ((prefix, f) # calls) k =
     (case f k of (status, k1) \<Rightarrow>
        if status < 0 then (Some (Errno_error prefix (p_errno P k1)), k1) else succeed_all P calls k1)"

definition opened_server :: "'k posix \<Rightarrow> (int \<Rightarrow> (string \<times> ('k \<Rightarrow> int \<times> 'k)) list) \<Rightarrow> int \<times> 'k \<Rightarrow> (error + int) \<times> 'k" where
  "opened_server P calls st = (case st of (fd, k) \<Rightarrow>
     if fd < 0 then (Inl (Errno_error ''server_socket failed to create socket: '' (p_errno P k)), k)
     else (case succeed_all P (calls fd) k of (Some e, k1) \<Rightarrow> (Inl e, k1) | (None, k1) \<Rightarrow> (Inr fd, k1)))"

definition inet_outcome :: "'k posix \<Rightarrow> string \<Rightarrow> string \<Rightarrow> 'k \<Rightarrow> (error + int) \<times> 'k" where
  "inet_outcome P name service k =
     (case p_getaddrinfo P name service (addr_hints True) k of (status, res, k0) \<Rightarrow>
        if status \<noteq> 0 then (Inl (Runtime_error (''getaddrinfo failed: '' @ p_gai_strerror P status)), k0)
        else (case opened_server P (\<lambda>fd. [(''server_socket bind failed: '', p_bind P fd (ai_addr res) (ai_addrlen res)),
                                   (''server_socket listen failed: '', p_listen P fd 5)])
                (p_socket P (ai_family res) (ai_socktype res) (ai_protocol res) k0) of
                (Inl e, k1) \<Rightarrow> (Inl e, k1)
              | (Inr fd, k1) \<Rightarrow> (Inr fd, p_freeaddrinfo P res k1)))"

definition unix_outcome :: "'k posix \<Rightarrow> string \<Rightarrow> 'k \<Rightarrow> (error + int) \<times> 'k" where
  "unix_outcome P path k =
     (case p_access P path 0 k of (there, k0) \<Rightarrow>
        case succeed_all P (if there = 0 then [(''server_socket failed to unlink unix path: '', p_unlink P path)] else []) k0 of
          (Some e, k1) \<Rightarrow> (Inl e, k1)
        | (None, k1) \<Rightarrow>
            opened_server P (\<lambda>fd. [(''server_socket bind failed: '',
                              p_bind P fd (Sockaddr_un \<lparr>sun_family = 1, sun_path = bytes path @ replicate (108 - length path) 0\<rparr>) 110),
                            (''server_socket chmod failed: '', p_chmod P path 438),
                            (''server_socket listen failed: '', p_listen P fd 5)])
              (p_socket P 1 1 0 k1))"

definition ends_as :: "(('k, 'r) world, server_socket) comp \<Rightarrow> ('k, 'r) world \<Rightarrow> (error + int) \<times> 'k \<Rightarrow> bool" where
  "ends_as construct w spec \<longleftrightarrow>
     (case spec of
        (Inl e, k) \<Rightarrow> fst (construct w) = Threw e \<and> w_os (snd (construct w)) = k
      | (Inr fd, k) \<Rightarrow> (\<exists>a. fst (construct w) = Done \<lparr>ss_fd = fd, ss_listener = a\<rparr>) \<and> w_os (snd (construct w)) = k)"

lemma new_server_inet_outcome: "ends_as (new_server_inet P name service a) w (inet_outcome P name service (w_os w))"
  by (simp add: ends_as_def new_server_inet_def inet_outcome_def opened_server_def and_then_def get_addrinfo_def checked_call_eq
      listen_on_def make_listener_def free_info_def return_def split: prod.split)

lemma new_server_unix_outcome:
  assumes "length path < 108"
  shows "ends_as (new_server_unix P path a) w (unix_outcome P path (w_os w))"
proof -
  have m: "SOCKET_MODE = 438" by (simp add: SOCKET_MODE_def)
  show ?thesis
    using assms
    by (simp add: ends_as_def new_server_unix_def unix_outcome_def opened_server_def remove_path_def call_def and_then_def checked_call_eq m
        unix_addr_def sun_path_of_def listen_on_def make_listener_def return_def F_OK_def AF_UNIX_def SOCK_STREAM_def SOCKADDR_UN_SIZE_def
        split: prod.split)
qed

section \<open>Connecting, accepting and closing as histories of the loop\<close>

lemma connect_start_history:
  assumes P: "posix_contract P held" and hist: "io_history U r0 tr (w_loop w)"
    and free: "address_free rl (w_loop w)" "address_free wl (w_loop w)" "rl \<noteq> wl"
    and room: "u_get_sqe U (m_ring (w_loop w)) = (Some sqe, r1)"
  shows "triple (connect_start P U h addr_at rl wl cl) w
    (\<lambda>(fd, res) w1. res = Suspended \<and> held (w_os w1) = add_mset (Fd fd) (held (w_os w))
      \<and> (\<exists>i j. io_history U r0 (tr @ [Opened i, Opened j, Requested h j (Prep_connect fd addr_at (client_addrlen cl))]) (w_loop w1)))
    (\<lambda>e w1. e = Errno_error ''client_socket failed to create socket: '' (p_errno P (w_os w1))
      \<and> holds_at held (held (w_os w)) (w_loop w) w1) u"
  unfolding connect_start_def
proof (rule triple_bind)
  have "opens_fd held (client_open P cl)" using posix_contractD(1) [OF P] by (cases cl) simp_all
  then show "triple (checked_call P (client_open P cl) ''client_socket failed to create socket: '') w
    (\<lambda>fd. holds_at held (add_mset (Fd fd) (held (w_os w))) (w_loop w))
    (\<lambda>e w1. e = Errno_error ''client_socket failed to create socket: '' (p_errno P (w_os w1))
      \<and> holds_at held (held (w_os w)) (w_loop w) w1) u"
    by (intro checked_opens [OF P]) (simp_all add: holds_at_def)
next
  fix fd w1
  assume w1: "holds_at held (add_mset (Fd fd) (held (w_os w))) (w_loop w) w1"
  obtain w2 where m2: "make_listener rl fd w1 = (Done (), w2)"
    by (cases "get_io_listener rl fd (w_loop w1)") (simp add: make_listener_def)
  have l1: "w_loop w1 = w_loop w" "held (w_os w1) = add_mset (Fd fd) (held (w_os w))" using w1 by (simp_all add: holds_at_def)
  note A = make_listener_history [OF _ _ m2, unfolded l1, OF hist free(1)]
  obtain i where i: "io_history U r0 (tr @ [Opened i]) (w_loop w2)" using A(4) by blast
  obtain w3 where m3: "make_listener wl fd w2 = (Done (), w3)"
    by (cases "get_io_listener wl fd (w_loop w2)") (simp add: make_listener_def)
  note B = make_listener_history [OF i A(5) [OF free(2)] m3] 
  obtain j where j: "io_history U r0 ((tr @ [Opened i]) @ [Opened j]) (w_loop w3)"
    "m_listeners (w_loop w3) wl = Some \<lparr>l_callback = new_event_callback j, l_fd = fd\<rparr>" using B(4) free(3) by auto
  obtain res w4 where m4: "on_loop (await_request U h wl (Connect addr_at (client_addrlen cl))) w3 = (res, w4)" by fastforce
  have "u_get_sqe U (m_ring (w_loop w3)) = (Some sqe, r1)" using room A(3) B(3) free(3) by simp
  note C = await_request_history [OF j this m4]
  show "triple (and_then (make_listener rl fd) (\<lambda>_. and_then (make_listener wl fd) (\<lambda>_ w.
       (case on_loop (await_request U h wl (Connect addr_at (client_addrlen cl))) w of (r, w1) \<Rightarrow> (Done (fd, r), w1))))) w1
    (\<lambda>(fd, res) w1. res = Suspended \<and> held (w_os w1) = add_mset (Fd fd) (held (w_os w))
      \<and> (\<exists>i j. io_history U r0 (tr @ [Opened i, Opened j, Requested h j (Prep_connect fd addr_at (client_addrlen cl))]) (w_loop w1)))
    (\<lambda>e w1. e = Errno_error ''client_socket failed to create socket: '' (p_errno P (w_os w1))
      \<and> holds_at held (held (w_os w)) (w_loop w) w1) u"
    using A(2) B(2) C l1(2) free(3) by (auto simp: triple_def and_then_Done [where m = "make_listener rl fd", OF m2]
        and_then_Done [where m = "make_listener wl fd", OF m3] m4)
qed

lemma destroy_listeners_history:
  assumes hist: "io_history U r0 tr (w_loop w)" and li: "m_listeners (w_loop w) a = Some la" "m_listeners (w_loop w) b = Some lb" "a \<noteq> b"
  obtains w1 w2 where "on_loop (destroy_listener a) w = (Done (), w1)" "on_loop (destroy_listener b) w1 = (Done (), w2)"
    "w_os w2 = w_os w" "m_ring (w_loop w2) = m_ring (w_loop w)"
    "io_history U r0 (tr @ [Closed (m_id (l_callback la)), Closed (m_id (l_callback lb))]) (w_loop w2)"
proof -
  obtain r1 w1 where m1: "on_loop (destroy_listener a) w = (r1, w1)" by fastforce
  note A = destroy_listener_history [OF hist li(1) m1]
  obtain r2 w2 where m2: "on_loop (destroy_listener b) w1 = (r2, w2)" by fastforce
  have "m_listeners (w_loop w1) b = Some lb" using A(5) li(2,3) by simp
  note B = destroy_listener_history [OF A(4) this m2]
  show thesis using that [of w1 w2] A B m1 m2 by simp
qed

lemma connect_resumed_history:
  assumes hist: "io_history U r0 tr (w_loop w)" and li: "m_listeners (w_loop w) rl = Some lr" "m_listeners (w_loop w) wl = Some lw" "rl \<noteq> wl"
  shows "triple (connect_resumed fd rl wl status) w
    (\<lambda>so w1. 0 \<le> status \<and> so = \<lparr>so_fd = fd, so_read_listener = rl, so_write_listener = wl\<rparr> \<and> w1 = w)
    (\<lambda>e w1. status < 0 \<and> e = Errno_error ''client_socket failed to connect: '' (- status) \<and> w_os w1 = w_os w
      \<and> io_history U r0 (tr @ [Closed (m_id (l_callback lw)), Closed (m_id (l_callback lr))]) (w_loop w1)) u"
proof -
  obtain w1 w2 where d: "on_loop (destroy_listener wl) w = (Done (), w1)" "on_loop (destroy_listener rl) w1 = (Done (), w2)"
    "w_os w2 = w_os w" "io_history U r0 (tr @ [Closed (m_id (l_callback lw)), Closed (m_id (l_callback lr))]) (w_loop w2)"
    using destroy_listeners_history [OF hist li(2,1)] li(3) by metis
  show ?thesis
    using d by (auto simp: triple_def connect_resumed_def socket_of_listeners_def return_def throw_error_def
        and_then_Done [where m = "on_loop (destroy_listener wl)", OF d(1)]
        and_then_Done [where m = "on_loop (destroy_listener rl)", OF d(2)])
qed

lemma destroy_socket_history:
  assumes P: "posix_contract P held" and hist: "io_history U r0 tr (w_loop w)"
    and li: "m_listeners (w_loop w) (so_read_listener so) = Some lr" "m_listeners (w_loop w) (so_write_listener so) = Some lw"
      "so_read_listener so \<noteq> so_write_listener so"
  shows "triple (destroy_socket P so) w
    (\<lambda>_ w1. held (w_os w1) = held (w_os w) - {#Fd (so_fd so)#} \<and> m_ring (w_loop w1) = m_ring (w_loop w)
      \<and> io_history U r0 (tr @ [Closed (m_id (l_callback lw)), Closed (m_id (l_callback lr))]) (w_loop w1))
    (\<lambda>e w1. e = Errno_error ''Failed to close socket fd: '' (p_errno P (w_os w1)) \<and> w_loop w1 = w_loop w) u"
  unfolding destroy_socket_def
proof (rule triple_bind)
  show "triple (checked_call P (p_close P (so_fd so)) ''Failed to close socket fd: '') w
    (\<lambda>_. holds_at held (held (w_os w) - {#Fd (so_fd so)#}) (w_loop w))
    (\<lambda>e w1. e = Errno_error ''Failed to close socket fd: '' (p_errno P (w_os w1)) \<and> w_loop w1 = w_loop w) u"
    using posix_contractD(10) [OF P] by (auto simp: triple_def checked_call_eq holds_at_def split: prod.split)
next
  fix n w1
  assume w1: "holds_at held (held (w_os w) - {#Fd (so_fd so)#}) (w_loop w) w1"
  then have l: "w_loop w1 = w_loop w" by (simp add: holds_at_def)
  obtain w2 w3 where d: "on_loop (destroy_listener (so_write_listener so)) w1 = (Done (), w2)"
    "on_loop (destroy_listener (so_read_listener so)) w2 = (Done (), w3)"
    "w_os w3 = w_os w1" "m_ring (w_loop w3) = m_ring (w_loop w1)"
    "io_history U r0 (tr @ [Closed (m_id (l_callback lw)), Closed (m_id (l_callback lr))]) (w_loop w3)"
    using destroy_listeners_history [of U r0 tr w1, unfolded l, OF hist li(2,1)] li(3) by (metis l)
  show "triple (and_then (on_loop (destroy_listener (so_write_listener so))) (\<lambda>_. on_loop (destroy_listener (so_read_listener so)))) w1
    (\<lambda>_ w1. held (w_os w1) = held (w_os w) - {#Fd (so_fd so)#} \<and> m_ring (w_loop w1) = m_ring (w_loop w)
      \<and> io_history U r0 (tr @ [Closed (m_id (l_callback lw)), Closed (m_id (l_callback lr))]) (w_loop w1))
    (\<lambda>e w1. e = Errno_error ''Failed to close socket fd: '' (p_errno P (w_os w1)) \<and> w_loop w1 = w_loop w) u"
    using d w1 by (simp add: triple_def and_then_Done [where m = "on_loop (destroy_listener (so_write_listener so))", OF d(1)] holds_at_def)
qed simp

lemma make_two_listeners_history:
  assumes hist: "io_history U r0 tr (w_loop w)" and free: "address_free a (w_loop w)" "address_free b (w_loop w)" "a \<noteq> b"
  obtains i j w1 w2 where "make_listener a fd w = (Done (), w1)" "make_listener b fd w1 = (Done (), w2)" "w_os w2 = w_os w"
    "io_history U r0 (tr @ [Opened i, Opened j]) (w_loop w2)"
proof -
  obtain r1 w1 where m1: "make_listener a fd w = (r1, w1)" by fastforce
  note A = make_listener_history [OF hist free(1) m1]
  obtain i where i: "io_history U r0 (tr @ [Opened i]) (w_loop w1)" using A(4) by blast
  obtain r2 w2 where m2: "make_listener b fd w1 = (r2, w2)" by fastforce
  note B = make_listener_history [OF i A(5) [OF free(2)] m2]
  obtain j where "io_history U r0 ((tr @ [Opened i]) @ [Opened j]) (w_loop w2)" using B(4) free(3) by auto
  then show thesis using that [of w1 w2 i j] A(1,2) B(1,2) m1 m2 free(3) by simp
qed

lemma accept_resumed_history:
  assumes "io_history U r0 tr (w_loop w)" "address_free rl (w_loop w)" "address_free wl (w_loop w)" "rl \<noteq> wl"
  shows "triple (accept_resumed rl wl status) w
    (\<lambda>so w1. 0 \<le> status \<and> so = \<lparr>so_fd = status, so_read_listener = rl, so_write_listener = wl\<rparr> \<and> w_os w1 = w_os w
      \<and> (\<exists>i j. io_history U r0 (tr @ [Opened i, Opened j]) (w_loop w1)))
    (\<lambda>e w1. status < 0 \<and> e = Errno_error ''server_socket accept failed: '' (- status) \<and> w1 = w) u"
proof (cases "status < 0")
  case True
  then show ?thesis by (simp add: triple_def accept_resumed_def throw_error_def)
next
  case False
  obtain i j w1 w2 where m: "make_listener rl status w = (Done (), w1)" "make_listener wl status w1 = (Done (), w2)"
    "w_os w2 = w_os w" "io_history U r0 (tr @ [Opened i, Opened j]) (w_loop w2)"
    using make_two_listeners_history [OF assms] by metis
  have "accept_resumed rl wl status w = (Done \<lparr>so_fd = status, so_read_listener = rl, so_write_listener = wl\<rparr>, w2)"
    using False by (simp add: accept_resumed_def socket_of_fd_def socket_of_listeners_def return_def
        and_then_Done [where m = "make_listener rl status", OF m(1)] and_then_Done [where m = "make_listener wl status", OF m(2)])
  then show ?thesis using m(3,4) False by (auto simp: triple_def)
qed

text \<open>A server that has its socket waits for its first connection.\<close>

lemma new_server_history:
  fixes construct :: "(('k, 'r) world, server_socket) comp"
  assumes con: "triple construct w
      (\<lambda>ss w'. ss_listener ss = a \<and> holds_at held (add_mset (Fd (ss_fd ss)) h0) (snd (get_io_listener a (ss_fd ss) (w_loop w))) w')
      (\<lambda>e w'. \<exists>lost. server_loss P is_unix e (w_os w') lost \<and> holds_at held (h0 + lost) (w_loop w) w') u"
    and hist: "io_history U r0 tr (w_loop w)" and free: "address_free a (w_loop w)"
    and room: "u_get_sqe U (m_ring (w_loop w)) = (Some sqe, r1)"
  shows "triple (new_server construct U h addr_at len_at) w
    (\<lambda>(ss, res) w1. res = Suspended \<and> held (w_os w1) = add_mset (Fd (ss_fd ss)) h0
      \<and> (\<exists>i. io_history U r0 (tr @ [Opened i, Requested h i (Prep_accept (ss_fd ss) addr_at len_at 0)]) (w_loop w1)))
    (\<lambda>e w1. io_history U r0 tr (w_loop w1)) u"
  unfolding new_server_def
proof (rule triple_bind [OF con])
  fix e w1
  assume "\<exists>lost. server_loss P is_unix e (w_os w1) lost \<and> holds_at held (h0 + lost) (w_loop w) w1"
  then show "io_history U r0 tr (w_loop w1)" using hist by (auto simp: holds_at_def)
next
  fix ss :: server_socket and w1 :: "('k, 'r) world"
  assume ss: "ss_listener ss = a \<and> holds_at held (add_mset (Fd (ss_fd ss)) h0) (snd (get_io_listener a (ss_fd ss) (w_loop w))) w1"
  let ?w = "w1\<lparr>w_loop := w_loop w\<rparr>"
  have m: "make_listener a (ss_fd ss) ?w = (Done (), w1)"
    using ss by (cases "get_io_listener a (ss_fd ss) (w_loop w)") (simp add: make_listener_def holds_at_def)
  have pre: "io_history U r0 tr (w_loop ?w)" "address_free a (w_loop ?w)" using hist free by simp_all
  note A = make_listener_history [OF pre m]
  obtain i where i: "io_history U r0 (tr @ [Opened i]) (w_loop w1)"
    "m_listeners (w_loop w1) a = Some \<lparr>l_callback = new_event_callback i, l_fd = ss_fd ss\<rparr>" using A(4) by auto
  obtain res w2 where q: "on_loop (await_request U h a (Accept addr_at len_at)) w1 = (res, w2)" by fastforce
  have "u_get_sqe U (m_ring (w_loop w1)) = (Some sqe, r1)" using room A(3) by simp
  note B = await_request_history [OF i this q]
  show "triple (\<lambda>w :: ('k, 'r) world. case accept_start U h addr_at len_at ss w of (r, w1) \<Rightarrow> (Done (ss, r), w1)) w1
    (\<lambda>(ss, res) w1. res = Suspended \<and> held (w_os w1) = add_mset (Fd (ss_fd ss)) h0
      \<and> (\<exists>i. io_history U r0 (tr @ [Opened i, Requested h i (Prep_accept (ss_fd ss) addr_at len_at 0)]) (w_loop w1)))
    (\<lambda>e w1. io_history U r0 tr (w_loop w1)) u"
    using B ss q by (auto simp: triple_def accept_start_def holds_at_def)
qed

section \<open>Properties\<close>

text \<open>
  C27: a constructor of a server socket makes its calls in order (looking up the address, or removing what is at the path; the socket; binding
  it; for a path, its mode; listening) up to the first that fails. When all succeed it ends with that descriptor and a listener for it,
  and holds nothing else; otherwise it throws the error of the call that failed, with its number, and leaves the loop as it was.
  What it has opened by then is not given back: behind a failure the descriptor stays open, and the list of addresses stays
  allocated. A path that does not fit is written out of bounds.
\<close>

theorem server_socket_constructors:
  assumes "posix_contract P held"
  shows "(case new_server_inet P name service a w of
      (Done ss, w') \<Rightarrow> ss_listener ss = a \<and> held (w_os w') = add_mset (Fd (ss_fd ss)) (held (w_os w))
        \<and> w_loop w' = snd (get_io_listener a (ss_fd ss) (w_loop w))
    | (Threw e, w') \<Rightarrow> w_loop w' = w_loop w \<and> (\<exists>lost. server_loss P False e (w_os w') lost \<and> held (w_os w') = held (w_os w) + lost)
    | (Suspended, _) \<Rightarrow> False | (Undefined, _) \<Rightarrow> False)
  \<and> (case new_server_unix P path a w of
      (Done ss, w') \<Rightarrow> ss_listener ss = a \<and> held (w_os w') = add_mset (Fd (ss_fd ss)) (held (w_os w))
        \<and> w_loop w' = snd (get_io_listener a (ss_fd ss) (w_loop w))
    | (Threw e, w') \<Rightarrow> w_loop w' = w_loop w \<and> (\<exists>lost. server_loss P True e (w_os w') lost \<and> held (w_os w') = held (w_os w) + lost)
    | (Suspended, _) \<Rightarrow> False | (Undefined, _) \<Rightarrow> 108 \<le> length path)
  \<and> ends_as (new_server_inet P name service a) w (inet_outcome P name service (w_os w))
  \<and> (length path < 108 \<longrightarrow> ends_as (new_server_unix P path a) w (unix_outcome P path (w_os w)))"
proof -
  have w: "holds_at held (held (w_os w)) (w_loop w) w" by (simp add: holds_at_def)
  have "case new_server_inet P name service a w of
      (Done ss, w') \<Rightarrow> ss_listener ss = a \<and> held (w_os w') = add_mset (Fd (ss_fd ss)) (held (w_os w))
        \<and> w_loop w' = snd (get_io_listener a (ss_fd ss) (w_loop w))
    | (Threw e, w') \<Rightarrow> w_loop w' = w_loop w \<and> (\<exists>lost. server_loss P False e (w_os w') lost \<and> held (w_os w') = held (w_os w) + lost)
    | (Suspended, _) \<Rightarrow> False | (Undefined, _) \<Rightarrow> False"
    using server_inet_leaves [OF assms w, of name service a False]
    by (auto simp: triple_def holds_at_def split: prod.splits outcome.splits)
  moreover have "case new_server_unix P path a w of
      (Done ss, w') \<Rightarrow> ss_listener ss = a \<and> held (w_os w') = add_mset (Fd (ss_fd ss)) (held (w_os w))
        \<and> w_loop w' = snd (get_io_listener a (ss_fd ss) (w_loop w))
    | (Threw e, w') \<Rightarrow> w_loop w' = w_loop w \<and> (\<exists>lost. server_loss P True e (w_os w') lost \<and> held (w_os w') = held (w_os w) + lost)
    | (Suspended, _) \<Rightarrow> False | (Undefined, _) \<Rightarrow> 108 \<le> length path"
    using server_unix_leaves [OF assms w, of path a]
    by (auto simp: triple_def holds_at_def split: prod.splits outcome.splits)
  ultimately show ?thesis using new_server_inet_outcome new_server_unix_outcome by blast
qed

text \<open>The port is in use: the descriptor and the addresses are lost.\<close>

definition demo_os :: "(string \<times> int) list \<Rightarrow> plain_os" where
  "demo_os fails = \<lparr>o_held = [], o_errno = 0, o_fails = fails\<rparr>"

definition demo_world :: "(string \<times> int) list \<Rightarrow> (plain_os, fifo_ring) world" where
  "demo_world fails = \<lparr>w_os = demo_os fails, w_loop = new_io_loop demo_ring\<rparr>"

theorem server_socket_constructors_witness:
  "\<exists>w'. new_server_inet plain_posix ''localhost'' ''80'' 20 (demo_world [(''bind'', 98)])
      = (Threw (Errno_error ''server_socket bind failed: '' 98), w')
    \<and> (\<exists>lost. server_loss plain_posix False (Errno_error ''server_socket bind failed: '' 98) (w_os w') lost \<and> plain_held (w_os w') = lost)"
proof -
  let ?r = "new_server_inet plain_posix ''localhost'' ''80'' 20 (demo_world [(''bind'', 98)])"
  have "fst ?r = Threw (Errno_error ''server_socket bind failed: '' 98)"
    by (simp add: new_server_inet_def and_then_def get_addrinfo_def checked_call_eq plain_posix_def plain_call_def plain_open_def
        demo_world_def demo_os_def fresh_fd_def)
  then obtain w' where r: "?r = (Threw (Errno_error ''server_socket bind failed: '' 98), w')" by (cases ?r) simp
  have "plain_held (w_os (demo_world [(''bind'', 98)])) = {#}" by (simp add: demo_world_def demo_os_def plain_held_def)
  with server_socket_constructors [OF plain_contract, where name = "''localhost''" and service = "''80''" and a = 20
      and w = "demo_world [(''bind'', 98)]"] r
  show ?thesis by auto
qed

text \<open>
  C13: connecting makes two listeners for a new descriptor, asks the kernel for the connection through the second one, and suspends; when
  it succeeds the socket has the descriptor and the listeners; when it is refused the error is thrown with its number and the
  listeners are taken back, but the operating system keeps the descriptor open.
\<close>

theorem connect_outcome:
  assumes "posix_contract P held" "io_history U r0 tr (w_loop w)" "address_free rl (w_loop w)" "address_free wl (w_loop w)"
    "rl \<noteq> wl" "u_get_sqe U (m_ring (w_loop w)) = (Some sqe, r1)"
    "io_history U r0 tr2 (w_loop w2)" "m_listeners (w_loop w2) rl = Some lr" "m_listeners (w_loop w2) wl = Some lw"
  shows "(case connect_start P U h addr_at rl wl cl w of
      (Done (fd, res), w1) \<Rightarrow> res = Suspended \<and> held (w_os w1) = add_mset (Fd fd) (held (w_os w))
        \<and> (\<exists>i j. io_history U r0 (tr @ [Opened i, Opened j, Requested h j (Prep_connect fd addr_at (client_addrlen cl))]) (w_loop w1))
    | (Threw e, w1) \<Rightarrow> e = Errno_error ''client_socket failed to create socket: '' (p_errno P (w_os w1))
        \<and> held (w_os w1) = held (w_os w) \<and> w_loop w1 = w_loop w
    | (Suspended, _) \<Rightarrow> False | (Undefined, _) \<Rightarrow> False)
  \<and> (case connect_resumed fd rl wl status w2 of
      (Done so, w3) \<Rightarrow> 0 \<le> status \<and> so = \<lparr>so_fd = fd, so_read_listener = rl, so_write_listener = wl\<rparr> \<and> w3 = w2
    | (Threw e, w3) \<Rightarrow> status < 0 \<and> e = Errno_error ''client_socket failed to connect: '' (- status) \<and> w_os w3 = w_os w2
        \<and> io_history U r0 (tr2 @ [Closed (m_id (l_callback lw)), Closed (m_id (l_callback lr))]) (w_loop w3)
    | (Suspended, _) \<Rightarrow> False | (Undefined, _) \<Rightarrow> False)"
  using connect_start_history [OF assms(1-6), of h addr_at cl False] connect_resumed_history [OF assms(7-9,5), of fd status False]
  by (auto simp: triple_def holds_at_def split: prod.splits outcome.splits)

text \<open>A world with two listeners, as it is when the coroutine is resumed.\<close>

definition demo_connecting :: "(plain_os, fifo_ring) world" where
  "demo_connecting = snd (make_listener 11 3 (snd (make_listener 10 3 (demo_world []))))"

lemma demo_free: "address_free a (w_loop (demo_world fails))"
  by (simp add: demo_world_def address_free_def new_io_loop_def new_event_bus_def)

lemma demo_start: "io_history fifo_uring demo_ring [] (w_loop (demo_world fails))"
  using io_history.start [of fifo_uring demo_ring] by (simp add: demo_world_def)

lemma demo_connecting_history:
  obtains tr lr lw where "io_history fifo_uring demo_ring tr (w_loop demo_connecting)"
    "m_listeners (w_loop demo_connecting) 10 = Some lr" "m_listeners (w_loop demo_connecting) 11 = Some lw"
proof -
  obtain i j w1 w2 where m: "make_listener 10 3 (demo_world []) = (Done (), w1)" "make_listener 11 3 w1 = (Done (), w2)"
    "io_history fifo_uring demo_ring ([] @ [Opened i, Opened j]) (w_loop w2)"
    using make_two_listeners_history [OF demo_start demo_free demo_free, of 10 11] by (metis numeral_eq_iff semiring_norm(85,88))
  have "w2 = demo_connecting" using m(1,2) by (simp add: demo_connecting_def)
  moreover have "m_listeners (w_loop demo_connecting) 10 \<noteq> None" "m_listeners (w_loop demo_connecting) 11 \<noteq> None"
    by (simp_all add: demo_connecting_def make_listener_def get_io_listener_def get_listener_eq split: prod.split)
  ultimately show thesis using that m(3) by auto
qed

theorem connect_outcome_witness:
  "fst (connect_resumed 3 10 11 (- 111) demo_connecting) = Threw (Errno_error ''client_socket failed to connect: '' 111)
    \<and> plain_held (w_os (snd (connect_start plain_posix fifo_uring 7 100 10 11 (Client_unix \<lparr>sun_family = 1, sun_path = []\<rparr>) (demo_world []))))
      = {#Fd 3#}"
proof -
  obtain tr lr lw where d: "io_history fifo_uring demo_ring tr (w_loop demo_connecting)"
    "m_listeners (w_loop demo_connecting) 10 = Some lr" "m_listeners (w_loop demo_connecting) 11 = Some lw"
    by (rule demo_connecting_history)
  have "fst (u_get_sqe fifo_uring (m_ring (w_loop (demo_world [])))) = Some 0"
    by (simp add: fifo_uring_def demo_world_def new_io_loop_def demo_ring_def)
  then obtain r1 where room: "u_get_sqe fifo_uring (m_ring (w_loop (demo_world []))) = (Some 0, r1)"
    by (cases "u_get_sqe fifo_uring (m_ring (w_loop (demo_world [])))") simp
  have ne: "(10 :: nat) \<noteq> 11" by simp
  let ?cl = "Client_unix \<lparr>sun_family = 1, sun_path = []\<rparr>"
  obtain res w1 where s: "connect_start plain_posix fifo_uring 7 100 10 11 ?cl (demo_world []) = (res, w1)" by fastforce
  have "fst (connect_start plain_posix fifo_uring 7 100 10 11 ?cl (demo_world [])) = Done (3, Suspended)"
    by (simp add: connect_start_def and_then_def checked_call_eq plain_posix_def plain_call_def plain_open_def demo_world_def
        demo_os_def fresh_fd_def make_listener_def get_io_listener_def get_listener_eq new_io_loop_def register_event_callback_def
        new_event_bus_def Let_def new_event_callback_def new_suspended_coro_def on_loop_def await_request_def
        listener_request_eq fifo_uring_def demo_ring_def co_await_eq)
  then have res: "res = Done (3, Suspended)" using s by simp
  obtain res2 w3 where q: "connect_resumed 3 10 11 (- 111) demo_connecting = (res2, w3)" by fastforce
  have "plain_held (w_os (demo_world [])) = {#}" by (simp add: demo_world_def demo_os_def plain_held_def)
  with connect_outcome [OF plain_contract demo_start demo_free demo_free ne room d, where h = 7 and addr_at = 100 and cl = ?cl
      and fd = 3 and status = "- 111"]
  show ?thesis by (cases res2) (auto simp: s res q)
qed

text \<open>
  C14: a server that has been constructed waits for its first connection with one request in the ring; when a connection comes, the socket
  has its descriptor and two listeners of its own; an error is thrown with its number and leaves everything as it was.
\<close>

theorem server_accepts:
  assumes "posix_contract P held" "io_history U r0 tr (w_loop w)" "address_free a (w_loop w)"
    "u_get_sqe U (m_ring (w_loop w)) = (Some sqe, r1)"
    "io_history U r0 tr2 (w_loop w2)" "address_free rl (w_loop w2)" "address_free wl (w_loop w2)" "rl \<noteq> wl"
  shows "(case new_server (new_server_inet P name service a) U h addr_at len_at w of
      (Done (ss, res), w1) \<Rightarrow> res = Suspended \<and> held (w_os w1) = add_mset (Fd (ss_fd ss)) (held (w_os w))
        \<and> (\<exists>i. io_history U r0 (tr @ [Opened i, Requested h i (Prep_accept (ss_fd ss) addr_at len_at 0)]) (w_loop w1))
    | (Threw e, w1) \<Rightarrow> io_history U r0 tr (w_loop w1)
    | (Suspended, _) \<Rightarrow> False | (Undefined, _) \<Rightarrow> False)
  \<and> (case accept_resumed rl wl status w2 of
      (Done so, w3) \<Rightarrow> 0 \<le> status \<and> so = \<lparr>so_fd = status, so_read_listener = rl, so_write_listener = wl\<rparr> \<and> w_os w3 = w_os w2
        \<and> (\<exists>i j. io_history U r0 (tr2 @ [Opened i, Opened j]) (w_loop w3))
    | (Threw e, w3) \<Rightarrow> status < 0 \<and> e = Errno_error ''server_socket accept failed: '' (- status) \<and> w3 = w2
    | (Suspended, _) \<Rightarrow> False | (Undefined, _) \<Rightarrow> False)"
proof -
  have w: "holds_at held (held (w_os w)) (w_loop w) w" by (simp add: holds_at_def)
  show ?thesis
    using new_server_history [OF server_inet_leaves [OF assms(1) w, where name = name and service = service and u = False]
        assms(2-4), where h = h and addr_at = addr_at and len_at = len_at]
      accept_resumed_history [OF assms(5-8), where status = status and u = False]
    by (auto simp: triple_def split: prod.splits outcome.splits)
qed

theorem server_accepts_witness:
  "fst (accept_resumed 10 11 9 (demo_world [])) = Done \<lparr>so_fd = 9, so_read_listener = 10, so_write_listener = 11\<rparr>
    \<and> fst (accept_resumed 10 11 (- 24) (demo_world [])) = Threw (Errno_error ''server_socket accept failed: '' 24)"
proof -
  have "fst (u_get_sqe fifo_uring (m_ring (w_loop (demo_world [])))) = Some 0"
    by (simp add: fifo_uring_def demo_world_def new_io_loop_def demo_ring_def)
  then obtain r1 where room: "u_get_sqe fifo_uring (m_ring (w_loop (demo_world []))) = (Some 0, r1)"
    by (cases "u_get_sqe fifo_uring (m_ring (w_loop (demo_world [])))") simp
  have ne: "(10 :: nat) \<noteq> 11" by simp
  note S = server_accepts [OF plain_contract demo_start demo_free room demo_start [where fails = "[]"] demo_free demo_free ne]
  have "fst (accept_resumed 10 11 9 (demo_world [])) = Done \<lparr>so_fd = 9, so_read_listener = 10, so_write_listener = 11\<rparr>"
    using conjunct2 [OF S [where status = 9]] by (auto split: prod.splits outcome.splits)
  moreover have "fst (accept_resumed 10 11 (- 24) (demo_world [])) = Threw (Errno_error ''server_socket accept failed: '' 24)"
    using conjunct2 [OF S [where status = "- 24"]] by (auto split: prod.splits outcome.splits)
  ultimately show ?thesis ..
qed

text \<open>
  destroying a socket closes its descriptor and takes both listeners off the bus, but does not cancel what is under way: an
  operation that was requested through it stays in the ring, and the kernel may still use the address that it was given, although the
  buffers of the socket are gone. When the close fails the program is terminated.
\<close>

theorem destroyed_socket_in_flight:
  assumes "posix_contract P held" "io_history U r0 tr (w_loop w)" "m_listeners (w_loop w) (so_read_listener so) = Some lr"
    "m_listeners (w_loop w) (so_write_listener so) = Some lw" "so_read_listener so \<noteq> so_write_listener so"
    "(m_id (l_callback lr), op) \<in># under_way (m_ring (w_loop w))"
  shows "case destroy_socket P so w of
      (Done _, w1) \<Rightarrow> held (w_os w1) = held (w_os w) - {#Fd (so_fd so)#}
        \<and> io_history U r0 (tr @ [Closed (m_id (l_callback lw)), Closed (m_id (l_callback lr))]) (w_loop w1)
        \<and> (m_id (l_callback lr), op) \<in># under_way (m_ring (w_loop w1))
    | (Threw e, w1) \<Rightarrow> e = Errno_error ''Failed to close socket fd: '' (p_errno P (w_os w1)) \<and> w_loop w1 = w_loop w
    | (Suspended, _) \<Rightarrow> False | (Undefined, _) \<Rightarrow> False"
  using destroy_socket_history [OF assms(1-5), of False] assms(6)
  by (auto simp: triple_def split: prod.splits outcome.splits)

theorem destroyed_socket_in_flight_witness:
  "\<exists>op w. op \<in># fifo_under_way (m_ring (w_loop w))
    \<and> op \<in># fifo_under_way (m_ring (w_loop (snd (destroy_socket plain_posix \<lparr>so_fd = 3, so_read_listener = 10, so_write_listener = 11\<rparr> w))))"
proof -
  let ?so = "\<lparr>so_fd = 3, so_read_listener = 10, so_write_listener = 11\<rparr>"
  obtain i j w1 w2 where m: "make_listener 10 3 (demo_world []) = (Done (), w1)" "make_listener 11 3 w1 = (Done (), w2)"
    "io_history fifo_uring demo_ring ([] @ [Opened i, Opened j]) (w_loop w2)"
    using make_two_listeners_history [OF demo_start demo_free demo_free, of 10 11] by (metis numeral_eq_iff semiring_norm(85,88))
  have w2: "w2 = demo_connecting" using m(1,2) by (simp add: demo_connecting_def)
  let ?l1 = "\<lparr>l_callback = new_event_callback 1, l_fd = 3\<rparr>"
  let ?w3 = "snd (on_loop (await_request fifo_uring 7 10 (Recv 500 8192 0)) demo_connecting)"
  note eqs = demo_connecting_def demo_world_def make_listener_def get_io_listener_def get_listener_eq new_io_loop_def
    register_event_callback_def new_event_bus_def Let_def new_event_callback_def new_suspended_coro_def on_loop_def await_request_def
    listener_request_eq fifo_uring_def demo_ring_def co_await_eq store_handle_def
  have l1: "m_listeners (w_loop w2) 10 = Some ?l1" unfolding w2 by (simp add: eqs)
  have "fst (u_get_sqe fifo_uring (m_ring (w_loop w2))) = Some 0" unfolding w2 by (simp add: eqs)
  then obtain r1 where room: "u_get_sqe fifo_uring (m_ring (w_loop w2)) = (Some 0, r1)"
    by (cases "u_get_sqe fifo_uring (m_ring (w_loop w2))") simp
  have q: "on_loop (await_request fifo_uring 7 10 (Recv 500 8192 0)) w2 = (Suspended, ?w3)" unfolding w2 by (simp add: eqs)
  note H = await_request_history(3) [OF m(3) l1 room q]
  obtain lr lw where l: "m_listeners (w_loop ?w3) 10 = Some lr" "m_listeners (w_loop ?w3) 11 = Some lw" "m_id (l_callback lr) = 1"
    by (simp add: eqs)
  have op: "(m_id (l_callback lr), Prep_recv 3 500 8192 0) \<in># fifo_under_way (m_ring (w_loop ?w3))"
    using l(3) by (simp add: eqs fifo_under_way_def)
  have "fst (destroy_socket plain_posix ?so ?w3) = Done ()"
    by (simp add: destroy_socket_def and_then_def checked_call_eq plain_posix_def plain_call_def eqs demo_os_def destroy_listener_def
        deregister_event_callback_def)
  then show ?thesis
    using destroyed_socket_in_flight [OF plain_contract H, of ?so lr lw _ fifo_under_way] l op
    by (fastforce split: prod.splits)
qed

end
