(* ===== verification/Byte_Buffer.thy ===== *)
theory Byte_Buffer
  imports Prelude
begin

text \<open>
  \<open>cppevent_base/byte_buffer.hpp\<close>: the fixed-size buffer between a socket and its clients.
  \<open>m_buffer\<close> is the array (its length is the template parameter \<open>BUFFER_SIZE\<close>, its
  initial bytes are arbitrary), \<open>m_start\<close> and \<open>m_end\<close> the \<open>long\<close> read and write
  positions. Sizes are \<open>long\<close> too, so a negative size is a value of the model: \<open>memcpy\<close>
  of a negative size is undefined, \<open>std::string::append\<close> of one throws.
\<close>

section \<open>State and operations\<close>

record byte_buffer =
  m_buffer :: "byte list"
  m_start :: int
  m_end :: int

definition new_byte_buffer :: "byte list \<Rightarrow> byte_buffer" where
  "new_byte_buffer raw = \<lparr>m_buffer = raw, m_start = 0, m_end = 0\<rparr>"

definition read_ptr :: "byte_buffer \<Rightarrow> nat" where
  "read_ptr b = nat (m_start b)"

definition write_ptr :: "byte_buffer \<Rightarrow> nat" where
  "write_ptr b = nat (m_end b)"

definition available :: "byte_buffer \<Rightarrow> int" where
  "available b = m_end b - m_start b"

definition capacity :: "byte_buffer \<Rightarrow> int" where
  "capacity b = int (length (m_buffer b)) - m_end b"

definition increment_read_p :: "int \<Rightarrow> byte_buffer \<Rightarrow> byte_buffer" where
  "increment_read_p sz b =
     (let b' = b\<lparr>m_start := m_start b + sz\<rparr>
      in if m_start b' = m_end b' then b'\<lparr>m_start := 0, m_end := 0\<rparr> else b')"

definition increment_write_p :: "int \<Rightarrow> byte_buffer \<Rightarrow> byte_buffer" where
  "increment_write_p sz b = b\<lparr>m_end := m_end b + sz\<rparr>"

text \<open>The bytes of the read span; the offset and size of the write span.\<close>

definition get_read_chunk :: "byte_buffer \<Rightarrow> byte list" where
  "get_read_chunk b = take (nat (available b)) (drop (read_ptr b) (m_buffer b))"

definition get_write_chunk :: "byte_buffer \<Rightarrow> nat \<times> nat" where
  "get_write_chunk b = (write_ptr b, nat (capacity b))"

text \<open>
  \<open>read(void* dest, long size)\<close>: the destination is an array and an offset into it; the
  result is the array after the copy, and the number of bytes copied.
\<close>

definition bb_read :: "byte list \<Rightarrow> nat \<Rightarrow> int \<Rightarrow> (byte_buffer, byte list \<times> int) comp" where
  "bb_read dest off sz b =
     (let size_to_read = min sz (available b)
      in if size_to_read < 0 then (Undefined, b)
         else case memcpy dest off (take (nat size_to_read) (drop (read_ptr b) (m_buffer b))) of
                None \<Rightarrow> (Undefined, b)
              | Some dest' \<Rightarrow> (Done (dest', size_to_read), increment_read_p size_to_read b))"

text \<open>\<open>read(std::string& dest, long size)\<close>\<close>

definition bb_read_str :: "string \<Rightarrow> int \<Rightarrow> (byte_buffer, string \<times> int) comp" where
  "bb_read_str dest sz b =
     (let size_to_read = min sz (available b)
      in if size_to_read < 0 then (Threw Length_error, b)
         else (Done (dest @ chars (take (nat size_to_read) (drop (read_ptr b) (m_buffer b))), size_to_read),
               increment_read_p size_to_read b))"

definition bb_read_c :: "(byte_buffer, int) comp" where
  "bb_read_c b =
     (if available b = 0 then (Done (-1), b)
      else if read_ptr b < length (m_buffer b)
           then (Done (uint (m_buffer b ! read_ptr b)), increment_read_p 1 b)
           else (Undefined, b))"

definition bb_write :: "byte list \<Rightarrow> int \<Rightarrow> (byte_buffer, int) comp" where
  "bb_write src sz b =
     (let size_to_write = min (capacity b) sz
      in if size_to_write < 0 \<or> int (length src) < size_to_write then (Undefined, b)
         else case memcpy (m_buffer b) (write_ptr b) (take (nat size_to_write) src) of
                None \<Rightarrow> (Undefined, b)
              | Some buf \<Rightarrow> (Done size_to_write, increment_write_p size_to_write (b\<lparr>m_buffer := buf\<rparr>)))"

section \<open>Invariant\<close>

text \<open>
  The positions are ordered inside the array, and an empty buffer has been rewound to its start.
  The second half is what gives the whole array back to the writer once the reader has caught up.
\<close>

definition bb_wf :: "byte_buffer \<Rightarrow> bool" where
  "bb_wf b \<longleftrightarrow> 0 \<le> m_start b \<and> m_start b \<le> m_end b \<and> m_end b \<le> int (length (m_buffer b))
     \<and> (m_start b = m_end b \<longrightarrow> m_start b = 0)"

lemma bb_wf_new [wf_intros, simp]: "bb_wf (new_byte_buffer raw)"
  by (simp add: bb_wf_def new_byte_buffer_def)

lemma get_read_chunk_new [simp]: "get_read_chunk (new_byte_buffer raw) = []"
  by (simp add: get_read_chunk_def available_def new_byte_buffer_def)

lemma length_read_chunk: "bb_wf b \<Longrightarrow> int (length (get_read_chunk b)) = available b"
  by (auto simp: bb_wf_def get_read_chunk_def available_def read_ptr_def)

lemma available_nonneg: "bb_wf b \<Longrightarrow> 0 \<le> available b"
  by (simp add: bb_wf_def available_def)

lemma capacity_nonneg: "bb_wf b \<Longrightarrow> 0 \<le> capacity b"
  by (simp add: bb_wf_def capacity_def)

lemma read_chunk_empty_iff: "bb_wf b \<Longrightarrow> get_read_chunk b = [] \<longleftrightarrow> available b = 0"
  using length_read_chunk [of b] by (metis length_0_conv of_nat_eq_0_iff)

lemma empty_full_capacity:
  "bb_wf b \<Longrightarrow> get_read_chunk b = [] \<Longrightarrow> capacity b = int (length (m_buffer b))"
  by (auto simp: read_chunk_empty_iff bb_wf_def available_def capacity_def)

lemma length_increment_read_p [simp]: "length (m_buffer (increment_read_p n b)) = length (m_buffer b)"
  by (simp add: increment_read_p_def Let_def)

lemma bb_wf_increment_read_p [wf_intros]:
  "bb_wf b \<Longrightarrow> 0 \<le> n \<Longrightarrow> n \<le> available b \<Longrightarrow> bb_wf (increment_read_p n b)"
  by (auto simp: bb_wf_def increment_read_p_def available_def Let_def)

lemma read_chunk_increment_read_p:
  assumes "bb_wf b" "0 \<le> n" "n \<le> available b"
  shows "get_read_chunk (increment_read_p n b) = drop (nat n) (get_read_chunk b)"
proof (cases "n = available b")
  case True
  then have "get_read_chunk (increment_read_p n b) = []"
    by (simp add: increment_read_p_def get_read_chunk_def available_def Let_def)
  moreover have "length (get_read_chunk b) = nat n"
    using True length_read_chunk [OF assms(1)] by simp
  ultimately show ?thesis by simp
next
  case False
  obtain s e k where eqs: "m_start b = int s" "m_end b = int e" "n = int k"
    using assms by (metis bb_wf_def nonneg_int_cases order_trans)
  have "s + k < e" using assms(3) False by (simp add: eqs available_def)
  then have "nat (int e - (int s + int k)) = e - s - k" "nat (int s + int k) = s + k"
    "nat (int e - int s) = e - s" by simp_all
  with False show ?thesis
    by (simp add: increment_read_p_def get_read_chunk_def available_def read_ptr_def Let_def
        eqs drop_take add.commute)
qed

lemma chunk_prefix:
  "bb_wf b \<Longrightarrow> n \<le> available b \<Longrightarrow>
   take (nat n) (drop (read_ptr b) (m_buffer b)) = take (nat n) (get_read_chunk b)"
  by (simp add: get_read_chunk_def min_def)

section \<open>What the operations do\<close>

text \<open>Each operation on a well-formed buffer, in terms of the bytes it holds.\<close>

lemma min_available: "bb_wf b \<Longrightarrow> min (int n) (available b) = int (min n (length (get_read_chunk b)))"
  using length_read_chunk [of b] by auto

lemma bb_read_eq:
  assumes "bb_wf b" "off + min n (length (get_read_chunk b)) \<le> length dest"
  shows "bb_read dest off (int n) b =
    (Done (take off dest @ take n (get_read_chunk b) @ drop (off + min n (length (get_read_chunk b))) dest,
           int (min n (length (get_read_chunk b)))),
     increment_read_p (int (min n (length (get_read_chunk b)))) b)"
proof -
  define k where "k = min n (length (get_read_chunk b))"
  have k: "min (int n) (available b) = int k" "int k \<le> available b" "k \<le> length (get_read_chunk b)"
    using min_available [OF assms(1)] length_read_chunk [OF assms(1)] by (simp_all add: k_def)
  have c: "take k (drop (read_ptr b) (m_buffer b)) = take k (get_read_chunk b)"
    using chunk_prefix [OF assms(1) k(2)] by simp
  have "memcpy dest off (take k (get_read_chunk b))
      = Some (take off dest @ take k (get_read_chunk b) @ drop (off + k) dest)"
    using assms(2) k(3) by (simp add: memcpy_def flip: k_def)
  moreover have "take n (get_read_chunk b) = take k (get_read_chunk b)" by (simp add: k_def)
  ultimately show ?thesis by (simp add: bb_read_def k(1) c Let_def flip: k_def)
qed

lemma bb_read_str_eq:
  assumes "bb_wf b"
  shows "bb_read_str dest (int n) b =
    (Done (dest @ chars (take n (get_read_chunk b)), int (min n (length (get_read_chunk b)))),
     increment_read_p (int (min n (length (get_read_chunk b)))) b)"
proof -
  define k where "k = min n (length (get_read_chunk b))"
  have k: "min (int n) (available b) = int k" "int k \<le> available b"
    using min_available [OF assms(1)] length_read_chunk [OF assms(1)] by (simp_all add: k_def)
  have "take k (drop (read_ptr b) (m_buffer b)) = take k (get_read_chunk b)"
    using chunk_prefix [OF assms(1) k(2)] by simp
  moreover have "take n (get_read_chunk b) = take k (get_read_chunk b)" by (simp add: k_def)
  ultimately show ?thesis by (simp add: bb_read_str_def k(1) Let_def flip: k_def)
qed

lemma bb_read_c_eq:
  assumes "bb_wf b"
  shows "bb_read_c b = (case get_read_chunk b of [] \<Rightarrow> (Done (-1), b)
    | c # cs \<Rightarrow> (Done (uint c), increment_read_p 1 b))"
proof (cases "get_read_chunk b")
  case Nil
  then show ?thesis using read_chunk_empty_iff [OF assms] by (simp add: bb_read_c_def)
next
  case (Cons c cs)
  then have a: "available b \<noteq> 0" using read_chunk_empty_iff [OF assms] by simp
  from Cons have l: "read_ptr b < length (m_buffer b)"
    by (rule_tac ccontr) (simp add: get_read_chunk_def)
  have "drop (read_ptr b) (m_buffer b) = m_buffer b ! read_ptr b # drop (Suc (read_ptr b)) (m_buffer b)"
    using l by (simp add: Cons_nth_drop_Suc)
  with Cons have "c = m_buffer b ! read_ptr b"
    by (cases "nat (available b)") (auto simp: get_read_chunk_def)
  then show ?thesis using Cons a l by (simp add: bb_read_c_def)
qed

lemma bb_write_eq:
  assumes "bb_wf b" "0 \<le> sz" "sz \<le> int (length src)"
  obtains b' where
    "bb_write src sz b = (Done (min (capacity b) sz), b')"
    "bb_wf b'" "length (m_buffer b') = length (m_buffer b)"
    "get_read_chunk b' = get_read_chunk b @ take (nat (min (capacity b) sz)) src"
proof -
  obtain s e where se: "m_start b = int s" "m_end b = int e"
    using assms(1) by (metis bb_wf_def nonneg_int_cases order_trans)
  define k where "k = nat (min (capacity b) sz)"
  have k: "min (capacity b) sz = int k"
    using assms(2) capacity_nonneg [OF assms(1)] by (simp add: k_def)
  have wf: "s \<le> e" "e + k \<le> length (m_buffer b)" "s = e \<longrightarrow> s = 0" "k \<le> length src"
    using assms k by (auto simp: bb_wf_def se capacity_def)
  define buf where "buf = take e (m_buffer b) @ take k src @ drop (e + k) (m_buffer b)"
  define b' where "b' = increment_write_p (int k) (b\<lparr>m_buffer := buf\<rparr>)"
  have lbuf: "length buf = length (m_buffer b)" using wf by (simp add: buf_def)
  have "memcpy (m_buffer b) (write_ptr b) (take k src) = Some buf"
    using wf by (simp add: memcpy_def write_ptr_def se buf_def min_def)
  then have 1: "bb_write src sz b = (Done (int k), b')"
    using wf by (simp add: bb_write_def k Let_def b'_def)
  have 2: "bb_wf b'" using wf lbuf by (auto simp: bb_wf_def b'_def increment_write_p_def se)
  have "get_read_chunk b' = take (e + k - s) (drop s buf)"
    using wf by (simp add: get_read_chunk_def available_def read_ptr_def b'_def
        increment_write_p_def se nat_diff_distrib' flip: of_nat_add)
  also have "\<dots> = take (e - s) (drop s (m_buffer b)) @ take k src"
    using wf by (simp add: buf_def drop_take)
  also have "take (e - s) (drop s (m_buffer b)) = get_read_chunk b"
    by (simp add: get_read_chunk_def available_def read_ptr_def se nat_diff_distrib')
  finally show thesis
    using that [of b'] 1 2 lbuf by (simp add: k b'_def increment_write_p_def)
qed

section \<open>The queue contract\<close>

text \<open>
  What a socket relies on, as a bounded queue: bytes come out in the order they went in, a write takes as many bytes as there is room for, a
  read as many as there are. Reading makes no room until the queue is empty; then there is room for all of its size.
\<close>

datatype fifo_op = Put "byte list" | Get nat | Get_mem nat | Get_c

datatype fifo_out = Took int | Gave "byte list" int | Single int

definition rewound :: "nat \<Rightarrow> byte list \<Rightarrow> nat \<Rightarrow> byte list \<times> nat" where
  "rewound cap q free = (q, if q = [] then cap else free)"

fun bounded_step :: "nat \<Rightarrow> fifo_op \<Rightarrow> byte list \<times> nat \<Rightarrow> fifo_out \<times> byte list \<times> nat" where
  "bounded_step cap (Put bs) (q, free) = (let n = min free (length bs) in (Took (int n), q @ take n bs, free - n))"
| "bounded_step cap (Get k) (q, free) = (Gave (take k q) (int (min k (length q))), rewound cap (drop k q) free)"
| "bounded_step cap (Get_mem k) (q, free) = (Gave (take k q) (int (min k (length q))), rewound cap (drop k q) free)"
| "bounded_step cap Get_c ([], free) = (Single (- 1), [], free)"
| "bounded_step cap Get_c (c # q, free) = (Single (uint c), rewound cap q free)"

fun bounded_run :: "nat \<Rightarrow> fifo_op list \<Rightarrow> byte list \<times> nat \<Rightarrow> fifo_out list \<times> byte list \<times> nat" where
  "bounded_run cap [] st = ([], st)"
| "bounded_run cap (opn # ops) st =
     (case bounded_step cap opn st of (out, st1) \<Rightarrow> case bounded_run cap ops st1 of (outs, st2) \<Rightarrow> (out # outs, st2))"

text \<open>The bytes that were taken in and those that were given out, in order.\<close>

fun accepted :: "fifo_op list \<Rightarrow> fifo_out list \<Rightarrow> byte list" where
  "accepted (Put bs # ops) (Took n # outs) = take (nat n) bs @ accepted ops outs"
| "accepted (_ # ops) (_ # outs) = accepted ops outs"
| "accepted _ _ = []"

fun delivered :: "fifo_out list \<Rightarrow> byte list" where
  "delivered [] = []"
| "delivered (Gave bs n # outs) = bs @ delivered outs"
| "delivered (Single i # outs) = (if i < 0 then [] else [word_of_int i]) @ delivered outs"
| "delivered (Took n # outs) = delivered outs"

lemma accepted_Cons: "accepted (opn # ops) (out # outs) = accepted [opn] [out] @ accepted ops outs"
  by (cases opn; cases out) simp_all

lemma delivered_Cons: "delivered (out # outs) = delivered [out] @ delivered outs"
  by (cases out) simp_all

lemma bounded_step_fifo:
  assumes "bounded_step cap opn (q, free) = (out, (q', free'))"
  shows "delivered [out] @ q' = q @ accepted [opn] [out]"
proof (cases opn)
  case Get_c
  then show ?thesis using assms by (cases q) (auto simp: rewound_def linorder_not_less)
qed (use assms in \<open>auto simp: Let_def rewound_def\<close>)

lemma bounded_run_fifo:
  "bounded_run cap ops (q, free) = (outs, (q', free')) \<Longrightarrow> delivered outs @ q' = q @ accepted ops outs"
proof (induction ops arbitrary: q free outs)
  case Nil
  then show ?case by simp
next
  case (Cons opn ops)
  obtain out q1 free1 where o: "bounded_step cap opn (q, free) = (out, (q1, free1))" by (metis prod_cases3)
  obtain outs1 where r: "bounded_run cap ops (q1, free1) = (outs1, (q', free'))" "outs = out # outs1"
    using Cons.prems o by (auto split: prod.splits)
  have "delivered outs @ q' = delivered [out] @ q1 @ accepted ops outs1"
    using Cons.IH [OF r(1)] r(2) delivered_Cons [of out outs1] by simp
  also have "\<dots> = q @ accepted (opn # ops) outs"
    using bounded_step_fifo [OF o] accepted_Cons [of opn ops out outs1] r(2) by (metis append.assoc)
  finally show ?case .
qed

fun fifo_run :: "(fifo_op \<Rightarrow> ('b, fifo_out) comp) \<Rightarrow> fifo_op list \<Rightarrow> ('b, fifo_out list) comp" where
  "fifo_run perform [] = return []"
| "fifo_run perform (opn # ops) = and_then (perform opn) (\<lambda>out. and_then (fifo_run perform ops) (\<lambda>outs. return (out # outs)))"

locale byte_fifo =
  fixes inv :: "'b \<Rightarrow> bool"
    and cont :: "'b \<Rightarrow> byte list"
    and room :: "'b \<Rightarrow> nat"
    and size_of :: "'b \<Rightarrow> nat"
    and perform :: "fifo_op \<Rightarrow> ('b, fifo_out) comp"
  assumes perform_law: "inv b \<Longrightarrow> bounded_step (size_of b) opn (cont b, room b) = (out, (q, free)) \<Longrightarrow>
      \<exists>b'. perform opn b = (Done out, b') \<and> inv b' \<and> size_of b' = size_of b \<and> cont b' = q \<and> room b' = free"
begin

lemma run_refines:
  "inv b \<Longrightarrow> bounded_run (size_of b) ops (cont b, room b) = (outs, (q, free)) \<Longrightarrow>
   \<exists>b'. fifo_run perform ops b = (Done outs, b') \<and> inv b' \<and> size_of b' = size_of b \<and> cont b' = q \<and> room b' = free"
proof (induction ops arbitrary: b outs)
  case Nil
  then show ?case by (simp add: return_def)
next
  case (Cons opn ops)
  obtain out q1 free1 where o: "bounded_step (size_of b) opn (cont b, room b) = (out, (q1, free1))" by (metis prod_cases3)
  obtain b1 where p: "perform opn b = (Done out, b1)" "inv b1" "size_of b1 = size_of b" "cont b1 = q1" "room b1 = free1"
    using perform_law [OF Cons.prems(1) o] by blast
  obtain outs1 where r: "bounded_run (size_of b1) ops (cont b1, room b1) = (outs1, (q, free))" "outs = out # outs1"
    using Cons.prems(2) o p by (auto split: prod.splits)
  from Cons.IH [OF p(2) r(1)] show ?case using p(1,3) r(2) by (auto simp: and_then_def return_def)
qed

lemma run_fifo:
  assumes "inv b"
  shows "\<exists>outs b'. fifo_run perform ops b = (Done outs, b') \<and> inv b' \<and> size_of b' = size_of b
    \<and> bounded_run (size_of b) ops (cont b, room b) = (outs, (cont b', room b')) \<and> delivered outs @ cont b' = cont b @ accepted ops outs"
proof -
  obtain outs q free where r: "bounded_run (size_of b) ops (cont b, room b) = (outs, (q, free))" by (metis prod_cases3)
  from run_refines [OF assms r] bounded_run_fifo [OF r] r show ?thesis by auto
qed

end

text \<open>
  The operations of the code as those of the queue, with what they return: \<open>write\<close> with the length of the source, \<open>read\<close> into a fresh
  string, \<open>read\<close> into an array of the size asked for, and \<open>read_c\<close>. Whatever is undefined stays undefined.
\<close>

fun bb_perform :: "fifo_op \<Rightarrow> (byte_buffer, fifo_out) comp" where
  "bb_perform (Put bs) = and_then (bb_write bs (int (length bs))) (\<lambda>n. return (Took n))"
| "bb_perform (Get k) = and_then (bb_read_str [] (int k)) (\<lambda>(str, n). return (Gave (bytes str) n))"
| "bb_perform (Get_mem k) = and_then (bb_read (replicate k 0) 0 (int k)) (\<lambda>(dest, n). return (Gave (take (nat n) dest) n))"
| "bb_perform Get_c = and_then bb_read_c (\<lambda>c. return (Single c))"

lemma capacity_increment_read_p:
  assumes "bb_wf b" "k \<le> length (get_read_chunk b)"
  shows "(get_read_chunk (increment_read_p (int k) b), nat (capacity (increment_read_p (int k) b)))
    = rewound (length (m_buffer b)) (drop k (get_read_chunk b)) (nat (capacity b))"
proof -
  have a: "int k \<le> available b" using assms length_read_chunk [OF assms(1)] by simp
  have c: "get_read_chunk (increment_read_p (int k) b) = drop k (get_read_chunk b)"
    using read_chunk_increment_read_p [OF assms(1) _ a] by simp
  have "capacity (increment_read_p (int k) b) = (if int k = available b then int (length (m_buffer b)) else capacity b)"
    by (auto simp: increment_read_p_def capacity_def available_def Let_def)
  moreover have "drop k (get_read_chunk b) = [] \<longleftrightarrow> int k = available b"
    using assms(2) length_read_chunk [OF assms(1)] by auto
  ultimately show ?thesis by (simp add: c rewound_def)
qed

lemma bb_perform_law:
  assumes "bb_wf b" "bounded_step (length (m_buffer b)) opn (get_read_chunk b, nat (capacity b)) = (out, (q, free))"
  shows "\<exists>b'. bb_perform opn b = (Done out, b') \<and> bb_wf b' \<and> length (m_buffer b') = length (m_buffer b)
    \<and> get_read_chunk b' = q \<and> nat (capacity b') = free"
proof -
  let ?q = "get_read_chunk b"
  have gone: "bb_wf (increment_read_p (int k) b)" if "k \<le> length ?q" for k
    using that assms(1) length_read_chunk [OF assms(1)] by (intro bb_wf_increment_read_p) simp_all
  have taken: "get_read_chunk (increment_read_p (int (min k (length ?q))) b) = q \<and> nat (capacity (increment_read_p (int (min k (length ?q))) b)) = free"
    if "rewound (length (m_buffer b)) (drop k ?q) (nat (capacity b)) = (q, free)" for k
    using capacity_increment_read_p [OF assms(1), of "min k (length ?q)"] that
    by (cases "k \<le> length ?q") (auto simp: min_def)
  show ?thesis
  proof (cases opn)
    case (Put bs)
    let ?n = "min (nat (capacity b)) (length bs)"
    obtain c where c: "bb_write bs (int (length bs)) b = (Done (min (capacity b) (int (length bs))), c)"
      "bb_wf c" "length (m_buffer c) = length (m_buffer b)"
      "get_read_chunk c = ?q @ take (nat (min (capacity b) (int (length bs)))) bs"
      using bb_write_eq [OF assms(1), of "int (length bs)" bs] by auto
    have n: "min (capacity b) (int (length bs)) = int ?n" using capacity_nonneg [OF assms(1)] by simp
    have "m_end c = m_end b + int ?n"
      using c(1) by (auto simp: bb_write_def n Let_def increment_write_p_def split: if_splits option.splits)
    then have "nat (capacity c) = nat (capacity b) - ?n" using c(3) by (simp add: capacity_def)
    then show ?thesis using assms(2) c by (auto simp: Put n Let_def and_then_def return_def)
  next
    case (Get k)
    then show ?thesis
      using assms(2) taken [of k] gone [of "min k (length ?q)"]
      by (auto simp: bb_read_str_eq [OF assms(1)] and_then_def return_def)
  next
    case (Get_mem k)
    then show ?thesis
      using assms(2) taken [of k] gone [of "min k (length ?q)"]
      by (auto simp: bb_read_eq [OF assms(1)] and_then_def return_def min_def)
  next
    case Get_c
    show ?thesis
    proof (cases ?q)
      case Nil
      then show ?thesis using assms Get_c by (auto simp: bb_read_c_eq [OF assms(1)] and_then_def return_def)
    next
      case (Cons c cs)
      then show ?thesis
        using assms Get_c taken [of 1] gone [of 1] by (auto simp: bb_read_c_eq [OF assms(1)] and_then_def return_def)
    qed
  qed
qed

interpretation bb: byte_fifo bb_wf get_read_chunk "\<lambda>b. nat (capacity b)" "\<lambda>b. length (m_buffer b)" bb_perform
  by unfold_locales (rule bb_perform_law)

section \<open>Properties\<close>

text \<open>
  C35: a byte buffer is a bounded queue. Over any sequence of writes, reads into strings, reads into arrays and reads of one byte from a fresh
  buffer, nothing is undefined and every operation returns what the queue returns, the number of bytes a write took and those a read gave; at
  the end the buffer holds what the queue holds and has the room the queue has. So the bytes delivered followed by those still
  held are exactly the bytes the writes accepted, in order.
\<close>

theorem byte_buffer_fifo:
  "\<exists>outs b. fifo_run bb_perform ops (new_byte_buffer raw) = (Done outs, b) \<and> bb_wf b
    \<and> bounded_run (length raw) ops ([], length raw) = (outs, (get_read_chunk b, nat (capacity b)))
    \<and> delivered outs @ get_read_chunk b = accepted ops outs"
proof -
  have n: "length (m_buffer (new_byte_buffer raw)) = length raw" "nat (capacity (new_byte_buffer raw)) = length raw"
    by (simp_all add: new_byte_buffer_def capacity_def)
  show ?thesis using bb.run_fifo [of "new_byte_buffer raw" ops] by (auto simp: n)
qed

end
