(* ===== verification/Socket.thy ===== *)
theory Socket
  imports Byte_Buffer
begin

text \<open>
  \<open>cppevent_net/socket\<close>: buffered reading and writing over completions of the kernel.

  The kernel is not part of the source, so its behaviour is an argument of the model: each socket
  carries the answers it will get. \<open>m_rx\<close> lists the completions of \<open>on_recv\<close>: some
  bytes that have arrived (none: the peer has closed the stream), or an error number. A
  completion larger than the space offered is delivered in parts, as \<open>recv(2)\<close> does. \<open>m_tx\<close>
  lists the bytes the kernel will accept in successive \<open>on_send\<close> calls, or an error. When the list is
  exhausted the awaiting coroutine stays suspended. \<open>m_sent\<close> is what has been handed to
  the kernel. No assumption is made on how the stream is cut into completions.
\<close>

section \<open>State\<close>

definition SOCKET_BUFFER_SIZE :: nat where
  "SOCKET_BUFFER_SIZE = 8192"

datatype rx_event = Rx_data "byte list" | Rx_err nat

datatype tx_event = Tx_ok nat | Tx_err nat

record socket =
  m_in_buffer :: byte_buffer
  m_out_buffer :: byte_buffer
  m_rx :: "rx_event list"
  m_tx :: "tx_event list"
  m_sent :: "byte list"

definition new_socket :: "rx_event list \<Rightarrow> tx_event list \<Rightarrow> socket" where
  "new_socket rx tx =
     \<lparr>m_in_buffer = new_byte_buffer (replicate SOCKET_BUFFER_SIZE 0),
      m_out_buffer = new_byte_buffer (replicate SOCKET_BUFFER_SIZE 0),
      m_rx = rx, m_tx = tx, m_sent = []\<rparr>"

text \<open>A completion of a receive of at most \<open>n\<close> bytes: its status, its bytes, what stays queued.\<close>

fun on_recv :: "nat \<Rightarrow> rx_event list \<Rightarrow> (int \<times> byte list \<times> rx_event list) option" where
  "on_recv n [] = None"
| "on_recv n (Rx_err e # rx) = Some (- int e, [], rx)"
| "on_recv n (Rx_data bs # rx) =
     (if length bs \<le> n then Some (int (length bs), bs, rx)
      else Some (int n, take n bs, Rx_data (drop n bs) # rx))"

text \<open>A completion of a send of \<open>n\<close> bytes: its status and what stays queued.\<close>

fun on_send :: "nat \<Rightarrow> tx_event list \<Rightarrow> (int \<times> tx_event list) option" where
  "on_send n [] = None"
| "on_send n (Tx_err e # tx) = Some (- int e, tx)"
| "on_send n (Tx_ok k # tx) = (if k \<le> n then Some (int k, tx) else Some (int n, Tx_ok (k - n) # tx))"

definition on_in :: "(byte_buffer, 'a) comp \<Rightarrow> (socket, 'a) comp" where
  "on_in m s = (case m (m_in_buffer s) of (r, b) \<Rightarrow> (r, s\<lparr>m_in_buffer := b\<rparr>))"

definition on_out :: "(byte_buffer, 'a) comp \<Rightarrow> (socket, 'a) comp" where
  "on_out m s = (case m (m_out_buffer s) of (r, b) \<Rightarrow> (r, s\<lparr>m_out_buffer := b\<rparr>))"

section \<open>Receiving\<close>

definition recv_incoming :: "(socket, int) comp" where
  "recv_incoming s =
     (case get_write_chunk (m_in_buffer s) of (off, n) \<Rightarrow>
      case on_recv n (m_rx s) of
        None \<Rightarrow> (Suspended, s)
      | Some (status, data, rx) \<Rightarrow>
          (case memcpy (m_buffer (m_in_buffer s)) off data of
             None \<Rightarrow> (Undefined, s)
           | Some buf \<Rightarrow>
               let b = (m_in_buffer s)\<lparr>m_buffer := buf\<rparr>;
                   b = (if status > 0 then increment_write_p status b else b)
               in (Done status, s\<lparr>m_in_buffer := b, m_rx := rx\<rparr>)))"

definition peek :: "(socket, byte list) comp" where
  "peek s =
     (let chunk = get_read_chunk (m_in_buffer s) in
      if chunk = []
      then and_then recv_incoming (\<lambda>status.
             if status < 0 then throw (Errno_error ''socket peek failed: '' (0 - status))
             else (\<lambda>s. return (get_read_chunk (m_in_buffer s)) s)) s
      else return chunk s)"

definition seek :: "int \<Rightarrow> socket \<Rightarrow> socket" where
  "seek offset s = s\<lparr>m_in_buffer := increment_read_p offset (m_in_buffer s)\<rparr>"

text \<open>
  The weight of the queued completions: what a receive that delivers bytes decreases.
\<close>

fun rx_weight :: "rx_event list \<Rightarrow> nat" where
  "rx_weight [] = 0"
| "rx_weight (Rx_err e # rx) = Suc (rx_weight rx)"
| "rx_weight (Rx_data bs # rx) = Suc (length bs + rx_weight rx)"

lemma on_recv_weight:
  "on_recv n rx = Some (status, data, rx') \<Longrightarrow> status > 0 \<Longrightarrow> rx_weight rx' < rx_weight rx"
  by (cases "(n, rx)" rule: on_recv.cases) (auto split: if_splits)

lemma on_recv_weight_le:
  "on_recv n rx = Some (status, data, rx') \<Longrightarrow> rx_weight rx' \<le> rx_weight rx"
  by (cases "(n, rx)" rule: on_recv.cases) (auto split: if_splits)

lemma recv_incoming_weight:
  "recv_incoming s = (Done status, s') \<Longrightarrow> status > 0 \<Longrightarrow> rx_weight (m_rx s') < rx_weight (m_rx s)"
  by (auto simp: recv_incoming_def Let_def dest: on_recv_weight split: prod.splits option.splits)

lemma on_recv_weight_amount:
  "on_recv n rx = Some (status, data, rx') \<Longrightarrow> rx_weight rx' + nat status \<le> rx_weight rx"
  by (cases "(n, rx)" rule: on_recv.cases) (auto split: if_splits)

lemma recv_incoming_weight_amount:
  "recv_incoming s = (Done (int k), s') \<Longrightarrow> rx_weight (m_rx s') + k \<le> rx_weight (m_rx s)"
  by (auto simp: recv_incoming_def Let_def dest!: on_recv_weight_amount split: prod.splits option.splits)

lemma on_in_rx [simp]: "on_in m s = (r, s') \<Longrightarrow> m_rx s' = m_rx s"
  by (auto simp: on_in_def split: prod.splits)

text \<open>
  \<open>read\<close> into memory, \<open>read\<close> into a string and \<open>skip\<close> are the same loop over three ways
  of draining the input buffer; \<open>drain d got rest\<close> takes up to \<open>rest\<close> bytes after
  \<open>got\<close> have been taken, and yields the destination and the count.
\<close>

function fill_loop :: "string \<Rightarrow> ('d \<Rightarrow> int \<Rightarrow> int \<Rightarrow> (byte_buffer, 'd \<times> int) comp)
    \<Rightarrow> int \<Rightarrow> bool \<Rightarrow> 'd \<Rightarrow> int \<Rightarrow> (socket, 'd \<times> int) comp" where
  "fill_loop what drain sz fully d got s =
     (if got < sz
      then (case recv_incoming s of
              (Done status, s1) \<Rightarrow>
                if status < 0 then (Threw (Errno_error (what @ '' failed: '') (0 - status)), s1)
                else if status = 0
                then (if fully then (Threw (Runtime_error (what @ '' failed: socket closed'')), s1)
                      else (Done (d, got), s1))
                else (case on_in (drain d got (sz - got)) s1 of
                        (Done (d', n), s2) \<Rightarrow> fill_loop what drain sz fully d' (got + n) s2
                      | (Threw e, s2) \<Rightarrow> (Threw e, s2)
                      | (Suspended, s2) \<Rightarrow> (Suspended, s2)
                      | (Undefined, s2) \<Rightarrow> (Undefined, s2))
            | (Threw e, s1) \<Rightarrow> (Threw e, s1)
            | (Suspended, s1) \<Rightarrow> (Suspended, s1)
            | (Undefined, s1) \<Rightarrow> (Undefined, s1))
      else (Done (d, got), s))"
  by pat_completeness auto
termination
proof (relation "measure (\<lambda>(_, _, _, _, _, _, s). rx_weight (m_rx s))", goal_cases)
  case 1
  show ?case by simp
next
  case (2 what drain sz fully d got s r s1 status r2 s2 p d' n)
  then show ?case
    using recv_incoming_weight [of s status s1] on_in_rx [of "drain d got (sz - got)" s1 "Done (d', n)" s2]
    by auto
qed

declare fill_loop.simps [simp del]

definition fill :: "string \<Rightarrow> ('d \<Rightarrow> int \<Rightarrow> int \<Rightarrow> (byte_buffer, 'd \<times> int) comp)
    \<Rightarrow> int \<Rightarrow> bool \<Rightarrow> 'd \<Rightarrow> (socket, 'd \<times> int) comp" where
  "fill what drain sz fully d =
     and_then (on_in (drain d 0 sz)) (\<lambda>(d, got). fill_loop what drain sz fully d got)"

definition skip_buffer :: "int \<Rightarrow> (byte_buffer, int) comp" where
  "skip_buffer sz b = (let to_skip = min (available b) sz in (Done to_skip, increment_read_p to_skip b))"

definition drain_mem :: "nat \<Rightarrow> byte list \<Rightarrow> int \<Rightarrow> int \<Rightarrow> (byte_buffer, byte list \<times> int) comp" where
  "drain_mem off dest got rest = bb_read dest (off + nat got) rest"

definition drain_str :: "string \<Rightarrow> int \<Rightarrow> int \<Rightarrow> (byte_buffer, string \<times> int) comp" where
  "drain_str dest got rest = bb_read_str dest rest"

definition drain_skip :: "unit \<Rightarrow> int \<Rightarrow> int \<Rightarrow> (byte_buffer, unit \<times> int) comp" where
  "drain_skip u got rest = and_then (skip_buffer rest) (\<lambda>n. return (u, n))"

definition read_mem :: "byte list \<Rightarrow> nat \<Rightarrow> int \<Rightarrow> bool \<Rightarrow> (socket, byte list \<times> int) comp" where
  "read_mem dest off sz read_fully = fill ''socket read'' (drain_mem off) sz read_fully dest"

definition read_str :: "string \<Rightarrow> int \<Rightarrow> bool \<Rightarrow> (socket, string \<times> int) comp" where
  "read_str dest sz read_fully = fill ''socket read'' drain_str sz read_fully dest"

definition skip :: "int \<Rightarrow> bool \<Rightarrow> (socket, int) comp" where
  "skip sz skip_fully = and_then (fill ''socket skip'' drain_skip sz skip_fully ()) (\<lambda>(_, n). return n)"

definition read_c :: "bool \<Rightarrow> (socket, int) comp" where
  "read_c read_fully s =
     (if available (m_in_buffer s) = 0
      then and_then recv_incoming (\<lambda>status.
             if status < 0 then throw (Errno_error ''socket read_c failed: '' (0 - status))
             else if status = 0 \<and> read_fully then throw (Runtime_error ''socket read_c failed: socket closed'')
             else on_in bb_read_c) s
      else on_in bb_read_c s)"

section \<open>Sending\<close>

fun tx_weight :: "tx_event list \<Rightarrow> nat" where
  "tx_weight [] = 0"
| "tx_weight (Tx_err e # tx) = Suc (tx_weight tx)"
| "tx_weight (Tx_ok k # tx) = Suc (k + tx_weight tx)"

lemma on_send_weight: "on_send n tx = Some (status, tx') \<Longrightarrow> 0 < n \<Longrightarrow> tx_weight tx' < tx_weight tx"
  by (cases "(n, tx)" rule: on_send.cases) (auto split: if_splits)

function flush :: "(socket, unit) comp" where
  "flush s =
     (let chunk = get_read_chunk (m_out_buffer s) in
      if chunk = [] then (Done (), s)
      else case on_send (length chunk) (m_tx s) of
             None \<Rightarrow> (Suspended, s)
           | Some (status, tx) \<Rightarrow>
               if status < 0 then (Threw (Errno_error ''socket flush failed: '' (0 - status)), s\<lparr>m_tx := tx\<rparr>)
               else flush (s\<lparr>m_tx := tx, m_sent := m_sent s @ take (nat status) chunk,
                             m_out_buffer := increment_read_p status (m_out_buffer s)\<rparr>))"
  by pat_completeness auto
termination
  by (relation "measure (\<lambda>s. tx_weight (m_tx s))") (auto dest: on_send_weight)

declare flush.simps [simp del]

text \<open>
  A turn of the loop of \<open>write\<close> that flushes and then finds no room would repeat for ever without
  any effect, which C++ leaves undefined.
\<close>

function write_loop :: "byte list \<Rightarrow> int \<Rightarrow> int \<Rightarrow> (socket, unit) comp" where
  "write_loop src sz got s =
     (if got < sz
      then (case flush s of
              (Done _, s1) \<Rightarrow>
                (case on_out (bb_write (drop (nat got) src) (sz - got)) s1 of
                   (Done n, s2) \<Rightarrow> if n \<le> 0 then (Undefined, s2) else write_loop src sz (got + n) s2
                 | (Threw e, s2) \<Rightarrow> (Threw e, s2)
                 | (Suspended, s2) \<Rightarrow> (Suspended, s2)
                 | (Undefined, s2) \<Rightarrow> (Undefined, s2))
            | (Threw e, s1) \<Rightarrow> (Threw e, s1)
            | (Suspended, s1) \<Rightarrow> (Suspended, s1)
            | (Undefined, s1) \<Rightarrow> (Undefined, s1))
      else (Done (), s))"
  by pat_completeness auto
termination by (relation "measure (\<lambda>(_, sz, got, _). nat (sz - got))") auto

declare write_loop.simps [simp del]

definition sock_write :: "byte list \<Rightarrow> int \<Rightarrow> (socket, unit) comp" where
  "sock_write src sz = and_then (on_out (bb_write src sz)) (\<lambda>got. write_loop src sz got)"

section \<open>The stream behind a socket\<close>

text \<open>
  What a reader can still get: the buffered bytes, then those of the completions up to the first
  one that brings none; and what that one will say.
\<close>

fun rx_bytes :: "rx_event list \<Rightarrow> byte list" where
  "rx_bytes [] = []"
| "rx_bytes (Rx_err e # rx) = []"
| "rx_bytes (Rx_data bs # rx) = (if bs = [] then [] else bs @ rx_bytes rx)"

fun rx_rest :: "rx_event list \<Rightarrow> rx_event list" where
  "rx_rest [] = []"
| "rx_rest (Rx_err e # rx) = Rx_err e # rx"
| "rx_rest (Rx_data bs # rx) = (if bs = [] then Rx_data bs # rx else rx_rest rx)"

definition rx_stop :: "rx_event list \<Rightarrow> int option" where
  "rx_stop rx = (case rx_rest rx of [] \<Rightarrow> None | Rx_data _ # _ \<Rightarrow> Some 0 | Rx_err e # _ \<Rightarrow> Some (- int e))"

definition incoming :: "socket \<Rightarrow> byte list" where
  "incoming s = get_read_chunk (m_in_buffer s) @ rx_bytes (m_rx s)"

definition sock_wf :: "socket \<Rightarrow> bool" where
  "sock_wf s \<longleftrightarrow> bb_wf (m_in_buffer s) \<and> length (m_buffer (m_in_buffer s)) = SOCKET_BUFFER_SIZE
     \<and> bb_wf (m_out_buffer s) \<and> length (m_buffer (m_out_buffer s)) = SOCKET_BUFFER_SIZE"

definition same_out :: "socket \<Rightarrow> socket \<Rightarrow> bool" where
  "same_out s s' \<longleftrightarrow> m_out_buffer s' = m_out_buffer s \<and> m_tx s' = m_tx s \<and> m_sent s' = m_sent s"

text \<open>
  A step of a reader: it has taken \<open>n\<close> bytes off the stream and changed nothing else; or it
  has taken all of them and the completion that ended them.
\<close>

definition consumed :: "nat \<Rightarrow> socket \<Rightarrow> socket \<Rightarrow> bool" where
  "consumed n s s' \<longleftrightarrow> sock_wf s' \<and> incoming s' = drop n (incoming s)
     \<and> rx_rest (m_rx s') = rx_rest (m_rx s) \<and> same_out s s'"

definition exhausted :: "socket \<Rightarrow> socket \<Rightarrow> bool" where
  "exhausted s s' \<longleftrightarrow> sock_wf s' \<and> get_read_chunk (m_in_buffer s') = []
     \<and> m_rx s' = tl (rx_rest (m_rx s)) \<and> same_out s s'"

lemma sock_wf_new [simp, wf_intros]: "sock_wf (new_socket rx tx)"
  by (simp add: sock_wf_def new_socket_def) (simp add: new_byte_buffer_def)

lemma incoming_new [simp]: "incoming (new_socket rx tx) = rx_bytes rx"
  by (simp add: incoming_def new_socket_def)

lemma m_rx_new [simp]: "m_rx (new_socket rx tx) = rx"
  by (simp add: new_socket_def)

lemma same_out_refl [simp]: "same_out s s"
  by (simp add: same_out_def)

lemma same_out_trans: "same_out s s1 \<Longrightarrow> same_out s1 s2 \<Longrightarrow> same_out s s2"
  by (simp add: same_out_def)

lemma consumed_0: "sock_wf s \<Longrightarrow> consumed 0 s s"
  by (simp add: consumed_def)

lemma consumed_wf: "consumed n s s' \<Longrightarrow> sock_wf s'"
  by (simp add: consumed_def)

lemma consumed_trans: "consumed m s s1 \<Longrightarrow> consumed n s1 s2 \<Longrightarrow> consumed (m + n) s s2"
  by (auto simp: consumed_def add.commute intro: same_out_trans)

lemma consumed_exhausted: "consumed m s s1 \<Longrightarrow> exhausted s1 s2 \<Longrightarrow> exhausted s s2"
  by (auto simp: consumed_def exhausted_def intro: same_out_trans)

lemma consumed_stop: "consumed n s s' \<Longrightarrow> rx_stop (m_rx s') = rx_stop (m_rx s)"
  by (simp add: consumed_def rx_stop_def)

lemma rx_bytes_Nil: "rx_bytes rx = [] \<Longrightarrow> rx_rest rx = rx"
  by (cases rx rule: rx_bytes.cases) (auto split: if_splits)

lemma rx_bytes_Cons:
  "rx_bytes rx \<noteq> [] \<Longrightarrow> \<exists>bs rx'. rx = Rx_data bs # rx' \<and> bs \<noteq> [] \<and> rx_bytes rx = bs @ rx_bytes rx'
     \<and> rx_rest rx = rx_rest rx'"
  by (cases rx rule: rx_bytes.cases) (auto split: if_splits)

lemma write_chunk_drained:
  assumes "sock_wf s" "get_read_chunk (m_in_buffer s) = []"
  shows "get_write_chunk (m_in_buffer s) = (0, SOCKET_BUFFER_SIZE)" "m_end (m_in_buffer s) = 0"
    "m_start (m_in_buffer s) = 0"
proof -
  have wf: "bb_wf (m_in_buffer s)" using assms(1) by (simp add: sock_wf_def)
  then have "available (m_in_buffer s) = 0" using assms(2) by (simp add: read_chunk_empty_iff)
  with wf show "m_end (m_in_buffer s) = 0" "m_start (m_in_buffer s) = 0"
    by (auto simp: bb_wf_def available_def)
  then show "get_write_chunk (m_in_buffer s) = (0, SOCKET_BUFFER_SIZE)"
    using assms(1) by (simp add: get_write_chunk_def write_ptr_def capacity_def sock_wf_def)
qed

lemma recv_incoming_stop:
  assumes "sock_wf s" "get_read_chunk (m_in_buffer s) = []" "rx_bytes (m_rx s) = []"
  shows "recv_incoming s = (case rx_stop (m_rx s) of None \<Rightarrow> (Suspended, s)
    | Some st \<Rightarrow> (Done st, s\<lparr>m_rx := tl (m_rx s)\<rparr>))"
proof -
  note ch = write_chunk_drained [OF assms(1,2)]
  show ?thesis using assms(3)
    by (cases "m_rx s" rule: rx_bytes.cases)
      (auto simp: recv_incoming_def ch rx_stop_def memcpy_Nil split: if_splits)
qed

lemma rx_stop_nonpos: "rx_stop rx = Some st \<Longrightarrow> st \<le> 0"
  by (auto simp: rx_stop_def split: list.splits rx_event.splits)

lemma exhausted_stop:
  assumes "sock_wf s" "get_read_chunk (m_in_buffer s) = []" "rx_bytes (m_rx s) = []"
  shows "exhausted s (s\<lparr>m_rx := tl (m_rx s)\<rparr>)"
  using assms by (simp add: exhausted_def sock_wf_def same_out_def rx_bytes_Nil)

lemma recv_incoming_data:
  assumes "sock_wf s" "get_read_chunk (m_in_buffer s) = []" "rx_bytes (m_rx s) \<noteq> []"
  obtains k s' where "recv_incoming s = (Done (int k), s')" "0 < k" "consumed 0 s s'"
    "length (get_read_chunk (m_in_buffer s')) = k"
proof -
  note ch = write_chunk_drained [OF assms(1,2)]
  obtain bs rx where rx: "m_rx s = Rx_data bs # rx" "bs \<noteq> []"
    "rx_bytes (m_rx s) = bs @ rx_bytes rx" "rx_rest (m_rx s) = rx_rest rx"
    using rx_bytes_Cons [OF assms(3)] by blast
  define k where "k = min (length bs) SOCKET_BUFFER_SIZE"
  define rx' where "rx' = (if length bs \<le> SOCKET_BUFFER_SIZE then rx else Rx_data (drop SOCKET_BUFFER_SIZE bs) # rx)"
  define buf where "buf = take k bs @ drop k (m_buffer (m_in_buffer s))"
  define b where "b = increment_write_p (int k) ((m_in_buffer s)\<lparr>m_buffer := buf\<rparr>)"
  have k: "0 < k" "k \<le> length bs" "k \<le> SOCKET_BUFFER_SIZE"
    using rx(2) by (auto simp: k_def SOCKET_BUFFER_SIZE_def)
  have l: "length (m_buffer (m_in_buffer s)) = SOCKET_BUFFER_SIZE"
    using assms(1) by (simp add: sock_wf_def)
  have recv: "on_recv SOCKET_BUFFER_SIZE (m_rx s) = Some (int k, take k bs, rx')"
    by (auto simp: rx(1) k_def rx'_def min_def)
  have cpy: "memcpy (m_buffer (m_in_buffer s)) 0 (take k bs) = Some buf"
    using k l by (simp add: memcpy_def buf_def)
  have 1: "recv_incoming s = (Done (int k), s\<lparr>m_in_buffer := b, m_rx := rx'\<rparr>)"
    using k by (simp add: recv_incoming_def ch recv cpy Let_def b_def)
  have lbuf: "length buf = SOCKET_BUFFER_SIZE" using k l by (simp add: buf_def)
  have chunk: "get_read_chunk b = take k bs"
    using k by (simp add: b_def get_read_chunk_def available_def read_ptr_def increment_write_p_def ch buf_def)
  have "rx_bytes (m_rx s) = take k bs @ rx_bytes rx'" "rx_rest rx' = rx_rest (m_rx s)"
    by (auto simp: rx k_def rx'_def)
  then have "consumed 0 s (s\<lparr>m_in_buffer := b, m_rx := rx'\<rparr>)"
    using assms(1,2) lbuf k l
    by (simp add: consumed_def incoming_def chunk same_out_def)
      (simp add: sock_wf_def b_def increment_write_p_def bb_wf_def ch)
  moreover have "length (get_read_chunk b) = k" using k chunk by simp
  ultimately show thesis using that [OF 1 k(1)] by simp
qed

section \<open>The reading loop\<close>

text \<open>
  What a loop that wants \<open>n\<close> more bytes ends with: the bytes, if the stream holds them;
  otherwise what its last completion decides. \<open>fin\<close> is the destination as a function of
  the bytes received.
\<close>

definition filled :: "string \<Rightarrow> nat \<Rightarrow> bool \<Rightarrow> nat \<Rightarrow> (byte list \<Rightarrow> 'd) \<Rightarrow> socket
    \<Rightarrow> ('d \<times> int) outcome \<times> socket \<Rightarrow> bool" where
  "filled what n fully t fin s res \<longleftrightarrow>
     (if n \<le> length (incoming s)
      then fst res = Done (fin (take n (incoming s)), int (t + n)) \<and> consumed n s (snd res)
      else case rx_stop (m_rx s) of
        None \<Rightarrow> fst res = Suspended \<and> consumed (length (incoming s)) s (snd res)
      | Some st \<Rightarrow> exhausted s (snd res) \<and>
          fst res = (if st < 0 then Threw (Errno_error (what @ '' failed: '') (0 - st))
                     else if fully then Threw (Runtime_error (what @ '' failed: socket closed''))
                     else Done (fin (incoming s), int (t + length (incoming s)))))"

lemma filled_step:
  assumes c: "consumed k s s1" and k: "k \<le> n" "k \<le> length (incoming s)"
    and f: "filled what (n - k) fully (t + k) fin1 s1 res"
    and fin: "\<And>ys. length ys \<le> n - k \<Longrightarrow> fin1 ys = fin (take k (incoming s) @ ys)"
  shows "filled what n fully t fin s res"
proof -
  have inc: "incoming s1 = drop k (incoming s)" using c by (simp add: consumed_def)
  show ?thesis
  proof (cases "n \<le> length (incoming s)")
    case True
    then have "fst res = Done (fin1 (take (n - k) (incoming s1)), int (t + n))"
      "consumed (n - k) s1 (snd res)"
      using f k by (auto simp: filled_def inc)
    moreover have "take n (incoming s) = take k (incoming s) @ take (n - k) (incoming s1)"
      by (simp add: inc take_drop_split [OF k(1)])
    ultimately show ?thesis
      using True fin [of "take (n - k) (incoming s1)"] consumed_trans [OF c] k(1)
      by (auto simp: filled_def) (metis le_add_diff_inverse)
  next
    case False
    then have less: "\<not> n - k \<le> length (incoming s1)" using k by (simp add: inc)
    have "fin1 (incoming s1) = fin (incoming s)"
      using fin [of "incoming s1"] less by (simp add: inc)
    moreover have "length (incoming s) = k + length (incoming s1)" using k by (simp add: inc)
    ultimately show ?thesis
      using f False less consumed_trans [OF c] consumed_exhausted [OF c] consumed_stop [OF c]
      by (auto simp: filled_def split: option.splits)
  qed
qed

text \<open>
  The contract of a way of draining the buffer. \<open>absorb d t bs\<close> is the destination after
  \<open>bs\<close> have been stored behind the \<open>t\<close> bytes stored before.
\<close>

locale drain =
  fixes dr :: "'d \<Rightarrow> int \<Rightarrow> int \<Rightarrow> (byte_buffer, 'd \<times> int) comp"
    and absorb :: "'d \<Rightarrow> nat \<Rightarrow> byte list \<Rightarrow> 'd"
    and fits :: "'d \<Rightarrow> nat \<Rightarrow> bool"
  assumes dr_law: "bb_wf b \<Longrightarrow> fits d (t + n) \<Longrightarrow> dr d (int t) (int n) b =
      (Done (absorb d t (take n (get_read_chunk b)), int (min n (length (get_read_chunk b)))),
       increment_read_p (int (min n (length (get_read_chunk b)))) b)"
    and absorb_append: "fits d (t + length xs + length ys) \<Longrightarrow>
      absorb (absorb d t xs) (t + length xs) ys = absorb d t (xs @ ys)"
    and absorb_fits: "fits d n \<Longrightarrow> t + length xs \<le> n \<Longrightarrow> fits (absorb d t xs) n"
    and absorb_Nil: "fits d t \<Longrightarrow> absorb d t [] = d"
    and fits_mono: "fits d n \<Longrightarrow> m \<le> n \<Longrightarrow> fits d m"
begin

lemma drain_socket:
  assumes "sock_wf s" "fits d (t + n)"
  obtains k s' where
    "on_in (dr d (int t) (int n)) s = (Done (absorb d t (take k (incoming s)), int k), s')"
    "consumed k s s'" "k = min n (length (get_read_chunk (m_in_buffer s)))"
    "k < n \<longrightarrow> get_read_chunk (m_in_buffer s') = []"
proof -
  define c where "c = get_read_chunk (m_in_buffer s)"
  define k where "k = min n (length c)"
  define b where "b = increment_read_p (int k) (m_in_buffer s)"
  have wf: "bb_wf (m_in_buffer s)" using assms(1) by (simp add: sock_wf_def)
  have kc: "int k \<le> available (m_in_buffer s)"
    using length_read_chunk [OF wf] by (simp add: k_def c_def)
  have tk: "take n c = take k c" by (simp add: k_def min_def)
  have ki: "take k (incoming s) = take k c" by (simp add: incoming_def k_def c_def)
  have "dr d (int t) (int n) (m_in_buffer s) = (Done (absorb d t (take n c), int k), b)"
    using dr_law [OF wf assms(2)] by (simp add: b_def k_def c_def)
  then have "on_in (dr d (int t) (int n)) s = (Done (absorb d t (take k (incoming s)), int k), s\<lparr>m_in_buffer := b\<rparr>)"
    by (simp add: on_in_def ki tk)
  moreover have chunk: "get_read_chunk b = drop k c"
    using read_chunk_increment_read_p [OF wf _ kc] by (simp add: b_def c_def)
  moreover have "consumed k s (s\<lparr>m_in_buffer := b\<rparr>)"
    using assms(1) wf kc
    by (simp add: consumed_def same_out_def incoming_def chunk flip: c_def)
      (simp add: sock_wf_def b_def bb_wf_increment_read_p k_def)
  ultimately show thesis using that [of k "s\<lparr>m_in_buffer := b\<rparr>"] by (simp add: k_def c_def)
qed

lemma fill_loop_turn:
  assumes "sock_wf s" "fits d (t + n)" "0 < n" and chunk: "get_read_chunk (m_in_buffer s) = []" and data: "rx_bytes (m_rx s) \<noteq> []"
  obtains k s2 where "0 < k" "k \<le> n" "k \<le> length (incoming s)" "consumed k s s2" "rx_weight (m_rx s2) < rx_weight (m_rx s)"
    "k < n \<longrightarrow> get_read_chunk (m_in_buffer s2) = []"
    "fill_loop what dr (int (t + n)) fully d (int t) s
      = fill_loop what dr (int (t + n)) fully (absorb d t (take k (incoming s))) (int (t + k)) s2"
proof -
  obtain k0 s1 where r: "recv_incoming s = (Done (int k0), s1)" "0 < k0" "consumed 0 s s1"
    "length (get_read_chunk (m_in_buffer s1)) = k0"
    by (rule recv_incoming_data [OF assms(1) chunk data])
  obtain s2 k where d: "on_in (dr d (int t) (int n)) s1 = (Done (absorb d t (take k (incoming s1)), int k), s2)"
    "consumed k s1 s2" "k = min n k0" "k < n \<longrightarrow> get_read_chunk (m_in_buffer s2) = []"
    using drain_socket [OF consumed_wf [OF r(3)] assms(2)] r(4) by metis
  have k: "0 < k" "k \<le> n" using d(3) assms(3) r(2) by auto
  have inc1: "incoming s1 = incoming s" using r(3) by (simp add: consumed_def)
  have lk: "k \<le> length (incoming s)"
    using d(3) r(4) inc1 by (metis incoming_def length_append min.cobounded2 trans_le_add1)
  have "rx_weight (m_rx s2) < rx_weight (m_rx s)"
    using recv_incoming_weight [OF r(1)] r(2) on_in_rx [OF d(1)] by simp
  moreover have "fill_loop what dr (int (t + n)) fully d (int t) s
      = fill_loop what dr (int (t + n)) fully (absorb d t (take k (incoming s))) (int (t + k)) s2"
    using r(1,2) d(1) k assms(3) inc1 by (subst fill_loop.simps) simp
  ultimately show thesis using that k lk consumed_trans [OF r(3) d(2)] d(4) by simp
qed

lemma fill_loop_filled:
  assumes "sock_wf s" "fits d (t + n)" "0 < n \<Longrightarrow> get_read_chunk (m_in_buffer s) = []"
  shows "filled what n fully t (absorb d t) s (fill_loop what dr (int (t + n)) fully d (int t) s)"
  using assms
proof (induction "rx_weight (m_rx s)" arbitrary: s d t n rule: less_induct)
  case less
  show ?case
  proof (cases "n = 0")
    case True
    then show ?thesis
      using less.prems consumed_0 by (simp add: fill_loop.simps filled_def absorb_Nil)
  next
    case False
    then have chunk: "get_read_chunk (m_in_buffer s) = []" using less.prems(3) by simp
    show ?thesis
    proof (cases "rx_bytes (m_rx s) = []")
      case True
      note stop = recv_incoming_stop [OF less.prems(1) chunk True]
      have inc: "incoming s = []" by (simp add: incoming_def chunk True)
      show ?thesis
      proof (cases "rx_stop (m_rx s)")
        case None
        then show ?thesis using False stop less.prems(1) consumed_0
          by (simp add: fill_loop.simps filled_def inc)
      next
        case (Some st)
        have "absorb d t [] = d" using less.prems(2) absorb_Nil fits_mono by simp
        then show ?thesis
          using False stop Some exhausted_stop [OF less.prems(1) chunk True] rx_stop_nonpos [OF Some]
          by (simp add: fill_loop.simps [of what dr] filled_def inc)
      qed
    next
      case data: False
      have "0 < n" using False by simp
      from less.prems(1,2) this chunk data
      obtain k s2 where k: "0 < k" "k \<le> n" and lk: "k \<le> length (incoming s)" and c2: "consumed k s s2"
        and w: "rx_weight (m_rx s2) < rx_weight (m_rx s)" and d4: "k < n \<longrightarrow> get_read_chunk (m_in_buffer s2) = []"
        and turn: "fill_loop what dr (int (t + n)) fully d (int t) s
          = fill_loop what dr (int (t + n)) fully (absorb d t (take k (incoming s))) (int (t + k)) s2"
        by (rule fill_loop_turn)
      define d2 where "d2 = absorb d t (take k (incoming s))"
      note unf = turn [folded d2_def]
      have fits2: "fits d2 (t + n)"
        using absorb_fits [OF less.prems(2), of t "take k (incoming s)"] k lk by (simp add: d2_def)
      have "filled what (n - k) fully (t + k) (absorb d2 (t + k)) s2
          (fill_loop what dr (int (t + k + (n - k))) fully d2 (int (t + k)) s2)"
        using w consumed_wf [OF c2] fits2 d4 k
        by (intro less.hyps) simp_all
      then have "filled what (n - k) fully (t + k) (absorb d2 (t + k)) s2
          (fill_loop what dr (int (t + n)) fully d (int t) s)"
        using k(2) by (simp only: unf) (simp add: add.assoc)
      then show ?thesis
      proof (rule filled_step [OF c2 k(2) lk])
        fix ys :: "byte list" assume "length ys \<le> n - k"
        then have "fits d (t + length (take k (incoming s)) + length ys)"
          using less.prems(2) k lk by (auto intro: fits_mono)
        from absorb_append [OF this]
        show "absorb d2 (t + k) ys = absorb d t (take k (incoming s) @ ys)"
          using lk by (simp add: d2_def)
      qed
    qed
  qed
qed

lemma fill_filled:
  assumes "sock_wf s" "fits d n"
  shows "filled what n fully 0 (absorb d 0) s (fill what dr (int n) fully d s)"
proof -
  obtain k s1 where d: "on_in (dr d (int 0) (int n)) s = (Done (absorb d 0 (take k (incoming s)), int k), s1)"
    "consumed k s s1" "k = min n (length (get_read_chunk (m_in_buffer s)))"
    "k < n \<longrightarrow> get_read_chunk (m_in_buffer s1) = []"
    by (rule drain_socket [of s d 0 n, unfolded add_0, OF assms])
  have k: "k \<le> n" "k \<le> length (incoming s)" using d(3) by (auto simp: incoming_def)
  define d1 where "d1 = absorb d 0 (take k (incoming s))"
  have fits1: "fits d1 (k + (n - k))"
    using absorb_fits [OF assms(2), of 0 "take k (incoming s)"] k by (simp add: d1_def)
  have "fill what dr (int n) fully d s = fill_loop what dr (int (k + (n - k))) fully d1 (int k) s1"
    using d(1) k by (simp add: fill_def and_then_Done d1_def)
  moreover have "filled what (n - k) fully k (absorb d1 k) s1
      (fill_loop what dr (int (k + (n - k))) fully d1 (int k) s1)"
    using consumed_wf [OF d(2)] fits1 d(4) k by (intro fill_loop_filled) simp_all
  ultimately have "filled what (n - k) fully (0 + k) (absorb d1 k) s1 (fill what dr (int n) fully d s)"
    by simp
  then show ?thesis
  proof (rule filled_step [OF d(2) k])
    fix ys :: "byte list" assume "length ys \<le> n - k"
    then have "fits d (0 + length (take k (incoming s)) + length ys)"
      using assms(2) k by (auto intro: fits_mono)
    from absorb_append [OF this]
    show "absorb d1 k ys = absorb d 0 (take k (incoming s) @ ys)"
      using k by (simp add: d1_def)
  qed
qed

end

text \<open>The three ways of draining keep the contract.\<close>

interpretation str: drain drain_str "\<lambda>d _ bs. d @ chars bs" "\<lambda>_ _. True"
  by unfold_locales (simp_all add: drain_str_def bb_read_str_eq)

lemma skip_buffer_eq:
  assumes "bb_wf b"
  shows "skip_buffer (int n) b = (Done (int (min n (length (get_read_chunk b)))),
    increment_read_p (int (min n (length (get_read_chunk b)))) b)"
proof -
  have "min (available b) (int n) = int (min n (length (get_read_chunk b)))"
    using min_available [OF assms] by (metis min.commute)
  then show ?thesis by (simp add: skip_buffer_def Let_def)
qed

interpretation skp: drain drain_skip "\<lambda>d _ _. d" "\<lambda>_ _. True"
  by unfold_locales (simp_all add: drain_skip_def and_then_Done [OF skip_buffer_eq] return_def)

interpretation mem: drain "drain_mem off"
  "\<lambda>d t bs. take (off + t) d @ bs @ drop (off + t + length bs) d" "\<lambda>d n. off + n \<le> length d"
  for off
proof
  fix b d t n assume wf: "bb_wf b" and "off + (t + n) \<le> length (d :: byte list)"
  then have "off + t + min n (length (get_read_chunk b)) \<le> length d" by auto
  with wf show "drain_mem off d (int t) (int n) b =
      (Done (take (off + t) d @ take n (get_read_chunk b) @ drop (off + t + length (take n (get_read_chunk b))) d,
         int (min n (length (get_read_chunk b)))),
       increment_read_p (int (min n (length (get_read_chunk b)))) b)"
    by (simp add: drain_mem_def bb_read_eq min.commute)
next
  fix d :: "byte list" and t and xs ys :: "byte list"
  assume h: "off + (t + length xs + length ys) \<le> length d"
  define e where "e = take (off + t) d @ xs @ drop (off + t + length xs) d"
  have "take (off + (t + length xs)) e = take (off + t) d @ xs"
    "drop (off + (t + length xs) + length ys) e = drop (off + t + length (xs @ ys)) d"
    using h by (simp_all add: e_def ac_simps)
  then show "take (off + (t + length xs)) e @ ys @ drop (off + (t + length xs) + length ys) e =
      take (off + t) d @ (xs @ ys) @ drop (off + t + length (xs @ ys)) d"
    by simp
qed (auto simp: min_def)

section \<open>Reading functions on the stream\<close>

text \<open>\<open>peek\<close>, \<open>seek\<close> and \<open>read_c\<close> in terms of the stream.\<close>

lemma peek_data:
  assumes "sock_wf s" "incoming s \<noteq> []"
  obtains chunk s' where "peek s = (Done chunk, s')" "consumed 0 s s'" "chunk \<noteq> []"
    "chunk = get_read_chunk (m_in_buffer s')" "rx_weight (m_rx s') + length chunk \<le> rx_weight (m_rx s) + length (get_read_chunk (m_in_buffer s))"
proof (cases "get_read_chunk (m_in_buffer s) = []")
  case False
  then show thesis
    using that [of "get_read_chunk (m_in_buffer s)" s] assms(1) consumed_0
    by (simp add: peek_def return_def)
next
  case True
  then have "rx_bytes (m_rx s) \<noteq> []" using assms(2) by (simp add: incoming_def)
  then obtain k s' where r: "recv_incoming s = (Done (int k), s')" "0 < k" "consumed 0 s s'"
    "length (get_read_chunk (m_in_buffer s')) = k"
    using recv_incoming_data [OF assms(1) True] by metis
  then have "peek s = (Done (get_read_chunk (m_in_buffer s')), s')"
    using True by (simp add: peek_def and_then_def r(1) return_def)
  moreover have "rx_weight (m_rx s') + k \<le> rx_weight (m_rx s)"
    using r(1) by (rule recv_incoming_weight_amount)
  ultimately show thesis using that r(2-4) True by fastforce
qed

lemma peek_empty:
  assumes "sock_wf s" "incoming s = []"
  shows "peek s = (case rx_stop (m_rx s) of None \<Rightarrow> (Suspended, s)
    | Some st \<Rightarrow> if st < 0 then (Threw (Errno_error ''socket peek failed: '' (0 - st)), s\<lparr>m_rx := tl (m_rx s)\<rparr>)
                 else (Done [], s\<lparr>m_rx := tl (m_rx s)\<rparr>))"
proof -
  have c: "get_read_chunk (m_in_buffer s) = []" "rx_bytes (m_rx s) = []"
    using assms(2) by (simp_all add: incoming_def)
  show ?thesis
    using recv_incoming_stop [OF assms(1) c]
    by (auto simp: peek_def c and_then_def throw_def return_def split: option.splits)
qed

lemma seek_consumed:
  assumes "sock_wf s" "k \<le> length (get_read_chunk (m_in_buffer s))"
  shows "consumed k s (seek (int k) s)" "m_rx (seek (int k) s) = m_rx s"
    "get_read_chunk (m_in_buffer (seek (int k) s)) = drop k (get_read_chunk (m_in_buffer s))"
proof -
  have wf: "bb_wf (m_in_buffer s)" using assms(1) by (simp add: sock_wf_def)
  have k: "int k \<le> available (m_in_buffer s)" using assms(2) length_read_chunk [OF wf] by simp
  show "m_rx (seek (int k) s) = m_rx s" by (simp add: seek_def)
  show c: "get_read_chunk (m_in_buffer (seek (int k) s)) = drop k (get_read_chunk (m_in_buffer s))"
    using read_chunk_increment_read_p [OF wf _ k] by (simp add: seek_def)
  show "consumed k s (seek (int k) s)"
    using assms bb_wf_increment_read_p [OF wf _ k] c
    by (simp add: consumed_def incoming_def same_out_def seek_def sock_wf_def)
qed

section \<open>What a writer has handed over\<close>

text \<open>
  \<open>out_stream\<close>: every byte accepted so far, sent or still buffered. \<open>tx_room\<close>: how many
  bytes the kernel will take before an error or before it stops answering; \<open>slack\<close> subtracts what is
  already buffered.
\<close>

definition out_stream :: "socket \<Rightarrow> byte list" where
  "out_stream s = m_sent s @ get_read_chunk (m_out_buffer s)"

fun tx_room :: "tx_event list \<Rightarrow> nat" where
  "tx_room [] = 0"
| "tx_room (Tx_err e # tx) = (if e = 0 then tx_room tx else 0)"
| "tx_room (Tx_ok k # tx) = k + tx_room tx"

definition slack :: "socket \<Rightarrow> int" where
  "slack s = int (tx_room (m_tx s)) - int (length (get_read_chunk (m_out_buffer s)))"

definition same_in :: "socket \<Rightarrow> socket \<Rightarrow> bool" where
  "same_in s s' \<longleftrightarrow> m_in_buffer s' = m_in_buffer s \<and> m_rx s' = m_rx s"

lemma same_in_trans: "same_in s s1 \<Longrightarrow> same_in s1 s2 \<Longrightarrow> same_in s s2"
  by (simp add: same_in_def)

text \<open>
  A step of a writer: it has handed over exactly \<open>bs\<close>; \<open>sent\<close> adds that this has used
  the kernel's room for as many bytes and no more, which holds while no error occurs.
\<close>

definition handed :: "byte list \<Rightarrow> socket \<Rightarrow> socket \<Rightarrow> bool" where
  "handed bs s s' \<longleftrightarrow> sock_wf s' \<and> out_stream s' = out_stream s @ bs \<and> same_in s s'"

definition sent :: "byte list \<Rightarrow> socket \<Rightarrow> socket \<Rightarrow> bool" where
  "sent bs s s' \<longleftrightarrow> handed bs s s' \<and> slack s' = slack s - int (length bs)"

lemma handed_Nil: "sock_wf s \<Longrightarrow> handed [] s s"
  by (simp add: handed_def same_in_def)

lemma handed_trans: "handed xs s s1 \<Longrightarrow> handed ys s1 s2 \<Longrightarrow> handed (xs @ ys) s s2"
  by (auto simp: handed_def intro: same_in_trans)

lemma handed_wf: "handed bs s s' \<Longrightarrow> sock_wf s'"
  by (simp add: handed_def)

lemma sent_Nil: "sock_wf s \<Longrightarrow> sent [] s s"
  by (simp add: sent_def handed_Nil)

lemma sent_trans: "sent xs s s1 \<Longrightarrow> sent ys s1 s2 \<Longrightarrow> sent (xs @ ys) s s2"
  by (auto simp: sent_def intro: handed_trans)

lemma sent_wf: "sent bs s s' \<Longrightarrow> sock_wf s'"
  by (auto simp: sent_def dest: handed_wf)

lemma sent_slack: "sent bs s s' \<Longrightarrow> slack s' = slack s - int (length bs)"
  by (simp add: sent_def)

lemma tx_room_on_send:
  "on_send n tx = Some (status, tx') \<Longrightarrow> 0 \<le> status \<Longrightarrow>
   tx_room tx = nat status + tx_room tx' \<and> status \<le> int n"
  by (cases "(n, tx)" rule: on_send.cases) (auto split: if_splits)

lemma on_send_blocked:
  "on_send n tx = None \<Longrightarrow> tx_room tx = 0"
  "on_send n tx = Some (status, tx') \<Longrightarrow> status < 0 \<Longrightarrow> tx_room tx = 0"
  by (cases "(n, tx)" rule: on_send.cases; auto split: if_splits)+

lemma flush_turn:
  assumes wf: "sock_wf s" and chunk: "chunk = get_read_chunk (m_out_buffer s)" "chunk \<noteq> []"
    and a: "on_send (length chunk) (m_tx s) = Some (status, tx)" "\<not> status < 0"
    and s1: "s1 = s\<lparr>m_tx := tx, m_sent := m_sent s @ take (nat status) chunk,
      m_out_buffer := increment_read_p status (m_out_buffer s)\<rparr>"
  shows "flush s = flush s1" "handed [] s s1" "slack s1 = slack s"
proof -
  have bb: "bb_wf (m_out_buffer s)" using wf by (simp add: sock_wf_def)
  have room: "tx_room (m_tx s) = nat status + tx_room tx" "status \<le> int (length chunk)"
    using tx_room_on_send [OF a(1)] a(2) by simp_all
  have av: "status \<le> available (m_out_buffer s)"
    using room(2) length_read_chunk [OF bb] by (simp add: chunk(1))
  have c1: "get_read_chunk (m_out_buffer s1) = drop (nat status) chunk"
    using read_chunk_increment_read_p [OF bb _ av] a(2) by (simp add: s1 chunk(1))
  show "handed [] s s1"
    using wf bb_wf_increment_read_p [OF bb _ av] a(2)
    by (simp add: handed_def out_stream_def same_in_def c1 flip: chunk(1)) (simp add: s1 sock_wf_def)
  show "slack s1 = slack s"
    using room a(2) by (simp add: slack_def c1 flip: chunk(1)) (simp add: s1)
  show "flush s = flush s1"
    using chunk(2) a by (subst flush.simps) (simp add: Let_def s1 flip: chunk(1))
qed

lemma flush_handed:
  assumes "sock_wf s"
  shows "\<exists>r s'. flush s = (r, s') \<and> handed [] s s' \<and> r \<noteq> Undefined
    \<and> (r = Done () \<longrightarrow> get_read_chunk (m_out_buffer s') = [] \<and> slack s' = slack s)
    \<and> (0 \<le> slack s \<longrightarrow> r = Done ())"
  using assms
proof (induction s rule: flush.induct)
  case (1 s)
  define chunk where "chunk = get_read_chunk (m_out_buffer s)"
  show ?case
  proof (cases "chunk = []")
    case True
    then show ?thesis using "1.prems"
      by (subst flush.simps) (simp add: handed_Nil flip: chunk_def)
  next
    case chunk: False
    show ?thesis
    proof (cases "on_send (length chunk) (m_tx s)")
      case None
      then have "flush s = (Suspended, s)" using chunk
        by (subst flush.simps) (simp add: Let_def flip: chunk_def)
      moreover have "slack s < 0" using on_send_blocked(1) [OF None] chunk
        by (simp add: slack_def flip: chunk_def)
      ultimately show ?thesis using "1.prems" by (simp add: handed_Nil)
    next
      case (Some a)
      obtain status tx where a: "on_send (length chunk) (m_tx s) = Some (status, tx)"
        using Some by (cases a) simp
      show ?thesis
      proof (cases "status < 0")
        case True
        then have "flush s = (Threw (Errno_error ''socket flush failed: '' (0 - status)), s\<lparr>m_tx := tx\<rparr>)"
          using chunk a by (subst flush.simps) (simp add: Let_def flip: chunk_def)
        moreover have "slack s < 0" using on_send_blocked(2) [OF a True] chunk
          by (simp add: slack_def flip: chunk_def)
        ultimately show ?thesis
          using "1.prems" by (simp add: handed_def sock_wf_def out_stream_def same_in_def)
      next
        case False
        define s1 where "s1 = s\<lparr>m_tx := tx, m_sent := m_sent s @ take (nat status) chunk,
            m_out_buffer := increment_read_p status (m_out_buffer s)\<rparr>"
        note turn = flush_turn [OF "1.prems" chunk_def chunk a False s1_def]
        have "\<exists>r s'. flush s1 = (r, s') \<and> handed [] s1 s' \<and> r \<noteq> Undefined
            \<and> (r = Done () \<longrightarrow> get_read_chunk (m_out_buffer s') = [] \<and> slack s' = slack s1)
            \<and> (0 \<le> slack s1 \<longrightarrow> r = Done ())"
          unfolding s1_def
          by (rule "1.IH" [OF chunk_def chunk a refl False])
            (use handed_wf [OF turn(2)] in \<open>simp add: s1_def\<close>)
        then show ?thesis using handed_trans [OF turn(2)] turn(1,3) by auto
      qed
    qed
  qed
qed

lemma on_out_write:
  assumes "sock_wf s" "n \<le> length src"
  obtains k s' where "on_out (bb_write src (int n)) s = (Done (int k), s')" "sent (take k src) s s'"
    "k \<le> n" "k = min n (nat (capacity (m_out_buffer s)))"
proof -
  have wf: "bb_wf (m_out_buffer s)" using assms(1) by (simp add: sock_wf_def)
  obtain b where b: "bb_write src (int n) (m_out_buffer s) = (Done (min (capacity (m_out_buffer s)) (int n)), b)"
    "bb_wf b" "length (m_buffer b) = length (m_buffer (m_out_buffer s))"
    "get_read_chunk b = get_read_chunk (m_out_buffer s) @ take (nat (min (capacity (m_out_buffer s)) (int n))) src"
    using bb_write_eq [OF wf, of "int n" src] assms(2) by auto
  define k where "k = nat (min (capacity (m_out_buffer s)) (int n))"
  have k: "min (capacity (m_out_buffer s)) (int n) = int k"
    using capacity_nonneg [OF wf] by (simp add: k_def)
  have kn: "k \<le> n" using k by linarith
  have "on_out (bb_write src (int n)) s = (Done (int k), s\<lparr>m_out_buffer := b\<rparr>)"
    using b(1) by (simp add: on_out_def k)
  moreover have "sent (take k src) s (s\<lparr>m_out_buffer := b\<rparr>)"
    using assms b(2-4) kn
    by (simp add: sent_def handed_def same_in_def out_stream_def slack_def sock_wf_def flip: k_def)
  moreover have "k = min n (nat (capacity (m_out_buffer s)))" by (auto simp: k_def)
  ultimately show thesis using that kn by blast
qed

lemma write_loop_turn:
  assumes f: "flush s = (Done (), s1)" "handed [] s s1" "get_read_chunk (m_out_buffer s1) = []" "slack s1 = slack s"
    and g: "length src = g + n" "0 < n"
  obtains k s2 where "0 < k" "k \<le> n" "sent (take k (drop g src)) s s2"
    "write_loop src (int (length src)) (int g) s = write_loop src (int (length src)) (int (length src - (n - k))) s2"
proof -
  have cap: "capacity (m_out_buffer s1) = int SOCKET_BUFFER_SIZE"
    using handed_wf [OF f(2)] f(3) by (simp add: sock_wf_def empty_full_capacity)
  obtain k s2 where w: "on_out (bb_write (drop g src) (int n)) s1 = (Done (int k), s2)"
    "sent (take k (drop g src)) s1 s2" "k \<le> n" "k = min n (nat (capacity (m_out_buffer s1)))"
    by (rule on_out_write [OF handed_wf [OF f(2)], of n "drop g src"]) (use g in auto)
  have k: "0 < k" using w(4) g(2) cap by (simp add: SOCKET_BUFFER_SIZE_def)
  have "sent (take k (drop g src)) s s2"
    using f(2,4) w(2) handed_trans [of "[]" s s1] by (auto simp: sent_def)
  moreover have "write_loop src (int (length src)) (int g) s
      = write_loop src (int (length src)) (int (length src - (n - k))) s2"
    using f(1) w(1) k w(3) g by (subst write_loop.simps) (simp add: int_ops)
  ultimately show thesis using that k w(3) by blast
qed

lemma write_loop_handed:
  assumes "sock_wf s" "n \<le> length src"
  shows "\<exists>r s' k. write_loop src (int (length src)) (int (length src - n)) s = (r, s') \<and> r \<noteq> Undefined
    \<and> k \<le> n \<and> handed (take k (drop (length src - n) src)) s s'
    \<and> (r = Done () \<longrightarrow> sent (drop (length src - n) src) s s') \<and> (int n \<le> slack s \<longrightarrow> r = Done ())"
  using assms
proof (induction n arbitrary: s rule: less_induct)
  case (less n)
  define g where "g = length src - n"
  have g: "length src = g + n" using less.prems(2) by (simp add: g_def)
  show ?case
  proof (cases "n = 0")
    case True
    then have "write_loop src (int (length src)) (int g) s = (Done (), s)"
      by (simp add: write_loop.simps g)
    then show ?thesis
      using True less.prems(1) g handed_Nil sent_Nil by (auto simp flip: g_def)
  next
    case False
    obtain r1 s1 where f: "flush s = (r1, s1)" "handed [] s s1" "r1 \<noteq> Undefined"
      "r1 = Done () \<longrightarrow> get_read_chunk (m_out_buffer s1) = [] \<and> slack s1 = slack s"
      "0 \<le> slack s \<longrightarrow> r1 = Done ()"
      using flush_handed [OF less.prems(1)] by blast
    show ?thesis
    proof (cases "r1 = Done ()")
      case not_done: False
      have "write_loop src (int (length src)) (int g) s = (r1, s1)"
        using f(1,3) not_done False g by (subst write_loop.simps) (cases r1; simp)
      then show ?thesis
        using f not_done False by (intro exI [of _ r1] exI [of _ s1] exI [of _ 0]) (auto simp flip: g_def)
    next
      case True
      have pos: "0 < n" using False by simp
      obtain k s2 where k: "0 < k" "k \<le> n" and s2: "sent (take k (drop g src)) s s2"
        and unf: "write_loop src (int (length src)) (int g) s = write_loop src (int (length src)) (int (length src - (n - k))) s2"
        using write_loop_turn [OF f(1) [unfolded True] f(2) _ _ g pos] f(4) True by blast
      obtain r s' m where IH: "write_loop src (int (length src)) (int (length src - (n - k))) s2 = (r, s')"
        "r \<noteq> Undefined" "m \<le> n - k" "handed (take m (drop (length src - (n - k)) src)) s2 s'"
        "r = Done () \<longrightarrow> sent (drop (length src - (n - k)) src) s2 s'"
        "int (n - k) \<le> slack s2 \<longrightarrow> r = Done ()"
        using less.IH [of "n - k" s2] k sent_wf [OF s2] less.prems(2) by force
      have d: "drop (length src - (n - k)) src = drop k (drop g src)"
        using k(2) g by (simp add: add.commute)
      have "handed (take (k + m) (drop g src)) s s'"
        using handed_trans [of "take k (drop g src)" s s2] s2 IH(4) d by (simp add: sent_def take_add)
      moreover have "r = Done () \<longrightarrow> sent (drop g src) s s'"
        using sent_trans [OF s2] IH(5) d by (metis append_take_drop_id)
      moreover have "int n \<le> slack s \<longrightarrow> r = Done ()"
        using IH(6) sent_slack [OF s2] k(2) g by (auto simp: min_def)
      moreover have "k + m \<le> n" using IH(3) k(2) by simp
      ultimately show ?thesis
        using IH(1,2) unf by (auto simp flip: g_def)
    qed
  qed
qed

lemma sock_write_handed:
  assumes "sock_wf s"
  shows "\<exists>r s' k. sock_write src (int (length src)) s = (r, s') \<and> r \<noteq> Undefined
    \<and> k \<le> length src \<and> handed (take k src) s s'
    \<and> (r = Done () \<longrightarrow> sent src s s') \<and> (int (length src) \<le> slack s \<longrightarrow> r = Done ())"
proof -
  obtain k s1 where w: "on_out (bb_write src (int (length src))) s = (Done (int k), s1)"
    "sent (take k src) s s1" "k \<le> length src"
    by (rule on_out_write [OF assms order_refl])
  obtain r s' m where l: "write_loop src (int (length src)) (int k) s1 = (r, s')" "r \<noteq> Undefined"
    "m \<le> length src - k" "handed (take m (drop k src)) s1 s'"
    "r = Done () \<longrightarrow> sent (drop k src) s1 s'" "int (length src - k) \<le> slack s1 \<longrightarrow> r = Done ()"
    using write_loop_handed [OF sent_wf [OF w(2)], of "length src - k" src] w(3) by auto
  have "sock_write src (int (length src)) s = (r, s')"
    using w(1) l(1) by (simp add: sock_write_def and_then_def)
  moreover have "handed (take (k + m) src) s s'"
    using handed_trans [of "take k src" s s1] w(2) l(4) by (simp add: sent_def take_add)
  moreover have "r = Done () \<longrightarrow> sent src s s'"
    using sent_trans [OF w(2)] l(5) by (metis append_take_drop_id)
  moreover have "int (length src) \<le> slack s \<longrightarrow> r = Done ()"
    using l(6) sent_slack [OF w(2)] w(3) by (simp add: min_def)
  moreover have "k + m \<le> length src" using l(3) w(3) by simp
  ultimately show ?thesis using l(2) by blast
qed

text \<open>With room at the kernel, a write and a flush return.\<close>

lemma sock_write_sent:
  assumes "sock_wf s" "int (length src) \<le> slack s"
  obtains s' where "sock_write src (int (length src)) s = (Done (), s')" "sent src s s'"
  using sock_write_handed [OF assms(1), of src] assms(2) by auto

lemma flush_sent:
  assumes "sock_wf s" "0 \<le> slack s"
  obtains s' where "flush s = (Done (), s')" "sent [] s s'" "m_sent s' = out_stream s"
  using flush_handed [OF assms(1)] assms(2) by (auto simp: sent_def handed_def out_stream_def)

section \<open>Properties\<close>

text \<open>
  C34: the three reading loops refine reading from a byte stream. Whatever the completions, asking
  for \<open>n\<close> bytes yields the next \<open>n\<close> bytes of the stream when it holds them, and takes
  exactly these off it; when it does not, the call waits, throws the error of the completion,
  throws "socket closed", or, if a short read is allowed, returns what there was.
\<close>

theorem socket_reads_refine_stream:
  assumes "sock_wf s"
  shows "filled ''socket read'' n fully 0 (\<lambda>bs. dest @ chars bs) s (read_str dest (int n) fully s)
    \<and> (off + n \<le> length arr \<longrightarrow>
       filled ''socket read'' n fully 0 (\<lambda>bs. take off arr @ bs @ drop (off + length bs) arr) s
         (read_mem arr off (int n) fully s))
    \<and> filled ''socket skip'' n fully 0 (\<lambda>_. ()) s (fill ''socket skip'' drain_skip (int n) fully () s)"
  using str.fill_filled [OF assms] mem.fill_filled [OF assms] skp.fill_filled [OF assms]
  by (simp add: read_str_def read_mem_def)

theorem socket_reads_refine_stream_witness:
  "fst (read_str ''>'' 3 True (new_socket [Rx_data [104], Rx_data [105, 33, 63], Rx_data []] [])) = Done (''>hi!'', 3)"
proof -
  have "chars [104, 105, 33] = ''hi!''" by code_simp
  then show ?thesis
    using socket_reads_refine_stream
      [of "new_socket [Rx_data [104], Rx_data [105, 33, 63], Rx_data []] []" 3 True "''>''" 0 "[]"]
    by (simp add: filled_def)
qed

text \<open>
  what a read returns or throws depends only on the byte stream and on how it ends, not on how
  the kernel cut the stream into completions or on what was already buffered.
\<close>

theorem socket_read_segmentation:
  assumes "sock_wf s" "sock_wf s'" "incoming s = incoming s'" "rx_stop (m_rx s) = rx_stop (m_rx s')"
  shows "fst (read_str dest (int n) fully s) = fst (read_str dest (int n) fully s')"
  using str.fill_filled [OF assms(1), where n = n and what = "''socket read''" and fully = fully and d = dest]
    str.fill_filled [OF assms(2), where n = n and what = "''socket read''" and fully = fully and d = dest]
    assms(3,4)
  by (cases "the (rx_stop (m_rx s)) < 0")
    (auto simp: filled_def read_str_def split: if_splits option.splits)

theorem socket_read_segmentation_witness:
  "fst (read_str [] 2 True (new_socket [Rx_data [1, 2, 3]] []))
   = fst (read_str [] 2 True (new_socket [Rx_data [1], Rx_data [2, 3]] []))"
  using socket_read_segmentation [of "new_socket [Rx_data [1, 2, 3]] []"
      "new_socket [Rx_data [1], Rx_data [2, 3]] []" "[]" 2 True]
  by (simp add: rx_stop_def)

text \<open>
  the offered space is never empty, so a completion of zero bytes really means that the peer has
  closed: a receive is only started on a drained buffer, which then offers all of its bytes, and
  \<open>peek\<close> returns an empty span only when the stream has ended.
\<close>

theorem socket_peek_end_of_stream:
  assumes "sock_wf s"
  shows "(case peek s of
      (Done chunk, s') \<Rightarrow> sock_wf s' \<and> (chunk = [] \<longleftrightarrow> incoming s = [] \<and> rx_stop (m_rx s) = Some 0)
        \<and> (\<exists>rest. incoming s = chunk @ rest)
    | (Threw e, s') \<Rightarrow> incoming s = [] \<and> (\<exists>st < 0. rx_stop (m_rx s) = Some st)
    | (Suspended, s') \<Rightarrow> incoming s = [] \<and> rx_stop (m_rx s) = None
    | (Undefined, s') \<Rightarrow> False)
    \<and> (get_read_chunk (m_in_buffer s) = [] \<longrightarrow> get_write_chunk (m_in_buffer s) = (0, SOCKET_BUFFER_SIZE))"
proof (cases "incoming s = []")
  case True
  then have c: "get_read_chunk (m_in_buffer s) = []" "rx_bytes (m_rx s) = []"
    by (simp_all add: incoming_def)
  show ?thesis
    using peek_empty [OF assms True] write_chunk_drained [OF assms c(1)] True
      exhausted_stop [OF assms c] rx_stop_nonpos [of "m_rx s"]
    by (auto simp: exhausted_def split: option.splits)
next
  case False
  obtain chunk s' where p: "peek s = (Done chunk, s')" "consumed 0 s s'" "chunk \<noteq> []"
    "chunk = get_read_chunk (m_in_buffer s')"
    using peek_data [OF assms False] by metis
  then have "incoming s = chunk @ rx_bytes (m_rx s')"
    by (simp add: consumed_def incoming_def)
  then show ?thesis
    using p False consumed_wf [OF p(2)] write_chunk_drained [OF assms] by auto
qed

theorem socket_peek_end_of_stream_witness:
  "fst (peek (new_socket [Rx_data []] [])) = Done []"
proof -
  have "peek (new_socket [Rx_data []] []) = (Done [], (new_socket [Rx_data []] [])\<lparr>m_rx := []\<rparr>)"
    by (subst peek_empty) (simp_all add: rx_stop_def)
  then show ?thesis
    using socket_peek_end_of_stream [of "new_socket [Rx_data []] []"] by simp
qed

text \<open>
  writing hands over the bytes given, in order, behind those handed over before. If the call
  fails or waits, a prefix of them has been accepted and nothing is lost or repeated; if the kernel
  has room for everything it returns; it never runs into undefined behaviour.
\<close>

theorem socket_write_in_order:
  assumes "sock_wf s"
  shows "\<exists>r s' k. sock_write src (int (length src)) s = (r, s') \<and> sock_wf s' \<and> r \<noteq> Undefined
    \<and> out_stream s' = out_stream s @ take k src \<and> (r = Done () \<longrightarrow> take k src = src)
    \<and> (int (length src) \<le> slack s \<longrightarrow> r = Done ())"
proof -
  obtain r s' k where w: "sock_write src (int (length src)) s = (r, s')" "r \<noteq> Undefined"
    "handed (take k src) s s'" "r = Done () \<longrightarrow> sent src s s'" "int (length src) \<le> slack s \<longrightarrow> r = Done ()"
    using sock_write_handed [OF assms, of src] by blast
  then have "r = Done () \<longrightarrow> take k src = src"
    by (metis handed_def sent_def same_append_eq)
  then show ?thesis using w by (auto simp: handed_def)
qed

theorem socket_write_in_order_witness:
  "\<exists>s'. sock_write [1, 2, 3] 3 (new_socket [] [Tx_ok 2, Tx_ok 9]) = (Done (), s')
    \<and> out_stream s' = [1, 2, 3 :: byte]"
proof -
  let ?src = "[1, 2, 3] :: byte list" and ?s = "new_socket [] [Tx_ok 2, Tx_ok 9]"
  have f: "out_stream ?s = []" "int (length ?src) \<le> slack ?s" "int (length ?src) = 3"
    by (simp_all add: out_stream_def slack_def new_socket_def)
  obtain r s' k where w: "sock_write ?src (int (length ?src)) ?s = (r, s')"
    "out_stream s' = out_stream ?s @ take k ?src" "r = Done () \<longrightarrow> take k ?src = ?src"
    "int (length ?src) \<le> slack ?s \<longrightarrow> r = Done ()"
    using socket_write_in_order [OF sock_wf_new, of ?src "[]" "[Tx_ok 2, Tx_ok 9]"] by blast
  have r: "r = Done ()" by (rule mp [OF w(4) f(2)])
  then have "out_stream s' = ?src" using w(2,3) f(1) by (simp only: simp_thms append_Nil)
  moreover have "sock_write ?src 3 ?s = (Done (), s')" using w(1) unfolding r f(3) .
  ultimately show ?thesis by blast
qed

text \<open>
  a flush that returns has sent everything handed over before, in order, and one that fails or
  waits has sent a prefix and keeps the rest; with room at the kernel it returns.
\<close>

theorem socket_flush_sends_all:
  assumes "sock_wf s"
  shows "\<exists>r s'. flush s = (r, s') \<and> sock_wf s' \<and> r \<noteq> Undefined \<and> out_stream s' = out_stream s
    \<and> (r = Done () \<longrightarrow> m_sent s' = out_stream s) \<and> (0 \<le> slack s \<longrightarrow> r = Done ())"
  using flush_handed [OF assms] by (auto simp: handed_def out_stream_def)

theorem socket_flush_sends_all_witness:
  "\<exists>s'. flush (new_socket [] []) = (Done (), s') \<and> m_sent s' = []"
proof -
  have "slack (new_socket [] []) = 0" "out_stream (new_socket [] []) = []"
    by (simp_all add: slack_def out_stream_def new_socket_def)
  then show ?thesis
    using socket_flush_sends_all [OF sock_wf_new, of "[]" "[]"] by auto
qed

end
