(* ===== verification/Socket_Io.thy ===== *)
theory Socket_Io
  imports Net Socket
begin

text \<open>
  The reads and writes of \<open>socket\<close> on the ring: \<open>recv_incoming\<close> and a turn of \<open>flush\<close>, cut at their suspension. What they ask the kernel
  for, and that theory \<open>Socket\<close>, which takes the answers from a script, is what they do with the answers of the kernel. The buffers are in memory at
  the addresses \<open>base\<close>.
\<close>

section \<open>Receiving\<close>

definition recv_start :: "'r liburing \<Rightarrow> handle \<Rightarrow> pointer \<Rightarrow> socket_ends \<Rightarrow> socket \<Rightarrow> (('k, 'r) world, e_status) comp" where
  "recv_start U h base so s =
     (case get_write_chunk (m_in_buffer s) of
        (off, n) \<Rightarrow> on_loop (await_request U h (so_read_listener so) (Recv (base + of_nat off) (int n) 0)))"

text \<open>Behind the suspension: the kernel has written \<open>data\<close> where it was told to.\<close>

definition recv_resumed :: "int \<Rightarrow> byte list \<Rightarrow> (socket, int) comp" where
  "recv_resumed status data s =
     (case memcpy (m_buffer (m_in_buffer s)) (fst (get_write_chunk (m_in_buffer s))) data of
        None \<Rightarrow> (Undefined, s)
      | Some buf \<Rightarrow>
          (let b = (m_in_buffer s)\<lparr>m_buffer := buf\<rparr>;
               b = (if status > 0 then increment_write_p status b else b)
           in (Done status, s\<lparr>m_in_buffer := b\<rparr>)))"

section \<open>Sending\<close>

definition MSG_NOSIGNAL :: int where
  "MSG_NOSIGNAL = 16384"

definition send_start :: "'r liburing \<Rightarrow> handle \<Rightarrow> pointer \<Rightarrow> socket_ends \<Rightarrow> socket \<Rightarrow> (('k, 'r) world, e_status) comp" where
  "send_start U h base so s =
     (let chunk = get_read_chunk (m_out_buffer s) in
      on_loop (await_request U h (so_write_listener so)
        (Send (base + of_nat (read_ptr (m_out_buffer s))) (int (length chunk)) MSG_NOSIGNAL)))"

text \<open>\<open>m_sent\<close> is what the kernel has taken; the loop of \<open>flush\<close> goes on when this returns.\<close>

definition send_resumed :: "int \<Rightarrow> (socket, unit) comp" where
  "send_resumed status s =
     (if status < 0 then (throw_error ''socket flush failed: '' (0 - status), s)
      else (Done (), s\<lparr>m_sent := m_sent s @ take (nat status) (get_read_chunk (m_out_buffer s)),
                      m_out_buffer := increment_read_p status (m_out_buffer s)\<rparr>))"

section \<open>The script is what the kernel answers\<close>

lemma write_chunk_inside:
  "\<lbrakk>bb_wf b; get_write_chunk b = (off, n)\<rbrakk> \<Longrightarrow> off + n = length (m_buffer b)"
  by (auto simp: bb_wf_def get_write_chunk_def write_ptr_def capacity_def)

lemma recv_incoming_answer:
  assumes "bb_wf (m_in_buffer s)" "get_write_chunk (m_in_buffer s) = (off, n)" "length data \<le> n"
  shows "recv_incoming (s\<lparr>m_rx := Rx_data data # m_rx s\<rparr>) = recv_resumed (int (length data)) data s"
    "recv_incoming (s\<lparr>m_rx := Rx_err e # m_rx s\<rparr>) = recv_resumed (- int e) [] s"
  using write_chunk_inside [OF assms(1,2)] assms(2,3)
  by (simp_all add: recv_incoming_def recv_resumed_def memcpy_def Let_def)

lemma flush_answer:
  assumes "get_read_chunk (m_out_buffer s) \<noteq> []" "k \<le> length (get_read_chunk (m_out_buffer s))" "0 < e"
  shows "flush (s\<lparr>m_tx := Tx_ok k # m_tx s\<rparr>) = and_then (send_resumed (int k)) (\<lambda>_. flush) s"
    "flush (s\<lparr>m_tx := Tx_err e # m_tx s\<rparr>) = send_resumed (- int e) s"
  using assms
  by (simp_all add: flush.simps [of "s\<lparr>m_tx := _\<rparr>"] send_resumed_def throw_error_def and_then_def Let_def)

lemma read_chunk_inside:
  "bb_wf b \<Longrightarrow> read_ptr b + length (get_read_chunk b) \<le> length (m_buffer b)
    \<and> take (length (get_read_chunk b)) (drop (read_ptr b) (m_buffer b)) = get_read_chunk b"
  by (auto simp: bb_wf_def get_read_chunk_def read_ptr_def available_def)

section \<open>Properties\<close>

text \<open>
  C33: a receive asks the kernel for no more than the room behind the bytes that are buffered, and a send offers exactly the bytes that
  wait in the buffer, so that the kernel stays inside the buffers of the socket; and the answers of the kernel do to the socket what the model of
  its reads and writes takes from a script.
\<close>

theorem socket_requests_inside:
  assumes "sock_wf s" "io_history U r0 tr (w_loop w)" "u_get_sqe U (m_ring (w_loop w)) = (Some sqe, r1)"
    "m_listeners (w_loop w) (so_read_listener so) = Some lr" "idle (l_callback lr)" "m_status_opt (l_callback lr) = None"
    "m_listeners (w_loop w) (so_write_listener so) = Some lw" "idle (l_callback lw)" "m_status_opt (l_callback lw) = None"
    "get_write_chunk (m_in_buffer s) = (off, n)" "get_read_chunk (m_out_buffer s) = chunk" "read_ptr (m_out_buffer s) = p" "chunk \<noteq> []"
    "length data \<le> n" "k \<le> length chunk" "0 < e"
  shows "(case recv_start U h base so s w of (res, w1) \<Rightarrow> res = Suspended
      \<and> io_history U r0 (tr @ [Requested h (m_id (l_callback lr)) (Prep_recv (l_fd lr) (base + of_nat off) (of_nat n) 0)]) (w_loop w1))
    \<and> off + n = SOCKET_BUFFER_SIZE
    \<and> recv_incoming (s\<lparr>m_rx := Rx_data data # m_rx s\<rparr>) = recv_resumed (int (length data)) data s
    \<and> recv_incoming (s\<lparr>m_rx := Rx_err e # m_rx s\<rparr>) = recv_resumed (- int e) [] s
    \<and> (case send_start U h base so s w of (res, w1) \<Rightarrow> res = Suspended
      \<and> io_history U r0 (tr @ [Requested h (m_id (l_callback lw)) (Prep_send (l_fd lw) (base + of_nat p) (of_nat (length chunk)) MSG_NOSIGNAL)]) (w_loop w1))
    \<and> p + length chunk \<le> SOCKET_BUFFER_SIZE \<and> take (length chunk) (drop p (m_buffer (m_out_buffer s))) = chunk
    \<and> flush (s\<lparr>m_tx := Tx_ok k # m_tx s\<rparr>) = and_then (send_resumed (int k)) (\<lambda>_. flush) s
    \<and> flush (s\<lparr>m_tx := Tx_err e # m_tx s\<rparr>) = send_resumed (- int e) s"
proof (intro conjI)
  obtain r w1 where q: "on_loop (await_request U h (so_read_listener so) (Recv (base + of_nat off) (int n) 0)) w = (r, w1)" by fastforce
  show "case recv_start U h base so s w of (res, w1) \<Rightarrow> res = Suspended
      \<and> io_history U r0 (tr @ [Requested h (m_id (l_callback lr)) (Prep_recv (l_fd lr) (base + of_nat off) (of_nat n) 0)]) (w_loop w1)"
    using idle_request_history [OF assms(2,4,5,6,3) q] q by (simp add: recv_start_def assms(10))
  show "off + n = SOCKET_BUFFER_SIZE" using write_chunk_inside assms(1,10) by (auto simp: sock_wf_def)
  show "recv_incoming (s\<lparr>m_rx := Rx_data data # m_rx s\<rparr>) = recv_resumed (int (length data)) data s"
    "recv_incoming (s\<lparr>m_rx := Rx_err e # m_rx s\<rparr>) = recv_resumed (- int e) [] s"
    using recv_incoming_answer [OF _ assms(10,14)] assms(1) by (simp_all add: sock_wf_def)
  obtain r w1 where q: "on_loop (await_request U h (so_write_listener so) (Send (base + of_nat p) (int (length chunk)) MSG_NOSIGNAL)) w = (r, w1)"
    by fastforce
  show "case send_start U h base so s w of (res, w1) \<Rightarrow> res = Suspended
      \<and> io_history U r0 (tr @ [Requested h (m_id (l_callback lw)) (Prep_send (l_fd lw) (base + of_nat p) (of_nat (length chunk)) MSG_NOSIGNAL)]) (w_loop w1)"
    using idle_request_history [OF assms(2,7,8,9,3) q] q by (simp add: send_start_def assms(11,12) Let_def)
  show "p + length chunk \<le> SOCKET_BUFFER_SIZE" "take (length chunk) (drop p (m_buffer (m_out_buffer s))) = chunk"
    using read_chunk_inside [of "m_out_buffer s"] assms(1,11,12) by (auto simp: sock_wf_def)
  show "flush (s\<lparr>m_tx := Tx_ok k # m_tx s\<rparr>) = and_then (send_resumed (int k)) (\<lambda>_. flush) s"
    "flush (s\<lparr>m_tx := Tx_err e # m_tx s\<rparr>) = send_resumed (- int e) s"
    using flush_answer [of s k e] assms(11,13,15,16) by simp_all
qed

text \<open>A socket with one byte to send.\<close>

definition demo_socket :: socket where
  "demo_socket = (new_socket [] [])\<lparr>m_out_buffer := (new_byte_buffer (replicate SOCKET_BUFFER_SIZE 0))\<lparr>m_end := 1\<rparr>\<rparr>"

theorem socket_requests_inside_witness:
  "fst (recv_start fifo_uring 7 1000 \<lparr>so_fd = 3, so_read_listener = 10, so_write_listener = 11\<rparr> demo_socket demo_connecting) = Suspended
    \<and> recv_incoming (demo_socket\<lparr>m_rx := [Rx_data [65, 66]]\<rparr>) = recv_resumed 2 [65, 66] demo_socket"
proof -
  let ?so = "\<lparr>so_fd = 3, so_read_listener = 10, so_write_listener = 11\<rparr>"
  let ?lr = "\<lparr>l_callback = new_event_callback 1, l_fd = 3\<rparr>" and ?lw = "\<lparr>l_callback = new_event_callback 2, l_fd = 3\<rparr>"
  obtain tr lr lw where h: "io_history fifo_uring demo_ring tr (w_loop demo_connecting)" by (rule demo_connecting_history)
  note eqs = demo_connecting_def demo_world_def make_listener_def get_io_listener_def get_listener_eq new_io_loop_def
    register_event_callback_def new_event_bus_def Let_def demo_ring_def
  have l: "m_listeners (w_loop demo_connecting) (so_read_listener ?so) = Some ?lr"
    "m_listeners (w_loop demo_connecting) (so_write_listener ?so) = Some ?lw"
    by (simp_all add: eqs)
  have "fst (u_get_sqe fifo_uring (m_ring (w_loop demo_connecting))) = Some 0" by (simp add: eqs fifo_uring_def)
  then obtain r1 where room: "u_get_sqe fifo_uring (m_ring (w_loop demo_connecting)) = (Some 0, r1)"
    by (cases "u_get_sqe fifo_uring (m_ring (w_loop demo_connecting))") simp
  have s: "sock_wf demo_socket" "get_write_chunk (m_in_buffer demo_socket) = (0, 8192)"
    "get_read_chunk (m_out_buffer demo_socket) = [0]" "read_ptr (m_out_buffer demo_socket) = 0" "m_rx demo_socket = []"
    by (simp_all add: demo_socket_def new_socket_def new_byte_buffer_def sock_wf_def bb_wf_def get_write_chunk_def write_ptr_def
        capacity_def get_read_chunk_def available_def read_ptr_def SOCKET_BUFFER_SIZE_def)
  have idle: "idle (l_callback ?lr)" "m_status_opt (l_callback ?lr) = None" "idle (l_callback ?lw)" "m_status_opt (l_callback ?lw) = None"
    by simp_all
  have small: "[0 :: byte] \<noteq> []" "length [65, 66 :: byte] \<le> 8192" "1 \<le> length [0 :: byte]" "0 < (5 :: nat)" by simp_all
  note T = socket_requests_inside [OF s(1) h room l(1) idle(1,2) l(2) idle(3,4) s(2-4) small, of 7 1000]
  obtain res w1 where q: "recv_start fifo_uring 7 1000 ?so demo_socket demo_connecting = (res, w1)" by fastforce
  show ?thesis using T q s(5) by simp
qed

end
