(* ===== verification/Http_Util.thy ===== *)
theory Http_Util
  imports Prelude "HOL-Library.List_Lexorder" "HOL-Library.Char_ord"
begin

text \<open>
  \<open>cppevent_http/util\<close>: splitting a request line, reading a query string, trimming and
  case-insensitive search. The source walks over indices; each walk is proved equal to a reference
  definition on the list of characters. \<open>substr\<close> is only called with a position inside the string, where
  \<open>std::string_view::substr\<close> does not throw. The order of strings is that of unsigned characters,
  as in \<open>std::char_traits<char>\<close>.
\<close>

definition substr :: "nat \<Rightarrow> nat \<Rightarrow> string \<Rightarrow> string" where
  "substr pos n s = take n (drop pos s)"

lemma substr_0 [simp]: "substr pos 0 s = []"
  by (simp add: substr_def)

lemma substr_Suc:
  assumes "start \<le> i" "i < length s"
  shows "substr start (Suc i - start) s = substr start (i - start) s @ [s ! i]"
proof -
  have "drop start s ! (i - start) = s ! i" "i - start < length (drop start s)"
    using assms by simp_all
  then show ?thesis
    using assms take_Suc_conv_app_nth [of "i - start" "drop start s"]
    by (simp add: substr_def Suc_diff_le)
qed

lemma substr_eq_Nil: "i \<le> length s \<Longrightarrow> substr start (i - start) s = [] \<longleftrightarrow> \<not> start < i"
  by (auto simp: substr_def)

section \<open>Splitting\<close>

function split_loop :: "string \<Rightarrow> char \<Rightarrow> nat \<Rightarrow> nat \<Rightarrow> string list \<Rightarrow> string list" where
  "split_loop s separator i start result =
     (if i \<le> length s
      then (if i = length s \<or> s ! i = separator
            then split_loop s separator (Suc i) (Suc i)
                   (if start < i then result @ [substr start (i - start) s] else result)
            else split_loop s separator (Suc i) start result)
      else result)"
  by pat_completeness auto
termination by (relation "measure (\<lambda>(s, _, i, _, _). Suc (length s) - i)") auto

declare split_loop.simps [simp del]

definition split_string :: "string \<Rightarrow> char \<Rightarrow> string list" where
  "split_string s separator = split_loop s separator 0 0 []"

text \<open>The fields between separators, the empty ones too, and their concatenation.\<close>

fun split_fields :: "char \<Rightarrow> string \<Rightarrow> string list" where
  "split_fields sep [] = [[]]"
| "split_fields sep (c # cs) =
     (if c = sep then [] # split_fields sep cs
      else (c # hd (split_fields sep cs)) # tl (split_fields sep cs))"

fun join :: "char \<Rightarrow> string list \<Rightarrow> string" where
  "join sep [] = []"
| "join sep [f] = f"
| "join sep (f # fs) = f @ sep # join sep fs"

lemma fields_ne [simp]: "split_fields sep s \<noteq> []"
  by (cases s) auto

lemma join_Cons: "fs \<noteq> [] \<Longrightarrow> join sep (f # fs) = f @ sep # join sep fs"
  by (cases fs) auto

lemma join_fields: "join sep (split_fields sep s) = s"
proof (induction s)
  case Nil
  then show ?case by simp
next
  case (Cons c cs)
  obtain f fs where f: "split_fields sep cs = f # fs" by (cases "split_fields sep cs") auto
  with Cons show ?case by (cases fs) auto
qed

lemma fields_free: "list_all (\<lambda>f. sep \<notin> set f) (split_fields sep s)"
proof (induction s)
  case (Cons c cs)
  then show ?case by (cases "split_fields sep cs") auto
qed simp

lemma fields_append:
  "sep \<notin> set f \<Longrightarrow> split_fields sep (f @ s) = (f @ hd (split_fields sep s)) # tl (split_fields sep s)"
  by (induction f) auto

lemma fields_append_sep: "sep \<notin> set f \<Longrightarrow> split_fields sep (f @ sep # s) = f # split_fields sep s"
  by (simp add: fields_append)

lemma fields_single: "sep \<notin> set f \<Longrightarrow> split_fields sep f = [f]"
  using fields_append [of sep f "[]"] by simp

lemma fields_join:
  "fs \<noteq> [] \<Longrightarrow> list_all (\<lambda>f. sep \<notin> set f) fs \<Longrightarrow> split_fields sep (join sep fs) = fs"
proof (induction fs)
  case (Cons f fs)
  then show ?case by (cases fs) (auto simp: fields_single fields_append_sep)
qed simp

interpretation spaces: codec "join CHR '' ''" "\<lambda>s. Some (split_fields CHR '' '' s)"
    "\<lambda>fs. fs \<noteq> [] \<and> list_all (\<lambda>f. CHR '' '' \<notin> set f) fs"
  by unfold_locales (simp add: fields_join)

text \<open>The same walk over the characters that are left, with the field read so far.\<close>

fun split_scan :: "char \<Rightarrow> string \<Rightarrow> string \<Rightarrow> string list \<Rightarrow> string list" where
  "split_scan sep acc [] result = (if acc = [] then result else result @ [acc])"
| "split_scan sep acc (c # cs) result =
     (if c = sep then split_scan sep [] cs (if acc = [] then result else result @ [acc])
      else split_scan sep (acc @ [c]) cs result)"

lemma split_loop_scan:
  "start \<le> i \<Longrightarrow> i \<le> length s
   \<Longrightarrow> split_loop s sep i start result = split_scan sep (substr start (i - start) s) (drop i s) result"
proof (induction s sep i start result rule: split_loop.induct)
  case (1 s sep i start result)
  show ?case
  proof (cases "i = length s")
    case True
    then show ?thesis
      using 1(3,4) by (subst split_loop.simps, subst split_loop.simps) (simp add: substr_eq_Nil)
  next
    case False
    then have d: "drop i s = s ! i # drop (Suc i) s" "i < length s"
      using 1(4) by (simp_all add: Cons_nth_drop_Suc)
    then show ?thesis
      using 1 False
      by (subst split_loop.simps) (simp add: d(1) substr_eq_Nil substr_Suc del: Suc_diff_le)
  qed
qed

lemma split_scan_fields:
  "split_scan sep acc cs result
   = result @ filter (\<lambda>f. f \<noteq> []) ((acc @ hd (split_fields sep cs)) # tl (split_fields sep cs))"
proof (induction cs arbitrary: acc result)
  case (Cons c cs)
  obtain f fs where "split_fields sep cs = f # fs" by (cases "split_fields sep cs") auto
  with Cons show ?case by simp
qed simp

lemma split_string_fields: "split_string s sep = filter (\<lambda>f. f \<noteq> []) (split_fields sep s)"
  using split_loop_scan [of 0 0 s sep "[]"] split_scan_fields [of sep "[]" s "[]"]
  by (simp add: split_string_def)

section \<open>Query parameters\<close>

text \<open>
  A \<open>std::multimap\<close> is the list of its entries in order: by key, entries of one key in the
  order they were inserted.
\<close>

type_synonym multimap = "(string \<times> string) list"

definition mm_insert :: "string \<Rightarrow> string \<Rightarrow> multimap \<Rightarrow> multimap" where
  "mm_insert k v m = takeWhile (\<lambda>p. fst p \<le> k) m @ (k, v) # dropWhile (\<lambda>p. fst p \<le> k) m"

definition mm_equal_range :: "string \<Rightarrow> multimap \<Rightarrow> string list" where
  "mm_equal_range k m = map snd (takeWhile (\<lambda>p. fst p \<le> k) (dropWhile (\<lambda>p. fst p < k) m))"

function params_loop :: "string \<Rightarrow> nat \<Rightarrow> nat \<Rightarrow> string \<Rightarrow> multimap \<Rightarrow> multimap" where
  "params_loop s i start key result =
     (if i \<le> length s
      then (if i = length s \<or> s ! i = CHR ''&''
            then params_loop s (Suc i) (Suc i) key
                   (if start < i \<and> key \<noteq> [] then mm_insert key (substr start (i - start) s) result else result)
            else if s ! i = CHR ''=''
            then params_loop s (Suc i) (Suc i) (if start < i then substr start (i - start) s else key) result
            else params_loop s (Suc i) start key result)
      else result)"
  by pat_completeness auto
termination by (relation "measure (\<lambda>(s, i, _, _, _). Suc (length s) - i)") auto

declare params_loop.simps [simp del]

definition retrieve_params :: "string \<Rightarrow> multimap" where
  "retrieve_params s = params_loop s 0 0 [] []"

fun params_scan :: "string \<Rightarrow> string \<Rightarrow> string \<Rightarrow> multimap \<Rightarrow> multimap" where
  "params_scan acc [] key result = (if acc \<noteq> [] \<and> key \<noteq> [] then mm_insert key acc result else result)"
| "params_scan acc (c # cs) key result =
     (if c = CHR ''&''
      then params_scan [] cs key (if acc \<noteq> [] \<and> key \<noteq> [] then mm_insert key acc result else result)
      else if c = CHR ''='' then params_scan [] cs (if acc \<noteq> [] then acc else key) result
      else params_scan (acc @ [c]) cs key result)"

lemma params_loop_scan:
  "start \<le> i \<Longrightarrow> i \<le> length s
   \<Longrightarrow> params_loop s i start key result = params_scan (substr start (i - start) s) (drop i s) key result"
proof (induction s i start key result rule: params_loop.induct)
  case (1 s i start key result)
  show ?case
  proof (cases "i = length s")
    case True
    then show ?thesis
      using 1(4,5) by (subst params_loop.simps, subst params_loop.simps) (simp add: substr_eq_Nil)
  next
    case False
    then have d: "drop i s = s ! i # drop (Suc i) s" "i < length s"
      using 1(5) by (simp_all add: Cons_nth_drop_Suc)
    then show ?thesis
      using 1 False
      by (subst params_loop.simps) (simp add: d(1) substr_eq_Nil substr_Suc del: Suc_diff_le)
  qed
qed

text \<open>
  The meaning of a query string, field by field between ampersands: the key of a field is its last
  non-empty part before an equals sign, or the key of the field before it; its value is the last part.
\<close>

definition field_key :: "string \<Rightarrow> string \<Rightarrow> string" where
  "field_key key f = last (key # filter (\<lambda>p. p \<noteq> []) (butlast (split_fields CHR ''='' f)))"

definition field_value :: "string \<Rightarrow> string" where
  "field_value f = last (split_fields CHR ''='' f)"

fun params_fields :: "string list \<Rightarrow> string \<Rightarrow> multimap \<Rightarrow> multimap" where
  "params_fields [] key result = result"
| "params_fields (f # fs) key result =
     params_fields fs (field_key key f)
       (if field_value f \<noteq> [] \<and> field_key key f \<noteq> []
        then mm_insert (field_key key f) (field_value f) result else result)"

lemma field_plain: "CHR ''='' \<notin> set f \<Longrightarrow> field_key key f = key \<and> field_value f = f"
  by (simp add: field_key_def field_value_def fields_single)

lemma field_assign:
  assumes "CHR ''='' \<notin> set acc"
  shows "field_key key (acc @ CHR ''='' # f) = field_key (if acc \<noteq> [] then acc else key) f"
    and "field_value (acc @ CHR ''='' # f) = field_value f"
  using assms by (simp_all add: field_key_def field_value_def fields_append_sep)

lemma params_scan_fields:
  assumes "CHR ''='' \<notin> set acc" "CHR ''&'' \<notin> set acc"
  shows "params_scan acc cs key result = params_fields (split_fields CHR ''&'' (acc @ cs)) key result"
  using assms
proof (induction cs arbitrary: acc key result)
  case Nil
  then show ?case by (simp add: fields_single field_plain)
next
  case (Cons c cs)
  obtain h t where f: "split_fields CHR ''&'' cs = h # t" by (cases "split_fields CHR ''&'' cs") auto
  consider "c = CHR ''&''" | "c = CHR ''=''" | "c \<noteq> CHR ''&''" "c \<noteq> CHR ''=''" by blast
  then show ?case
  proof cases
    case 1
    with Cons show ?thesis by (simp add: fields_append_sep field_plain)
  next
    case 2
    have "CHR ''&'' \<notin> set (acc @ [CHR ''=''])" using Cons.prems by simp
    then have "split_fields CHR ''&'' (acc @ CHR ''='' # cs) = (acc @ CHR ''='' # h) # t"
      using fields_append [of "CHR ''&''" "acc @ [CHR ''='']" cs] f by simp
    with 2 Cons show ?thesis by (simp add: f field_assign)
  next
    case 3
    with Cons.IH [of "acc @ [c]"] Cons.prems show ?thesis by simp
  qed
qed

lemma retrieve_params_fields: "retrieve_params s = params_fields (split_fields CHR ''&'' s) [] []"
  using params_loop_scan [of 0 0 s "[]" "[]"] params_scan_fields [of "[]" s]
  by (simp add: retrieve_params_def)

text \<open>Well-formed queries, and reading them back.\<close>

definition query_text :: "(string \<times> string) list \<Rightarrow> string" where
  "query_text ps = join CHR ''&'' (map (\<lambda>(k, v). k @ CHR ''='' # v) ps)"

definition plain :: "string \<Rightarrow> bool" where
  "plain s \<longleftrightarrow> s \<noteq> [] \<and> CHR ''&'' \<notin> set s \<and> CHR ''='' \<notin> set s"

definition mm_of :: "(string \<times> string) list \<Rightarrow> multimap" where
  "mm_of ps = fold (\<lambda>(k, v). mm_insert k v) ps []"

lemma field_pair:
  assumes "plain k" "plain v"
  shows "field_key key (k @ CHR ''='' # v) = k" "field_value (k @ CHR ''='' # v) = v"
  using assms by (simp_all add: plain_def field_assign field_plain)

lemma params_fields_pairs:
  "list_all (\<lambda>(k, v). plain k \<and> plain v) ps
   \<Longrightarrow> params_fields (map (\<lambda>(k, v). k @ CHR ''='' # v) ps) key result = fold (\<lambda>(k, v). mm_insert k v) ps result"
proof (induction ps arbitrary: key result)
  case (Cons p ps)
  obtain k v where "p = (k, v)" by fastforce
  with Cons show ?case by (simp add: field_pair) (simp add: plain_def)
qed simp

lemma retrieve_params_query_text:
  assumes "list_all (\<lambda>(k, v). plain k \<and> plain v) ps"
  shows "retrieve_params (query_text ps) = mm_of ps"
proof (cases "ps = []")
  case True
  then show ?thesis
    by (simp add: retrieve_params_fields query_text_def mm_of_def field_value_def)
next
  case False
  have "list_all (\<lambda>f. CHR ''&'' \<notin> set f) (map (\<lambda>(k, v). k @ CHR ''='' # v) ps)"
    using assms by (auto simp: list_all_iff plain_def)
  with False have "split_fields CHR ''&'' (query_text ps) = map (\<lambda>(k, v). k @ CHR ''='' # v) ps"
    unfolding query_text_def by (intro fields_join) simp_all
  then show ?thesis
    using params_fields_pairs [OF assms] by (simp add: retrieve_params_fields mm_of_def)
qed

text \<open>The multimap stays sorted and finds every value of a key, in the order of insertion.\<close>

definition mm_sorted :: "multimap \<Rightarrow> bool" where
  "mm_sorted m \<longleftrightarrow> sorted (map fst m)"

lemma mm_sorted_split:
  assumes "mm_sorted m"
  shows "list_all (\<lambda>p. fst p \<le> k) (takeWhile (\<lambda>p. fst p \<le> k) m)"
    and "list_all (\<lambda>p. k < fst p) (dropWhile (\<lambda>p. fst p \<le> k) m)"
proof -
  show "list_all (\<lambda>p. fst p \<le> k) (takeWhile (\<lambda>p. fst p \<le> k) m)"
    by (auto simp: list_all_iff dest: set_takeWhileD)
  show "list_all (\<lambda>p. k < fst p) (dropWhile (\<lambda>p. fst p \<le> k) m)"
    using assms unfolding mm_sorted_def
    by (induction m) (auto simp: list_all_iff not_le intro: less_le_trans)
qed

lemma mm_insert_sorted [wf_intros]:
  assumes "mm_sorted m"
  shows "mm_sorted (mm_insert k v m)"
proof -
  have "sorted (map fst (takeWhile (\<lambda>p. fst p \<le> k) m) @ map fst (dropWhile (\<lambda>p. fst p \<le> k) m))"
    using assms by (simp add: mm_sorted_def flip: map_append)
  then show ?thesis
    using mm_sorted_split [OF assms, of k]
    by (auto simp: mm_sorted_def mm_insert_def sorted_append list_all_iff dest: order_trans less_imp_le)
qed

lemma mm_equal_range_filter:
  "mm_sorted m \<Longrightarrow> mm_equal_range k m = map snd (filter (\<lambda>p. fst p = k) m)"
proof (induction m)
  case Nil
  then show ?case by (simp add: mm_equal_range_def)
next
  case (Cons p m)
  then have m: "mm_sorted m" "\<forall>q \<in> set m. fst p \<le> fst q" by (simp_all add: mm_sorted_def)
  consider "fst p < k" | "fst p = k" | "k < fst p" by fastforce
  then show ?case
  proof cases
    case 1
    with Cons.IH [OF m(1)] show ?thesis by (simp add: mm_equal_range_def)
  next
    case 2
    then have "dropWhile (\<lambda>p. fst p < k) m = m" using m(2) by (cases m) auto
    with 2 Cons.IH [OF m(1)] show ?thesis by (simp add: mm_equal_range_def)
  next
    case 3
    then have "filter (\<lambda>p. fst p = k) m = []" using m(2) by (auto simp: filter_empty_conv)
    with 3 show ?thesis by (auto simp: mm_equal_range_def)
  qed
qed

lemma mm_insert_filter:
  assumes "mm_sorted m"
  shows "map snd (filter (\<lambda>p. fst p = q) (mm_insert k v m))
    = map snd (filter (\<lambda>p. fst p = q) m) @ (if k = q then [v] else [])"
proof -
  let ?T = "takeWhile (\<lambda>p. fst p \<le> k) m" and ?D = "dropWhile (\<lambda>p. fst p \<le> k) m"
  have m: "filter (\<lambda>p. fst p = q) m = filter (\<lambda>p. fst p = q) ?T @ filter (\<lambda>p. fst p = q) ?D"
    by (metis filter_append takeWhile_dropWhile_id)
  have "k = q \<Longrightarrow> filter (\<lambda>p. fst p = q) ?D = []"
    using mm_sorted_split(2) [OF assms, of k] by (auto simp: filter_empty_conv list_all_iff)
  then show ?thesis unfolding m by (auto simp: mm_insert_def)
qed

lemma mm_insert_range:
  "mm_sorted m \<Longrightarrow> mm_equal_range q (mm_insert k v m) = mm_equal_range q m @ (if k = q then [v] else [])"
  by (simp add: mm_equal_range_filter mm_insert_filter wf_intros)

lemma mm_fold_range:
  "mm_sorted m \<Longrightarrow> mm_sorted (fold (\<lambda>(k, v). mm_insert k v) ps m)
    \<and> mm_equal_range q (fold (\<lambda>(k, v). mm_insert k v) ps m)
      = mm_equal_range q m @ map snd (filter (\<lambda>p. fst p = q) ps)"
proof (induction ps arbitrary: m)
  case (Cons p ps)
  obtain k v where "p = (k, v)" by fastforce
  with Cons show ?case by (simp add: wf_intros mm_insert_range)
qed simp

lemma mm_of_range: "mm_equal_range q (mm_of ps) = map snd (filter (\<lambda>p. fst p = q) ps)"
  using mm_fold_range [of "[]" ps q] by (simp add: mm_of_def mm_sorted_def mm_equal_range_def)

section \<open>Trimming\<close>

function trim_start :: "string \<Rightarrow> nat \<Rightarrow> nat" where
  "trim_start s start = (if start < length s \<and> s ! start = CHR '' '' then trim_start s (Suc start) else start)"
  by pat_completeness auto
termination by (relation "measure (\<lambda>(s, start). length s - start)") auto

declare trim_start.simps [simp del]

fun trim_end :: "string \<Rightarrow> nat \<Rightarrow> nat \<Rightarrow> nat" where
  "trim_end s start e = (if e > start \<and> s ! e = CHR '' '' then trim_end s start (e - 1) else e)"

declare trim_end.simps [simp del]

definition trim_string :: "string \<Rightarrow> string" where
  "trim_string s =
     (let start = trim_start s 0 in
      if start = length s then []
      else let e = trim_end s start (length s - 1) in substr start (e - start + 1) s)"

definition trim_ref :: "string \<Rightarrow> string" where
  "trim_ref s = rev (dropWhile (\<lambda>c. c = CHR '' '') (rev (dropWhile (\<lambda>c. c = CHR '' '') s)))"

lemma trim_start_drop:
  "start \<le> length s \<Longrightarrow> trim_start s start \<le> length s
     \<and> drop (trim_start s start) s = dropWhile (\<lambda>c. c = CHR '' '') (drop start s)"
proof (induction s start rule: trim_start.induct)
  case (1 s start)
  show ?case
  proof (cases "start < length s")
    case True
    then have d: "drop start s = s ! start # drop (Suc start) s" by (simp add: Cons_nth_drop_Suc)
    show ?thesis
    proof (cases "s ! start = CHR '' ''")
      case blank: True
      have "trim_start s start = trim_start s (Suc start)"
        using True blank by (subst trim_start.simps) simp
      with 1 True blank show ?thesis by (simp add: d)
    next
      case False
      with True d show ?thesis by (subst (1 2) trim_start.simps) simp
    qed
  next
    case False
    with 1(2) show ?thesis by (subst (1 2) trim_start.simps) simp
  qed
qed

lemma trim_end_take:
  assumes "start \<le> e" "e < length s" "s ! start \<noteq> CHR '' ''"
  shows "rev (dropWhile (\<lambda>c. c = CHR '' '') (rev (substr start (Suc e - start) s)))
    = substr start (trim_end s start e - start + 1) s"
  using assms
proof (induction s start e rule: trim_end.induct)
  case (1 s start e)
  have e: "substr start (Suc e - start) s = substr start (e - start) s @ [s ! e]"
    using 1(2,3) by (rule substr_Suc)
  show ?case
  proof (cases "e > start \<and> s ! e = CHR '' ''")
    case True
    then have "trim_end s start e = trim_end s start (e - 1)" by (subst trim_end.simps) simp
    moreover have "start \<le> e - 1" "e - 1 < length s" "Suc (e - 1) - start = e - start"
      using True 1(3) by auto
    moreover have "dropWhile (\<lambda>c. c = CHR '' '') (rev (substr start (Suc e - start) s))
        = dropWhile (\<lambda>c. c = CHR '' '') (rev (substr start (e - start) s))"
      using True by (simp only: e rev_append) simp
    moreover have "s ! start \<noteq> CHR '' ''" by (rule 1(4))
    ultimately show ?thesis using 1(1) [OF True] by (simp only: simp_thms)
  next
    case False
    then have "s ! e \<noteq> CHR '' ''" "trim_end s start e = e"
      using 1(2,4) by (cases "start = e", simp_all) (subst trim_end.simps, auto)
    then show ?thesis using e 1(2) by (simp add: Suc_diff_le)
  qed
qed

lemma trim_string_ref: "trim_string s = trim_ref s"
proof -
  let ?b = "trim_start s 0"
  have b: "?b \<le> length s" "drop ?b s = dropWhile (\<lambda>c. c = CHR '' '') s"
    using trim_start_drop [of 0 s] by simp_all
  show ?thesis
  proof (cases "?b = length s")
    case True
    with b show ?thesis by (simp add: trim_string_def trim_ref_def)
  next
    case False
    then have l: "?b < length s" using b(1) by simp
    then have "dropWhile (\<lambda>c. c = CHR '' '') s = s ! ?b # drop (Suc ?b) s"
      using b(2) by (simp add: Cons_nth_drop_Suc)
    then have "s ! ?b \<noteq> CHR '' ''"
      by (metis (mono_tags, lifting) hd_dropWhile list.distinct(1) list.sel(1))
    from trim_end_take [OF _ _ this, of "length s - 1"] l
    have "rev (dropWhile (\<lambda>c. c = CHR '' '') (rev (substr ?b (length s - ?b) s)))
        = substr ?b (trim_end s ?b (length s - 1) - ?b + 1) s" by simp
    moreover have "substr ?b (length s - ?b) s = dropWhile (\<lambda>c. c = CHR '' '') s"
      using b(2) unfolding substr_def by (metis length_drop order_refl take_all)
    ultimately show ?thesis using False by (simp add: trim_string_def trim_ref_def Let_def)
  qed
qed

section \<open>Case-insensitive search\<close>

text \<open>\<open>std::tolower\<close> in the C locale.\<close>

definition tolower :: "char \<Rightarrow> char" where
  "tolower c = (if CHR ''A'' \<le> c \<and> c \<le> CHR ''Z'' then char_of (of_char c + 32 :: nat) else c)"

function match_loop :: "string \<Rightarrow> string \<Rightarrow> nat \<Rightarrow> nat \<Rightarrow> nat" where
  "match_loop body search i j =
     (if j < length search \<and> tolower (body ! (i + j)) = tolower (search ! j)
      then match_loop body search i (Suc j) else j)"
  by pat_completeness auto
termination by (relation "measure (\<lambda>(_, search, _, j). length search - j)") auto

declare match_loop.simps [simp del]

function find_loop :: "string \<Rightarrow> string \<Rightarrow> int \<Rightarrow> nat \<Rightarrow> nat option" where
  "find_loop body search last_pos i =
     (if int i \<le> last_pos
      then (if match_loop body search i 0 = length search then Some i
            else find_loop body search last_pos (Suc i))
      else None)"
  by pat_completeness auto
termination by (relation "measure (\<lambda>(_, _, last_pos, i). nat (last_pos + 1 - int i))") auto

declare find_loop.simps [simp del]

text \<open>\<open>None\<close> is \<open>std::string_view::npos\<close>.\<close>

definition find_case_insensitive :: "string \<Rightarrow> string \<Rightarrow> nat option" where
  "find_case_insensitive body search =
     (if search = [] then Some 0
      else find_loop body search (int (length body) - int (length search)) 0)"

definition occurs_at :: "string \<Rightarrow> string \<Rightarrow> nat \<Rightarrow> bool" where
  "occurs_at body search i \<longleftrightarrow> map tolower (take (length search) (drop i body)) = map tolower search"

lemma match_loop_full:
  assumes "i + length search \<le> length body" "j \<le> length search"
  shows "match_loop body search i j = length search
    \<longleftrightarrow> map tolower (take (length search - j) (drop (i + j) body)) = map tolower (drop j search)"
  using assms
proof (induction body search i j rule: match_loop.induct)
  case (1 body search i j)
  show ?case
  proof (cases "j < length search")
    case True
    then have d: "drop j search = search ! j # drop (Suc j) search"
      "drop (i + j) body = body ! (i + j) # drop (i + Suc j) body"
      "length search - j = Suc (length search - Suc j)"
      using 1(2) by (simp_all add: Cons_nth_drop_Suc Suc_diff_Suc)
    show ?thesis
      using 1 True by (subst match_loop.simps) (auto simp: d)
  next
    case False
    then show ?thesis using 1(3) by (subst match_loop.simps) simp
  qed
qed

lemma match_loop_occurs:
  "i + length search \<le> length body \<Longrightarrow> match_loop body search i 0 = length search \<longleftrightarrow> occurs_at body search i"
  using match_loop_full [of i search body 0] by (simp add: occurs_at_def)

lemma find_loop_find:
  assumes "search \<noteq> []" "last_pos = int (length body) - int (length search)" "int i \<le> last_pos + 1"
  shows "find_loop body search last_pos i = find (occurs_at body search) [i ..< nat (last_pos + 1)]"
  using assms
proof (induction body search last_pos i rule: find_loop.induct)
  case (1 body search last_pos i)
  show ?case
  proof (cases "int i \<le> last_pos")
    case True
    then have "[i ..< nat (last_pos + 1)] = i # [Suc i ..< nat (last_pos + 1)]"
      by (intro upt_conv_Cons) linarith
    moreover have "i + length search \<le> length body" using True 1(3) by simp
    ultimately show ?thesis
      using 1 True by (subst find_loop.simps) (simp add: match_loop_occurs)
  next
    case False
    with 1(4) have "nat (last_pos + 1) \<le> i" by simp
    with False show ?thesis by (subst find_loop.simps) simp
  qed
qed

lemma occurs_at_end: "search \<noteq> [] \<Longrightarrow> length body < i + length search \<Longrightarrow> \<not> occurs_at body search i"
proof
  assume *: "search \<noteq> []" "length body < i + length search" "occurs_at body search i"
  then have "length (take (length search) (drop i body)) = length search"
    unfolding occurs_at_def by (metis length_map)
  with *(1,2) show False by (cases search) (auto simp: min_def split: if_splits)
qed

lemma find_append_none: "list_all (\<lambda>x. \<not> P x) ys \<Longrightarrow> find P (xs @ ys) = find P xs"
  by (induction xs) (auto simp: list_all_iff find_None_iff)

lemma find_case_insensitive_find:
  "find_case_insensitive body search = find (occurs_at body search) [0 ..< Suc (length body)]"
proof (cases "search = []")
  case True
  then show ?thesis by (simp add: find_case_insensitive_def occurs_at_def upt_conv_Cons del: upt_Suc)
next
  case False
  let ?l = "int (length body) - int (length search)"
  let ?n = "nat (?l + 1)"
  have n: "?n \<le> Suc (length body)" using False by (cases search) auto
  then have u: "[0 ..< Suc (length body)] = [0 ..< ?n] @ [?n ..< Suc (length body)]"
    using upt_add_eq_append [of 0 ?n "Suc (length body) - ?n"] by simp
  have "list_all (\<lambda>i. \<not> occurs_at body search i) [?n ..< Suc (length body)]"
    unfolding list_all_iff by (intro ballI occurs_at_end [OF False]) (simp, linarith)
  moreover have "find_case_insensitive body search = find (occurs_at body search) [0 ..< ?n]"
  proof (cases "0 \<le> ?l + 1")
    case True
    with False show ?thesis using find_loop_find [of search ?l body 0] by (simp add: find_case_insensitive_def)
  next
    case neg: False
    with False show ?thesis
      by (simp add: find_case_insensitive_def) (subst find_loop.simps, simp)
  qed
  ultimately show ?thesis unfolding u by (simp add: find_append_none)
qed

section \<open>Properties\<close>

text \<open>
  splitting returns the non-empty fields between separators, in order, whose concatenation with
  the separators is the string.
\<close>

theorem split_string_spec:
  "split_string s sep = filter (\<lambda>f. f \<noteq> []) (split_fields sep s) \<and> join sep (split_fields sep s) = s
    \<and> list_all (\<lambda>f. sep \<notin> set f) (split_string s sep)"
proof -
  have "list_all (\<lambda>f. sep \<notin> set f) (filter (\<lambda>f. f \<noteq> []) (split_fields sep s))"
    using fields_free [of sep s] by (simp add: list_all_iff)
  then show ?thesis by (simp add: split_string_fields join_fields)
qed

text \<open>
  a query string is read field by field between ampersands, on every input: the value of a field
  is its last part between equals signs, its key the last non-empty part before, or the key of an
  earlier field when it has none; fields without a key or a value are ignored. A well-formed
  query is read back: every value of a key, in order.
\<close>

theorem retrieve_params_spec:
  "retrieve_params s = params_fields (split_fields CHR ''&'' s) [] []
    \<and> (list_all (\<lambda>(k, v). plain k \<and> plain v) ps
       \<longrightarrow> mm_equal_range q (retrieve_params (query_text ps)) = map snd (filter (\<lambda>p. fst p = q) ps))"
  using retrieve_params_query_text [of ps] by (auto simp: retrieve_params_fields mm_of_range)

theorem retrieve_params_spec_witness:
  "mm_equal_range ''a'' (retrieve_params (query_text [(''a'', ''1''), (''b'', ''2''), (''a'', ''3'')])) = [''1'', ''3'']"
  using retrieve_params_spec [of "[]" "[(''a'', ''1''), (''b'', ''2''), (''a'', ''3'')]" "''a''"]
  by (simp add: plain_def)

text \<open>
  trimming removes the spaces at both ends and nothing else.
\<close>

theorem trim_string_spec: "trim_string s = trim_ref s"
  by (rule trim_string_ref)

text \<open>
  the case-insensitive search returns the first position at which the text continues with the
  searched string up to case, and \<open>npos\<close> exactly when there is none.
\<close>

theorem find_case_insensitive_spec:
  "find_case_insensitive body search = find (occurs_at body search) [0 ..< Suc (length body)]"
  by (rule find_case_insensitive_find)

end
