(* ===== verification/Charconv.thy ===== *)
theory Charconv
  imports Prelude
begin

text \<open>
  The part of \<open><charconv>\<close> the source calls: \<open>std::to_chars\<close> and \<open>std::from_chars\<close> on
  integers in a base of at most sixteen, used for the length headers and chunk sizes of HTTP and for the
  numbers of the PostgreSQL text format, with their round trip.
\<close>

section \<open>Digits\<close>

definition digit_char :: "nat \<Rightarrow> char" where
  "digit_char d = (if d < 10 then char_of (48 + d) else char_of (87 + d))"

definition digit_value :: "char \<Rightarrow> nat option" where
  "digit_value c =
     (let n = of_char c :: nat in
      if 48 \<le> n \<and> n \<le> 57 then Some (n - 48)
      else if 97 \<le> n \<and> n \<le> 122 then Some (n - 87)
      else if 65 \<le> n \<and> n \<le> 90 then Some (n - 55)
      else None)"

definition is_digit :: "nat \<Rightarrow> char \<Rightarrow> bool" where
  "is_digit base c = (case digit_value c of None \<Rightarrow> False | Some d \<Rightarrow> d < base)"

definition digit :: "char \<Rightarrow> nat" where
  "digit c = (case digit_value c of None \<Rightarrow> 0 | Some d \<Rightarrow> d)"

fun nat_digits :: "nat \<Rightarrow> nat \<Rightarrow> string" where
  "nat_digits base n =
     (if n < base \<or> base < 2 then [digit_char n]
      else nat_digits base (n div base) @ [digit_char (n mod base)])"

declare nat_digits.simps [simp del]

definition digits_value :: "nat \<Rightarrow> string \<Rightarrow> nat" where
  "digits_value base ds = foldl (\<lambda>a c. a * base + digit c) 0 ds"

section \<open>The library calls\<close>

definition to_chars :: "nat \<Rightarrow> int \<Rightarrow> string" where
  "to_chars base v = (if v < 0 then CHR ''-'' # nat_digits base (nat (- v)) else nat_digits base (nat v))"

datatype from_chars_result = Parsed int string | Invalid_argument | Result_out_of_range

text \<open>
  \<open>lo\<close> and \<open>hi\<close> are the bounds of the integer type. A minus sign is read for a signed type only; the
  longest run of digits is read, and what follows it is left over.
\<close>

definition from_chars :: "int \<Rightarrow> int \<Rightarrow> nat \<Rightarrow> string \<Rightarrow> from_chars_result" where
  "from_chars lo hi base s =
     (let minus = lo < 0 \<and> s \<noteq> [] \<and> hd s = CHR ''-'';
          body = (if minus then tl s else s);
          ds = takeWhile (is_digit base) body;
          v = int (digits_value base ds);
          v = (if minus then - v else v)
      in if ds = [] then Invalid_argument
         else if lo \<le> v \<and> v \<le> hi then Parsed v (drop (length ds) body)
         else Result_out_of_range)"

definition LONG_MIN :: int where "LONG_MIN = - (2 ^ 63)"

definition LONG_MAX :: int where "LONG_MAX = 2 ^ 63 - 1"

abbreviation from_chars_long :: "nat \<Rightarrow> string \<Rightarrow> from_chars_result" where
  "from_chars_long \<equiv> from_chars LONG_MIN LONG_MAX"

section \<open>Round trip\<close>

lemma digit_value_char: "d < 16 \<Longrightarrow> digit_value (digit_char d) = Some d"
  by (simp add: digit_value_def digit_char_def Let_def of_char_of del: char_of_def)

lemma is_digit_char [simp]: "d < base \<Longrightarrow> base \<le> 16 \<Longrightarrow> is_digit base (digit_char d)"
  by (simp add: is_digit_def digit_value_char)

lemma digit_digit_char [simp]: "d < 16 \<Longrightarrow> digit (digit_char d) = d"
  by (simp add: digit_def digit_value_char)

lemma nat_digits_ne [simp]: "nat_digits base n \<noteq> []"
  by (subst nat_digits.simps) simp

lemma nat_digits_all:
  "2 \<le> base \<Longrightarrow> base \<le> 16 \<Longrightarrow> list_all (is_digit base) (nat_digits base n)"
proof (induction base n rule: nat_digits.induct)
  case (1 base n)
  then show ?case by (subst nat_digits.simps) auto
qed

lemma digits_value_snoc: "digits_value base (ds @ [c]) = digits_value base ds * base + digit c"
  by (simp add: digits_value_def)

lemma digits_value_nat_digits: "2 \<le> base \<Longrightarrow> base \<le> 16 \<Longrightarrow> digits_value base (nat_digits base n) = n"
proof (induction base n rule: nat_digits.induct)
  case (1 base n)
  show ?case
  proof (cases "n < base")
    case True
    with 1 show ?thesis by (subst nat_digits.simps) (simp add: digits_value_def)
  next
    case False
    have "n mod base < 16" using 1(2,3) mod_less_divisor [of base n] by linarith
    with False 1 show ?thesis by (subst nat_digits.simps) (simp add: digits_value_snoc)
  qed
qed

lemma digit_char_not_minus: "is_digit base c \<Longrightarrow> c \<noteq> CHR ''-''"
  by (auto simp: is_digit_def digit_value_def Let_def split: if_splits)

lemma nat_digits_hd: "2 \<le> base \<Longrightarrow> base \<le> 16 \<Longrightarrow> is_digit base (hd (nat_digits base n))"
  using nat_digits_all [of base n] by (cases "nat_digits base n") auto

lemma takeWhile_digits:
  assumes "list_all P ds" "rest = [] \<or> \<not> P (hd rest)"
  shows "takeWhile P (ds @ rest) = ds"
  using assms by (induction ds) (cases rest, auto)+

lemma from_chars_to_chars:
  assumes "2 \<le> base" "base \<le> 16" "lo \<le> v" "v \<le> hi" "rest = [] \<or> \<not> is_digit base (hd rest)"
  shows "from_chars lo hi base (to_chars base v @ rest) = Parsed v rest"
proof (cases "v < 0")
  case True
  with assms takeWhile_digits [OF nat_digits_all [OF assms(1,2), of "nat (- v)"] assms(5)]
  show ?thesis
    by (simp add: from_chars_def to_chars_def Let_def digits_value_nat_digits)
next
  case False
  have "hd (nat_digits base (nat v) @ rest) \<noteq> CHR ''-''"
    using digit_char_not_minus [OF nat_digits_hd [OF assms(1,2)]] by simp
  with False assms takeWhile_digits [OF nat_digits_all [OF assms(1,2), of "nat v"] assms(5)]
  show ?thesis
    by (simp add: from_chars_def to_chars_def Let_def digits_value_nat_digits)
qed

lemma from_chars_bounds: "from_chars lo hi base s = Parsed v rest \<Longrightarrow> lo \<le> v \<and> v \<le> hi"
  by (auto simp: from_chars_def Let_def split: if_splits)

text \<open>The number of digits, so that the fixed buffers of the callers are seen to be large enough.\<close>

lemma nat_digits_length: "2 \<le> base \<Longrightarrow> n < 2 ^ k \<Longrightarrow> 0 < k \<Longrightarrow> length (nat_digits base n) \<le> k"
proof (induction k arbitrary: n)
  case 0
  then show ?case by simp
next
  case (Suc k)
  show ?case
  proof (cases "n < base")
    case True
    then show ?thesis by (subst nat_digits.simps) simp
  next
    case False
    have "n div base \<le> n div 2" using Suc.prems(1) by (rule div_le_mono2 [rotated]) simp
    then have "n div base < 2 ^ k" using Suc.prems(2) by simp
    moreover have "0 < k"
    proof (rule ccontr)
      assume "\<not> 0 < k"
      then show False using False Suc.prems by simp
    qed
    ultimately show ?thesis
      using Suc.IH [of "n div base"] False Suc.prems(1) by (subst nat_digits.simps) simp
  qed
qed

lemma to_chars_length:
  assumes "2 \<le> base" "LONG_MIN \<le> v" "v \<le> LONG_MAX"
  shows "length (to_chars base v) \<le> 65"
proof -
  have "nat (- v) < 2 ^ 64" "nat v < 2 ^ 64"
    using assms(2,3) by (simp_all add: LONG_MIN_def LONG_MAX_def nat_less_iff)
  then show ?thesis
    using nat_digits_length [OF assms(1), of "nat (- v)" 64] nat_digits_length [OF assms(1), of "nat v" 64]
    by (simp add: to_chars_def)
qed

definition parse_all :: "nat \<Rightarrow> string \<Rightarrow> int option" where
  "parse_all base s = (case from_chars_long base s of Parsed v [] \<Rightarrow> Some v | _ \<Rightarrow> None)"

definition is_long :: "int \<Rightarrow> bool" where
  "is_long v \<longleftrightarrow> LONG_MIN \<le> v \<and> v \<le> LONG_MAX"

lemma from_chars_long_to_chars:
  assumes "2 \<le> base" "base \<le> 16" "is_long v" "rest = [] \<or> \<not> is_digit base (hd rest)"
  shows "from_chars_long base (to_chars base v @ rest) = Parsed v rest"
  using from_chars_to_chars [OF assms(1,2) _ _ assms(4)] assms(3) by (simp add: is_long_def)

interpretation dec: codec "to_chars 10" "parse_all 10" is_long
proof
  fix v assume "is_long v"
  then show "parse_all 10 (to_chars 10 v) = Some v"
    using from_chars_long_to_chars [of 10 v "[]"] by (simp add: parse_all_def)
qed

interpretation hex: codec "to_chars 16" "parse_all 16" is_long
proof
  fix v assume "is_long v"
  then show "parse_all 16 (to_chars 16 v) = Some v"
    using from_chars_long_to_chars [of 16 v "[]"] by (simp add: parse_all_def)
qed

end
