(* ===== verification/Http_Types.thy ===== *)
theory Http_Types
  imports Http_Util Charconv
begin

text \<open>
  \<open>cppevent_http/types\<close>: methods, versions and statuses, the reason phrases, and the
  case-insensitive header map.
\<close>

section \<open>Enumerations\<close>

datatype http_method = GET | POST | HEAD | OPTIONS

datatype http_version = HTTP_1_0 | HTTP_1_1

datatype http_status =
    CONTINUE | SWITCHING_PROTOCOLS | OK | CREATED | ACCEPTED | NON_AUTHORITATIVE_INFORMATION
  | NO_CONTENT | RESET_CONTENT | PARTIAL_CONTENT | MULTIPLE_CHOICES | MOVED_PERMANENTLY | FOUND
  | SEE_OTHER | NOT_MODIFIED | USE_PROXY | TEMPORARY_REDIRECT | BAD_REQUEST | UNAUTHORIZED
  | PAYMENT_REQUIRED | FORBIDDEN | NOT_FOUND | METHOD_NOT_ALLOWED | NOT_ACCEPTABLE
  | PROXY_AUTHENTICATION_REQUIRED | REQUEST_TIMEOUT | CONFLICT | GONE | LENGTH_REQUIRED
  | PRECONDITION_FAILED | REQUEST_ENTITY_TOO_LARGE | REQUEST_URI_TOO_LARGE
  | UNSUPPORTED_MEDIA_TYPE | REQUESTED_RANGE_NOT_SATISFIABLE | EXPECTATION_FAILED
  | INTERNAL_SERVER_ERROR | NOT_IMPLEMENTED | BAD_GATEWAY | SERVICE_UNAVAILABLE
  | GATEWAY_TIMEOUT | HTTP_VERSION_NOT_SUPPORTED | INSUFFICIENT_STORAGE

text \<open>
  The enumerators as declared: those with a value of their own, and the others one more than the
  enumerator before.
\<close>

definition http_statuses :: "(http_status \<times> int option) list" where
  "http_statuses =
    [(CONTINUE, Some 100), (SWITCHING_PROTOCOLS, None), (OK, Some 200), (CREATED, None),
     (ACCEPTED, None), (NON_AUTHORITATIVE_INFORMATION, None), (NO_CONTENT, None),
     (RESET_CONTENT, None), (PARTIAL_CONTENT, None), (MULTIPLE_CHOICES, Some 300),
     (MOVED_PERMANENTLY, None), (FOUND, None), (SEE_OTHER, None), (NOT_MODIFIED, None),
     (USE_PROXY, None), (TEMPORARY_REDIRECT, Some 307), (BAD_REQUEST, Some 400),
     (UNAUTHORIZED, None), (PAYMENT_REQUIRED, None), (FORBIDDEN, None), (NOT_FOUND, None),
     (METHOD_NOT_ALLOWED, None), (NOT_ACCEPTABLE, None), (PROXY_AUTHENTICATION_REQUIRED, None),
     (REQUEST_TIMEOUT, None), (CONFLICT, None), (GONE, None), (LENGTH_REQUIRED, None),
     (PRECONDITION_FAILED, None), (REQUEST_ENTITY_TOO_LARGE, None), (REQUEST_URI_TOO_LARGE, None),
     (UNSUPPORTED_MEDIA_TYPE, None), (REQUESTED_RANGE_NOT_SATISFIABLE, None),
     (EXPECTATION_FAILED, None), (INTERNAL_SERVER_ERROR, Some 500), (NOT_IMPLEMENTED, None),
     (BAD_GATEWAY, None), (SERVICE_UNAVAILABLE, None), (GATEWAY_TIMEOUT, None),
     (HTTP_VERSION_NOT_SUPPORTED, None), (INSUFFICIENT_STORAGE, Some 507)]"

fun enumerate_values :: "int \<Rightarrow> ('a \<times> int option) list \<Rightarrow> ('a \<times> int) list" where
  "enumerate_values nxt [] = []"
| "enumerate_values nxt ((e, v) # es) =
     (let i = (case v of Some i \<Rightarrow> i | None \<Rightarrow> nxt) in (e, i) # enumerate_values (i + 1) es)"

definition status_code :: "http_status \<Rightarrow> int" where
  "status_code st = the (map_of (enumerate_values 0 http_statuses) st)"

fun get_status_reason_phrase :: "http_status \<Rightarrow> string outcome" where
  "get_status_reason_phrase CONTINUE = Done ''100 Continue''"
| "get_status_reason_phrase SWITCHING_PROTOCOLS = Done ''101 Switching Protocols''"
| "get_status_reason_phrase OK = Done ''200 OK''"
| "get_status_reason_phrase CREATED = Done ''201 Created''"
| "get_status_reason_phrase ACCEPTED = Done ''202 Accepted''"
| "get_status_reason_phrase NON_AUTHORITATIVE_INFORMATION = Done ''203 Non-Authoritative Information''"
| "get_status_reason_phrase NO_CONTENT = Done ''204 No Content''"
| "get_status_reason_phrase RESET_CONTENT = Done ''205 Reset Content''"
| "get_status_reason_phrase PARTIAL_CONTENT = Done ''206 Partial Content''"
| "get_status_reason_phrase MULTIPLE_CHOICES = Done ''300 Multiple Choices''"
| "get_status_reason_phrase MOVED_PERMANENTLY = Done ''301 Moved Permanently''"
| "get_status_reason_phrase FOUND = Done ''302 Found''"
| "get_status_reason_phrase SEE_OTHER = Done ''303 See Other''"
| "get_status_reason_phrase NOT_MODIFIED = Done ''304 Not Modified''"
| "get_status_reason_phrase USE_PROXY = Done ''305 Use Proxy''"
| "get_status_reason_phrase TEMPORARY_REDIRECT = Done ''307 Temporary Redirect''"
| "get_status_reason_phrase BAD_REQUEST = Done ''400 Bad Request''"
| "get_status_reason_phrase UNAUTHORIZED = Done ''401 Unauthorized''"
| "get_status_reason_phrase PAYMENT_REQUIRED = Done ''402 Payment Required''"
| "get_status_reason_phrase FORBIDDEN = Done ''403 Forbidden''"
| "get_status_reason_phrase NOT_FOUND = Done ''404 Not Found''"
| "get_status_reason_phrase METHOD_NOT_ALLOWED = Done ''405 Method Not Allowed''"
| "get_status_reason_phrase NOT_ACCEPTABLE = Done ''406 Not Acceptable''"
| "get_status_reason_phrase PROXY_AUTHENTICATION_REQUIRED = Done ''407 Proxy Authentication Required''"
| "get_status_reason_phrase REQUEST_TIMEOUT = Done ''408 Request Time-out''"
| "get_status_reason_phrase CONFLICT = Done ''409 Conflict''"
| "get_status_reason_phrase GONE = Done ''410 Gone''"
| "get_status_reason_phrase LENGTH_REQUIRED = Done ''411 Length Required''"
| "get_status_reason_phrase PRECONDITION_FAILED = Done ''412 Precondition Failed''"
| "get_status_reason_phrase REQUEST_ENTITY_TOO_LARGE = Done ''413 Request Entity Too Large''"
| "get_status_reason_phrase REQUEST_URI_TOO_LARGE = Done ''414 Request-URI Too Large''"
| "get_status_reason_phrase UNSUPPORTED_MEDIA_TYPE = Done ''415 Unsupported Media Type''"
| "get_status_reason_phrase REQUESTED_RANGE_NOT_SATISFIABLE = Done ''416 Requested range not satisfiable''"
| "get_status_reason_phrase EXPECTATION_FAILED = Done ''417 Expectation Failed''"
| "get_status_reason_phrase INTERNAL_SERVER_ERROR = Done ''500 Internal Server Error''"
| "get_status_reason_phrase NOT_IMPLEMENTED = Done ''501 Not Implemented''"
| "get_status_reason_phrase BAD_GATEWAY = Done ''502 Bad Gateway''"
| "get_status_reason_phrase SERVICE_UNAVAILABLE = Done ''503 Service Unavailable''"
| "get_status_reason_phrase GATEWAY_TIMEOUT = Done ''504 Gateway Time-out''"
| "get_status_reason_phrase HTTP_VERSION_NOT_SUPPORTED = Done ''505 HTTP Version not supported''"
| "get_status_reason_phrase st = Threw (Runtime_error ''get_status_reason_phrase: unknown status code'')"

section \<open>Case-insensitive keys\<close>

text \<open>
  \<open>hasher\<close> stands for \<open>std::hash<char>\<close>; \<open>size_t\<close> has 64 bits.
\<close>

fun ci_hash_loop :: "(char \<Rightarrow> 64 word) \<Rightarrow> 64 word \<Rightarrow> string \<Rightarrow> 64 word" where
  "ci_hash_loop hasher seed [] = seed"
| "ci_hash_loop hasher seed (c # key) =
     ci_hash_loop hasher
       (seed XOR (hasher (tolower c) + 0x9e3779b9 + push_bit 6 seed + drop_bit 2 seed)) key"

definition case_insensitive_hash :: "(char \<Rightarrow> 64 word) \<Rightarrow> string \<Rightarrow> 64 word" where
  "case_insensitive_hash hasher key = ci_hash_loop hasher 0 key"

function ci_equality_loop :: "string \<Rightarrow> string \<Rightarrow> nat \<Rightarrow> bool" where
  "ci_equality_loop a b i =
     (if i < length a
      then (if tolower (a ! i) \<noteq> tolower (b ! i) then False else ci_equality_loop a b (Suc i))
      else True)"
  by pat_completeness auto
termination by (relation "measure (\<lambda>(a, _, i). length a - i)") auto

declare ci_equality_loop.simps [simp del]

definition case_insensitive_equality :: "string \<Rightarrow> string \<Rightarrow> bool" where
  "case_insensitive_equality a b \<longleftrightarrow> (if length a \<noteq> length b then False else ci_equality_loop a b 0)"

definition lower :: "string \<Rightarrow> string" where
  "lower = map tolower"

lemma ci_equality_loop_lower:
  "length a = length b \<Longrightarrow> i \<le> length a
   \<Longrightarrow> ci_equality_loop a b i \<longleftrightarrow> map tolower (drop i a) = map tolower (drop i b)"
proof (induction a b i rule: ci_equality_loop.induct)
  case (1 a b i)
  show ?case
  proof (cases "i < length a")
    case True
    then have d: "drop i a = a ! i # drop (Suc i) a" "drop i b = b ! i # drop (Suc i) b"
      using 1(2) by (simp_all add: Cons_nth_drop_Suc)
    show ?thesis using 1 True by (subst ci_equality_loop.simps) (simp add: d)
  next
    case False
    then show ?thesis using 1(2,3) by (subst ci_equality_loop.simps) simp
  qed
qed

lemma case_insensitive_equality_lower: "case_insensitive_equality a b \<longleftrightarrow> lower a = lower b"
proof (cases "length a = length b")
  case True
  then show ?thesis
    using ci_equality_loop_lower [of a b 0] by (simp add: case_insensitive_equality_def lower_def)
next
  case False
  then have "lower a \<noteq> lower b" unfolding lower_def by (metis length_map)
  with False show ?thesis by (simp add: case_insensitive_equality_def)
qed

lemma ci_hash_loop_lower:
  "map tolower a = map tolower b \<Longrightarrow> ci_hash_loop hasher seed a = ci_hash_loop hasher seed b"
proof (induction a arbitrary: b seed)
  case (Cons c a)
  then obtain d b' where b: "b = d # b'" "tolower c = tolower d" "map tolower a = map tolower b'"
    by (cases b) simp_all
  show ?case using Cons.IH [OF b(3)] by (simp only: b(1,2) ci_hash_loop.simps)
qed simp

section \<open>The header map\<close>

text \<open>
  A \<open>std::unordered_map\<close> is the list of its entries, in no order a client may rely on: what is
  written by walking over it takes the order as an argument. \<open>operator[]\<close> followed by an assignment
  keeps the key that is there and adds the given key otherwise.
\<close>

type_synonym header_map = "(string \<times> string) list"

fun hm_find :: "header_map \<Rightarrow> string \<Rightarrow> string option" where
  "hm_find [] k = None"
| "hm_find ((k', v) # m) k = (if case_insensitive_equality k' k then Some v else hm_find m k)"

fun hm_assign :: "string \<Rightarrow> string \<Rightarrow> header_map \<Rightarrow> header_map" where
  "hm_assign k v [] = [(k, v)]"
| "hm_assign k v ((k', v') # m) =
     (if case_insensitive_equality k' k then (k', v) # m else (k', v') # hm_assign k v m)"

definition hm_wf :: "header_map \<Rightarrow> bool" where
  "hm_wf m \<longleftrightarrow> distinct (map (lower o fst) m)"

lemma hm_assign_keys:
  "lower ` fst ` set (hm_assign k v m) = insert (lower k) (lower ` fst ` set m)"
proof (induction m)
  case (Cons p m)
  obtain k' v' where "p = (k', v')" by fastforce
  with Cons show ?case by (auto simp: case_insensitive_equality_lower)
qed simp

lemma hm_assign_wf [wf_intros]: "hm_wf m \<Longrightarrow> hm_wf (hm_assign k v m)"
proof (induction m)
  case (Cons p m)
  obtain k' v' where p: "p = (k', v')" by fastforce
  have "set (map (lower o fst) (hm_assign k v m)) = insert (lower k) (set (map (lower o fst) m))"
    using hm_assign_keys [of k v m] by (simp add: image_comp)
  with Cons p show ?case
    by (cases "lower k' = lower k") (simp_all add: hm_wf_def case_insensitive_equality_lower)
qed (simp add: hm_wf_def)

lemma hm_find_assign:
  "hm_find (hm_assign k v m) k' = (if case_insensitive_equality k k' then Some v else hm_find m k')"
  by (induction m) (auto simp: case_insensitive_equality_lower)

interpretation hdr: keyed_store "[]" hm_assign hm_find case_insensitive_equality
  by unfold_locales (simp_all add: hm_find_assign)

section \<open>Plain maps\<close>

text \<open>
  The other maps of the source compare their keys for equality; they too are lists of entries.
\<close>

fun um_find :: "('k \<times> 'v) list \<Rightarrow> 'k \<Rightarrow> 'v option" where
  "um_find [] k = None"
| "um_find ((k', v) # m) k = (if k' = k then Some v else um_find m k)"

fun um_assign :: "'k \<Rightarrow> 'v \<Rightarrow> ('k \<times> 'v) list \<Rightarrow> ('k \<times> 'v) list" where
  "um_assign k v [] = [(k, v)]"
| "um_assign k v ((k', v') # m) = (if k' = k then (k', v) # m else (k', v') # um_assign k v m)"

lemma um_find_assign: "um_find (um_assign k v m) k' = (if k = k' then Some v else um_find m k')"
  by (induction m) auto

lemma um_find_set: "um_find m k = Some v \<Longrightarrow> (k, v) \<in> set m"
  by (induction m) (auto split: if_splits)

lemma um_assign_set: "set (um_assign k v m) \<subseteq> insert (k, v) (set m)"
proof (induction m)
  case (Cons p m)
  then show ?case by (cases p) auto
qed simp

lemma um_assign_distinct: "distinct (map fst m) \<Longrightarrow> distinct (map fst (um_assign k v m))"
proof (induction m)
  case (Cons p m)
  obtain k' v' where "p = (k', v')" by fastforce
  moreover have "k' \<noteq> k \<Longrightarrow> k' \<notin> fst ` set m \<Longrightarrow> k' \<notin> fst ` set (um_assign k v m)"
    using um_assign_set [of k v m] by auto
  ultimately show ?case using Cons by (cases "k' = k") simp_all
qed simp

interpretation um: keyed_store "[]" um_assign um_find "(=)"
  by unfold_locales (simp_all add: um_find_assign)

section \<open>Properties\<close>

text \<open>
  the key equality and hash meet what \<open>std::unordered_map\<close> requires: equality is that of the
  lower-case strings, so an equivalence, and equal keys have the same hash, whatever the hash of a
  character.
\<close>

theorem case_insensitive_keys:
  "(case_insensitive_equality a b \<longleftrightarrow> lower a = lower b)
    \<and> (case_insensitive_equality a b \<longrightarrow> case_insensitive_hash hasher a = case_insensitive_hash hasher b)"
  using ci_hash_loop_lower [of a b hasher 0]
  by (simp add: case_insensitive_equality_lower) (simp add: lower_def case_insensitive_hash_def)

theorem case_insensitive_keys_witness:
  "case_insensitive_hash (\<lambda>c. of_char c) ''Host'' = case_insensitive_hash (\<lambda>c. of_char c) ''hoST''"
proof -
  have "lower ''Host'' = lower ''hoST''" by code_simp
  then show ?thesis using case_insensitive_keys [of "''Host''" "''hoST''" of_char] by blast
qed

text \<open>
  the reason phrase of a status starts with its code and a space; the one status without a
  phrase is 507.
\<close>

theorem status_reason_phrase:
  "case get_status_reason_phrase st of
     Done phrase \<Rightarrow> take 4 phrase = to_chars 10 (status_code st) @ '' ''
   | Threw e \<Rightarrow> st = INSUFFICIENT_STORAGE \<and> status_code st = 507
   | Suspended \<Rightarrow> False | Undefined \<Rightarrow> False"
  by (cases st) (simp, code_simp)+

end
