(* ===== verification/Socket_Calls.thy ===== *)
theory Socket_Calls
  imports Socket
begin

text \<open>
  What the classes above the socket share: an object that writes to a socket, as a computation on the object and
  the socket that \<open>emits\<close> a given sequence of bytes; and the measure \<open>rx_work\<close> by which the loops that read
  from a socket are seen to end.
\<close>

section \<open>Writers\<close>

text \<open>
  A computation that writes exactly \<open>bs\<close>: all of it when it returns, a prefix when it fails or waits;
  it returns when the kernel has room for all of it, and leaves the receiving side alone. \<open>res'\<close> is
  the response it leaves.
\<close>

definition emits :: "byte list \<Rightarrow> 'o \<Rightarrow> 'o \<times> socket \<Rightarrow> 'a outcome \<times> ('o \<times> socket) \<Rightarrow> bool" where
  "emits bs res' p out \<longleftrightarrow>
     (case fst out of
        Done _ \<Rightarrow> sent bs (snd p) (snd (snd out)) \<and> fst (snd out) = res'
      | Undefined \<Rightarrow> False
      | _ \<Rightarrow> slack (snd p) < int (length bs) \<and> (\<exists>k. handed (take k bs) (snd p) (snd (snd out))))"

lemma emits_Done: "emits bs res' p (Done a, p') \<longleftrightarrow> sent bs (snd p) (snd p') \<and> fst p' = res'"
  by (simp add: emits_def)

text \<open>A failure after \<open>xs\<close> has been written in part.\<close>

lemma stopped_append:
  assumes "slack s < int (length xs)" "handed (take k xs) s s'"
  shows "slack s < int (length (xs @ ys)) \<and> (\<exists>k. handed (take k (xs @ ys)) s s')"
proof -
  have "handed (take (min k (length xs)) (xs @ ys)) s s'" using assms(2) by simp
  then have "\<exists>k. handed (take k (xs @ ys)) s s'" by (rule exI)
  with assms(1) show ?thesis by simp
qed

lemma emits_then:
  assumes m: "emits xs o1 p (m p)"
    and f: "\<And>a p'. sock_wf (snd p') \<Longrightarrow> fst p' = o1 \<Longrightarrow> emits ys o2 p' (f a p')"
  shows "emits (xs @ ys) o2 p (and_then m f p)"
proof -
  obtain r p' where mp: "m p = (r, p')" by (cases "m p")
  show ?thesis
  proof (cases r)
    case (Done a)
    have s: "sent xs (snd p) (snd p')" "fst p' = o1" using m mp Done by (simp_all add: emits_Done)
    obtain r2 p2 where fp: "f a p' = (r2, p2)" by (cases "f a p'")
    have e: "emits ys o2 p' (r2, p2)" using f [OF sent_wf [OF s(1)] s(2), of a] fp by simp
    have fail: "slack (snd p) < int (length (xs @ ys))
      \<and> (\<exists>k. handed (take k (xs @ ys)) (snd p) (snd p2))"
      if l: "slack (snd p') < int (length ys)" and h: "\<exists>k. handed (take k ys) (snd p') (snd p2)"
    proof -
      obtain k where "handed (xs @ take k ys) (snd p) (snd p2)"
        using h handed_trans [of xs "snd p" "snd p'"] s(1) by (auto simp: sent_def)
      then have "handed (take (length xs + k) (xs @ ys)) (snd p) (snd p2)" by simp
      then have "\<exists>k. handed (take k (xs @ ys)) (snd p) (snd p2)" by (rule exI)
      then show ?thesis using l sent_slack [OF s(1)] by simp
    qed
    show ?thesis
      using e fail sent_trans [OF s(1), of ys] mp Done fp
      by (cases r2) (simp_all add: emits_def and_then_def)
  next
    case (Threw e)
    then show ?thesis
      using m mp stopped_append [of "snd p" xs _ "snd p'" ys] by (auto simp: emits_def and_then_def)
  next
    case Suspended
    then show ?thesis
      using m mp stopped_append [of "snd p" xs _ "snd p'" ys] by (auto simp: emits_def and_then_def)
  next
    case Undefined
    then show ?thesis using m mp by (simp add: emits_def)
  qed
qed

lemma emits_write:
  assumes "sock_wf (snd p)" "n = int (length src)"
  shows "emits src (fst p) p (on_snd (sock_write src n) p)"
proof -
  obtain r s' k where w: "sock_write src (int (length src)) (snd p) = (r, s')" "r \<noteq> Undefined"
    "handed (take k src) (snd p) s'" "r = Done () \<longrightarrow> sent src (snd p) s'"
    "int (length src) \<le> slack (snd p) \<longrightarrow> r = Done ()"
    using sock_write_handed [OF assms(1), of src] by blast
  then show ?thesis by (cases r) (auto simp: emits_def on_snd_def assms(2))
qed

section \<open>Progress of readers\<close>

text \<open>Bytes buffered or queued: what every turn of the reading loop decreases.\<close>

definition rx_work :: "socket \<Rightarrow> nat" where
  "rx_work s = nat (available (m_in_buffer s)) + rx_weight (m_rx s)"

lemma recv_incoming_Done:
  "recv_incoming s = (Done status, s') \<Longrightarrow>
   available (m_in_buffer s') = available (m_in_buffer s) + max 0 status
   \<and> rx_weight (m_rx s') + nat status \<le> rx_weight (m_rx s)"
  by (auto simp: recv_incoming_def Let_def available_def increment_write_p_def dest!: on_recv_weight_amount
      split: prod.splits option.splits if_splits)

text \<open>A drain that counts what it takes. It holds whatever state the buffer is in.\<close>

definition counts :: "('d \<Rightarrow> int \<Rightarrow> int \<Rightarrow> (byte_buffer, 'd \<times> int) comp) \<Rightarrow> bool" where
  "counts dr \<longleftrightarrow> (\<forall>d got rest b d' n b'. dr d got rest b = (Done (d', n), b') \<longrightarrow>
     available b' = available b - n \<and> n \<le> available b)"

lemma available_increment_read_p: "available (increment_read_p n b) = available b - n"
  by (simp add: increment_read_p_def available_def Let_def)

lemma counts_drain_mem: "counts (drain_mem off)"
  by (auto simp: counts_def drain_mem_def bb_read_def Let_def available_increment_read_p
      split: if_splits option.splits)

lemma counts_drain_str: "counts drain_str"
  by (auto simp: counts_def drain_str_def bb_read_str_def Let_def available_increment_read_p split: if_splits)

lemma counts_drain_skip: "counts drain_skip"
  by (auto simp: counts_def drain_skip_def skip_buffer_def and_then_def return_def Let_def available_increment_read_p)

lemma on_in_counts:
  assumes "counts dr" "on_in (dr d got rest) s = (Done (d', n), s')"
  shows "available (m_in_buffer s') = available (m_in_buffer s) - n" "0 \<le> available (m_in_buffer s')" "m_rx s' = m_rx s"
proof -
  obtain b where b: "dr d got rest (m_in_buffer s) = (Done (d', n), b)" "s' = s\<lparr>m_in_buffer := b\<rparr>"
    using assms(2) by (auto simp: on_in_def split: prod.splits)
  then have "available b = available (m_in_buffer s) - n \<and> n \<le> available (m_in_buffer s)"
    using assms(1) unfolding counts_def by blast
  then show "available (m_in_buffer s') = available (m_in_buffer s) - n" "0 \<le> available (m_in_buffer s')"
      "m_rx s' = m_rx s"
    using b(2) by simp_all
qed

lemma fill_loop_work:
  assumes "counts dr" "fill_loop what dr sz True d got s = (Done (d', got'), s')" "0 \<le> available (m_in_buffer s)"
  shows "0 \<le> available (m_in_buffer s') \<and> sz \<le> got'
    \<and> available (m_in_buffer s') + int (rx_weight (m_rx s')) + got' \<le> available (m_in_buffer s) + int (rx_weight (m_rx s)) + got"
  using assms
proof (induction what dr sz fully \<equiv> True d got s rule: fill_loop.induct)
  case (1 what dr sz d got s)
  show ?case
  proof (cases "got < sz")
    case False
    then have "(d', got') = (d, got)" "s' = s" using "1.prems"(2) by (simp_all add: fill_loop.simps)
    then show ?thesis using False "1.prems"(3) by simp
  next
    case True
    obtain status s1 where r: "recv_incoming s = (Done status, s1)"
      using True "1.prems"(2) by (subst (asm) fill_loop.simps) (auto split: prod.splits outcome.splits)
    have pos: "0 < status"
      using True "1.prems"(2) r by (subst (asm) fill_loop.simps) (auto split: if_splits)
    obtain d1 n s2 where n: "on_in (dr d got (sz - got)) s1 = (Done (d1, n), s2)"
        "fill_loop what dr sz True d1 (got + n) s2 = (Done (d', got'), s')"
      using True "1.prems"(2) r pos by (subst (asm) fill_loop.simps) (auto split: prod.splits outcome.splits)
    note c = on_in_counts [OF "1.prems"(1) n(1)]
    have "0 \<le> available (m_in_buffer s') \<and> sz \<le> got'
      \<and> available (m_in_buffer s') + int (rx_weight (m_rx s')) + got'
        \<le> available (m_in_buffer s2) + int (rx_weight (m_rx s2)) + (got + n)"
      using "1.hyps" [OF True r [symmetric] refl] pos n c(2) "1.prems"(1) by (metis less_irrefl not_less_iff_gr_or_eq)
    moreover have "available (m_in_buffer s1) = available (m_in_buffer s) + status"
        "int (rx_weight (m_rx s1)) + status \<le> int (rx_weight (m_rx s))"
      using recv_incoming_Done [OF r] pos by (simp, linarith)
    ultimately show ?thesis using c(1,3) by simp
  qed
qed

lemma fill_work:
  assumes "counts dr" "fill what dr sz True d s = (Done (d', got'), s')"
  shows "rx_work s' + nat sz \<le> rx_work s \<or> sz < 0"
proof -
  obtain d1 n s1 where n: "on_in (dr d 0 sz) s = (Done (d1, n), s1)"
      "fill_loop what dr sz True d1 n s1 = (Done (d', got'), s')"
    using assms(2) by (auto simp: fill_def elim!: and_then_DoneE)
  note c = on_in_counts [OF assms(1) n(1)]
  have "0 \<le> available (m_in_buffer s') \<and> sz \<le> got'
    \<and> available (m_in_buffer s') + int (rx_weight (m_rx s')) + got' \<le> available (m_in_buffer s1) + int (rx_weight (m_rx s1)) + n"
    by (rule fill_loop_work [OF assms(1) n(2) c(2)])
  then show ?thesis using c unfolding rx_work_def by simp linarith
qed

lemma read_mem_work: "read_mem dest off sz True s = (Done r, s') \<Longrightarrow> 0 \<le> sz \<Longrightarrow> rx_work s' + nat sz \<le> rx_work s"
  using fill_work [OF counts_drain_mem, of "''socket read''" off sz dest s "fst r" "snd r" s'] by (simp add: read_mem_def)

lemma read_str_negative: "sz < 0 \<Longrightarrow> fst (read_str dest sz True s) = Threw Length_error"
  by (auto simp: read_str_def fill_def and_then_def on_in_def drain_str_def bb_read_str_def min_def Let_def)

lemma read_str_work: "read_str dest sz True s = (Done r, s') \<Longrightarrow> rx_work s' \<le> rx_work s"
  using fill_work [OF counts_drain_str, of "''socket read''" sz dest s "fst r" "snd r" s'] read_str_negative [of sz dest s]
  by (auto simp: read_str_def)

lemma skip_work: "skip sz True s = (Done n, s') \<Longrightarrow> 0 \<le> sz \<Longrightarrow> rx_work s' \<le> rx_work s"
  using fill_work [OF counts_drain_skip, of "''socket skip''" sz "()" s "()" n s']
  by (auto simp: skip_def return_def elim!: and_then_DoneE)

lemma flush_same_in: "same_in s (snd (flush s))"
proof (induction s rule: flush.induct)
  case (1 s)
  show ?case
  proof (cases "get_read_chunk (m_out_buffer s) = []")
    case True
    then show ?thesis by (simp add: flush.simps same_in_def)
  next
    case chunk: False
    show ?thesis
    proof (cases "on_send (length (get_read_chunk (m_out_buffer s))) (m_tx s)")
      case None
      then show ?thesis using chunk by (subst flush.simps) (simp add: same_in_def)
    next
      case (Some a)
      obtain status tx where a: "a = (status, tx)" by (cases a)
      show ?thesis
      proof (cases "status < 0")
        case True
        then show ?thesis using chunk Some a by (subst flush.simps) (simp add: same_in_def)
      next
        case False
        show ?thesis
          using "1.IH" [OF refl chunk Some a [symmetric] False] chunk Some a False
          by (subst flush.simps) (simp add: same_in_def)
      qed
    qed
  qed
qed

lemma on_out_same_in: "same_in s (snd (on_out m s))"
  by (simp add: on_out_def same_in_def split: prod.split)

lemma write_loop_same_in: "same_in s (snd (write_loop src sz got s))"
proof (induction src sz got s rule: write_loop.induct)
  case (1 src sz got s)
  obtain r1 s1 where f: "flush s = (r1, s1)" by fastforce
  obtain r2 s2 where o: "on_out (bb_write (drop (nat got) src) (sz - got)) s1 = (r2, s2)" by fastforce
  have s1: "same_in s s1" using flush_same_in [of s] f by simp
  have s2: "same_in s s2" using on_out_same_in [of s1 "bb_write (drop (nat got) src) (sz - got)"] o s1
    by (auto intro: same_in_trans)
  show ?case
  proof (cases "got < sz")
    case False
    then show ?thesis by (simp add: write_loop.simps same_in_def)
  next
    case True
    then show ?thesis
      using "1.IH" [OF True f [symmetric] _ o [symmetric]] f o s1 s2
      by (subst write_loop.simps) (auto split: outcome.split intro: same_in_trans)
  qed
qed

lemma sock_write_same_in: "same_in s (snd (sock_write src sz s))"
proof -
  obtain r s1 where o: "on_out (bb_write src sz) s = (r, s1)" by fastforce
  then have "same_in s s1" using on_out_same_in [of s "bb_write src sz"] by simp
  then show ?thesis
    using write_loop_same_in [of s1 src sz] o
    by (cases r) (auto simp: sock_write_def and_then_def intro: same_in_trans)
qed

lemma same_in_work: "same_in s s' \<Longrightarrow> rx_work s' = rx_work s"
  by (simp add: same_in_def rx_work_def)

section \<open>Computations that do not make more to read\<close>

text \<open>
  A computation on a state that contains a socket, at \<open>sel\<close>, which leaves no more to be read than there was. The loops
  that wait for messages consist of one such step after the other, each behind a read of a header.
\<close>

definition frugal :: "('s \<Rightarrow> socket) \<Rightarrow> ('s, 'a) comp \<Rightarrow> bool" where
  "frugal sel m \<longleftrightarrow> (\<forall>s a s'. m s = (Done a, s') \<longrightarrow> rx_work (sel s') \<le> rx_work (sel s))"

named_theorems frugal_intros \<open>computations that do not make more to read\<close>

lemma frugalD: "frugal sel m \<Longrightarrow> m s = (Done a, s') \<Longrightarrow> rx_work (sel s') \<le> rx_work (sel s)"
  by (simp add: frugal_def)

lemma frugal_then [frugal_intros]: "frugal sel m \<Longrightarrow> (\<And>a. frugal sel (f a)) \<Longrightarrow> frugal sel (and_then m f)"
  unfolding frugal_def by (blast elim: and_then_DoneE intro: le_trans)

lemma frugal_Pair [frugal_intros]: "frugal sel (Pair r)"
  by (simp add: frugal_def)

lemma frugal_return [frugal_intros]: "frugal sel (return a)"
  by (simp add: frugal_def return_def)

lemma frugal_throw [frugal_intros]: "frugal sel (throw e)"
  by (simp add: frugal_def throw_def)

lemma frugal_on_fst [frugal_intros]: "frugal sel m \<Longrightarrow> frugal (\<lambda>p. sel (fst p)) (on_fst m)"
  by (auto simp: frugal_def on_fst_def split: prod.splits)

lemma frugal_on_snd [frugal_intros]: "frugal sel m \<Longrightarrow> frugal (\<lambda>p. sel (snd p)) (on_snd m)"
  by (auto simp: frugal_def on_snd_def split: prod.splits)

lemma frugal_other_snd: "frugal (\<lambda>p. sel (fst p)) (on_snd m)"
  by (auto simp: frugal_def on_snd_def split: prod.splits)

lemma frugal_other_fst: "frugal (\<lambda>p. sel (snd p)) (on_fst m)"
  by (auto simp: frugal_def on_fst_def split: prod.splits)

lemma frugal_socket [frugal_intros]:
  "frugal (\<lambda>s. s) (read_str dest sz True)"
  "0 \<le> sz \<Longrightarrow> frugal (\<lambda>s. s) (read_mem d off sz True)"
  "0 \<le> sz \<Longrightarrow> frugal (\<lambda>s. s) (skip sz True)"
  "frugal (\<lambda>s. s) (sock_write src n)"
  "frugal (\<lambda>s. s) flush"
proof -
  show "frugal (\<lambda>s. s) (read_str dest sz True)" by (simp add: frugal_def read_str_work)
  show "0 \<le> sz \<Longrightarrow> frugal (\<lambda>s. s) (read_mem d off sz True)"
    unfolding frugal_def using read_mem_work by (metis add_leD1)
  show "0 \<le> sz \<Longrightarrow> frugal (\<lambda>s. s) (skip sz True)" by (simp add: frugal_def skip_work)
  show "frugal (\<lambda>s. s) (sock_write src n)"
    unfolding frugal_def by (metis sock_write_same_in same_in_work snd_conv order_refl)
  show "frugal (\<lambda>s. s) flush"
    unfolding frugal_def by (metis flush_same_in same_in_work snd_conv order_refl)
qed

section \<open>Reads that the buffer can serve\<close>

text \<open>A read that finds its bytes in the buffer takes them there and does not wait.\<close>

definition took :: "nat \<Rightarrow> socket \<Rightarrow> socket \<Rightarrow> bool" where
  "took n s s' \<longleftrightarrow> sock_wf s' \<and> m_rx s' = m_rx s \<and> same_out s s'
     \<and> get_read_chunk (m_in_buffer s') = drop n (get_read_chunk (m_in_buffer s))"

lemma consumed_took: "consumed n s s' \<Longrightarrow> m_rx s' = m_rx s \<Longrightarrow> n \<le> length (get_read_chunk (m_in_buffer s)) \<Longrightarrow> took n s s'"
  by (auto simp: consumed_def took_def incoming_def)

context drain
begin

lemma fill_buffered:
  assumes "sock_wf s" "fits d n" "n \<le> length (get_read_chunk (m_in_buffer s))"
  obtains s' where "fill what dr (int n) fully d s = (Done (absorb d 0 (take n (get_read_chunk (m_in_buffer s))), int n), s')"
    "took n s s'"
proof -
  obtain k s' where k: "on_in (dr d (int 0) (int n)) s = (Done (absorb d 0 (take k (incoming s)), int k), s')"
    "consumed k s s'" "k = min n (length (get_read_chunk (m_in_buffer s)))"
    by (rule drain_socket [of s d 0 n, unfolded add_0, OF assms(1,2)])
  have kn: "k = n" using k(3) assms(3) by simp
  have t: "take k (incoming s) = take n (get_read_chunk (m_in_buffer s))" using kn assms(3) by (simp add: incoming_def)
  have "fill what dr (int n) fully d s = (Done (absorb d 0 (take n (get_read_chunk (m_in_buffer s))), int n), s')"
    using k(1) t kn by (simp add: fill_def and_then_def fill_loop.simps)
  moreover have "took n s s'" using consumed_took [OF k(2) on_in_rx [OF k(1)]] kn assms(3) by simp
  ultimately show thesis by (rule that)
qed

end

lemma took_trans: "took m s s1 \<Longrightarrow> took n s1 s2 \<Longrightarrow> took (m + n) s s2"
  by (auto simp: took_def add.commute intro: same_out_trans)

lemma buffered_skip:
  assumes "sock_wf s" "get_read_chunk (m_in_buffer s) = xs @ ys"
  obtains s' where "skip (int (length xs)) True s = (Done (int (length xs)), s')" "took (length xs) s s'"
proof -
  obtain s' where "fill ''socket skip'' drain_skip (int (length xs)) True () s = (Done ((), int (length xs)), s')" "took (length xs) s s'"
    by (rule skp.fill_buffered [where s = s and d = "()" and n = "length xs" and what = "''socket skip''" and fully = True]) (use assms in simp_all)
  then show thesis using that by (simp add: skip_def and_then_def return_def)
qed

lemma buffered_read_str:
  assumes "sock_wf s" "get_read_chunk (m_in_buffer s) = xs @ ys"
  obtains s' where "read_str [] (int (length xs)) True s = (Done (chars xs, int (length xs)), s')" "took (length xs) s s'"
proof -
  obtain s' where "fill ''socket read'' drain_str (int (length xs)) True [] s
      = (Done ([] @ chars (take (length xs) (get_read_chunk (m_in_buffer s))), int (length xs)), s')" "took (length xs) s s'"
    by (rule str.fill_buffered [where s = s and d = "[]" and n = "length xs" and what = "''socket read''" and fully = True]) (use assms in simp_all)
  then show thesis using that assms(2) by (simp add: read_str_def)
qed

lemma buffered_read_mem:
  assumes "sock_wf s" "get_read_chunk (m_in_buffer s) = xs @ ys" "length z = length xs"
  obtains s' where "read_mem z 0 (int (length xs)) True s = (Done (xs, int (length xs)), s')" "took (length xs) s s'"
proof -
  let ?c = "take (length xs) (get_read_chunk (m_in_buffer s))"
  obtain s' where "fill ''socket read'' (drain_mem 0) (int (length xs)) True z s
      = (Done (take (0 + 0) z @ ?c @ drop (0 + 0 + length ?c) z, int (length xs)), s')" "took (length xs) s s'"
    by (rule mem.fill_buffered [where s = s and off = 0 and d = z and n = "length xs" and what = "''socket read''" and fully = True]) (use assms in simp_all)
  then show thesis using that assms(2,3) by (simp add: read_mem_def)
qed

text \<open>An empty buffer is filled by the next completion, and the read goes on from there.\<close>

lemma recv_whole:
  assumes "sock_wf s" "get_read_chunk (m_in_buffer s) = []" "m_rx s = Rx_data bs # rx" "bs \<noteq> []"
    and "length bs \<le> SOCKET_BUFFER_SIZE"
  obtains s' where "recv_incoming s = (Done (int (length bs)), s')" "sock_wf s'" "m_rx s' = rx" "same_out s s'"
    "get_read_chunk (m_in_buffer s') = bs"
proof -
  have "rx_bytes (m_rx s) \<noteq> []" using assms(3,4) by simp
  then obtain k s' where r: "recv_incoming s = (Done (int k), s')" "0 < k" "consumed 0 s s'"
      "length (get_read_chunk (m_in_buffer s')) = k"
    by (rule recv_incoming_data [OF assms(1,2)])
  have rx: "k = length bs" "m_rx s' = rx"
    using r(1) assms(3,5) write_chunk_drained [OF assms(1,2)]
    by (auto simp: recv_incoming_def Let_def split: option.splits)
  have "get_read_chunk (m_in_buffer s') @ rx_bytes rx = bs @ rx_bytes rx"
    using r(3) rx(2) assms(2-4) by (simp add: consumed_def incoming_def)
  then show thesis using that r(1,3) rx by (simp add: consumed_def)
qed

lemma read_mem_refill:
  assumes "sock_wf s" "get_read_chunk (m_in_buffer s) = []" "0 < n" "n \<le> length z"
    and "recv_incoming s = (Done (int k), s1)" "0 < k"
  shows "read_mem z 0 (int n) True s = read_mem z 0 (int n) True s1"
proof -
  have wf: "bb_wf (m_in_buffer s)" using assms(1) by (simp add: sock_wf_def)
  then have av: "available (m_in_buffer s) = 0" using assms(2) read_chunk_empty_iff by blast
  have i: "increment_read_p 0 (m_in_buffer s) = m_in_buffer s"
    using wf av by (cases "m_in_buffer s") (auto simp: increment_read_p_def bb_wf_def available_def)
  have d: "on_in (drain_mem 0 z 0 (int n)) s = (Done (z, 0), s)"
    using assms(3) by (simp add: on_in_def drain_mem_def bb_read_def av min_def memcpy_Nil i)
  have step: "fill_loop ''socket read'' (drain_mem 0) (int n) True z 0 s
      = (case on_in (drain_mem 0 z 0 (int n)) s1 of
           (Done (d', m), s2) \<Rightarrow> fill_loop ''socket read'' (drain_mem 0) (int n) True d' m s2
         | (Threw e, s2) \<Rightarrow> (Threw e, s2) | (Suspended, s2) \<Rightarrow> (Suspended, s2) | (Undefined, s2) \<Rightarrow> (Undefined, s2))"
    using assms(3,5,6) by (subst fill_loop.simps) (auto split: outcome.split prod.split)
  have "fill ''socket read'' (drain_mem 0) (int n) True z s = fill_loop ''socket read'' (drain_mem 0) (int n) True z 0 s"
    by (simp add: fill_def and_then_def d)
  also have "\<dots> = fill ''socket read'' (drain_mem 0) (int n) True z s1"
    unfolding step fill_def and_then_def by (auto split: prod.split outcome.split)
  finally show ?thesis by (simp add: read_mem_def)
qed

end
