(* ===== verification/Http_Line.thy ===== *)
theory Http_Line
  imports Socket_Calls
begin

text \<open>
  \<open>cppevent_http/http_line\<close>: reading a line of the HTTP head from a socket, over \<open>peek\<close> and
  \<open>seek\<close>. The result is described on the byte stream: the bytes up to the first newline,
  however the kernel has cut them.
\<close>

section \<open>Operations\<close>

record http_line =
  m_val :: string
  m_received :: bool

definition has_value :: "http_line \<Rightarrow> bool" where
  "has_value l \<longleftrightarrow> m_received l \<and> m_val l \<noteq> []"

definition is_last_line :: "http_line \<Rightarrow> bool" where
  "is_last_line l \<longleftrightarrow> m_received l \<and> m_val l = []"

text \<open>One pass over a chunk: how far it went, the line so far, and whether it ended.\<close>

fun scan_chunk :: "byte list \<Rightarrow> nat \<Rightarrow> string \<Rightarrow> nat \<times> string \<times> bool" where
  "scan_chunk [] offset line = (offset, line, False)"
| "scan_chunk (b # chunk) offset line =
     (let c = char_of_byte b in
      if c = CHR 0x0A then (Suc offset, line @ [c], True)
      else scan_chunk chunk (Suc offset) (line @ [c]))"

lemma scan_chunk_bounds:
  "scan_chunk chunk offset line = (offset', line', ended) \<Longrightarrow> offset \<le> offset'
     \<and> offset' \<le> offset + length chunk \<and> (chunk \<noteq> [] \<longrightarrow> offset < offset')"
  by (induction chunk offset line rule: scan_chunk.induct) (auto simp: Let_def split: if_splits)

lemma peek_Done:
  assumes "peek s = (Done chunk, s')"
  shows "rx_work s' \<le> rx_work s" "chunk = get_read_chunk (m_in_buffer s')"
proof -
  have "rx_work s' \<le> rx_work s \<and> chunk = get_read_chunk (m_in_buffer s')"
  proof (cases "get_read_chunk (m_in_buffer s) = []")
    case False
    with assms show ?thesis by (auto simp: peek_def return_def)
  next
    case True
    then obtain status where "recv_incoming s = (Done status, s')" "chunk = get_read_chunk (m_in_buffer s')"
      using assms by (auto simp: peek_def return_def throw_def elim!: and_then_DoneE split: if_splits)
    then show ?thesis using recv_incoming_Done [of s status s'] unfolding rx_work_def by linarith
  qed
  then show "rx_work s' \<le> rx_work s" "chunk = get_read_chunk (m_in_buffer s')" by simp_all
qed

lemma seek_work:
  assumes "0 < k" "k \<le> length (get_read_chunk (m_in_buffer s))"
  shows "rx_work (seek (int k) s) < rx_work s"
proof -
  have "int k \<le> available (m_in_buffer s)"
    using assms by (auto simp: get_read_chunk_def)
  then show ?thesis
    using assms(1) by (auto simp: rx_work_def seek_def increment_read_p_def available_def Let_def)
qed

function line_loop :: "string \<Rightarrow> (socket, string \<times> bool) comp" where
  "line_loop line s =
     (case peek s of
        (Done chunk, s1) \<Rightarrow>
          if chunk = [] then (Done (line, False), s1)
          else (case scan_chunk chunk 0 line of (offset, line', line_ended) \<Rightarrow>
            let s2 = seek (int offset) s1 in
            if line_ended then (Done (line', True), s2) else line_loop line' s2)
      | (Threw e, s1) \<Rightarrow> (Threw e, s1)
      | (Suspended, s1) \<Rightarrow> (Suspended, s1)
      | (Undefined, s1) \<Rightarrow> (Undefined, s1))"
  by pat_completeness auto
termination
proof (relation "measure (\<lambda>(_, s). rx_work s)", goal_cases)
  case 1
  show ?case by simp
next
  case prems: (2 line s r s1 chunk offset)
  then show ?case
    using peek_Done [of s chunk s1] scan_chunk_bounds [of chunk 0 line offset, OF sym] seek_work [of offset s1]
    by fastforce
qed

declare line_loop.simps [simp del]

text \<open>\<open>pop_back\<close> of the newline, and of a carriage return before it.\<close>

definition pop_line_end :: "string \<Rightarrow> string" where
  "pop_line_end line =
     (let line = butlast line in
      if line \<noteq> [] \<and> last line = CHR 0x0D then butlast line else line)"

definition read_http_line :: "(socket, http_line) comp" where
  "read_http_line =
     and_then (line_loop []) (\<lambda>(line, line_ended).
       return \<lparr>m_val = (if line_ended then pop_line_end line else line), m_received = line_ended\<rparr>)"

section \<open>Lines of the stream\<close>

definition newline :: byte where
  "newline = 10"

definition first_line :: "byte list \<Rightarrow> byte list" where
  "first_line bs = takeWhile (\<lambda>b. b \<noteq> newline) bs"

definition strip_cr :: "string \<Rightarrow> string" where
  "strip_cr line = (if line \<noteq> [] \<and> last line = CHR 0x0D then butlast line else line)"

text \<open>What reading a line does to a socket, in terms of the stream.\<close>

definition line_read :: "socket \<Rightarrow> http_line outcome \<times> socket \<Rightarrow> bool" where
  "line_read s res \<longleftrightarrow>
     (if newline \<in> set (incoming s)
      then fst res = Done \<lparr>m_val = strip_cr (chars (first_line (incoming s))), m_received = True\<rparr>
        \<and> consumed (Suc (length (first_line (incoming s)))) s (snd res)
      else case rx_stop (m_rx s) of
        None \<Rightarrow> fst res = Suspended \<and> consumed (length (incoming s)) s (snd res)
      | Some st \<Rightarrow> exhausted s (snd res) \<and>
          fst res = (if st < 0 then Threw (Errno_error ''socket peek failed: '' (0 - st))
                     else Done \<lparr>m_val = chars (incoming s), m_received = False\<rparr>))"

lemma char_newline: "char_of_byte b = CHR 0x0A \<longleftrightarrow> b = newline"
proof -
  have "byte_of_char (CHR 0x0A) = newline" by (simp add: byte_of_char_def newline_def)
  then show ?thesis by (metis byte_of_char_of_byte char_of_byte_of_char)
qed

lemma scan_chunk_eq:
  "scan_chunk chunk offset line =
     (if newline \<in> set chunk
      then (offset + Suc (length (first_line chunk)), line @ chars (first_line chunk) @ [CHR 0x0A], True)
      else (offset + length chunk, line @ chars chunk, False))"
  by (induction chunk offset line rule: scan_chunk.induct)
    (auto simp: Let_def char_newline first_line_def chars_def)

lemma first_line_append:
  "first_line (xs @ ys) = (if newline \<in> set xs then first_line xs else xs @ first_line ys)"
  by (induction xs) (auto simp: first_line_def)

lemma pop_line_end_eq: "pop_line_end (line @ [c]) = strip_cr line"
  by (simp add: pop_line_end_def strip_cr_def)

text \<open>The loop, with the bytes it has seen.\<close>

definition line_loop_read :: "string \<Rightarrow> socket \<Rightarrow> (string \<times> bool) outcome \<times> socket \<Rightarrow> bool" where
  "line_loop_read line s res \<longleftrightarrow>
     (if newline \<in> set (incoming s)
      then fst res = Done (line @ chars (first_line (incoming s)) @ [CHR 0x0A], True)
        \<and> consumed (Suc (length (first_line (incoming s)))) s (snd res)
      else case rx_stop (m_rx s) of
        None \<Rightarrow> fst res = Suspended \<and> consumed (length (incoming s)) s (snd res)
      | Some st \<Rightarrow> exhausted s (snd res) \<and>
          fst res = (if st < 0 then Threw (Errno_error ''socket peek failed: '' (0 - st))
                     else Done (line @ chars (incoming s), False)))"

lemma line_loop_read_step:
  assumes c: "consumed k s s2" and k: "k \<le> length (incoming s)"
    and nl: "newline \<notin> set (take k (incoming s))"
    and r: "line_loop_read (line @ chars (take k (incoming s))) s2 res"
  shows "line_loop_read line s res"
proof -
  have inc: "incoming s2 = drop k (incoming s)" using c by (simp add: consumed_def)
  have split: "incoming s = take k (incoming s) @ incoming s2" by (simp add: inc)
  have nl2: "newline \<in> set (incoming s) \<longleftrightarrow> newline \<in> set (incoming s2)"
    using nl by (subst split) auto
  have fl: "first_line (incoming s) = take k (incoming s) @ first_line (incoming s2)"
    using nl by (subst split) (simp add: first_line_append)
  have len: "length (incoming s) = k + length (incoming s2)" using k by (simp add: inc)
  have ch: "chars (take k (incoming s)) @ chars (incoming s2) = chars (incoming s)"
    by (simp add: inc flip: chars_append)
  show ?thesis
  proof (cases "newline \<in> set (incoming s)")
    case True
    then have n: "newline \<in> set (incoming s2)" using nl2 by simp
    have "Suc (length (first_line (incoming s))) = k + Suc (length (first_line (incoming s2)))"
      using k by (simp add: fl)
    then show ?thesis
      using r True n consumed_trans [OF c, of "Suc (length (first_line (incoming s2)))" "snd res"]
      by (simp add: line_loop_read_def fl)
  next
    case False
    then have n: "newline \<notin> set (incoming s2)" using nl2 by simp
    show ?thesis
    proof (cases "rx_stop (m_rx s)")
      case None
      then show ?thesis
        using r False n consumed_stop [OF c] consumed_trans [OF c, of "length (incoming s2)" "snd res"]
        by (simp add: line_loop_read_def len)
    next
      case (Some st)
      then show ?thesis
        using r False n consumed_stop [OF c] consumed_exhausted [OF c, of "snd res"] ch
        by (simp add: line_loop_read_def)
    qed
  qed
qed

lemma line_loop_line_read:
  assumes "sock_wf s"
  shows "line_loop_read line s (line_loop line s)"
  using assms
proof (induction line s rule: line_loop.induct)
  case (1 line s)
  show ?case
  proof (cases "incoming s = []")
    case True
    then show ?thesis
      using peek_empty [OF 1(2) True]
        exhausted_stop [OF 1(2)] rx_stop_nonpos [of "m_rx s"] consumed_0 [OF 1(2)]
      by (subst line_loop.simps) (auto simp: line_loop_read_def incoming_def split: option.splits)
  next
    case False
    obtain chunk s1 where p: "peek s = (Done chunk, s1)" "consumed 0 s s1" "chunk \<noteq> []"
      "chunk = get_read_chunk (m_in_buffer s1)"
      by (rule peek_data [OF 1(2) False])
    have wf1: "sock_wf s1" using p(2) by (rule consumed_wf)
    have inc1: "incoming s1 = incoming s" using p(2) by (simp add: consumed_def)
    then have inc: "incoming s = chunk @ rx_bytes (m_rx s1)" by (simp add: incoming_def p(4))
    show ?thesis
    proof (cases "newline \<in> set chunk")
      case True
      let ?k = "Suc (length (first_line chunk))"
      have k: "?k \<le> length chunk"
        using True by (induction chunk) (auto simp: first_line_def)
      have "line_loop line s = (Done (line @ chars (first_line chunk) @ [CHR 0x0A], True), seek (int ?k) s1)"
        using p(1,3) True by (subst line_loop.simps) (simp add: scan_chunk_eq Let_def)
      moreover have "consumed ?k s (seek (int ?k) s1)"
        using consumed_trans [OF p(2) seek_consumed(1) [OF wf1, of ?k]] k p(4) by simp
      ultimately show ?thesis using True by (simp add: line_loop_read_def inc first_line_append)
    next
      case False
      let ?k = "length chunk"
      have eq: "line_loop line s = line_loop (line @ chars chunk) (seek (int ?k) s1)"
        using p(1,3) False by (subst line_loop.simps) (simp add: scan_chunk_eq Let_def)
      have c: "consumed ?k s (seek (int ?k) s1)"
        using consumed_trans [OF p(2) seek_consumed(1) [OF wf1, of ?k]] p(4) by simp
      have "line_loop_read (line @ chars chunk) (seek (int ?k) s1)
          (line_loop (line @ chars chunk) (seek (int ?k) s1))"
        using 1(1) [OF p(1) [symmetric] refl p(3), of ?k _ "line @ chars chunk" False] False consumed_wf [OF c]
        by (simp add: scan_chunk_eq)
      then show ?thesis
        unfolding eq by (intro line_loop_read_step [OF c]) (use False in \<open>simp_all add: inc\<close>)
    qed
  qed
qed

lemma read_http_line_read:
  assumes "sock_wf s"
  shows "line_read s (read_http_line s)"
proof -
  obtain r s' where l: "line_loop [] s = (r, s')" by fastforce
  then show ?thesis
    using line_loop_line_read [OF assms, of "[]"]
    by (auto simp: line_read_def line_loop_read_def read_http_line_def and_then_def return_def
        pop_line_end_eq simp flip: append_assoc split: if_splits option.splits)
qed

text \<open>The common case: a line that is there.\<close>

lemma read_http_line_crlf:
  assumes "sock_wf s" "incoming s = bytes line @ [13, newline] @ rest" "CHR 0x0A \<notin> set line"
  obtains s' where "read_http_line s = (Done \<lparr>m_val = line, m_received = True\<rparr>, s')"
    "consumed (length line + 2) s s'" "incoming s' = rest"
proof -
  have nl: "newline \<notin> set (bytes line @ [13])"
    using assms(3) char_newline by (auto simp: bytes_def newline_def) (metis char_of_byte_of_char newline_def)
  have fl: "first_line (incoming s) = bytes line @ [13]"
    using nl by (simp add: assms(2) first_line_append) (simp add: first_line_def newline_def)
  have "chars [13] = [CHR 0x0D]" by code_simp
  then have cr: "strip_cr (chars (bytes line @ [13])) = line" by (simp add: strip_cr_def)
  obtain r s' where rs: "read_http_line s = (r, s')" by fastforce
  have "newline \<in> set (incoming s)" by (simp add: assms(2))
  then have "r = Done \<lparr>m_val = line, m_received = True\<rparr>" "consumed (length line + 2) s s'"
    using read_http_line_read [OF assms(1)] rs cr by (simp_all add: line_read_def fl)
  moreover from this(2) have "incoming s' = rest" by (simp add: consumed_def assms(2))
  ultimately show thesis using that rs by simp
qed

section \<open>Properties\<close>

text \<open>
  C32: reading a line returns the bytes of the stream up to the first newline, without the line end,
  and takes exactly these off the stream, wherever the kernel has cut it; if the stream ends first
  the line is marked as not received, and errors of the kernel are thrown.
\<close>

theorem read_http_line_spec: "sock_wf s \<Longrightarrow> line_read s (read_http_line s)"
  by (rule read_http_line_read)

theorem read_http_line_spec_witness:
  "fst (read_http_line (new_socket [Rx_data (bytes ''GET'')] [])) = Suspended"
  using read_http_line_spec [of "new_socket [Rx_data (bytes ''GET'')] []"]
  by (simp add: line_read_def rx_stop_def bytes_def byte_of_char_def newline_def)

end
