(* ===== verification/Http_Body.thy ===== *)
theory Http_Body
  imports Http_Line Charconv
begin

text \<open>
  \<open>cppevent_http/http_body\<close>: the content of a request, of a known length or in chunks. The state is
  the body together with the socket it reads from. The reading loops are proved to deliver the payload that
  the stream frames, whatever the chunks and the segmentation of the kernel.
\<close>

section \<open>Operations\<close>

record http_body =
  m_incoming :: int
  m_ended :: bool

definition new_http_body :: "int \<Rightarrow> bool \<Rightarrow> http_body" where
  "new_http_body n ended = \<lparr>m_incoming = n, m_ended = ended\<rparr>"

definition HEX_BASE :: nat where
  "HEX_BASE = 16"

definition set_incoming :: "int \<Rightarrow> (http_body, unit) comp" where
  "set_incoming n b = (Done (), b\<lparr>m_incoming := n\<rparr>)"

definition set_ended :: "(http_body, unit) comp" where
  "set_ended b = (Done (), b\<lparr>m_ended := True\<rparr>)"

definition read_chunk_size :: "string \<Rightarrow> int outcome" where
  "read_chunk_size sv =
     (case from_chars_long HEX_BASE sv of
        Parsed chunk_len _ \<Rightarrow>
          if chunk_len < 0 then Threw (Runtime_error ''http_body has_incoming: invalid chunk size'')
          else Done chunk_len
      | _ \<Rightarrow> Threw (Runtime_error ''http_body has_incoming: invalid chunk size''))"

text \<open>From the line that should hold the size of the next chunk on.\<close>

definition start_chunk :: "http_line \<Rightarrow> (http_body \<times> socket, bool) comp" where
  "start_chunk line =
     (if \<not> has_value line then throw (Runtime_error ''http_body has_incoming: no chunk'')
      else and_then (Pair (read_chunk_size (m_val line))) (\<lambda>chunk_len.
           and_then (on_fst (set_incoming chunk_len)) (\<lambda>_.
           if chunk_len = 0
           then and_then (on_fst set_ended) (\<lambda>_. and_then (on_snd read_http_line) (\<lambda>_. return False))
           else return True)))"

definition has_incoming :: "(http_body \<times> socket, bool) comp" where
  "has_incoming p =
     (if m_incoming (fst p) > 0 \<or> m_ended (fst p) then return (m_incoming (fst p) > 0) p
      else and_then (on_snd read_http_line) (\<lambda>line.
           and_then (if is_last_line line then on_snd read_http_line else return line) start_chunk) p)"

lemma has_incoming_True: "has_incoming p = (Done True, p') \<Longrightarrow> 0 < m_incoming (fst p')"
  by (auto simp: has_incoming_def start_chunk_def return_def throw_def on_fst_def set_incoming_def read_chunk_size_def
      elim!: and_then_DoneE split: if_splits prod.splits from_chars_result.splits)

text \<open>
  The loop of \<open>read\<close> and \<open>skip\<close>; \<open>rd n d\<close> takes \<open>n\<close> bytes off the socket.
\<close>

function body_loop :: "(int \<Rightarrow> 'd \<Rightarrow> (socket, 'd) comp) \<Rightarrow> int \<Rightarrow> 'd \<Rightarrow> int
    \<Rightarrow> (http_body \<times> socket, 'd \<times> int) comp" where
  "body_loop rd sz d got p =
     (if got < sz
      then (case has_incoming p of
              (Done later, p1) \<Rightarrow>
                if \<not> later then (Done (d, got), p1)
                else (let n = min (sz - got) (m_incoming (fst p1)) in
                  case on_snd (rd n d) p1 of
                    (Done d', (b, s)) \<Rightarrow> body_loop rd sz d' (got + n) (b\<lparr>m_incoming := m_incoming b - n\<rparr>, s)
                  | (Threw e, p2) \<Rightarrow> (Threw e, p2)
                  | (Suspended, p2) \<Rightarrow> (Suspended, p2)
                  | (Undefined, p2) \<Rightarrow> (Undefined, p2))
            | (Threw e, p1) \<Rightarrow> (Threw e, p1)
            | (Suspended, p1) \<Rightarrow> (Suspended, p1)
            | (Undefined, p1) \<Rightarrow> (Undefined, p1))
      else (Done (d, got), p))"
  by pat_completeness auto
termination
proof (relation "measure (\<lambda>(_, sz, _, got, _). nat (sz - got))", goal_cases)
  case 1
  show ?case by simp
next
  case (2 rd sz d got p r p1 later n)
  then show ?case using has_incoming_True [of p p1] by auto
qed

declare body_loop.simps [simp del]

text \<open>Every turn passes the same destination: it is not advanced past the bytes already stored.\<close>

definition body_read_mem :: "byte list \<Rightarrow> nat \<Rightarrow> int \<Rightarrow> (http_body \<times> socket, byte list \<times> int) comp" where
  "body_read_mem dest off sz =
     body_loop (\<lambda>n d. and_then (read_mem d off n True) (\<lambda>(d', _). return d')) sz dest 0"

definition body_read_str :: "string \<Rightarrow> int \<Rightarrow> (http_body \<times> socket, string \<times> int) comp" where
  "body_read_str dest sz =
     body_loop (\<lambda>n d. and_then (read_str d n True) (\<lambda>(d', _). return d')) sz dest 0"

definition body_skip :: "int \<Rightarrow> (http_body \<times> socket, int) comp" where
  "body_skip sz =
     and_then (body_loop (\<lambda>n d. and_then (skip n True) (\<lambda>_. return d)) sz () 0) (\<lambda>(_, n). return n)"

section \<open>Framing\<close>

definition crlf :: "byte list" where
  "crlf = [13, newline]"

definition chunk :: "byte list \<Rightarrow> byte list" where
  "chunk p = bytes (to_chars HEX_BASE (int (length p))) @ crlf @ p @ crlf"

definition last_chunk :: "byte list" where
  "last_chunk = bytes (to_chars HEX_BASE 0) @ crlf @ crlf"

definition chunks :: "byte list list \<Rightarrow> byte list" where
  "chunks ps = concat (map chunk ps) @ last_chunk"

definition chunk_ok :: "byte list \<Rightarrow> bool" where
  "chunk_ok p \<longleftrightarrow> p \<noteq> [] \<and> int (length p) \<le> LONG_MAX"

text \<open>
  A body whose content the stream holds: the pieces still to come, and what follows the body.
\<close>

definition body_holds :: "http_body \<Rightarrow> byte list \<Rightarrow> byte list list \<Rightarrow> byte list \<Rightarrow> bool" where
  "body_holds b stream ps rest \<longleftrightarrow> list_all chunk_ok ps \<and>
     (if m_ended b
      then m_incoming b = int (length (concat ps)) \<and> length ps \<le> 1 \<and> stream = concat ps @ rest
      else m_incoming b = 0 \<and> (stream = chunks ps @ rest \<or> stream = crlf @ chunks ps @ rest)
           \<or> (\<exists>p ps'. ps = p # ps' \<and> m_incoming b = int (length p) \<and> stream = p @ crlf @ chunks ps' @ rest))"

text \<open>What a reader of \<open>n\<close> bytes gets, piece by piece, and what it leaves.\<close>

fun take_pieces :: "nat \<Rightarrow> byte list list \<Rightarrow> byte list list" where
  "take_pieces n [] = []"
| "take_pieces n (p # ps) = (if n = 0 then [] else take n p # take_pieces (n - length p) ps)"

fun drop_pieces :: "nat \<Rightarrow> byte list list \<Rightarrow> byte list list" where
  "drop_pieces n [] = []"
| "drop_pieces n (p # ps) = (if n < length p then drop n p # ps else drop_pieces (n - length p) ps)"

lemma concat_take_pieces: "concat (take_pieces n ps) = take n (concat ps)"
  by (induction n ps rule: take_pieces.induct) auto

lemma concat_drop_pieces: "concat (drop_pieces n ps) = drop n (concat ps)"
  by (induction n ps rule: drop_pieces.induct) auto

lemma drop_pieces_0: "list_all chunk_ok ps \<Longrightarrow> drop_pieces 0 ps = ps"
  by (cases ps) (auto simp: chunk_ok_def)

lemma take_pieces_0 [simp]: "take_pieces 0 ps = []"
  by (cases ps) auto

lemma to_chars_no_newline: "0 \<le> v \<Longrightarrow> CHR 0x0A \<notin> set (to_chars HEX_BASE v)"
proof
  assume "0 \<le> v" "CHR 0x0A \<in> set (to_chars HEX_BASE v)"
  then have "is_digit 16 (CHR 0x0A)"
    using nat_digits_all [of 16 "nat v"] by (auto simp: to_chars_def HEX_BASE_def list_all_iff)
  moreover have "\<not> is_digit 16 (CHR 0x0A)" by code_simp
  ultimately show False by blast
qed

lemma read_chunk_size_to_chars:
  assumes "0 \<le> v" "v \<le> LONG_MAX"
  shows "read_chunk_size (to_chars HEX_BASE v) = Done v"
proof -
  have "is_long v" using assms by (simp add: is_long_def LONG_MIN_def LONG_MAX_def)
  then show ?thesis
    using from_chars_long_to_chars [of 16 v "[]"] assms(1) by (simp add: read_chunk_size_def HEX_BASE_def)
qed

lemma to_chars_ne [simp]: "to_chars base v \<noteq> []"
  by (simp add: to_chars_def)

text \<open>Reading the head of a chunk.\<close>

lemma read_size_line:
  assumes "sock_wf s" "incoming s = bytes (to_chars HEX_BASE v) @ crlf @ rest" "0 \<le> v"
  obtains s' where "read_http_line s = (Done \<lparr>m_val = to_chars HEX_BASE v, m_received = True\<rparr>, s')"
    "sock_wf s'" "same_out s s'" "incoming s' = rest"
proof -
  have "incoming s = bytes (to_chars HEX_BASE v) @ [13, newline] @ rest"
    using assms(2) by (simp add: crlf_def)
  then obtain s' where "read_http_line s = (Done \<lparr>m_val = to_chars HEX_BASE v, m_received = True\<rparr>, s')"
    "consumed (length (to_chars HEX_BASE v) + 2) s s'" "incoming s' = rest"
    by (rule read_http_line_crlf [OF assms(1) _ to_chars_no_newline [OF assms(3)]])
  then show thesis using that [of s'] by (simp add: consumed_def)
qed

lemma read_empty_line:
  assumes "sock_wf s" "incoming s = crlf @ rest"
  obtains s' where "read_http_line s = (Done \<lparr>m_val = [], m_received = True\<rparr>, s')"
    "sock_wf s'" "same_out s s'" "incoming s' = rest"
  using read_http_line_crlf [OF assms(1), of "[]" rest] assms(2) that by (auto simp: crlf_def consumed_def)

text \<open>The line with the size of the next chunk, after the empty line that ends the chunk before.\<close>

lemma read_head:
  assumes "sock_wf s" "0 \<le> v"
    "incoming s = bytes (to_chars HEX_BASE v) @ crlf @ rest
     \<or> incoming s = crlf @ bytes (to_chars HEX_BASE v) @ crlf @ rest"
  obtains s' where "and_then (on_snd read_http_line) (\<lambda>line.
      and_then (if is_last_line line then on_snd read_http_line else return line) f) (b, s)
      = f \<lparr>m_val = to_chars HEX_BASE v, m_received = True\<rparr> (b, s')"
    "sock_wf s'" "same_out s s'" "incoming s' = rest"
proof (cases "incoming s = bytes (to_chars HEX_BASE v) @ crlf @ rest")
  case True
  then obtain s' where l: "read_http_line s = (Done \<lparr>m_val = to_chars HEX_BASE v, m_received = True\<rparr>, s')"
    "sock_wf s'" "same_out s s'" "incoming s' = rest"
    using read_size_line [OF assms(1) _ assms(2)] by metis
  then show thesis
    using that by (simp add: and_then_def on_snd_def return_def is_last_line_def)
next
  case False
  then have *: "incoming s = crlf @ bytes (to_chars HEX_BASE v) @ crlf @ rest" using assms(3) by simp
  obtain s1 where e: "read_http_line s = (Done \<lparr>m_val = [], m_received = True\<rparr>, s1)"
    "sock_wf s1" "same_out s s1" "incoming s1 = bytes (to_chars HEX_BASE v) @ crlf @ rest"
    by (rule read_empty_line [OF assms(1) *])
  obtain s' where l: "read_http_line s1 = (Done \<lparr>m_val = to_chars HEX_BASE v, m_received = True\<rparr>, s')"
    "sock_wf s'" "same_out s1 s'" "incoming s' = rest"
    by (rule read_size_line [OF e(2,4) assms(2)])
  show thesis
    using that [OF _ l(2) same_out_trans [OF e(3) l(3)] l(4)] e(1) l(1)
    by (simp add: and_then_def on_snd_def is_last_line_def)
qed

lemma has_incoming_holds:
  assumes "sock_wf s" "body_holds b (incoming s) ps rest"
  obtains b' s' where "has_incoming (b, s) = (Done (ps \<noteq> []), (b', s'))" "sock_wf s'" "same_out s s'"
    "body_holds b' (incoming s') ps rest"
    "if ps = [] then m_ended b' \<and> incoming s' = rest else m_incoming b' = int (length (hd ps))"
proof (cases "m_incoming b > 0 \<or> m_ended b")
  case True
  have "(0 < m_incoming b \<longleftrightarrow> ps \<noteq> []) \<and> (ps \<noteq> [] \<longrightarrow> m_incoming b = int (length (hd ps)))
      \<and> (ps = [] \<longrightarrow> m_ended b \<and> incoming s = rest)"
  proof (cases "m_ended b")
    case True
    then show ?thesis using assms(2) by (cases ps) (auto simp: body_holds_def chunk_ok_def)
  next
    case False
    with True assms(2) show ?thesis by (auto simp: body_holds_def chunk_ok_def)
  qed
  then show thesis
    using that [of b s] assms True by (simp add: has_incoming_def return_def)
next
  case False
  then have ok: "list_all chunk_ok ps" and nb: "\<not> m_ended b"
    and inc: "incoming s = chunks ps @ rest \<or> incoming s = crlf @ chunks ps @ rest"
    using assms(2) by (auto simp: body_holds_def chunk_ok_def)
  define v where "v = (if ps = [] then 0 else int (length (hd ps)))"
  define rest' where "rest' = (if ps = [] then crlf @ rest else hd ps @ crlf @ chunks (tl ps) @ rest)"
  have v: "0 \<le> v" "v \<le> LONG_MAX" "v = 0 \<longleftrightarrow> ps = []"
    using ok by (cases ps; simp add: v_def chunk_ok_def LONG_MAX_def)+
  have "chunks ps @ rest = bytes (to_chars HEX_BASE v) @ crlf @ rest'"
    by (cases ps) (simp_all add: chunks_def last_chunk_def v_def rest'_def chunk_def)
  with inc have inc': "incoming s = bytes (to_chars HEX_BASE v) @ crlf @ rest'
     \<or> incoming s = crlf @ bytes (to_chars HEX_BASE v) @ crlf @ rest'" by simp
  let ?b = "b\<lparr>m_incoming := v\<rparr>"
  let ?tail = "\<lambda>s'. if v = 0
      then and_then (on_fst set_ended) (\<lambda>_. and_then (on_snd read_http_line) (\<lambda>_. return False)) (?b, s')
      else return True (?b, s')"
  have tail: "start_chunk \<lparr>m_val = to_chars HEX_BASE v, m_received = True\<rparr> (b, s') = ?tail s'" for s'
    by (simp add: start_chunk_def has_value_def read_chunk_size_to_chars [OF v(1,2)] and_then_def
        on_fst_def set_incoming_def)
  obtain s' where h: "has_incoming (b, s) = ?tail s'" "sock_wf s'" "same_out s s'" "incoming s' = rest'"
    using read_head [OF assms(1) v(1) inc', where b = b and f = start_chunk] False
    unfolding has_incoming_def tail by auto
  show thesis
  proof (cases "ps = []")
    case True
    then have "incoming s' = crlf @ rest" using h(4) by (simp add: rest'_def)
    then obtain s2 where e: "read_http_line s' = (Done \<lparr>m_val = [], m_received = True\<rparr>, s2)"
      "sock_wf s2" "same_out s' s2" "incoming s2 = rest"
      by (rule read_empty_line [OF h(2)])
    show thesis
      using True v(3) h(1) e(1)
      by (intro that [of "?b\<lparr>m_ended := True\<rparr>" s2] same_out_trans [OF h(3) e(3)] e(2))
        (simp_all add: and_then_def on_fst_def on_snd_def set_ended_def return_def body_holds_def e(4))
  next
    case ne: False
    then obtain p ps' where "ps = p # ps'" by (cases ps) auto
    then show thesis
      using v(3) h ok nb
      by (intro that [of ?b s']) (simp_all add: return_def body_holds_def v_def rest'_def)
  qed
qed

section \<open>The reading loop\<close>

text \<open>
  A way to take bytes off the socket: \<open>absorb d bs\<close> is the destination after \<open>bs\<close>. A sink also
  stores what comes in pieces as if it had come at once.
\<close>

locale body_source =
  fixes rd :: "int \<Rightarrow> 'd \<Rightarrow> (socket, 'd) comp" and absorb :: "'d \<Rightarrow> byte list \<Rightarrow> 'd"
    and fits :: "'d \<Rightarrow> nat \<Rightarrow> bool"
  assumes rd_law: "sock_wf s \<Longrightarrow> fits d n \<Longrightarrow> n \<le> length (incoming s) \<Longrightarrow>
      \<exists>s'. rd (int n) d s = (Done (absorb d (take n (incoming s))), s') \<and> consumed n s s'"
    and fits_absorb: "fits d n \<Longrightarrow> length bs \<le> n \<Longrightarrow> fits (absorb d bs) n"
    and fits_mono: "fits d n \<Longrightarrow> m \<le> n \<Longrightarrow> fits d m"
begin

lemma body_loop_turn:
  assumes "sock_wf s" "body_holds b (incoming s) (p # ps) rest" "fits d n" "0 < n"
  obtains b2 s2 where "p \<noteq> []" "sock_wf s2" "same_out s s2"
    "body_holds b2 (incoming s2) (if min n (length p) = length p then ps else drop (min n (length p)) p # ps) rest"
    "body_loop rd (int (t + n)) d (int t) (b, s)
      = body_loop rd (int (t + n)) (absorb d (take (min n (length p)) p)) (int t + int (min n (length p))) (b2, s2)"
proof -
  obtain b1 s1 where h: "has_incoming (b, s) = (Done (p # ps \<noteq> []), (b1, s1))" "sock_wf s1" "same_out s s1"
    "body_holds b1 (incoming s1) (p # ps) rest"
    "if p # ps = [] then m_ended b1 \<and> incoming s1 = rest else m_incoming b1 = int (length (hd (p # ps)))"
    by (rule has_incoming_holds [OF assms(1,2)])
  define k where "k = min n (length p)"
  have p: "p \<noteq> []" "m_incoming b1 = int (length p)" using h(4,5) by (auto simp: body_holds_def chunk_ok_def)
  then have k: "0 < k" "k \<le> n" "k \<le> length p" using assms(4) by (auto simp: k_def)
  have n: "min (int (t + n) - int t) (m_incoming b1) = int k" using p(2) by (simp add: k_def)
  obtain later where inc1: "incoming s1 = p @ later"
    using h(4) p by (cases "m_ended b1") (auto simp: body_holds_def)
  have f: "fits d k" using assms(3) k(2) by (rule fits_mono)
  obtain s2 where r: "rd (int k) d s1 = (Done (absorb d (take k p)), s2)" "consumed k s1 s2"
    using rd_law [OF h(2) f, of] inc1 k(3) by auto
  have inc2: "incoming s2 = drop k p @ later" using r(2) k(3) by (simp add: consumed_def inc1)
  let ?b = "b1\<lparr>m_incoming := m_incoming b1 - int k\<rparr>"
  have "body_holds ?b (incoming s2) (if k = length p then ps else drop k p # ps) rest"
    using h(4) p(2) k inc2 inc1 by (auto simp: body_holds_def chunk_ok_def)
  moreover have "body_loop rd (int (t + n)) d (int t) (b, s)
      = body_loop rd (int (t + n)) (absorb d (take k p)) (int t + int k) (?b, s2)"
    using assms(4) h(1) r(1) n by (subst body_loop.simps) (simp add: Let_def on_snd_def)
  moreover have "same_out s s2" using h(3) r(2) by (auto simp: consumed_def intro: same_out_trans)
  ultimately show thesis using that p(1) consumed_wf [OF r(2)] unfolding k_def by blast
qed

lemma body_loop_holds:
  assumes "sock_wf s" "body_holds b (incoming s) ps rest" "fits d n"
  shows "\<exists>b' s'. body_loop rd (int (t + n)) d (int t) (b, s)
      = (Done (foldl absorb d (take_pieces n ps), int (t + min n (length (concat ps)))), (b', s'))
    \<and> sock_wf s' \<and> same_out s s' \<and> body_holds b' (incoming s') (drop_pieces n ps) rest"
  using assms
proof (induction n arbitrary: t s b ps d rule: less_induct)
  case (less n)
  show ?case
  proof (cases "n = 0")
    case True
    then show ?thesis
      using less.prems(1,2) by (subst body_loop.simps) (auto simp: drop_pieces_0 body_holds_def)
  next
    case False
    show ?thesis
    proof (cases ps)
      case Nil
      obtain b1 s1 where h: "has_incoming (b, s) = (Done (ps \<noteq> []), (b1, s1))" "sock_wf s1" "same_out s s1"
        "body_holds b1 (incoming s1) ps rest"
        "if ps = [] then m_ended b1 \<and> incoming s1 = rest else m_incoming b1 = int (length (hd ps))"
        by (rule has_incoming_holds [OF less.prems(1,2)])
      then show ?thesis using Nil False by (subst body_loop.simps) auto
    next
      case (Cons p ps')
      define k where "k = min n (length p)"
      let ?ps = "if k = length p then ps' else drop k p # ps'"
      have pos: "0 < n" using False by simp
      obtain b2 s2 where turn: "p \<noteq> []" "sock_wf s2" "same_out s s2" "body_holds b2 (incoming s2) ?ps rest"
        "body_loop rd (int (t + n)) d (int t) (b, s)
          = body_loop rd (int (t + n)) (absorb d (take k p)) (int t + int k) (b2, s2)"
        using body_loop_turn [OF less.prems(1) less.prems(2) [unfolded Cons] less.prems(3) pos, of t] unfolding k_def by metis
      have k: "0 < k" "k \<le> n" "k \<le> length p" using False turn(1) by (auto simp: k_def)
      have fits2: "fits (absorb d (take k p)) (n - k)"
        using fits_mono [OF fits_absorb [OF less.prems(3)], of "take k p" "n - k"] k by simp
      have "n - k < n" using k by simp
      from less.IH [OF this turn(2,4) fits2, of "t + k"]
      obtain b' s' where l: "body_loop rd (int (t + n)) (absorb d (take k p)) (int t + int k) (b2, s2)
          = (Done (foldl absorb (absorb d (take k p)) (take_pieces (n - k) ?ps),
               int (t + k + min (n - k) (length (concat ?ps)))), (b', s'))"
        "sock_wf s'" "same_out s2 s'" "body_holds b' (incoming s') (drop_pieces (n - k) ?ps) rest"
        using k(2) by auto
      have pieces: "take_pieces n ps = take k p # take_pieces (n - k) ?ps"
        "drop_pieces (n - k) ?ps = drop_pieces n ps"
        "t + k + min (n - k) (length (concat ?ps)) = t + min n (length (concat ps))"
        using Cons False k by (auto simp: k_def min_def)
      have "same_out s s'" by (rule same_out_trans [OF turn(3) l(3)])
      then show ?thesis
        using l(1,2,4) unfolding turn(5) pieces by (auto simp: pieces)
    qed
  qed
qed

end

locale body_sink = body_source +
  assumes absorb_append: "absorb (absorb d xs) ys = absorb d (xs @ ys)"
    and absorb_Nil: "absorb d [] = d"
begin

lemma foldl_absorb: "foldl absorb d ps = absorb d (concat ps)"
  by (induction ps arbitrary: d) (simp_all add: absorb_Nil absorb_append)

lemma body_loop_delivers:
  assumes "sock_wf s" "body_holds b (incoming s) ps rest" "fits d n"
  shows "\<exists>b' s'. body_loop rd (int n) d 0 (b, s)
      = (Done (absorb d (take n (concat ps)), int (min n (length (concat ps)))), (b', s'))
    \<and> sock_wf s' \<and> same_out s s' \<and> body_holds b' (incoming s') (drop_pieces n ps) rest"
  using body_loop_holds [OF assms, of 0] by (simp add: foldl_absorb concat_take_pieces)

end

interpretation bstr: body_sink "\<lambda>n d. and_then (read_str d n True) (\<lambda>(d', _). return d')"
  "\<lambda>d bs. d @ chars bs" "\<lambda>_ _. True"
proof
  fix s :: socket and d :: string and n
  assume "sock_wf s" "n \<le> length (incoming s)"
  then show "\<exists>s'. and_then (read_str d (int n) True) (\<lambda>(d', _). return d') s
      = (Done (d @ chars (take n (incoming s))), s') \<and> consumed n s s'"
    using str.fill_filled [of s, where d = d and n = n and what = "''socket read''" and fully = True]
    by (cases "read_str d (int n) True s") (simp add: filled_def read_str_def and_then_def return_def)
qed simp_all

interpretation bskip: body_sink "\<lambda>n d. and_then (skip n True) (\<lambda>_. return d)" "\<lambda>d bs. d" "\<lambda>_ _. True"
proof
  fix s :: socket and d :: 'a and n
  assume "sock_wf s" "n \<le> length (incoming s)"
  then show "\<exists>s'. and_then (skip (int n) True) (\<lambda>_. return d) s = (Done d, s') \<and> consumed n s s'"
    using skp.fill_filled [of s, where d = "()" and n = n and what = "''socket skip''" and fully = True]
    by (cases "fill ''socket skip'' drain_skip (int n) True () s")
      (auto simp: filled_def skip_def and_then_def return_def)
qed simp_all

text \<open>Storing at a fixed place: a source, but not a sink.\<close>

definition overwrite :: "nat \<Rightarrow> byte list \<Rightarrow> byte list \<Rightarrow> byte list" where
  "overwrite off d bs = take off d @ bs @ drop (off + length bs) d"

interpretation bmem: body_source "\<lambda>n d. and_then (read_mem d off n True) (\<lambda>(d', _). return d')"
  "overwrite off" "\<lambda>d n. off + n \<le> length d" for off
proof
  fix s :: socket and d :: "byte list" and n
  assume "sock_wf s" "off + n \<le> length d" "n \<le> length (incoming s)"
  then show "\<exists>s'. and_then (read_mem d off (int n) True) (\<lambda>(d', _). return d') s
      = (Done (overwrite off d (take n (incoming s))), s') \<and> consumed n s s'"
    using mem.fill_filled [of s, where off = off and d = d and n = n and what = "''socket read''" and fully = True]
    by (cases "read_mem d off (int n) True s")
      (simp add: filled_def read_mem_def and_then_def return_def overwrite_def)
qed (auto simp: overwrite_def)

section \<open>Properties\<close>

text \<open>
  C8: reading into a string and skipping deliver the payload of the body in order, for a body of known
  length and for a chunked one: the next bytes, as many as asked for or as are left, and the body then holds
  exactly the rest. Chunk boundaries and the segmentation of the kernel do not show.
\<close>

theorem http_body_delivers_payload:
  assumes "sock_wf s" "body_holds b (incoming s) ps rest"
  shows "(\<exists>b' s'. body_read_str dest (int n) (b, s)
        = (Done (dest @ chars (take n (concat ps)), int (min n (length (concat ps)))), (b', s'))
      \<and> sock_wf s' \<and> body_holds b' (incoming s') (drop_pieces n ps) rest)
    \<and> (\<exists>b' s'. body_skip (int n) (b, s) = (Done (int (min n (length (concat ps)))), (b', s'))
      \<and> sock_wf s' \<and> body_holds b' (incoming s') (drop_pieces n ps) rest)"
proof
  show "\<exists>b' s'. body_read_str dest (int n) (b, s)
        = (Done (dest @ chars (take n (concat ps)), int (min n (length (concat ps)))), (b', s'))
      \<and> sock_wf s' \<and> body_holds b' (incoming s') (drop_pieces n ps) rest"
    using bstr.body_loop_delivers [OF assms, where d = dest and n = n] by (auto simp: body_read_str_def)
  show "\<exists>b' s'. body_skip (int n) (b, s) = (Done (int (min n (length (concat ps)))), (b', s'))
      \<and> sock_wf s' \<and> body_holds b' (incoming s') (drop_pieces n ps) rest"
    using bskip.body_loop_delivers [OF assms, where d = "()" and n = n]
    by (auto simp: body_skip_def and_then_def return_def)
qed

theorem http_body_delivers_payload_witness:
  "fst (body_read_str [] 3 (new_http_body 0 False, new_socket [Rx_data (chunks [bytes ''ab'', bytes ''cd''])] []))
   = Done (''abc'', 3)"
proof -
  let ?s = "new_socket [Rx_data (chunks [bytes ''ab'', bytes ''cd''])] []"
  have "incoming ?s = chunks [bytes ''ab'', bytes ''cd'']"
    by (simp add: chunks_def chunk_def crlf_def)
  then have "body_holds (new_http_body 0 False) (incoming ?s) [bytes ''ab'', bytes ''cd''] []"
    by (simp add: body_holds_def new_http_body_def chunk_ok_def LONG_MAX_def)
  moreover have "chars (take 3 (bytes ''ab'' @ bytes ''cd'')) = ''abc''"
    by (simp flip: bytes_append) (simp add: bytes_def chars_def)
  ultimately show ?thesis
    using http_body_delivers_payload [OF sock_wf_new, of "new_http_body 0 False" _ _
        "[bytes ''ab'', bytes ''cd'']" "[]" "[]" 3]
    by fastforce
qed

text \<open>
  \<open>has_incoming\<close> tells whether payload is left, also across the line ends and size lines of
  chunks, and when none is left the stream stands right behind the body, where the next
  request of the connection starts.
\<close>

theorem http_body_has_incoming:
  assumes "sock_wf s" "body_holds b (incoming s) ps rest"
  shows "\<exists>b' s'. has_incoming (b, s) = (Done (concat ps \<noteq> []), (b', s')) \<and> sock_wf s' \<and> same_out s s'
    \<and> body_holds b' (incoming s') ps rest \<and> (ps = [] \<longrightarrow> incoming s' = rest)"
proof -
  have e: "concat ps \<noteq> [] \<longleftrightarrow> ps \<noteq> []"
    using assms(2) by (cases ps) (auto simp: body_holds_def chunk_ok_def)
  obtain b' s' where "has_incoming (b, s) = (Done (ps \<noteq> []), (b', s'))" "sock_wf s'" "same_out s s'"
    "body_holds b' (incoming s') ps rest"
    "if ps = [] then m_ended b' \<and> incoming s' = rest else m_incoming b' = int (length (hd ps))"
    by (rule has_incoming_holds [OF assms])
  then show ?thesis unfolding e by (intro exI [of _ b'] exI [of _ s']) (cases "ps = []", simp_all)
qed

theorem http_body_has_incoming_witness:
  "fst (has_incoming (new_http_body 0 False, new_socket [Rx_data (chunks [])] [])) = Done False"
proof -
  let ?s = "new_socket [Rx_data (chunks [])] []"
  have "incoming ?s = chunks []" by (simp add: chunks_def last_chunk_def crlf_def)
  then have "body_holds (new_http_body 0 False) (incoming ?s) [] []"
    by (simp add: body_holds_def new_http_body_def)
  then show ?thesis
    using http_body_has_incoming [OF sock_wf_new, of "new_http_body 0 False" _ _ "[]" "[]"] by fastforce
qed

text \<open>
  reading into memory stores every piece at the start of the destination, since the pointer is not
  advanced. The payload arrives intact when it comes in one piece, as it does for a body of known length;
  of two chunks of the same size only the second one is left.
\<close>

theorem http_body_read_mem_pieces:
  assumes "sock_wf s" "body_holds b (incoming s) ps rest" "off + n \<le> length dest"
  shows "\<exists>b' s'. body_read_mem dest off (int n) (b, s)
      = (Done (foldl (overwrite off) dest (take_pieces n ps), int (min n (length (concat ps)))), (b', s'))
    \<and> sock_wf s' \<and> body_holds b' (incoming s') (drop_pieces n ps) rest
    \<and> (m_ended b \<longrightarrow> foldl (overwrite off) dest (take_pieces n ps) = overwrite off dest (take n (concat ps)))
    \<and> (\<forall>xs ys. ps = [xs, ys] \<and> length xs = length ys \<and> n = 2 * length xs
         \<longrightarrow> foldl (overwrite off) dest (take_pieces n ps) = overwrite off dest ys)"
proof -
  have "m_ended b \<Longrightarrow> foldl (overwrite off) dest (take_pieces n ps) = overwrite off dest (take n (concat ps))"
  proof -
    assume "m_ended b"
    then have "ps = [] \<or> (\<exists>p. ps = [p])" using assms(2) by (cases ps) (auto simp: body_holds_def)
    then show ?thesis by (auto simp: overwrite_def)
  qed
  moreover have "\<forall>xs ys. ps = [xs, ys] \<and> length xs = length ys \<and> n = 2 * length xs
         \<longrightarrow> foldl (overwrite off) dest (take_pieces n ps) = overwrite off dest ys"
    using assms(3) by (auto simp: overwrite_def)
  ultimately show ?thesis
    using bmem.body_loop_holds [OF assms(1,2), where off = off and d = dest and n = n and t = 0] assms(3)
    by (simp add: body_read_mem_def) blast
qed

theorem http_body_read_mem_pieces_witness:
  "fst (body_read_mem [0, 0, 0, 0] 0 4 (new_http_body 0 False, new_socket [Rx_data (chunks [[1, 2], [3, 4]])] []))
   = Done ([3, 4, 0, 0], 4)"
proof -
  let ?s = "new_socket [Rx_data (chunks [[1, 2], [3, 4]])] []"
  have "incoming ?s = chunks [[1, 2], [3, 4]]" by (simp add: chunks_def chunk_def crlf_def)
  then have "body_holds (new_http_body 0 False) (incoming ?s) [[1, 2], [3, 4]] []"
    by (simp add: body_holds_def new_http_body_def chunk_ok_def LONG_MAX_def)
  from http_body_read_mem_pieces [OF sock_wf_new this, of 0 4 "[0, 0, 0, 0]"]
  show ?thesis by (auto simp: overwrite_def)
qed

end
