(* ===== verification/Http_Output.thy ===== *)
theory Http_Output
  imports Http_Types Http_Body
begin

text \<open>
  \<open>cppevent_http/http_output\<close>: the response of a server. The state is the response together with the
  socket it is written to. The order in which an unordered map is walked over is not specified, so it is
  an argument, \<open>order\<close>, of the operations that write the headers.
\<close>

section \<open>Operations\<close>

record http_output =
  m_status :: http_status
  m_headers :: header_map
  m_headers_written :: bool
  m_chunked_encoding :: bool

definition new_http_output :: http_output where
  "new_http_output = \<lparr>m_status = OK, m_headers = [], m_headers_written = False, m_chunked_encoding = False\<rparr>"

definition set_status :: "http_status \<Rightarrow> http_output \<Rightarrow> http_output" where
  "set_status st res = res\<lparr>m_status := st\<rparr>"

definition raw_write :: "byte list \<Rightarrow> int \<Rightarrow> (http_output \<times> socket, unit) comp" where
  "raw_write src sz = on_snd (sock_write src sz)"

definition raw_write_sv :: "string \<Rightarrow> (http_output \<times> socket, unit) comp" where
  "raw_write_sv s = raw_write (bytes s) (int (length s))"

definition set_header :: "string \<Rightarrow> string \<Rightarrow> http_output \<Rightarrow> http_output" where
  "set_header name value res =
     (if name = [] \<or> value = [] then res
      else res\<lparr>m_headers := hm_assign name value (m_headers res)\<rparr>)"

definition SERIALIZE_BUFFER_SIZE :: nat where
  "SERIALIZE_BUFFER_SIZE = 256"

definition set_content_length :: "int \<Rightarrow> (http_output, unit) comp" where
  "set_content_length len res =
     (if len < 0 then (Threw (Runtime_error ''http_output set_content_len: value less than 0''), res)
      else let digits = to_chars 10 len in
           if length digits > SERIALIZE_BUFFER_SIZE
           then (Threw (Runtime_error ''http_output set_content_len: value too large''), res)
           else (Done (), set_header ''content-length'' digits res))"

definition HTTP_1_1_STR :: string where "HTTP_1_1_STR = ''HTTP/1.1 ''"

definition COLON_SEPARATOR :: string where "COLON_SEPARATOR = '': ''"

definition CRLF_SEPARATOR :: string where "CRLF_SEPARATOR = [CHR 0x0D, CHR 0x0A]"

definition TRANSFER_ENCODING :: string where "TRANSFER_ENCODING = ''transfer-encoding''"

definition chunked_headers :: "header_map \<Rightarrow> bool" where
  "chunked_headers m =
     (case hm_find m TRANSFER_ENCODING of
        None \<Rightarrow> False
      | Some v \<Rightarrow> find_case_insensitive v ''chunked'' \<noteq> None)"

fun write_header_lines :: "header_map \<Rightarrow> (http_output \<times> socket, unit) comp" where
  "write_header_lines [] = return ()"
| "write_header_lines ((name, value) # hs) =
     and_then (raw_write_sv name) (\<lambda>_.
     and_then (raw_write_sv COLON_SEPARATOR) (\<lambda>_.
     and_then (raw_write_sv value) (\<lambda>_.
     and_then (raw_write_sv CRLF_SEPARATOR) (\<lambda>_.
     write_header_lines hs))))"

definition update :: "('o \<Rightarrow> 'o) \<Rightarrow> ('o \<times> socket, unit) comp" where
  "update f p = (Done (), (f (fst p), snd p))"

definition write_headers :: "(header_map \<Rightarrow> header_map) \<Rightarrow> (http_output \<times> socket, unit) comp" where
  "write_headers order p =
     (if m_headers_written (fst p) then (Done (), p)
      else and_then (update (\<lambda>res. res\<lparr>m_chunked_encoding := chunked_headers (m_headers res)\<rparr>)) (\<lambda>_.
           and_then (raw_write_sv HTTP_1_1_STR) (\<lambda>_.
           and_then (Pair (get_status_reason_phrase (m_status (fst p)))) (\<lambda>phrase.
           and_then (raw_write_sv phrase) (\<lambda>_.
           and_then (raw_write_sv CRLF_SEPARATOR) (\<lambda>_.
           and_then (write_header_lines (order (m_headers (fst p)))) (\<lambda>_.
           and_then (raw_write_sv CRLF_SEPARATOR) (\<lambda>_.
           update (\<lambda>res. res\<lparr>m_headers_written := True\<rparr>)))))))) p)"

definition write_content :: "byte list \<Rightarrow> int \<Rightarrow> (http_output \<times> socket, unit) comp" where
  "write_content src sz p =
     (if m_chunked_encoding (fst p)
      then let digits = to_chars HEX_BASE sz in
           if length digits > SERIALIZE_BUFFER_SIZE
           then (Threw (Runtime_error ''http_output write: size too large''), p)
           else and_then (raw_write (bytes digits) (int (length digits))) (\<lambda>_.
                and_then (raw_write_sv CRLF_SEPARATOR) (\<lambda>_.
                and_then (raw_write src sz) (\<lambda>_.
                raw_write_sv CRLF_SEPARATOR))) p
      else raw_write src sz p)"

definition http_write :: "(header_map \<Rightarrow> header_map) \<Rightarrow> byte list \<Rightarrow> int \<Rightarrow> (http_output \<times> socket, unit) comp" where
  "http_write order src sz =
     (if sz \<le> 0 then throw (Runtime_error ''http_output write: size less than or equal 0'')
      else and_then (write_headers order) (\<lambda>_. write_content src sz))"

definition http_write_sv :: "(header_map \<Rightarrow> header_map) \<Rightarrow> string \<Rightarrow> (http_output \<times> socket, unit) comp" where
  "http_write_sv order sv = http_write order (bytes sv) (int (length sv))"

definition LAST_CHUNK :: string where
  "LAST_CHUNK = ''0'' @ CRLF_SEPARATOR @ CRLF_SEPARATOR"

definition http_end :: "(header_map \<Rightarrow> header_map) \<Rightarrow> (http_output \<times> socket, unit) comp" where
  "http_end order =
     and_then (write_headers order) (\<lambda>_.
     and_then (\<lambda>p. if m_chunked_encoding (fst p) then raw_write_sv LAST_CHUNK p else (Done (), p)) (\<lambda>_.
     on_snd flush))"

section \<open>Writers\<close>

lemma emits_raw_write: "sock_wf (snd p) \<Longrightarrow> n = int (length src) \<Longrightarrow> emits src (fst p) p (raw_write src n p)"
  unfolding raw_write_def by (rule emits_write)

lemma emits_sv: "sock_wf (snd p) \<Longrightarrow> fst p = res \<Longrightarrow> emits (bytes s) res p (raw_write_sv s p)"
  using emits_raw_write [of p _ "bytes s"] by (auto simp: raw_write_sv_def)

lemma emits_sv_then:
  assumes "sock_wf (snd p)" "fst p = res"
    and "\<And>p'. sock_wf (snd p') \<Longrightarrow> fst p' = res \<Longrightarrow> emits ys res' p' (f p')"
  shows "emits (bytes s @ ys) res' p (and_then (raw_write_sv s) (\<lambda>_. f) p)"
  by (rule emits_then, rule emits_sv [OF assms(1,2)], rule assms(3))

lemma emits_update: "sock_wf (snd p) \<Longrightarrow> emits [] (f (fst p)) p (update f p)"
  by (simp add: update_def emits_Done sent_Nil)

definition header_text :: "header_map \<Rightarrow> string" where
  "header_text m = concat (map (\<lambda>(k, v). k @ COLON_SEPARATOR @ v @ CRLF_SEPARATOR) m)"

lemma emits_write_header_lines:
  "sock_wf (snd p) \<Longrightarrow> fst p = res \<Longrightarrow> emits (bytes (header_text hs)) res p (write_header_lines hs p)"
proof (induction hs arbitrary: p)
  case Nil
  then show ?case by (simp add: return_def emits_Done header_text_def sent_Nil)
next
  case prems: (Cons h hs)
  obtain name v where h: "h = (name, v)" by fastforce
  then have eq: "bytes (header_text (h # hs)) = bytes name @ bytes COLON_SEPARATOR @ bytes v
      @ bytes CRLF_SEPARATOR @ bytes (header_text hs)"
    by (simp add: header_text_def)
  show ?case
    unfolding eq unfolding h write_header_lines.simps by (intro emits_sv_then prems(1)) (simp_all add: prems(2,3))
qed

text \<open>The head of a response, and the response after its head has been written.\<close>

definition head_text :: "(header_map \<Rightarrow> header_map) \<Rightarrow> string \<Rightarrow> http_output \<Rightarrow> string" where
  "head_text order phrase res =
     HTTP_1_1_STR @ phrase @ CRLF_SEPARATOR @ header_text (order (m_headers res)) @ CRLF_SEPARATOR"

definition head_left :: "(header_map \<Rightarrow> header_map) \<Rightarrow> string \<Rightarrow> http_output \<Rightarrow> byte list" where
  "head_left order phrase res =
     (if m_headers_written res then [] else bytes (head_text order phrase res))"

definition head_done :: "http_output \<Rightarrow> http_output" where
  "head_done res =
     (if m_headers_written res then res
      else res\<lparr>m_chunked_encoding := chunked_headers (m_headers res), m_headers_written := True\<rparr>)"

lemma write_headers_emits:
  assumes "sock_wf (snd p)" "get_status_reason_phrase (m_status (fst p)) = Done phrase"
  shows "emits (head_left order phrase (fst p)) (head_done (fst p)) p (write_headers order p)"
proof (cases "m_headers_written (fst p)")
  case True
  then show ?thesis
    using assms(1) by (simp add: write_headers_def head_left_def head_done_def emits_Done sent_Nil)
next
  case False
  let ?u = "\<lambda>res. res\<lparr>m_chunked_encoding := chunked_headers (m_headers res)\<rparr> :: http_output"
  let ?w = "\<lambda>res. res\<lparr>m_headers_written := True\<rparr> :: http_output"
  let ?hs = "order (m_headers (fst p))"
  have eq: "head_left order phrase (fst p) = [] @ bytes HTTP_1_1_STR @ bytes phrase
      @ bytes CRLF_SEPARATOR @ bytes (header_text ?hs) @ bytes CRLF_SEPARATOR @ []"
    "head_done (fst p) = ?w (?u (fst p))"
    using False by (simp_all add: head_left_def head_text_def head_done_def)
  have phrase: "and_then (Pair (get_status_reason_phrase (m_status (fst p)))) f = f phrase" for f
    by (rule ext) (simp add: and_then_def assms(2))
  have last: "emits [] (?w (?u (fst p))) q (update ?w q)" if "sock_wf (snd q)" "fst q = ?u (fst p)" for q
    using emits_update [OF that(1), of ?w] that(2) by simp
  have "emits (head_left order phrase (fst p)) (head_done (fst p)) p
     (and_then (update ?u) (\<lambda>_.
      and_then (raw_write_sv HTTP_1_1_STR) (\<lambda>_.
      and_then (raw_write_sv phrase) (\<lambda>_.
      and_then (raw_write_sv CRLF_SEPARATOR) (\<lambda>_.
      and_then (write_header_lines ?hs) (\<lambda>_.
      and_then (raw_write_sv CRLF_SEPARATOR) (\<lambda>_.
      update ?w)))))) p)"
    unfolding eq
    by (rule emits_then, rule emits_update [OF assms(1)], intro emits_sv_then, assumption+,
        rule emits_then, rule emits_write_header_lines, assumption+, intro emits_sv_then last)
  then show ?thesis using False by (simp only: write_headers_def phrase if_False)
qed

text \<open>The content of one write: as it is, or as a chunk.\<close>

definition framed :: "bool \<Rightarrow> byte list \<Rightarrow> byte list" where
  "framed chunked d = (if chunked then chunk d else d)"

lemma bytes_CRLF: "bytes CRLF_SEPARATOR = crlf"
  by (simp add: CRLF_SEPARATOR_def crlf_def bytes_def byte_of_char_def newline_def)

lemma bytes_LAST_CHUNK: "bytes LAST_CHUNK = last_chunk"
proof -
  have "to_chars HEX_BASE 0 = ''0''" by code_simp
  then show ?thesis by (simp only: LAST_CHUNK_def last_chunk_def bytes_CRLF bytes_append append_assoc)
qed

lemma digits_fit: "0 \<le> v \<Longrightarrow> v \<le> LONG_MAX \<Longrightarrow> 2 \<le> base \<Longrightarrow> length (to_chars base v) \<le> SERIALIZE_BUFFER_SIZE"
  using to_chars_length [of base v] by (simp add: SERIALIZE_BUFFER_SIZE_def LONG_MIN_def)

lemma write_content_emits:
  assumes "sock_wf (snd p)" "fst p = res" "int (length d) \<le> LONG_MAX"
  shows "emits (framed (m_chunked_encoding res) d) res p (write_content d (int (length d)) p)"
proof (cases "m_chunked_encoding res")
  case True
  let ?digits = "to_chars HEX_BASE (int (length d))"
  have fit: "\<not> length ?digits > SERIALIZE_BUFFER_SIZE"
    using digits_fit [of "int (length d)" HEX_BASE] assms(3) by (simp add: HEX_BASE_def)
  have eq: "framed (m_chunked_encoding res) d = bytes ?digits @ bytes CRLF_SEPARATOR @ d @ bytes CRLF_SEPARATOR"
    using True by (simp add: framed_def chunk_def bytes_CRLF)
  have w: "emits xs res q (raw_write xs (int (length xs)) q)" if "sock_wf (snd q)" "fst q = res" for xs q
    using emits_raw_write [OF that(1) refl] that(2) by simp
  have "emits (framed (m_chunked_encoding res) d) res p
     (and_then (raw_write (bytes ?digits) (int (length (bytes ?digits)))) (\<lambda>_.
      and_then (raw_write_sv CRLF_SEPARATOR) (\<lambda>_.
      and_then (raw_write d (int (length d))) (\<lambda>_. raw_write_sv CRLF_SEPARATOR))) p)"
    unfolding eq
    by (rule emits_then, rule w [OF assms(1,2)], intro emits_sv_then, assumption+,
        rule emits_then, rule w, assumption+, intro emits_sv)
  then show ?thesis using True fit assms(2) by (simp add: write_content_def Let_def)
next
  case False
  then show ?thesis
    using assms emits_raw_write [OF assms(1) refl, of d] by (simp add: write_content_def framed_def)
qed

lemma head_done_simps [simp]:
  "m_headers_written (head_done res)" "m_status (head_done res) = m_status res"
  "head_done (head_done res) = head_done res" "m_headers (head_done res) = m_headers res"
  "head_left order phrase (head_done res) = []"
  by (simp_all add: head_done_def head_left_def)

lemma http_write_emits:
  assumes "sock_wf (snd p)" "get_status_reason_phrase (m_status (fst p)) = Done phrase" "chunk_ok d"
  shows "emits (head_left order phrase (fst p) @ framed (m_chunked_encoding (head_done (fst p))) d)
    (head_done (fst p)) p (http_write order d (int (length d)) p)"
proof -
  have "emits (head_left order phrase (fst p) @ framed (m_chunked_encoding (head_done (fst p))) d)
    (head_done (fst p)) p (and_then (write_headers order) (\<lambda>_. write_content d (int (length d))) p)"
    using assms(3)
    by (rule_tac emits_then, rule_tac write_headers_emits [OF assms(1,2)], intro write_content_emits)
      (simp_all add: chunk_ok_def)
  then show ?thesis using assms(3) by (simp add: http_write_def chunk_ok_def)
qed

text \<open>A response written in several pieces.\<close>

fun http_writes :: "(header_map \<Rightarrow> header_map) \<Rightarrow> byte list list \<Rightarrow> (http_output \<times> socket, unit) comp" where
  "http_writes order [] = return ()"
| "http_writes order (d # ds) =
     and_then (http_write order d (int (length d))) (\<lambda>_. http_writes order ds)"

lemma http_writes_emits:
  assumes "sock_wf (snd p)" "get_status_reason_phrase (m_status (fst p)) = Done phrase"
    "list_all chunk_ok ds" "fst p = head_done (fst p)"
  shows "emits (concat (map (framed (m_chunked_encoding (fst p))) ds)) (fst p) p (http_writes order ds p)"
  using assms
proof (induction ds arbitrary: p)
  case Nil
  then show ?case by (simp add: return_def emits_Done sent_Nil)
next
  case (Cons d ds)
  have ok: "chunk_ok d" using Cons.prems(3) by simp
  have hl: "head_left order phrase (fst p) = []"
    using Cons.prems(4) head_done_simps(5) [of order phrase "fst p"] by simp
  have w: "emits (framed (m_chunked_encoding (fst p)) d) (fst p) p (http_write order d (int (length d)) p)"
    using http_write_emits [OF Cons.prems(1,2) ok, of order] hl Cons.prems(4) by simp
  have "emits (concat (map (framed (m_chunked_encoding (fst p))) ds)) (fst p) q (http_writes order ds q)"
    if "sock_wf (snd q)" "fst q = fst p" for q
    using Cons.IH [of q] Cons.prems that by simp
  then show ?case
    unfolding http_writes.simps list.map concat.simps by (rule_tac emits_then, rule_tac w)
qed

section \<open>Whole responses\<close>

definition content :: "bool \<Rightarrow> byte list list \<Rightarrow> byte list" where
  "content chunked ds = (if chunked then chunks ds else concat ds)"

lemma emits_returns:
  assumes "emits bs res' p out" "int (length bs) \<le> slack (snd p)"
  obtains a p' where "out = (Done a, p')" "sent bs (snd p) (snd p')" "fst p' = res'"
  using assms by (cases out; cases "fst out") (auto simp: emits_def)

lemma write_last_chunk_emits:
  assumes "sock_wf (snd p)" "fst p = res"
  shows "emits (if m_chunked_encoding res then last_chunk else []) res p
    ((\<lambda>p. if m_chunked_encoding (fst p) then raw_write_sv LAST_CHUNK p else (Done (), p)) p)"
  using emits_sv [OF assms, of LAST_CHUNK] assms
  by (simp add: bytes_LAST_CHUNK emits_Done sent_Nil)

lemma http_end_sent:
  assumes "sock_wf (snd p)" "get_status_reason_phrase (m_status (fst p)) = Done phrase"
    and "bs = head_left order phrase (fst p) @ (if m_chunked_encoding (head_done (fst p)) then last_chunk else [])"
    and "int (length bs) \<le> slack (snd p)"
  obtains p' where "http_end order p = (Done (), p')" "fst p' = head_done (fst p)" "sock_wf (snd p')"
    "m_sent (snd p') = out_stream (snd p) @ bs" "same_in (snd p) (snd p')" "sent bs (snd p) (snd p')"
proof -
  let ?last = "\<lambda>p. if m_chunked_encoding (fst p) then raw_write_sv LAST_CHUNK p else (Done (), p)"
  have "emits bs (head_done (fst p)) p (and_then (write_headers order) (\<lambda>_. ?last) p)"
    unfolding assms(3)
    by (rule emits_then, rule write_headers_emits [OF assms(1,2)], rule write_last_chunk_emits)
  then obtain a p1 where w: "and_then (write_headers order) (\<lambda>_. ?last) p = (Done a, p1)"
    "sent bs (snd p) (snd p1)" "fst p1 = head_done (fst p)"
    using assms(4) by (rule emits_returns)
  have wf: "sock_wf (snd p1)" using w(2) by (rule sent_wf)
  have "0 \<le> slack (snd p1)" using sent_slack [OF w(2)] assms(4) by simp
  then obtain s' where f: "flush (snd p1) = (Done (), s')" "sent [] (snd p1) s'" "m_sent s' = out_stream (snd p1)"
    by (rule flush_sent [OF wf])
  have "http_end order p = on_snd flush p1"
    using w(1) by (simp add: http_end_def and_then_def flip: and_then_assoc)
  then have "http_end order p = (Done (), (fst p1, s'))" using f(1) by (simp add: on_snd_def)
  moreover have "out_stream (snd p1) = out_stream (snd p) @ bs" "same_in (snd p) s'"
    using w(2) f(2) by (auto simp: sent_def handed_def intro: same_in_trans)
  moreover have "sent bs (snd p) s'" using sent_trans [OF w(2) f(2)] by simp
  ultimately show thesis
    using that [of "(fst p1, s')"] f w(3) by (auto dest: sent_wf)
qed

text \<open>The writes and the end of a response that has no head yet.\<close>

definition respond :: "(header_map \<Rightarrow> header_map) \<Rightarrow> byte list list \<Rightarrow> (http_output \<times> socket, unit) comp" where
  "respond order ds = and_then (http_writes order ds) (\<lambda>_. http_end order)"

lemma content_framed:
  "content chunked ds = concat (map (framed chunked) ds) @ (if chunked then last_chunk else [])"
  by (induction ds) (auto simp: content_def chunks_def framed_def)

lemma respond_sent:
  assumes "sock_wf (snd p)" "get_status_reason_phrase (m_status (fst p)) = Done phrase"
    and "list_all chunk_ok ds" "\<not> m_headers_written (fst p)"
    and "bs = bytes (head_text order phrase (fst p)) @ content (chunked_headers (m_headers (fst p))) ds"
    and "int (length bs) \<le> slack (snd p)"
  obtains p' where "respond order ds p = (Done (), p')" "sock_wf (snd p')"
    "m_sent (snd p') = out_stream (snd p) @ bs" "same_in (snd p) (snd p')" "sent bs (snd p) (snd p')"
proof -
  let ?c = "chunked_headers (m_headers (fst p))"
  have hd: "head_left order phrase (fst p) = bytes (head_text order phrase (fst p))"
    "m_chunked_encoding (head_done (fst p)) = ?c"
    using assms(4) by (simp_all add: head_left_def head_done_def)
  show thesis
  proof (cases ds)
    case Nil
    have "bs = head_left order phrase (fst p) @ (if m_chunked_encoding (head_done (fst p)) then last_chunk else [])"
      using Nil assms(5) hd by (simp add: content_framed)
    then obtain p' where "http_end order p = (Done (), p')" "sock_wf (snd p')"
      "m_sent (snd p') = out_stream (snd p) @ bs" "same_in (snd p) (snd p')" "sent bs (snd p) (snd p')"
      using http_end_sent [OF assms(1,2) _ assms(6)] by metis
    then show thesis using that Nil by (simp add: respond_def and_then_def return_def)
  next
    case (Cons d ds')
    let ?xs = "bytes (head_text order phrase (fst p)) @ framed ?c d @ concat (map (framed ?c) ds')"
    let ?ys = "if ?c then last_chunk else []"
    have ok: "chunk_ok d" "list_all chunk_ok ds'" using assms(3) Cons by simp_all
    have w: "emits (head_left order phrase (fst p) @ framed (m_chunked_encoding (head_done (fst p))) d)
        (head_done (fst p)) p (http_write order d (int (length d)) p)"
      by (rule http_write_emits [OF assms(1,2) ok(1)])
    have ws: "emits (concat (map (framed ?c) ds')) (head_done (fst p)) q (http_writes order ds' q)"
      if "sock_wf (snd q)" "fst q = head_done (fst p)" for q
      using http_writes_emits [OF that(1) _ ok(2), of phrase order] assms(2) that(2) hd(2) by simp
    have "emits ((bytes (head_text order phrase (fst p)) @ framed ?c d) @ concat (map (framed ?c) ds'))
        (head_done (fst p)) p (http_writes order ds p)"
      unfolding Cons http_writes.simps by (rule emits_then, rule w [unfolded hd], rule ws)
    moreover have len: "int (length ?xs) + int (length ?ys) \<le> slack (snd p)"
      using assms(5,6) Cons by (auto simp: content_framed)
    ultimately have "emits ?xs (head_done (fst p)) p (http_writes order ds p)" by (simp only: append_assoc)
    moreover have "int (length ?xs) \<le> slack (snd p)" using len by simp
    ultimately obtain a p1 where e: "http_writes order ds p = (Done a, p1)"
      "sent ?xs (snd p) (snd p1)" "fst p1 = head_done (fst p)"
      by (rule emits_returns)
    have ys: "?ys = head_left order phrase (fst p1) @ (if m_chunked_encoding (head_done (fst p1)) then last_chunk else [])"
      unfolding e(3) head_done_simps(3,5) hd(2) append_Nil ..
    have room: "int (length ?ys) \<le> slack (snd p1)" using sent_slack [OF e(2)] len by simp
    have ph: "get_status_reason_phrase (m_status (fst p1)) = Done phrase" using e(3) assms(2) by simp
    obtain p' where "http_end order p1 = (Done (), p')" "sock_wf (snd p')"
      "m_sent (snd p') = out_stream (snd p1) @ ?ys" "same_in (snd p1) (snd p')" and ys': "sent ?ys (snd p1) (snd p')"
      by (rule http_end_sent [OF sent_wf [OF e(2)] ph ys room])
    moreover have "out_stream (snd p1) @ ?ys = out_stream (snd p) @ bs"
      using e(2) assms(5) Cons by (simp add: sent_def handed_def content_framed)
    moreover have "same_in (snd p) (snd p1)" using e(2) by (simp add: sent_def handed_def)
    moreover have "sent bs (snd p) (snd p')"
      using sent_trans [OF e(2) ys'] assms(5) Cons by (simp add: content_framed)
    ultimately show thesis
      using that e(1) by (auto simp: respond_def and_then_def intro: same_in_trans)
  qed
qed

lemma respond_response:
  assumes "sock_wf s" "get_status_reason_phrase (m_status res) = Done phrase"
    "list_all chunk_ok ds" "\<not> m_headers_written res"
    "int (length (head_text order phrase res) + length (content (chunked_headers (m_headers res)) ds)) \<le> slack s"
  shows "\<exists>res' s'. respond order ds (res, s) = (Done (), (res', s')) \<and> sock_wf s' \<and> same_in s s'
    \<and> m_sent s' = out_stream s @ bytes (head_text order phrase res)
        @ content (chunked_headers (m_headers res)) ds"
proof -
  obtain p' where "respond order ds (res, s) = (Done (), p')" "sock_wf (snd p')"
    "m_sent (snd p') = out_stream s @ bytes (head_text order phrase res)
        @ content (chunked_headers (m_headers res)) ds" "same_in s (snd p')"
    by (rule respond_sent [of "(res, s)" phrase ds "bytes (head_text order phrase res) @ content (chunked_headers (m_headers res)) ds" order])
      (use assms in simp_all)
  then show ?thesis by (cases p') auto
qed

section \<open>Properties\<close>

text \<open>
  C9: writing a response in pieces and ending it sends, behind what was sent before, the status line, every
  header once in the order of the map, an empty line, and the pieces: as they are, or each as a chunk of its
  size followed by the last chunk when the headers announce it. Everything is flushed when \<open>end\<close> returns, and it
  returns when the kernel has room.
\<close>

theorem http_output_response:
  assumes "sock_wf s" "get_status_reason_phrase (m_status res) = Done phrase"
    "list_all chunk_ok ds" "\<not> m_headers_written res"
    "int (length (head_text order phrase res) + length (content (chunked_headers (m_headers res)) ds)) \<le> slack s"
  shows "\<exists>res' s'. respond order ds (res, s) = (Done (), (res', s')) \<and> sock_wf s' \<and> same_in s s'
    \<and> m_sent s' = out_stream s @ bytes (head_text order phrase res)
        @ content (chunked_headers (m_headers res)) ds"
  by (rule respond_response [OF assms])

theorem http_output_response_witness:
  "\<exists>res' s'. respond id [] (set_status NOT_FOUND new_http_output, new_socket [] [Tx_ok 100]) = (Done (), (res', s'))
    \<and> m_sent s' = bytes (''HTTP/1.1 404 Not Found'' @ CRLF_SEPARATOR @ CRLF_SEPARATOR)"
proof -
  let ?s = "new_socket [] [Tx_ok 100]" and ?res = "set_status NOT_FOUND new_http_output"
  have s: "out_stream ?s = []" "slack ?s = 100"
    by (simp_all add: out_stream_def slack_def new_socket_def)
  have h: "head_text id ''404 Not Found'' ?res = ''HTTP/1.1 404 Not Found'' @ CRLF_SEPARATOR @ CRLF_SEPARATOR"
    "chunked_headers (m_headers ?res) = False" "get_status_reason_phrase (m_status ?res) = Done ''404 Not Found''"
    "\<not> m_headers_written ?res" "list_all chunk_ok []"
    by (simp_all add: head_text_def HTTP_1_1_STR_def set_status_def new_http_output_def header_text_def
        chunked_headers_def)
  have l: "int (length (head_text id ''404 Not Found'' ?res) + length (content (chunked_headers (m_headers ?res)) [])) \<le> slack ?s"
    unfolding h s by (simp add: CRLF_SEPARATOR_def content_def)
  have "content False [] = []" by (simp add: content_def)
  then show ?thesis
    using http_output_response [OF sock_wf_new h(3) h(5) h(4) l] unfolding s(1) h(1,2) append_Nil
    by (metis append_Nil2)
qed

text \<open>
  C31: what the output writes in chunks, the body of a request reads back: if the bytes after the
  head reach a socket, in whatever segmentation, reading gives the pieces that were written,
  concatenated.
\<close>

theorem chunked_output_body_roundtrip:
  assumes "sock_wf s" "get_status_reason_phrase (m_status res) = Done phrase"
    "list_all chunk_ok ds" "\<not> m_headers_written res" "chunked_headers (m_headers res)"
    "int (length (head_text order phrase res) + length (chunks ds)) \<le> slack s"
    "sock_wf r" "out_stream s = []"
    "bytes (head_text order phrase res) @ incoming r = m_sent (snd (snd (respond order ds (res, s))))"
  shows "fst (body_read_str [] (int (length (concat ds))) (new_http_body 0 False, r))
    = Done (chars (concat ds), int (length (concat ds)))"
proof -
  have "incoming r = chunks ds"
    using respond_response [OF assms(1-4), of order] assms(5,6,8,9) by (auto simp: content_def)
  then have "body_holds (new_http_body 0 False) (incoming r) ds []"
    using assms(3) by (simp add: body_holds_def new_http_body_def)
  from bstr.body_loop_delivers [OF assms(7) this, where d = "[]" and n = "length (concat ds)"]
  show ?thesis by (auto simp: body_read_str_def)
qed

theorem chunked_output_body_roundtrip_witness:
  "fst (body_read_str [] 2 (new_http_body 0 False, new_socket [Rx_data (chunks [[1], [2]])] []))
   = Done (chars [1, 2], 2)"
proof -
  let ?s = "new_socket [] [Tx_ok 1000]" and ?res = "set_header TRANSFER_ENCODING ''chunked'' new_http_output"
  let ?r = "new_socket [Rx_data (chunks [[1], [2]])] []"
  have s: "out_stream ?s = []" "slack ?s = 1000"
    by (simp_all add: out_stream_def slack_def new_socket_def)
  have m: "m_headers ?res = [(TRANSFER_ENCODING, ''chunked'')]" "m_status ?res = OK" "\<not> m_headers_written ?res"
    by (simp_all add: set_header_def new_http_output_def TRANSFER_ENCODING_def)
  have c: "chunked_headers (m_headers ?res)"
    unfolding m(1) by code_simp
  have l: "int (length (head_text id ''200 OK'' ?res) + length (chunks [[1], [2]])) \<le> slack ?s"
    unfolding s(2) head_text_def m(1) by code_simp
  have ok: "list_all chunk_ok [[1], [2 :: byte]]" by (simp add: chunk_ok_def LONG_MAX_def)
  have p: "get_status_reason_phrase (m_status ?res) = Done ''200 OK''" by (simp add: m(2))
  have "chunks [[1], [2]] \<noteq> []" by (simp add: chunks_def chunk_def crlf_def)
  then have inc: "incoming ?r = chunks [[1], [2]]" by simp
  have "bytes (head_text id ''200 OK'' ?res) @ incoming ?r = m_sent (snd (snd (respond id [[1], [2]] (?res, ?s))))"
    using respond_response [OF sock_wf_new p ok m(3), of id "[]" "[Tx_ok 1000]"] c l s(1)
    unfolding inc by (auto simp: content_def)
  from chunked_output_body_roundtrip [OF sock_wf_new p ok m(3) c l sock_wf_new s(1) this]
  show ?thesis by simp
qed

text \<open>
  a header set last wins, for every spelling of its name, other headers stay, and
  the map keeps one entry per name; empty names and values are ignored.
\<close>

theorem set_header_spec:
  assumes "hm_wf (m_headers res)"
  shows "hm_find (m_headers (set_header name value res)) k
      = (if name \<noteq> [] \<and> value \<noteq> [] \<and> lower name = lower k then Some value else hm_find (m_headers res) k)
    \<and> hm_wf (m_headers (set_header name value res))"
  using assms by (auto simp: set_header_def hdr.look_put case_insensitive_equality_lower wf_intros)

theorem set_header_spec_witness:
  "hm_find (m_headers (set_header ''Host'' ''a'' (set_header ''HOST'' ''b'' new_http_output))) ''host'' = Some ''a''"
proof -
  have "hm_wf (m_headers (set_header ''HOST'' ''b'' new_http_output))"
    by (simp add: set_header_def new_http_output_def hm_wf_def)
  moreover have "lower ''Host'' = lower ''host''" by code_simp
  ultimately show ?thesis using set_header_spec [of "set_header ''HOST'' ''b'' new_http_output"] by simp
qed

text \<open>
  the content length that is announced is the one that was set: every length from 0 to the largest
  \<open>long\<close> fits the buffer and reads back as that number; a negative one throws.
\<close>

theorem set_content_length_spec:
  assumes "len \<le> LONG_MAX"
  shows "case set_content_length len res of
      (Done _, res') \<Rightarrow> 0 \<le> len \<and> (\<exists>v. hm_find (m_headers res') ''content-length'' = Some v
        \<and> from_chars_long 10 v = Parsed len [])
    | (Threw e, res') \<Rightarrow> len < 0 \<and> res' = res
    | _ \<Rightarrow> False"
proof (cases "len < 0")
  case True
  then show ?thesis by (simp add: set_content_length_def)
next
  case False
  then have "is_long len" using assms by (simp add: is_long_def LONG_MIN_def)
  then have "from_chars_long 10 (to_chars 10 len) = Parsed len []"
    using from_chars_long_to_chars [of 10 len "[]"] by simp
  moreover have "\<not> length (to_chars 10 len) > SERIALIZE_BUFFER_SIZE"
    using digits_fit [of len 10] False assms by simp
  ultimately show ?thesis
    using False by (simp add: set_content_length_def Let_def set_header_def hdr.look_put
        case_insensitive_equality_lower)
qed

theorem set_content_length_spec_witness:
  "fst (set_content_length (-1) new_http_output) \<noteq> Done ()"
  using set_content_length_spec [of "-1" new_http_output]
  by (auto simp: LONG_MAX_def split: prod.splits outcome.splits)

end
