(* ===== verification/Http_Request.thy ===== *)
theory Http_Request
  imports Http_Types
begin

text \<open>
  \<open>cppevent_http/http_request\<close>: the request line and the header lines of a request, and the queries of
  an endpoint. The method and the version are uninitialised until a request line has been read
  (\<open>None\<close>), and reading them before is undefined. The string views into \<open>m_uri\<close> are kept by
  value: the object neither moves nor changes its uri while it is used.
\<close>

section \<open>Operations\<close>

record http_request =
  m_method :: "http_method option"
  m_version :: "http_version option"
  m_uri :: string
  m_path :: string
  m_path_params :: "(string \<times> string) list"
  m_query :: string
  m_query_params :: multimap
  m_req_headers :: header_map

definition new_http_request :: http_request where
  "new_http_request = \<lparr>m_method = None, m_version = None, m_uri = [], m_path = [], m_path_params = [],
     m_query = [], m_query_params = [], m_req_headers = []\<rparr>"

definition process_uri :: "string \<Rightarrow> http_request \<Rightarrow> http_request" where
  "process_uri uri req =
     (let req = req\<lparr>m_uri := uri\<rparr>;
          q_it = length (takeWhile (\<lambda>c. c \<noteq> CHR ''?'') uri);
          req = req\<lparr>m_path := take q_it uri\<rparr>
      in if q_it \<noteq> length uri
         then let query = drop (Suc q_it) uri in req\<lparr>m_query := query, m_query_params := retrieve_params query\<rparr>
         else req)"

definition method_map :: "(string \<times> http_method) list" where
  "method_map = [(''GET'', GET), (''POST'', POST), (''HEAD'', HEAD), (''OPTIONS'', OPTIONS)]"

definition version_map :: "(string \<times> http_version) list" where
  "version_map = [(''HTTP/1.0'', HTTP_1_0), (''HTTP/1.1'', HTTP_1_1)]"

definition process_req_line :: "string \<Rightarrow> http_request \<Rightarrow> bool \<times> http_request" where
  "process_req_line line req =
     (let req_segments = split_string line CHR '' '' in
      if length req_segments \<noteq> 3 then (False, req)
      else case um_find method_map (req_segments ! 0) of
        None \<Rightarrow> (False, req)
      | Some m \<Rightarrow>
          (let req = process_uri (req_segments ! 1) (req\<lparr>m_method := Some m\<rparr>) in
           case um_find version_map (req_segments ! 2) of
             None \<Rightarrow> (False, req)
           | Some v \<Rightarrow> (True, req\<lparr>m_version := Some v\<rparr>)))"

definition process_header_line :: "string \<Rightarrow> http_request \<Rightarrow> bool \<times> http_request" where
  "process_header_line line req =
     (let pos = length (takeWhile (\<lambda>c. c \<noteq> CHR '':'') line) in
      if pos = length line then (False, req)
      else let key_v = trim_string (take pos line);
               value_v = trim_string (drop (pos + 1) line)
           in if key_v = [] \<or> value_v = [] then (False, req)
              else (True, req\<lparr>m_req_headers := hm_assign key_v value_v (m_req_headers req)\<rparr>))"

definition get_method :: "http_request \<Rightarrow> http_method outcome" where
  "get_method req = (case m_method req of None \<Rightarrow> Undefined | Some m \<Rightarrow> Done m)"

definition get_version :: "http_request \<Rightarrow> http_version outcome" where
  "get_version req = (case m_version req of None \<Rightarrow> Undefined | Some v \<Rightarrow> Done v)"

definition get_path :: "http_request \<Rightarrow> string" where
  "get_path req = m_path req"

definition set_path_params :: "(string \<times> string) list \<Rightarrow> http_request \<Rightarrow> http_request" where
  "set_path_params params req = req\<lparr>m_path_params := params\<rparr>"

definition get_path_param :: "http_request \<Rightarrow> string \<Rightarrow> string option" where
  "get_path_param req key = um_find (m_path_params req) key"

definition get_query :: "http_request \<Rightarrow> string" where
  "get_query req = m_query req"

text \<open>
  \<open>std::multimap::find\<close> returns any entry with the key; \<open>pick\<close> chooses it among the values of the key.
\<close>

definition get_query_param :: "(string list \<Rightarrow> string) \<Rightarrow> http_request \<Rightarrow> string \<Rightarrow> string option" where
  "get_query_param pick req key =
     (let vs = mm_equal_range key (m_query_params req) in if vs = [] then None else Some (pick vs))"

definition get_multi_query_param :: "http_request \<Rightarrow> string \<Rightarrow> string list" where
  "get_multi_query_param req key = mm_equal_range key (m_query_params req)"

definition get_header :: "http_request \<Rightarrow> string \<Rightarrow> string option" where
  "get_header req key = hm_find (m_req_headers req) key"

section \<open>Request lines\<close>

fun method_text :: "http_method \<Rightarrow> string" where
  "method_text GET = ''GET''"
| "method_text POST = ''POST''"
| "method_text HEAD = ''HEAD''"
| "method_text OPTIONS = ''OPTIONS''"

fun version_text :: "http_version \<Rightarrow> string" where
  "version_text HTTP_1_0 = ''HTTP/1.0''"
| "version_text HTTP_1_1 = ''HTTP/1.1''"

lemma um_find_method [simp]: "um_find method_map (method_text m) = Some m"
  by (cases m) (simp_all add: method_map_def)

lemma um_find_version [simp]: "um_find version_map (version_text v) = Some v"
  by (cases v) (simp_all add: version_map_def)

lemma um_find_method_iff: "um_find method_map t = Some m \<longleftrightarrow> t = method_text m"
  by (cases m) (auto simp: method_map_def)

lemma um_find_version_iff: "um_find version_map t = Some v \<longleftrightarrow> t = version_text v"
  by (cases v) (auto simp: version_map_def)

interpretation methods: codec method_text "um_find method_map" "\<lambda>_. True"
  by unfold_locales simp

interpretation versions: codec version_text "um_find version_map" "\<lambda>_. True"
  by unfold_locales simp

lemma texts_no_space: "CHR '' '' \<notin> set (method_text m)" "CHR '' '' \<notin> set (version_text v)"
  "method_text m \<noteq> []" "version_text v \<noteq> []"
  by (cases m; cases v; simp)+

definition uri_text :: "string \<Rightarrow> string option \<Rightarrow> string" where
  "uri_text path query = path @ (case query of None \<Rightarrow> [] | Some q \<Rightarrow> CHR ''?'' # q)"

lemma process_uri_text:
  assumes "CHR ''?'' \<notin> set path"
  shows "process_uri (uri_text path query) req
    = (case query of None \<Rightarrow> req\<lparr>m_uri := uri_text path query, m_path := path\<rparr>
       | Some q \<Rightarrow> req\<lparr>m_uri := uri_text path query, m_path := path, m_query := q, m_query_params := retrieve_params q\<rparr>)"
proof -
  have p: "takeWhile (\<lambda>c. c \<noteq> CHR ''?'') path = path"
    using assms by simp
  then have "takeWhile (\<lambda>c. c \<noteq> CHR ''?'') (uri_text path query) = path"
    using assms by (cases query) (simp_all add: uri_text_def)
  then show ?thesis
    using assms by (cases query) (simp_all add: process_uri_def Let_def uri_text_def)
qed

lemma split_req_line:
  assumes "uri \<noteq> []" "CHR '' '' \<notin> set uri"
  shows "split_string (method_text m @ '' '' @ uri @ '' '' @ version_text v) CHR '' '' = [method_text m, uri, version_text v]"
proof -
  have j: "method_text m @ '' '' @ uri @ '' '' @ version_text v = join CHR '' '' [method_text m, uri, version_text v]"
    by simp
  have "split_fields CHR '' '' (join CHR '' '' [method_text m, uri, version_text v]) = [method_text m, uri, version_text v]"
    using assms(2) texts_no_space by (intro fields_join) simp_all
  then show ?thesis unfolding j split_string_fields using assms(1) texts_no_space(3,4) by simp
qed

section \<open>Header lines\<close>

definition trimmed :: "string \<Rightarrow> bool" where
  "trimmed s \<longleftrightarrow> s \<noteq> [] \<and> hd s \<noteq> CHR '' '' \<and> last s \<noteq> CHR '' ''"

definition spaces :: "nat \<Rightarrow> string" where
  "spaces n = replicate n CHR '' ''"

lemma dropWhile_spaces: "dropWhile (\<lambda>c. c = CHR '' '') (spaces n @ s) = dropWhile (\<lambda>c. c = CHR '' '') s"
  by (induction n) (simp_all add: spaces_def)

lemma dropWhile_hd: "s \<noteq> [] \<Longrightarrow> hd s \<noteq> CHR '' '' \<Longrightarrow> dropWhile (\<lambda>c. c = CHR '' '') (s @ t) = s @ t"
  by (cases s) auto

lemma trim_padded: "trimmed s \<Longrightarrow> trim_string (spaces a @ s @ spaces b) = s"
proof -
  assume t: "trimmed s"
  then have "dropWhile (\<lambda>c. c = CHR '' '') (spaces a @ s @ spaces b) = s @ spaces b"
    by (simp add: trimmed_def dropWhile_spaces dropWhile_hd)
  moreover have "rev (s @ spaces b) = spaces b @ rev s" by (simp add: spaces_def)
  moreover have "dropWhile (\<lambda>c. c = CHR '' '') (rev s) = rev s"
    using t dropWhile_hd [of "rev s" "[]"] by (simp add: trimmed_def hd_rev)
  ultimately show ?thesis by (simp add: trim_string_ref trim_ref_def dropWhile_spaces)
qed

lemma process_header_line_text:
  assumes "trimmed k" "CHR '':'' \<notin> set k" "trimmed v"
  shows "process_header_line (spaces a @ k @ spaces b @ '':'' @ spaces c @ v @ spaces d) req
    = (True, req\<lparr>m_req_headers := hm_assign k v (m_req_headers req)\<rparr>)"
proof -
  let ?key = "spaces a @ k @ spaces b" and ?val = "spaces c @ v @ spaces d"
  have "CHR '':'' \<notin> set ?key" using assms(2) by (simp add: spaces_def)
  then have t: "takeWhile (\<lambda>c. c \<noteq> CHR '':'') (?key @ CHR '':'' # ?val) = ?key"
    by (rule takeWhile_upto)
  have e: "spaces a @ k @ spaces b @ '':'' @ spaces c @ v @ spaces d = ?key @ CHR '':'' # ?val" by simp
  have ne: "k \<noteq> []" "v \<noteq> []" using assms by (simp_all add: trimmed_def)
  show ?thesis
    unfolding e process_header_line_def t Let_def
    using ne by (simp add: trim_padded [OF assms(1)] trim_padded [OF assms(3)])
qed

text \<open>The header lines of a request, one after the other.\<close>

fun process_header_lines :: "string list \<Rightarrow> http_request \<Rightarrow> bool \<times> http_request" where
  "process_header_lines [] req = (True, req)"
| "process_header_lines (l # ls) req =
     (case process_header_line l req of
        (True, req) \<Rightarrow> process_header_lines ls req
      | (False, req) \<Rightarrow> (False, req))"

definition header_line :: "string \<times> string \<Rightarrow> string" where
  "header_line h = fst h @ '':'' @ spaces 1 @ snd h"

definition header_ok :: "string \<times> string \<Rightarrow> bool" where
  "header_ok h \<longleftrightarrow> trimmed (fst h) \<and> CHR '':'' \<notin> set (fst h) \<and> trimmed (snd h)"

lemma process_header_line_header:
  assumes "header_ok h"
  shows "process_header_line (header_line h) req
    = (True, req\<lparr>m_req_headers := hm_assign (fst h) (snd h) (m_req_headers req)\<rparr>)"
  using process_header_line_text [of "fst h" "snd h" 0 0 1 0] assms
  by (simp add: header_ok_def header_line_def spaces_def)

lemma process_header_lines_fold:
  "list_all header_ok hs \<Longrightarrow> process_header_lines (map header_line hs) req
    = (True, req\<lparr>m_req_headers := fold (\<lambda>(k, v). hm_assign k v) hs (m_req_headers req)\<rparr>)"
  by (induction hs arbitrary: req) (simp_all add: process_header_line_header split_def)

section \<open>Properties\<close>

text \<open>
  a request line is accepted exactly when it has three non-empty fields between spaces, the first
  the name of a method and the third that of a version; method, version and uri are then those of
  the line.
\<close>

theorem process_req_line_spec:
  "(case process_req_line line req of
      (True, req') \<Rightarrow> \<exists>m v uri. split_string line CHR '' '' = [method_text m, uri, version_text v]
         \<and> req' = (process_uri uri (req\<lparr>m_method := Some m\<rparr>))\<lparr>m_version := Some v\<rparr>
    | (False, req') \<Rightarrow> \<not> (\<exists>m v uri. split_string line CHR '' '' = [method_text m, uri, version_text v]))"
proof -
  consider "length (split_string line CHR '' '') \<noteq> 3"
    | a uri c where "split_string line CHR '' '' = [a, uri, c]"
    by (cases "split_string line CHR '' ''"; cases "tl (split_string line CHR '' '')";
        cases "tl (tl (split_string line CHR '' ''))"; cases "tl (tl (tl (split_string line CHR '' '')))") auto
  then show ?thesis
  proof cases
    case 1
    then show ?thesis by (auto simp: process_req_line_def)
  next
    case 2
    then show ?thesis
      by (auto simp: process_req_line_def Let_def um_find_method_iff um_find_version_iff split: option.split)
  qed
qed

text \<open>
  a request line that is written out is read back: method, version, path, and every value
  of every query parameter in order.
\<close>

theorem request_line_roundtrip:
  assumes "path \<noteq> []" "CHR '' '' \<notin> set path" "CHR ''?'' \<notin> set path"
    "list_all (\<lambda>(k, v). plain k \<and> plain v) ps" "CHR '' '' \<notin> set (query_text ps)"
  shows "case process_req_line
        (method_text m @ '' '' @ uri_text path (Some (query_text ps)) @ '' '' @ version_text v) req of
      (ok, req') \<Rightarrow> ok \<and> get_method req' = Done m \<and> get_version req' = Done v \<and> get_path req' = path
        \<and> get_query req' = query_text ps
        \<and> get_multi_query_param req' q = map snd (filter (\<lambda>p. fst p = q) ps)"
proof -
  have "uri_text path (Some (query_text ps)) \<noteq> []" "CHR '' '' \<notin> set (uri_text path (Some (query_text ps)))"
    using assms by (simp_all add: uri_text_def)
  then show ?thesis
    unfolding process_req_line_def
    by (subst split_req_line)
      (simp_all add: process_uri_text [OF assms(3)] get_method_def get_version_def get_path_def get_query_def
        get_multi_query_param_def retrieve_params_query_text [OF assms(4)] mm_of_range)
qed

theorem request_line_roundtrip_witness:
  "get_multi_query_param (snd (process_req_line ''GET /index?a=1&a=2 HTTP/1.1'' new_http_request)) ''a'' = [''1'', ''2'']"
proof -
  have p: "list_all (\<lambda>(k, v). plain k \<and> plain v) [(''a'', ''1''), (''a'', ''2'')]" by (simp add: plain_def)
  have l: "method_text GET @ '' '' @ uri_text ''/index'' (Some (query_text [(''a'', ''1''), (''a'', ''2'')])) @ '' ''
      @ version_text HTTP_1_1 = ''GET /index?a=1&a=2 HTTP/1.1''"
    by (simp add: uri_text_def query_text_def)
  have s: "CHR '' '' \<notin> set (query_text [(''a'', ''1''), (''a'', ''2'')])" by (simp add: query_text_def)
  show ?thesis
    using request_line_roundtrip [OF _ _ _ p s, where path = "''/index''" and m = GET and v = HTTP_1_1
        and req = new_http_request and q = "''a''"]
    unfolding l by (auto split: prod.splits)
qed

text \<open>
  header lines are read in order, with any spaces around the colon; a header then has the value of the
  last line with its name, whatever the case of the name, and no other value.
\<close>

theorem header_lines_last_wins:
  assumes "list_all header_ok hs"
  shows "(case process_header_lines (map header_line hs) new_http_request of
      (ok, req) \<Rightarrow> ok \<and> get_header req name
        = map_option snd (find (\<lambda>h. lower (fst h) = lower name) (rev hs)))
    \<and> (\<forall>k v. header_ok (k, v) \<longrightarrow> process_header_line (spaces a @ k @ spaces b @ '':'' @ spaces c @ v @ spaces d) req0
        = (True, req0\<lparr>m_req_headers := hm_assign k v (m_req_headers req0)\<rparr>))"
  using hdr.look_fold_empty [of hs name] process_header_line_text
  by (simp add: process_header_lines_fold [OF assms] get_header_def new_http_request_def
      case_insensitive_equality_lower header_ok_def)

theorem header_lines_last_wins_witness:
  "get_header (snd (process_header_lines [''Host: a'', ''HOST: b''] new_http_request)) ''host'' = Some ''b''"
proof -
  have ok: "list_all header_ok [(''Host'', ''a''), (''HOST'', ''b'')]" by (simp add: header_ok_def trimmed_def)
  have m: "map header_line [(''Host'', ''a''), (''HOST'', ''b'')] = [''Host: a'', ''HOST: b'']"
    by (simp add: header_line_def spaces_def)
  have l: "lower ''HOST'' = lower ''host''" by code_simp
  obtain b req where r: "process_header_lines [''Host: a'', ''HOST: b''] new_http_request = (b, req)" by fastforce
  show ?thesis
    using header_lines_last_wins [OF ok, of "''host''"] l unfolding m r by simp
qed

end
