(* ===== verification/Http_Router.thy ===== *)
theory Http_Router
  imports Http_Types
begin

text \<open>
  \<open>cppevent_http/http_router\<close>: a trie of path segments that maps a method and a path to an endpoint. A null
  endpoint pointer is \<open>None\<close>; a child that is created is in the map or the pointer from then
  on, so a null child never occurs in \<open>m_routes\<close>. Registration changes the router before it throws in
  some cases, so it returns the router in every case.
\<close>

section \<open>Operations\<close>

datatype 'e http_router =
  Router (m_get_endpoint: "'e option") (m_post_endpoint: "'e option")
    (m_routes: "(string \<times> 'e http_router) list")
    (m_path_param: string) (m_param_route: "'e http_router option")

definition new_http_router :: "'e http_router" where
  "new_http_router = Router None None [] [] None"

fun get_endpoint_var :: "http_method \<Rightarrow> 'e http_router \<Rightarrow> 'e option outcome" where
  "get_endpoint_var GET r = Done (m_get_endpoint r)"
| "get_endpoint_var POST r = Done (m_post_endpoint r)"
| "get_endpoint_var _ r = Threw (Runtime_error ''http_router get_endpoint_ptr: unsupported http method'')"

text \<open>Assignment through the reference that \<open>get_endpoint_var\<close> returns.\<close>

fun put_endpoint_var :: "http_method \<Rightarrow> 'e option \<Rightarrow> 'e http_router \<Rightarrow> 'e http_router" where
  "put_endpoint_var GET e (Router g p rs q d) = Router e p rs q d"
| "put_endpoint_var POST e (Router g p rs q d) = Router g e rs q d"
| "put_endpoint_var _ e r = r"

definition split_path :: "string \<Rightarrow> string \<times> string" where
  "split_path path =
     (let start = length (takeWhile (\<lambda>c. c = CHR ''/'') path);
          stop = start + length (takeWhile (\<lambda>c. c \<noteq> CHR ''/'') (drop start path))
      in (take (stop - start) (drop start path), drop stop path))"

lemma split_path_while:
  "split_path path = (let rest = dropWhile (\<lambda>c. c = CHR ''/'') path in
     (takeWhile (\<lambda>c. c \<noteq> CHR ''/'') rest, dropWhile (\<lambda>c. c \<noteq> CHR ''/'') rest))"
proof -
  let ?n = "length (takeWhile (\<lambda>c. c = CHR ''/'') path)"
  have d: "drop ?n path = dropWhile (\<lambda>c. c = CHR ''/'') path" by (rule dropWhile_eq_drop [symmetric])
  have dd: "drop (?n + k) path = drop k (dropWhile (\<lambda>c. c = CHR ''/'') path)" for k
    by (simp add: add.commute flip: d)
  show ?thesis
    by (simp only: split_path_def Let_def d dd add_diff_cancel_left' takeWhile_eq_take [symmetric]
        dropWhile_eq_drop [symmetric])
qed

lemma split_path_shorter:
  "split_path path = (first, remaining) \<Longrightarrow> first \<noteq> [] \<Longrightarrow> length remaining < length path"
proof -
  assume s: "split_path path = (first, remaining)" "first \<noteq> []"
  let ?rest = "dropWhile (\<lambda>c. c = CHR ''/'') path"
  have "first @ remaining = ?rest" using s(1) by (auto simp: split_path_while Let_def)
  then have "length first + length remaining \<le> length path"
    by (metis length_append length_dropWhile_le)
  then show ?thesis using s(2) by (cases first) auto
qed

function set_endpoint :: "http_method \<Rightarrow> string \<Rightarrow> 'e option \<Rightarrow> 'e http_router
    \<Rightarrow> unit outcome \<times> 'e http_router" where
  "set_endpoint meth path endpoint r =
     (case split_path path of (first, remaining) \<Rightarrow>
      if first = []
      then (case get_endpoint_var meth r of
              Done (Some _) \<Rightarrow> (Threw (Runtime_error ''http_router set_endpoint: duplicate endpoint''), r)
            | Done None \<Rightarrow> (Done (), put_endpoint_var meth endpoint r)
            | Threw e \<Rightarrow> (Threw e, r)
            | Suspended \<Rightarrow> (Suspended, r)
            | Undefined \<Rightarrow> (Undefined, r))
      else (case r of Router g p rs q d \<Rightarrow>
        if hd first = CHR '':'' \<and> length first > 1
        then (let param = drop 1 first in
              if q \<noteq> [] \<and> q \<noteq> param
              then (Threw (Runtime_error ''http_router set_endpoint: path parameter name clash''), r)
              else (case set_endpoint meth remaining endpoint (case d of None \<Rightarrow> new_http_router | Some c \<Rightarrow> c) of
                      (out, c) \<Rightarrow> (out, Router g p rs param (Some c))))
        else if hd first = CHR '':''
        then (Threw (Runtime_error ''http_router set_endpoint: invalid path parameter name''), r)
        else (case set_endpoint meth remaining endpoint
                (case um_find rs first of None \<Rightarrow> new_http_router | Some c \<Rightarrow> c) of
                (out, c) \<Rightarrow> (out, Router g p (um_assign first c rs) q d))))"
  by pat_completeness auto
termination
  by (relation "measure (\<lambda>(_, path, _, _). length path)") (auto simp: split_path_shorter [OF sym])

declare set_endpoint.simps [simp del]

definition router_get :: "string \<Rightarrow> 'e option \<Rightarrow> 'e http_router \<Rightarrow> unit outcome \<times> 'e http_router" where
  "router_get path endpoint r = set_endpoint GET path endpoint r"

definition router_post :: "string \<Rightarrow> 'e option \<Rightarrow> 'e http_router \<Rightarrow> unit outcome \<times> 'e http_router" where
  "router_post path endpoint r = set_endpoint POST path endpoint r"

text \<open>The path parameters are the state: the caller's map, filled on the way down.\<close>

type_synonym path_params = "(string \<times> string) list"

function router_match :: "http_method \<Rightarrow> string \<Rightarrow> 'e http_router \<Rightarrow> (path_params, 'e option) comp" where
  "router_match meth path r params =
     (case split_path path of (first, remaining) \<Rightarrow>
      if first = [] then (get_endpoint_var meth r, params)
      else (case um_find (m_routes r) first of
              Some c \<Rightarrow> router_match meth remaining c params
            | None \<Rightarrow>
                if m_path_param r \<noteq> []
                then (case m_param_route r of
                        None \<Rightarrow> (Undefined, um_assign (m_path_param r) first params)
                      | Some c \<Rightarrow> router_match meth remaining c (um_assign (m_path_param r) first params))
                else (Done None, params)))"
  by pat_completeness auto
termination
  by (relation "measure (\<lambda>(_, path, _, _). length path)") (auto simp: split_path_shorter [OF sym])

declare router_match.simps [simp del]

section \<open>Segments\<close>

function segments :: "string \<Rightarrow> string list" where
  "segments path =
     (case split_path path of (first, remaining) \<Rightarrow> if first = [] then [] else first # segments remaining)"
  by pat_completeness auto
termination
  by (relation "measure length") (auto simp: split_path_shorter [OF sym])

declare segments.simps [simp del]

lemma split_string_slashes:
  "split_string (dropWhile (\<lambda>c. c = CHR ''/'') path) CHR ''/'' = split_string path CHR ''/''"
proof (induction path)
  case (Cons c cs)
  then show ?case by (cases "c = CHR ''/''") (simp_all add: split_string_fields)
qed simp

lemma split_string_first:
  assumes "s = [] \<or> hd s \<noteq> CHR ''/''"
  shows "split_string s CHR ''/'' = (if s = [] then []
    else takeWhile (\<lambda>c. c \<noteq> CHR ''/'') s # split_string (dropWhile (\<lambda>c. c \<noteq> CHR ''/'') s) CHR ''/'')"
proof (cases "s = []")
  case True
  then show ?thesis by (simp add: split_string_fields)
next
  case False
  let ?t = "takeWhile (\<lambda>c. c \<noteq> CHR ''/'') s" and ?d = "dropWhile (\<lambda>c. c \<noteq> CHR ''/'') s"
  have t: "?t \<noteq> []" using assms False by (cases s) auto
  have free: "CHR ''/'' \<notin> set ?t" by (auto dest: set_takeWhileD)
  have f: "split_fields CHR ''/'' s = (?t @ hd (split_fields CHR ''/'' ?d)) # tl (split_fields CHR ''/'' ?d)"
    using fields_append [OF free, of ?d] by (simp only: takeWhile_dropWhile_id)
  have "hd (split_fields CHR ''/'' ?d) = []"
  proof (cases ?d)
    case (Cons c cs)
    then have "c = CHR ''/''" using hd_dropWhile [of "\<lambda>c. c \<noteq> CHR ''/''" s] by simp
    with Cons show ?thesis by simp
  next
    case Nil
    show ?thesis unfolding Nil by simp
  qed
  then have "filter (\<lambda>f. f \<noteq> []) (split_fields CHR ''/'' ?d) = filter (\<lambda>f. f \<noteq> []) (tl (split_fields CHR ''/'' ?d))"
    by (cases "split_fields CHR ''/'' ?d") auto
  with \<open>hd (split_fields CHR ''/'' ?d) = []\<close> show ?thesis
    using False t unfolding split_string_fields f by simp
qed

lemma segments_split_string: "segments path = split_string path CHR ''/''"
proof (induction path rule: segments.induct)
  case (1 path)
  let ?rest = "dropWhile (\<lambda>c. c = CHR ''/'') path"
  obtain first remaining where s: "split_path path = (first, remaining)" by fastforce
  have f: "first = takeWhile (\<lambda>c. c \<noteq> CHR ''/'') ?rest" "remaining = dropWhile (\<lambda>c. c \<noteq> CHR ''/'') ?rest"
    using s by (simp_all add: split_path_while Let_def)
  have rest: "?rest = [] \<or> hd ?rest \<noteq> CHR ''/''"
    using hd_dropWhile [of "\<lambda>c. c = CHR ''/''" path] by blast
  have "first = [] \<longleftrightarrow> ?rest = []" using rest f(1) by (cases ?rest) auto
  then show ?case
    using 1 [OF s [symmetric]] s split_string_first [OF rest] split_string_slashes [of path] f
    by (subst segments.simps) simp
qed

text \<open>The operations on segments.\<close>

fun set_segments :: "http_method \<Rightarrow> string list \<Rightarrow> 'e option \<Rightarrow> 'e http_router
    \<Rightarrow> unit outcome \<times> 'e http_router" where
  "set_segments meth [] endpoint r =
     (case get_endpoint_var meth r of
        Done (Some _) \<Rightarrow> (Threw (Runtime_error ''http_router set_endpoint: duplicate endpoint''), r)
      | Done None \<Rightarrow> (Done (), put_endpoint_var meth endpoint r)
      | Threw e \<Rightarrow> (Threw e, r)
      | Suspended \<Rightarrow> (Suspended, r)
      | Undefined \<Rightarrow> (Undefined, r))"
| "set_segments meth (first # ss) endpoint (Router g p rs q d) =
     (if hd first = CHR '':'' \<and> length first > 1
      then (let param = drop 1 first in
            if q \<noteq> [] \<and> q \<noteq> param
            then (Threw (Runtime_error ''http_router set_endpoint: path parameter name clash''), Router g p rs q d)
            else (case set_segments meth ss endpoint (case d of None \<Rightarrow> new_http_router | Some c \<Rightarrow> c) of
                    (out, c) \<Rightarrow> (out, Router g p rs param (Some c))))
      else if hd first = CHR '':''
      then (Threw (Runtime_error ''http_router set_endpoint: invalid path parameter name''), Router g p rs q d)
      else (case set_segments meth ss endpoint
              (case um_find rs first of None \<Rightarrow> new_http_router | Some c \<Rightarrow> c) of
              (out, c) \<Rightarrow> (out, Router g p (um_assign first c rs) q d)))"

lemma set_endpoint_segments: "set_endpoint meth path endpoint r = set_segments meth (segments path) endpoint r"
proof (induction meth path endpoint r rule: set_endpoint.induct)
  case (1 meth path endpoint r)
  obtain first remaining where s: "split_path path = (first, remaining)" by fastforce
  obtain g p rs q d where r: "r = Router g p rs q d" by (cases r)
  show ?case
  proof (cases "first = []")
    case True
    then show ?thesis using s by (subst set_endpoint.simps, subst segments.simps) simp
  next
    case False
    then have "segments path = first # segments remaining" using s by (subst segments.simps) simp
    then show ?thesis
      using 1(1) [OF s [symmetric] False r] 1(2) [OF s [symmetric] False r] s False r
      by (subst set_endpoint.simps) (simp add: Let_def)
  qed
qed

text \<open>A pattern of registered segments, and the endpoint registered for it.\<close>

datatype pattern_seg = Static string | Param

fun pattern :: "string list \<Rightarrow> pattern_seg list" where
  "pattern [] = []"
| "pattern (s # ss) = (if hd s = CHR '':'' \<and> length s > 1 then Param else Static s) # pattern ss"

fun endpoint_of :: "http_method \<Rightarrow> 'e http_router \<Rightarrow> 'e option" where
  "endpoint_of GET r = m_get_endpoint r"
| "endpoint_of POST r = m_post_endpoint r"
| "endpoint_of _ r = None"

fun lookup :: "http_method \<Rightarrow> 'e http_router \<Rightarrow> pattern_seg list \<Rightarrow> 'e option" where
  "lookup m r [] = endpoint_of m r"
| "lookup m r (Static s # ps) = (case um_find (m_routes r) s of None \<Rightarrow> None | Some c \<Rightarrow> lookup m c ps)"
| "lookup m r (Param # ps) = (case m_param_route r of None \<Rightarrow> None | Some c \<Rightarrow> lookup m c ps)"

lemma lookup_new [simp]: "lookup m new_http_router ps = None"
  by (cases "(m, new_http_router :: 'a http_router, ps)" rule: lookup.cases; cases m)
    (simp_all add: new_http_router_def)

lemma lookup_Router:
  "lookup m (Router g p rs q d) (Static s # ps) = (case um_find rs s of None \<Rightarrow> None | Some c \<Rightarrow> lookup m c ps)"
  "lookup m (Router g p rs q d) (Param # ps) = (case d of None \<Rightarrow> None | Some c \<Rightarrow> lookup m c ps)"
  "lookup m (Router g p rs q d) [] = endpoint_of m (Router g p rs q d)"
  by simp_all

lemma endpoint_of_children:
  "endpoint_of m (Router g p rs' q' d') = endpoint_of m (Router g p rs q d)"
  by (cases m) simp_all

lemma pattern_cases [case_names Nil Static Param]:
  "(ps = [] \<Longrightarrow> P) \<Longrightarrow> (\<And>s qs. ps = Static s # qs \<Longrightarrow> P) \<Longrightarrow> (\<And>qs. ps = Param # qs \<Longrightarrow> P) \<Longrightarrow> P"
  by (cases ps; cases "hd ps") auto

lemma set_segments_lookup:
  "set_segments m ss e r = (out, r') \<Longrightarrow>
   lookup m' r' ps = (if out = Done () \<and> m' = m \<and> ps = pattern ss then e else lookup m' r ps)"
proof (induction m ss e r arbitrary: out r' ps rule: set_segments.induct)
  case (1 m e r)
  obtain g p rs q d where r: "r = Router g p rs q d" by (cases r)
  show ?case
    using 1 unfolding r
    by (cases "(m', r', ps)" rule: lookup.cases; cases m; cases m')
      (auto split: option.splits)
next
  case (2 m s ss e g p rs q d)
  consider (param) "hd s = CHR '':''" "length s > 1" "q = [] \<or> q = drop 1 s"
    | (static) "hd s \<noteq> CHR '':''" | (fail) "r' = Router g p rs q d" "out \<noteq> Done ()"
    using 2(3) by (auto simp: Let_def split: if_splits)
  then show ?case
  proof cases
    case param
    let ?d = "case d of None \<Rightarrow> new_http_router | Some c \<Rightarrow> c"
    obtain c where c: "set_segments m ss e ?d = (out, c)" "r' = Router g p rs (drop 1 s) (Some c)"
      using 2(3) param by (auto simp: Let_def split: prod.splits if_splits)
    have IH: "lookup m' c ps = (if out = Done () \<and> m' = m \<and> ps = pattern ss then e else lookup m' ?d ps)" for ps
      using 2(1) [OF _ refl _ c(1)] param by auto
    show ?thesis
      unfolding c(2) using param IH
      by (cases ps rule: pattern_cases) (auto simp: lookup_Router endpoint_of_children split: option.split)
  next
    case static
    let ?d = "case um_find rs s of None \<Rightarrow> new_http_router | Some c \<Rightarrow> c"
    obtain c where c: "set_segments m ss e ?d = (out, c)" "r' = Router g p (um_assign s c rs) q d"
      using 2(3) static by (auto split: prod.splits)
    have IH: "lookup m' c ps = (if out = Done () \<and> m' = m \<and> ps = pattern ss then e else lookup m' ?d ps)" for ps
      using 2(2) [OF _ _ c(1)] static by auto
    show ?thesis
      unfolding c(2) using static IH
      by (cases ps rule: pattern_cases)
        (auto simp: lookup_Router endpoint_of_children um_find_assign split: option.split)
  next
    case fail
    then show ?thesis by simp
  qed
qed

section \<open>Well-formedness\<close>

text \<open>
  A parameter name is there exactly when the child for it is, all the way down.
\<close>

inductive router_wf :: "'e http_router \<Rightarrow> bool" where
  router_wfI: "(\<forall>k c. um_find rs k = Some c \<longrightarrow> router_wf c) \<Longrightarrow> (q = [] \<longleftrightarrow> d = None)
    \<Longrightarrow> (\<forall>c. d = Some c \<longrightarrow> router_wf c) \<Longrightarrow> router_wf (Router g p rs q d)"

inductive_simps router_wf_Router [simp]: "router_wf (Router g p rs q d)"

lemma router_wf_new [simp, wf_intros]: "router_wf new_http_router"
  by (simp add: new_http_router_def)

lemma router_wf_put [wf_intros]: "router_wf r \<Longrightarrow> router_wf (put_endpoint_var m e r)"
  by (cases r; cases m) simp_all

lemma router_wf_set_segments:
  "router_wf r \<Longrightarrow> set_segments m ss e r = (out, r') \<Longrightarrow> router_wf r'"
proof (induction m ss e r arbitrary: out r' rule: set_segments.induct)
  case (1 m e r)
  then show ?case by (auto intro: wf_intros split: outcome.splits option.splits)
next
  case (2 m s ss e g p rs q d)
  let ?dp = "case d of None \<Rightarrow> new_http_router | Some c \<Rightarrow> c"
  let ?ds = "case um_find rs s of None \<Rightarrow> new_http_router | Some c \<Rightarrow> c"
  have wf: "router_wf ?dp" "router_wf ?ds" using 2(3) by (auto split: option.split)
  consider (param) "hd s = CHR '':''" "length s > 1" "q = [] \<or> q = drop 1 s"
    | (static) "hd s \<noteq> CHR '':''" | (fail) "r' = Router g p rs q d"
    using 2(4) by (auto simp: Let_def split: if_splits)
  then show ?case
  proof cases
    case param
    obtain c where c: "set_segments m ss e ?dp = (out, c)" "r' = Router g p rs (drop 1 s) (Some c)"
      using 2(4) param by (auto simp: Let_def split: prod.splits if_splits)
    have "router_wf c" using 2(1) [OF _ refl _ wf(1) c(1)] param by auto
    then show ?thesis using c(2) 2(3) param(2) by auto
  next
    case static
    obtain c where c: "set_segments m ss e ?ds = (out, c)" "r' = Router g p (um_assign s c rs) q d"
      using 2(4) static by (auto split: prod.splits)
    have "router_wf c" using 2(2) [OF _ _ wf(2) c(1)] static by auto
    then show ?thesis using c(2) 2(3) by (auto simp: um_find_assign)
  next
    case fail
    then show ?thesis using 2(3) by simp
  qed
qed

section \<open>Matching\<close>

text \<open>
  The pattern that a path takes through the router, a static segment before the parameter, with the
  values of the parameters on the way; \<open>None\<close> at a dead end.
\<close>

fun chosen :: "'e http_router \<Rightarrow> string list \<Rightarrow> (pattern_seg list \<times> path_params) option" where
  "chosen r [] = Some ([], [])"
| "chosen r (s # ss) =
     (case um_find (m_routes r) s of
        Some c \<Rightarrow> map_option (\<lambda>(ps, bs). (Static s # ps, bs)) (chosen c ss)
      | None \<Rightarrow>
          (case m_param_route r of
             None \<Rightarrow> None
           | Some c \<Rightarrow> map_option (\<lambda>(ps, bs). (Param # ps, (m_path_param r, s) # bs)) (chosen c ss)))"

fun match_segments :: "http_method \<Rightarrow> string list \<Rightarrow> 'e http_router \<Rightarrow> (path_params, 'e option) comp" where
  "match_segments meth [] r params = (get_endpoint_var meth r, params)"
| "match_segments meth (s # ss) r params =
     (case um_find (m_routes r) s of
        Some c \<Rightarrow> match_segments meth ss c params
      | None \<Rightarrow>
          if m_path_param r \<noteq> []
          then (case m_param_route r of
                  None \<Rightarrow> (Undefined, um_assign (m_path_param r) s params)
                | Some c \<Rightarrow> match_segments meth ss c (um_assign (m_path_param r) s params))
          else (Done None, params))"

lemma router_match_segments: "router_match meth path r params = match_segments meth (segments path) r params"
proof (induction meth path r params rule: router_match.induct)
  case (1 meth path r params)
  obtain first remaining where s: "split_path path = (first, remaining)" by fastforce
  show ?case
  proof (cases "first = []")
    case True
    then show ?thesis using s by (subst router_match.simps, subst segments.simps) simp
  next
    case False
    then have "segments path = first # segments remaining" using s by (subst segments.simps) simp
    then show ?thesis
      using 1(1) [OF s [symmetric] False] 1(2) [OF s [symmetric] False] s False
      by (subst router_match.simps) (simp split: option.split)
  qed
qed

lemma get_endpoint_var_lookup:
  "get_endpoint_var m r = (if m = GET \<or> m = POST then Done (endpoint_of m r)
     else Threw (Runtime_error ''http_router get_endpoint_ptr: unsupported http method''))"
  by (cases m) simp_all

lemma match_segments_chosen:
  "router_wf r \<Longrightarrow> (case chosen r ss of
     Some (ps, bs) \<Rightarrow> match_segments m ss r params =
       (if m = GET \<or> m = POST then Done (lookup m r ps)
        else Threw (Runtime_error ''http_router get_endpoint_ptr: unsupported http method''),
        fold (\<lambda>(k, v). um_assign k v) bs params)
   | None \<Rightarrow> fst (match_segments m ss r params) = Done None)"
proof (induction ss arbitrary: r params)
  case Nil
  then show ?case by (simp add: get_endpoint_var_lookup)
next
  case (Cons s ss)
  obtain g p rs q d where r: "r = Router g p rs q d" by (cases r)
  consider (static) c where "um_find rs s = Some c" | (param) c where "um_find rs s = None" "d = Some c"
    | (dead) "um_find rs s = None" "d = None" by fastforce
  then show ?case
  proof cases
    case static
    then have "router_wf c" using Cons.prems r by auto
    from Cons.IH [OF this, of params] static r show ?thesis
      by (cases "chosen c ss") auto
  next
    case param
    then have "router_wf c" "q \<noteq> []" using Cons.prems r by auto
    with Cons.IH [OF this(1), of "um_assign q s params"] param r show ?thesis
      by (cases "chosen c ss") auto
  next
    case dead
    then show ?thesis using Cons.prems r by auto
  qed
qed

text \<open>A static path that has been registered is chosen as it is.\<close>

definition static_segment :: "string \<Rightarrow> bool" where
  "static_segment s \<longleftrightarrow> hd s \<noteq> CHR '':''"

lemma set_segments_choose_static:
  "set_segments m ss e r = (Done (), r') \<Longrightarrow> list_all static_segment ss
   \<Longrightarrow> chosen r' ss = Some (pattern ss, [])"
proof (induction m ss e r arbitrary: r' rule: set_segments.induct)
  case (2 m s ss e g p rs q d)
  let ?d = "case um_find rs s of None \<Rightarrow> new_http_router | Some c \<Rightarrow> c"
  have st: "hd s \<noteq> CHR '':''" "list_all static_segment ss" using 2(4) by (auto simp: static_segment_def list_all_iff)
  obtain c where c: "set_segments m ss e ?d = (Done (), c)" "r' = Router g p (um_assign s c rs) q d"
    using 2(3) st by (auto split: prod.splits)
  have "chosen c ss = Some (pattern ss, [])" using 2(2) [OF _ _ c(1) st(2)] st(1) by simp
  then show ?case using c(2) st(1) by (simp add: um_find_assign)
qed simp

section \<open>Properties\<close>

text \<open>
  C30: registering never breaks the router, also when it throws half way: a router built by registrations has
  a child for every parameter name, so matching a path never follows a null pointer, whatever the path.
\<close>

theorem router_match_never_undefined:
  "router_wf r \<Longrightarrow> router_wf (snd (set_endpoint m path e r))
    \<and> router_wf (new_http_router :: 'e http_router)
    \<and> fst (router_match m' path' (snd (set_endpoint m path e r)) params) \<noteq> Undefined"
proof -
  assume wf: "router_wf r"
  obtain out r' where s: "set_endpoint m path e r = (out, r')" by fastforce
  have wf': "router_wf r'" using router_wf_set_segments [OF wf] s by (auto simp: set_endpoint_segments)
  have "fst (router_match m' path' r' params) \<noteq> Undefined"
    using match_segments_chosen [OF wf', where ss = "segments path'" and m = m' and params = params]
    by (auto simp: router_match_segments split: option.splits if_splits)
  with s wf' show ?thesis by simp
qed

theorem router_match_never_undefined_witness:
  "fst (router_match GET ''/a/b'' (snd (set_endpoint GET ''/:x/b'' (Some 1) new_http_router)) []) \<noteq> (Undefined :: nat option outcome)"
  using router_match_never_undefined [OF router_wf_new, where path' = "''/a/b''" and m' = GET and m = GET
      and path = "''/:x/b''" and e = "Some (1 :: nat)" and params = "[]"] by blast

text \<open>
  registration is an update of the map from methods and patterns to endpoints: a registration that returns
  adds its endpoint under its method and pattern, where there was none, and changes nothing else; one that
  throws changes nothing. All that counts of a path are its non-empty segments.
\<close>

theorem set_endpoint_updates_lookup:
  "(case set_endpoint m path e r of
      (Done _, r') \<Rightarrow> \<forall>m' ps. lookup m' r' ps
        = (if m' = m \<and> ps = pattern (split_string path CHR ''/'') then e else lookup m' r ps)
    | (_, r') \<Rightarrow> \<forall>m' ps. lookup m' r' ps = lookup m' r ps)
    \<and> set_endpoint m (join CHR ''/'' (split_string path CHR ''/'')) e r = set_endpoint m path e r"
proof -
  let ?ss = "split_string path CHR ''/''"
  obtain out r' where s: "set_segments m (segments path) e r = (out, r')" by fastforce
  have "list_all (\<lambda>f. CHR ''/'' \<notin> set f) ?ss"
    using fields_free [of "CHR ''/''" path] by (simp add: split_string_fields list_all_iff)
  then have "split_string (join CHR ''/'' ?ss) CHR ''/'' = filter (\<lambda>f. f \<noteq> []) ?ss"
    by (cases "?ss = []") (simp_all add: split_string_fields fields_join)
  then have "segments (join CHR ''/'' ?ss) = segments path"
    by (simp add: segments_split_string split_string_fields)
  with set_segments_lookup [OF s] s show ?thesis
    by (cases out) (simp_all add: set_endpoint_segments segments_split_string)
qed

text \<open>
  C38: matching returns the endpoint registered for the pattern the path takes, a static segment
  being preferred to the parameter at every step, and collects the parameters on the way; there is none
  at a dead end. The methods HEAD and OPTIONS throw as soon as the path leads anywhere.
\<close>

theorem router_match_chooses:
  "router_wf r \<Longrightarrow> (case chosen r (split_string path CHR ''/'') of
     Some (ps, bs) \<Rightarrow> router_match m path r params =
       (if m = GET \<or> m = POST then Done (lookup m r ps)
        else Threw (Runtime_error ''http_router get_endpoint_ptr: unsupported http method''),
        fold (\<lambda>(k, v). um_assign k v) bs params)
   | None \<Rightarrow> fst (router_match m path r params) = Done None)"
  using match_segments_chosen [of r, where ss = "segments path" and m = m and params = params]
  unfolding router_match_segments segments_split_string .

theorem router_match_chooses_witness:
  "router_match HEAD ''/'' (new_http_router :: nat http_router) []
    = (Threw (Runtime_error ''http_router get_endpoint_ptr: unsupported http method''), [])"
  using router_match_chooses [OF router_wf_new, where path = "''/''" and m = HEAD and params = "[]"]
  by (simp add: split_string_fields)

text \<open>
  a static path that has been registered is served: the next match of any path with the same
  segments returns the endpoint, with no parameter, whatever else is registered.
\<close>

theorem registered_static_path_matches:
  assumes "router_wf r" "set_endpoint m path (Some e) r = (Done (), r')"
    "list_all static_segment (split_string path CHR ''/'')"
    "split_string path' CHR ''/'' = split_string path CHR ''/''"
  shows "router_match m path' r' params = (Done (Some e), params)"
proof -
  let ?ss = "split_string path CHR ''/''"
  have s: "set_segments m ?ss (Some e) r = (Done (), r')"
    using assms(2) by (simp add: set_endpoint_segments segments_split_string)
  have l: "lookup m r' (pattern ?ss) = Some e" using set_segments_lookup [OF s, of m "pattern ?ss"] by simp
  have "m = GET \<or> m = POST"
  proof (rule ccontr)
    assume "\<not> (m = GET \<or> m = POST)"
    then have "endpoint_of m q = None" for q :: "'a http_router" by (cases m) auto
    then have "lookup m q ps = None" for q :: "'a http_router" and ps
      by (induction m q ps rule: lookup.induct) (auto split: option.split)
    with l show False by simp
  qed
  then show ?thesis
    using match_segments_chosen [OF router_wf_set_segments [OF assms(1) s], where ss = ?ss and m = m and params = params]
      set_segments_choose_static [OF s assms(3)] l assms(4)
    by (auto simp: router_match_segments segments_split_string)
qed

theorem registered_static_path_matches_witness:
  "router_match POST ''/a//b'' (snd (set_endpoint POST ''a/b/'' (Some (7 :: nat)) new_http_router)) [] = (Done (Some 7), [])"
proof -
  have p: "split_string ''a/b/'' CHR ''/'' = [''a'', ''b'']" "split_string ''/a//b'' CHR ''/'' = [''a'', ''b'']"
    by (simp_all add: split_string_fields)
  obtain r' where s: "set_endpoint POST ''a/b/'' (Some (7 :: nat)) new_http_router = (Done (), r')"
    by (simp add: set_endpoint_segments segments_split_string p new_http_router_def)
  have "list_all static_segment [''a'', ''b'']" by (simp add: static_segment_def)
  then show ?thesis
    using registered_static_path_matches [OF router_wf_new s, of "''/a//b''"] unfolding p s snd_conv by blast
qed

end
