(* ===== verification/Http_Server.thy ===== *)
theory Http_Server
  imports Http_Output Http_Request Http_Router "HOL-Library.Multiset"
begin

text \<open>
  \<open>cppevent_http/http_server\<close>: the loop over the requests of one connection. The code of an endpoint is an
  argument, \<open>serve\<close>; what the server needs of it is the contract \<open>http_endpoint\<close>, which the endpoint of
  \<open>examples/http_hello\<close> is proved to meet. \<open>order\<close> is the order in which a response walks over its
  headers and \<open>shut\<close> the call of \<open>shutdown(2)\<close> that ends the connection. The loop may run as long
  as requests arrive, so it has fuel; each turn that goes on has used up a line of input, which bounds the fuel
  that is needed.
\<close>

section \<open>Operations\<close>

text \<open>One exchange: the body of the request and the response, on the same socket.\<close>

type_synonym exchange = "http_body \<times> http_output \<times> socket"

definition on_body :: "(http_body \<times> socket, 'a) comp \<Rightarrow> (exchange, 'a) comp" where
  "on_body m x = (case x of (b, res, s) \<Rightarrow> case m (b, s) of (r, (b', s')) \<Rightarrow> (r, (b', res, s')))"

definition on_res :: "(http_output \<times> socket, 'a) comp \<Rightarrow> (exchange, 'a) comp" where
  "on_res m x = (case x of (b, res, s) \<Rightarrow> case m (res, s) of (r, (res', s')) \<Rightarrow> (r, (b, res', s')))"

definition get_default_conn_type :: "http_version \<Rightarrow> string" where
  "get_default_conn_type version = (case version of HTTP_1_0 \<Rightarrow> ''close'' | HTTP_1_1 \<Rightarrow> ''keep-alive'')"

text \<open>The header lines up to the empty one; \<open>None\<close> when the connection is to be closed.\<close>

function read_headers :: "http_request \<Rightarrow> (socket, http_request option) comp" where
  "read_headers req s =
     (case read_http_line s of
        (Done line, s1) \<Rightarrow>
          if has_value line
          then (case process_header_line (m_val line) req of
                  (True, req') \<Rightarrow> read_headers req' s1
                | (False, req') \<Rightarrow> (Done None, s1))
          else (Done (if is_last_line line then Some req else None), s1)
      | (Threw e, s1) \<Rightarrow> (Threw e, s1)
      | (Suspended, s1) \<Rightarrow> (Suspended, s1)
      | (Undefined, s1) \<Rightarrow> (Undefined, s1))"
  by pat_completeness auto

lemma recv_incoming_work: "rx_work (snd (recv_incoming s)) \<le> rx_work s"
proof (cases "fst (recv_incoming s)")
  case (Done status)
  then obtain s' where r: "recv_incoming s = (Done status, s')" by (metis prod.collapse)
  then show ?thesis using recv_incoming_Done [OF r] by (simp add: rx_work_def) linarith
qed (auto simp: recv_incoming_def Let_def split: prod.splits option.splits)

lemma peek_work: "rx_work (snd (peek s)) \<le> rx_work s"
proof -
  obtain r s1 where "recv_incoming s = (r, s1)" by (cases "recv_incoming s")
  then show ?thesis
    using recv_incoming_work [of s]
    by (cases r) (auto simp: peek_def Let_def and_then_def return_def throw_def)
qed

lemma line_loop_work:
  "rx_work (snd (line_loop line s)) \<le> rx_work s
   \<and> (\<forall>l s'. line_loop line s = (Done (l, True), s') \<longrightarrow> rx_work s' < rx_work s)"
proof (induction line s rule: line_loop.induct)
  case (1 line s)
  show ?case
  proof (cases "\<exists>chunk s1. peek s = (Done chunk, s1) \<and> chunk \<noteq> []")
    case False
    then show ?thesis
      using peek_work [of s]
      by (subst (1 2) line_loop.simps) (cases "peek s"; cases "fst (peek s)"; auto)
  next
    case True
    then obtain chunk s1 where p: "peek s = (Done chunk, s1)" "chunk \<noteq> []" by blast
    obtain offset line' ended where sc: "scan_chunk chunk 0 line = (offset, line', ended)"
      by (metis prod_cases3)
    have "rx_work (seek (int offset) s1) < rx_work s"
      using peek_Done [OF p(1)] scan_chunk_bounds [OF sc] p(2) seek_work [of offset s1] by auto
    then show ?thesis
      using 1 [OF p(1) [symmetric] refl p(2) sc [symmetric] refl refl] p sc
      by (subst (1 2) line_loop.simps) (cases ended; auto simp: Let_def)
  qed
qed

lemma read_http_line_work:
  "rx_work (snd (read_http_line s)) \<le> rx_work s
   \<and> (\<forall>l s'. read_http_line s = (Done l, s') \<and> m_received l \<longrightarrow> rx_work s' < rx_work s)"
proof -
  obtain r s' where l: "line_loop [] s = (r, s')" by (cases "line_loop [] s")
  then show ?thesis
    using line_loop_work [of "[]" s]
    by (cases r) (auto simp: read_http_line_def and_then_def return_def)
qed

termination read_headers
proof (relation "measure (\<lambda>(_, s). rx_work s)", goal_cases)
  case 1
  show ?case by simp
next
  case prems: (2 req s r s1 line)
  then show ?case using read_http_line_work [of s] by (auto simp: has_value_def dest: sym)
qed

declare read_headers.simps [simp del]

definition read_request :: "(socket, http_request option) comp" where
  "read_request =
     and_then read_http_line (\<lambda>req_line.
     if \<not> has_value req_line then return None
     else case process_req_line (m_val req_line) new_http_request of
            (True, req) \<Rightarrow> read_headers req
          | (False, req) \<Rightarrow> return None)"

definition CONTENT_LENGTH :: string where
  "CONTENT_LENGTH = ''content-length''"

text \<open>\<open>content_len\<close> and \<open>content_ended\<close>; \<open>None\<close> when the connection is to be closed.\<close>

definition content_framing :: "http_request \<Rightarrow> (int \<times> bool) option" where
  "content_framing req =
     (let content_len_sv = (case get_header req CONTENT_LENGTH of None \<Rightarrow> [] | Some v \<Rightarrow> v);
          transfer_encode_sv = (case get_header req TRANSFER_ENCODING of None \<Rightarrow> [] | Some v \<Rightarrow> v)
      in if content_len_sv \<noteq> []
         then (case from_chars_long 10 content_len_sv of
                 Parsed content_len _ \<Rightarrow> if content_len < 0 then None else Some (content_len, True)
               | _ \<Rightarrow> None)
         else if find_case_insensitive transfer_encode_sv ''chunked'' \<noteq> None then Some (0, False)
         else Some (0, True))"

text \<open>Serving one request that has been read, and whether the connection is kept.\<close>

definition not_found :: "(http_output \<times> socket, unit) comp" where
  "not_found p =
     (case set_content_length 0 (set_status NOT_FOUND (fst p)) of (r, res) \<Rightarrow> (r, (res, snd p)))"

definition keep_connection :: "http_request \<Rightarrow> bool \<Rightarrow> bool outcome" where
  "keep_connection req incoming_left =
     out_bind (case get_header req ''connection'' of
                 Some v \<Rightarrow> Done v
               | None \<Rightarrow> out_bind (get_version req) (\<lambda>v. Done (get_default_conn_type v)))
       (\<lambda>connection_sv. Done (\<not> incoming_left \<and> find_case_insensitive connection_sv ''keep-alive'' \<noteq> None))"

definition handle_request :: "(header_map \<Rightarrow> header_map) \<Rightarrow> ('e \<Rightarrow> http_request \<Rightarrow> (exchange, unit) comp)
    \<Rightarrow> 'e http_router \<Rightarrow> http_request \<Rightarrow> (exchange, bool) comp" where
  "handle_request order serve router req =
     and_then (Pair (get_method req)) (\<lambda>meth.
     case router_match meth (get_path req) router [] of (found, path_params) \<Rightarrow>
     and_then (Pair found) (\<lambda>endpoint.
     let req = set_path_params path_params req in
     and_then (case endpoint of Some e \<Rightarrow> serve e req | None \<Rightarrow> on_res not_found) (\<lambda>_.
     and_then (on_res (http_end order)) (\<lambda>_.
     and_then (on_body has_incoming) (\<lambda>incoming_left. Pair (keep_connection req incoming_left))))))"

definition serve_request :: "(header_map \<Rightarrow> header_map) \<Rightarrow> ('e \<Rightarrow> http_request \<Rightarrow> (exchange, unit) comp)
    \<Rightarrow> 'e http_router \<Rightarrow> (socket, bool) comp" where
  "serve_request order serve router =
     and_then read_request (\<lambda>request.
     case request of
       None \<Rightarrow> return False
     | Some req \<Rightarrow>
         (case content_framing req of
            None \<Rightarrow> return False
          | Some (content_len, content_ended) \<Rightarrow>
              (\<lambda>s. case handle_request order serve router req (new_http_body content_len content_ended, new_http_output, s) of
                     (r, (b, res, s')) \<Rightarrow> (r, s'))))"

fun on_connection :: "nat \<Rightarrow> (header_map \<Rightarrow> header_map) \<Rightarrow> ('e \<Rightarrow> http_request \<Rightarrow> (exchange, unit) comp)
    \<Rightarrow> 'e http_router \<Rightarrow> (socket, unit) comp \<Rightarrow> socket \<Rightarrow> (unit outcome \<times> socket) option" where
  "on_connection 0 order serve router shut s = None"
| "on_connection (Suc fuel) order serve router shut s =
     (case serve_request order serve router s of
        (Done keep_conn, s') \<Rightarrow>
          if keep_conn then on_connection fuel order serve router shut s' else Some (shut s')
      | (Threw e, s') \<Rightarrow> Some (Threw e, s')
      | (Suspended, s') \<Rightarrow> Some (Suspended, s')
      | (Undefined, s') \<Rightarrow> Some (Undefined, s'))"

text \<open>The endpoint of \<open>examples/http_hello\<close>.\<close>

definition RES_MESSAGE :: string where
  "RES_MESSAGE = ''Hello, from http''"

definition hello_serve :: "(header_map \<Rightarrow> header_map) \<Rightarrow> 'e \<Rightarrow> http_request \<Rightarrow> (exchange, unit) comp" where
  "hello_serve order e req =
     on_res (and_then (update (set_status OK)) (\<lambda>_.
             and_then (on_fst (set_content_length (int (length RES_MESSAGE)))) (\<lambda>_.
             and_then (update (set_header ''content-type'' ''text/plain'')) (\<lambda>_.
             http_write_sv order RES_MESSAGE))))"

section \<open>Writing leaves the input alone\<close>

definition quiet :: "('o \<times> socket, 'a) comp \<Rightarrow> bool" where
  "quiet m \<longleftrightarrow> (\<forall>p. sock_wf (snd p) \<longrightarrow> sock_wf (snd (snd (m p))) \<and> same_in (snd p) (snd (snd (m p))))"

lemma quietD: "quiet m \<Longrightarrow> sock_wf (snd p) \<Longrightarrow> m p = (r, p') \<Longrightarrow> sock_wf (snd p') \<and> same_in (snd p) (snd p')"
  unfolding quiet_def by (metis snd_conv)

named_theorems quiet_intros \<open>computations that leave the input of the socket alone\<close>

lemma quiet_and_then [quiet_intros]:
  assumes "quiet m" "\<And>a. quiet (f a)"
  shows "quiet (and_then m f)"
  unfolding quiet_def
proof (intro allI impI)
  fix p :: "'a \<times> socket" assume wf: "sock_wf (snd p)"
  obtain r p1 where m: "m p = (r, p1)" by (cases "m p")
  have 1: "sock_wf (snd p1) \<and> same_in (snd p) (snd p1)" by (rule quietD [OF assms(1) wf m])
  show "sock_wf (snd (snd (and_then m f p))) \<and> same_in (snd p) (snd (snd (and_then m f p)))"
  proof (cases r)
    case (Done a)
    obtain r2 p2 where f: "f a p1 = (r2, p2)" by (cases "f a p1")
    have "sock_wf (snd p2) \<and> same_in (snd p1) (snd p2)" using quietD [OF assms(2) _ f] 1 by blast
    then show ?thesis using m f Done 1 by (auto simp: and_then_def intro: same_in_trans)
  qed (use m 1 in \<open>simp_all add: and_then_def\<close>)
qed

lemma same_in_refl: "same_in s s"
  by (simp add: same_in_def)

lemma quiet_plain [quiet_intros]:
  "quiet (Pair r)" "quiet (return a)" "quiet (throw e)" "quiet (update f)" "quiet (on_fst m)"
  by (auto simp: quiet_def return_def throw_def update_def on_fst_def same_in_refl split: prod.splits)

lemma quiet_raw_write [quiet_intros]: "quiet (raw_write src (int (length src)))"
proof -
  have "\<exists>r s'. sock_write src (int (length src)) s = (r, s') \<and> sock_wf s' \<and> same_in s s'" if "sock_wf s" for s
    using sock_write_handed [OF that, of src] by (auto simp: handed_def)
  then show ?thesis by (fastforce simp: quiet_def raw_write_def on_snd_def)
qed

lemma quiet_raw_write_sv [quiet_intros]: "quiet (raw_write_sv t)"
  using quiet_raw_write [of "bytes t"] by (simp add: raw_write_sv_def)

lemma quiet_write_header_lines [quiet_intros]: "quiet (write_header_lines hs)"
proof (induction hs)
  case (Cons h hs)
  then show ?case by (cases h) (simp only: write_header_lines.simps, intro quiet_intros)
qed (simp add: quiet_intros)

lemma quiet_case:
  "(\<And>p. m p = f (fst p) p) \<Longrightarrow> (\<And>res. quiet (f res)) \<Longrightarrow> quiet m"
  by (simp add: quiet_def)

lemma quiet_write_headers [quiet_intros]: "quiet (write_headers order)"
proof (rule quiet_case [where f = "\<lambda>res. if m_headers_written res then Pair (Done ())
      else and_then (update (\<lambda>res. res\<lparr>m_chunked_encoding := chunked_headers (m_headers res)\<rparr>)) (\<lambda>_.
           and_then (raw_write_sv HTTP_1_1_STR) (\<lambda>_.
           and_then (Pair (get_status_reason_phrase (m_status res))) (\<lambda>phrase.
           and_then (raw_write_sv phrase) (\<lambda>_.
           and_then (raw_write_sv CRLF_SEPARATOR) (\<lambda>_.
           and_then (write_header_lines (order (m_headers res))) (\<lambda>_.
           and_then (raw_write_sv CRLF_SEPARATOR) (\<lambda>_.
           update (\<lambda>res. res\<lparr>m_headers_written := True\<rparr>))))))))"])
qed (simp_all add: write_headers_def quiet_intros)

lemma quiet_write_content [quiet_intros]: "quiet (write_content src (int (length src)))"
proof (rule quiet_case [where f = "\<lambda>res. if m_chunked_encoding res
      then let digits = to_chars HEX_BASE (int (length src)) in
           if length digits > SERIALIZE_BUFFER_SIZE
           then throw (Runtime_error ''http_output write: size too large'')
           else and_then (raw_write (bytes digits) (int (length digits))) (\<lambda>_.
                and_then (raw_write_sv CRLF_SEPARATOR) (\<lambda>_.
                and_then (raw_write src (int (length src))) (\<lambda>_.
                raw_write_sv CRLF_SEPARATOR)))
      else raw_write src (int (length src))"])
  fix res :: http_output
  have "quiet (raw_write (bytes t) (int (length t)))" for t using quiet_raw_write [of "bytes t"] by simp
  then show "quiet (if m_chunked_encoding res
      then let digits = to_chars HEX_BASE (int (length src)) in
           if length digits > SERIALIZE_BUFFER_SIZE
           then throw (Runtime_error ''http_output write: size too large'')
           else and_then (raw_write (bytes digits) (int (length digits))) (\<lambda>_.
                and_then (raw_write_sv CRLF_SEPARATOR) (\<lambda>_.
                and_then (raw_write src (int (length src))) (\<lambda>_.
                raw_write_sv CRLF_SEPARATOR)))
      else raw_write src (int (length src)))"
    by (simp add: quiet_intros Let_def)
qed (simp add: write_content_def throw_def Let_def)

lemma quiet_http_write_sv [quiet_intros]: "quiet (http_write_sv order sv)"
  using quiet_write_content [of "bytes sv"]
  by (auto simp: http_write_sv_def http_write_def intro!: quiet_intros)

lemma quiet_flush [quiet_intros]: "quiet (on_snd flush)"
proof -
  have "\<exists>r s'. flush s = (r, s') \<and> sock_wf s' \<and> same_in s s'" if "sock_wf s" for s
    using flush_handed [OF that] by (auto simp: handed_def)
  then show ?thesis by (fastforce simp: quiet_def on_snd_def)
qed

lemma quiet_http_end [quiet_intros]: "quiet (http_end order)"
proof -
  have "quiet (\<lambda>p. if m_chunked_encoding (fst p) then raw_write_sv LAST_CHUNK p else (Done (), p))"
    by (rule quiet_case [where f = "\<lambda>res. if m_chunked_encoding res then raw_write_sv LAST_CHUNK else Pair (Done ())"])
      (simp_all add: quiet_intros)
  then show ?thesis unfolding http_end_def by (intro quiet_intros)
qed

lemma quiet_not_found [quiet_intros]: "quiet not_found"
  by (auto simp: quiet_def not_found_def same_in_refl split: prod.splits)

section \<open>Reading keeps the socket well-formed and uses up input\<close>

definition calm :: "socket \<Rightarrow> socket \<Rightarrow> bool" where
  "calm s s' \<longleftrightarrow> sock_wf s' \<and> rx_work s' \<le> rx_work s"

lemma calm_trans: "calm s s1 \<Longrightarrow> calm s1 s2 \<Longrightarrow> calm s s2"
  by (simp add: calm_def)

lemma calm_refl: "sock_wf s \<Longrightarrow> calm s s"
  by (simp add: calm_def)

lemma calm_same_in: "sock_wf s' \<Longrightarrow> same_in s s' \<Longrightarrow> calm s s'"
  by (simp add: calm_def same_in_def rx_work_def)

lemma read_http_line_calm:
  assumes "sock_wf s" "read_http_line s = (r, s')"
  shows "calm s s'"
proof -
  have "sock_wf s'"
    using read_http_line_read [OF assms(1)] assms(2)
    by (auto simp: line_read_def consumed_def exhausted_def split: if_splits option.splits)
  then show ?thesis using read_http_line_work [of s] assms(2) by (simp add: calm_def)
qed

lemma read_http_line_used:
  "read_http_line s = (Done l, s') \<Longrightarrow> has_value l \<Longrightarrow> rx_work s' < rx_work s"
  using read_http_line_work [of s] by (simp add: has_value_def)

lemma read_headers_calm:
  "sock_wf s \<Longrightarrow> read_headers req s = (r, s') \<Longrightarrow> calm s s'"
proof (induction req s arbitrary: r s' rule: read_headers.induct)
  case (1 req s)
  obtain r1 s1 where l: "read_http_line s = (r1, s1)" by (cases "read_http_line s")
  have c: "calm s s1" by (rule read_http_line_calm [OF 1(2) l])
  show ?case
  proof (cases "\<exists>line req'. r1 = Done line \<and> has_value line \<and> process_header_line (m_val line) req = (True, req')")
    case True
    then obtain line req' where d: "r1 = Done line" "has_value line"
      "process_header_line (m_val line) req = (True, req')" by blast
    then have "read_headers req' s1 = (r, s')"
      using 1(3) l by (subst (asm) read_headers.simps) simp
    then have "calm s1 s'"
      using 1(1) [OF l [symmetric] d(1,2) d(3) [symmetric]] c by (simp add: calm_def)
    with c show ?thesis by (rule calm_trans)
  next
    case False
    then have "s' = s1"
      using 1(3) l by (subst (asm) read_headers.simps) (auto split: outcome.splits if_splits bool.splits prod.splits)
    with c show ?thesis by simp
  qed
qed

lemma read_request_calm:
  assumes "sock_wf s" "read_request s = (Done (Some req), s')"
  shows "calm s s'" "rx_work s' < rx_work s"
proof -
  obtain l s1 req0 where l: "read_http_line s = (Done l, s1)" "has_value l" "read_headers req0 s1 = (Done (Some req), s')"
    using assms(2)
    by (auto simp: read_request_def return_def elim!: and_then_DoneE split: if_splits prod.splits bool.splits)
  have c: "calm s s1" by (rule read_http_line_calm [OF assms(1) l(1)])
  then have c2: "calm s1 s'" using read_headers_calm [OF _ l(3)] by (simp add: calm_def)
  show "calm s s'" using c c2 by (rule calm_trans)
  show "rx_work s' < rx_work s" using read_http_line_used [OF l(1,2)] c2 by (simp add: calm_def)
qed

lemma has_incoming_calm:
  assumes "sock_wf s" "has_incoming (b, s) = (Done left, (b', s'))"
  shows "calm s s'"
proof (cases "m_incoming b > 0 \<or> m_ended b")
  case True
  then show ?thesis using assms by (auto simp: has_incoming_def return_def calm_refl)
next
  case False
  have step: "\<exists>b1 s1. p1 = (b1, s1) \<and> b1 = b0 \<and> calm s0 s1"
    if "sock_wf s0" "on_snd read_http_line (b0, s0) = (Done l, p1)" for b0 :: http_body and s0 l p1
    using read_http_line_calm [OF that(1)] that(2) by (auto simp: on_snd_def split: prod.splits)
  obtain l1 p1 l2 p2 where 1: "on_snd read_http_line (b, s) = (Done l1, p1)"
    "(if is_last_line l1 then on_snd read_http_line else return l1) p1 = (Done l2, p2)"
    "start_chunk l2 p2 = (Done left, (b', s'))"
    using assms(2) False by (auto simp: has_incoming_def elim!: and_then_DoneE)
  obtain s1 where p1: "p1 = (b, s1)" "calm s s1" using step [OF assms(1) 1(1)] by blast
  have wf1: "sock_wf s1" using p1(2) by (simp add: calm_def)
  obtain s2 where p2: "p2 = (b, s2)" "calm s1 s2"
    using step [OF wf1, of b l2 p2] 1(2) p1(1) calm_refl [OF wf1] by (auto simp: return_def split: if_splits)
  have wf2: "sock_wf s2" using p2(2) by (simp add: calm_def)
  have "calm s2 s'"
    using 1(3) step [OF wf2] calm_refl [OF wf2] unfolding p2(1)
    by (fastforce simp: start_chunk_def throw_def return_def on_fst_def set_incoming_def set_ended_def
        elim!: and_then_DoneE split: if_splits)
  with p1(2) p2(2) show ?thesis by (meson calm_trans)
qed

section \<open>The contract of an endpoint\<close>

text \<open>
  An endpoint reads what it likes of the body and writes the response, through their operations: it keeps the
  socket well-formed, makes up no input, and leaves the body in step with the stream.
\<close>

definition endpoint_ok :: "('e \<Rightarrow> http_request \<Rightarrow> (exchange, unit) comp) \<Rightarrow> bool" where
  "endpoint_ok serve \<longleftrightarrow> (\<forall>e req b res s b' res' s'. sock_wf s
     \<longrightarrow> serve e req (b, res, s) = (Done (), (b', res', s'))
     \<longrightarrow> calm s s' \<and> (\<forall>ps rest. body_holds b (incoming s) ps rest
           \<longrightarrow> (\<exists>ps'. body_holds b' (incoming s') ps' rest)))"

locale http_endpoint =
  fixes serve :: "'e \<Rightarrow> http_request \<Rightarrow> (exchange, unit) comp"
  assumes ok: "endpoint_ok serve"
begin

lemma serve_calm:
  "sock_wf s \<Longrightarrow> serve e req (b, res, s) = (Done (), (b', res', s')) \<Longrightarrow> calm s s'"
  using ok unfolding endpoint_ok_def by blast

lemma serve_holds:
  "sock_wf s \<Longrightarrow> serve e req (b, res, s) = (Done (), (b', res', s'))
   \<Longrightarrow> body_holds b (incoming s) ps rest \<Longrightarrow> \<exists>ps'. body_holds b' (incoming s') ps' rest"
  using ok unfolding endpoint_ok_def by blast

lemma handle_request_steps:
  assumes "sock_wf s" "handle_request order serve router req (b, res, s) = (Done keep, (b', res', s'))"
  obtains b1 s1 s2 left where "calm s s1" "sock_wf s2" "same_in s1 s2"
    "has_incoming (b1, s2) = (Done left, (b', s'))" "keep \<longrightarrow> \<not> left"
    "\<And>ps rest. body_holds b (incoming s) ps rest \<Longrightarrow> \<exists>ps'. body_holds b1 (incoming s1) ps' rest"
proof -
  obtain endpoint r1 b1 res1 s1 b2 res2 s2 left where
    1: "(case endpoint of Some e \<Rightarrow> serve e r1 | None \<Rightarrow> on_res not_found) (b, res, s) = (Done (), (b1, res1, s1))"
    and 2: "on_res (http_end order) (b1, res1, s1) = (Done (), (b2, res2, s2))"
    and 3: "on_body has_incoming (b2, res2, s2) = (Done left, (b', res', s'))"
    and 4: "keep_connection r1 left = Done keep"
    using assms(2)
    by (auto simp: handle_request_def Let_def elim!: and_then_DoneE split: prod.splits)
  have c: "calm s s1 \<and> (\<forall>ps rest. body_holds b (incoming s) ps rest \<longrightarrow> (\<exists>ps'. body_holds b1 (incoming s1) ps' rest))"
  proof (cases endpoint)
    case None
    then have "snd (snd (not_found (res, s))) = s1" "b1 = b"
      using 1 by (auto simp: on_res_def split: prod.splits)
    moreover from this have "sock_wf s1 \<and> same_in s s1"
      using quiet_not_found assms(1) by (auto simp: quiet_def)
    ultimately show ?thesis by (auto simp: calm_same_in same_in_def incoming_def)
  next
    case (Some e)
    then show ?thesis using 1 serve_calm [OF assms(1)] serve_holds [OF assms(1)] by fastforce
  qed
  have e: "http_end order (res1, s1) = (Done (), (res2, s2))" "b2 = b1"
    using 2 by (auto simp: on_res_def split: prod.splits)
  have q: "sock_wf s2 \<and> same_in s1 s2"
    using quietD [OF quiet_http_end _ e(1)] c by (simp add: calm_def)
  have "has_incoming (b1, s2) = (Done left, (b', s'))"
    using 3 e(2) by (auto simp: on_body_def split: prod.splits)
  moreover have "keep \<longrightarrow> \<not> left"
    using 4 by (auto simp: keep_connection_def elim!: out_bind_DoneE)
  ultimately show thesis using that [of s1 s2 b1 left] c q by blast
qed

lemma handle_request_calm:
  assumes "sock_wf s" "handle_request order serve router req (b, res, s) = (Done keep, (b', res', s'))"
  shows "calm s s'"
proof -
  obtain b1 s1 s2 left where "calm s s1" "sock_wf s2" "same_in s1 s2" "has_incoming (b1, s2) = (Done left, (b', s'))"
    by (rule handle_request_steps [OF assms])
  then show ?thesis by (meson calm_trans calm_same_in has_incoming_calm)
qed

text \<open>A connection is only kept when the body has been read to its end.\<close>

lemma handle_request_boundary:
  assumes "sock_wf s" "handle_request order serve router req (b, res, s) = (Done True, (b', res', s'))"
    "body_holds b (incoming s) ps rest"
  shows "incoming s' = rest"
proof -
  obtain b1 s1 s2 left where 1: "sock_wf s2" "same_in s1 s2" "has_incoming (b1, s2) = (Done left, (b', s'))"
    "\<not> left" and h: "\<exists>ps'. body_holds b1 (incoming s1) ps' rest"
    using handle_request_steps [OF assms(1,2)] assms(3) by metis
  obtain ps' where "body_holds b1 (incoming s1) ps' rest" using h by blast
  then have "body_holds b1 (incoming s2) ps' rest" using 1(2) by (simp add: same_in_def incoming_def)
  then obtain b2 s3 where "has_incoming (b1, s2) = (Done (ps' \<noteq> []), (b2, s3))"
    "if ps' = [] then m_ended b2 \<and> incoming s3 = rest else m_incoming b2 = int (length (hd ps'))"
    by (rule has_incoming_holds [OF 1(1)])
  with 1(3,4) show ?thesis by auto
qed

lemma serve_request_steps:
  assumes "sock_wf s" "serve_request order serve router s = (Done True, s')"
  shows "calm s s' \<and> rx_work s' < rx_work s"
proof -
  obtain req s1 len ended b' res' where r: "read_request s = (Done (Some req), s1)"
    "handle_request order serve router req (new_http_body len ended, new_http_output, s1) = (Done True, (b', res', s'))"
    using assms(2)
    by (auto simp: serve_request_def return_def elim!: and_then_DoneE split: option.splits prod.splits)
  note c = read_request_calm [OF assms(1) r(1)]
  have "calm s1 s'" using handle_request_calm [OF _ r(2)] c(1) by (simp add: calm_def)
  with c show ?thesis by (auto simp: calm_def)
qed

lemma on_connection_returns:
  "sock_wf s \<Longrightarrow> rx_work s < fuel \<Longrightarrow> on_connection fuel order serve router shut s \<noteq> None"
proof (induction fuel arbitrary: s)
  case (Suc fuel)
  obtain r s' where t: "serve_request order serve router s = (r, s')" by (cases "serve_request order serve router s")
  show ?case
  proof (cases "r = Done True")
    case True
    then have "calm s s'" "rx_work s' < rx_work s"
      using serve_request_steps [OF Suc.prems(1)] t by auto
    then show ?thesis using Suc t True by (simp add: calm_def)
  next
    case False
    then show ?thesis using t by (cases r) auto
  qed
qed simp

end

lemma quiet_set_content_length: "quiet (on_fst (set_content_length n))"
  by (rule quiet_intros)

lemma hello_endpoint_ok: "endpoint_ok (hello_serve order)"
  unfolding endpoint_ok_def
proof (intro allI impI)
  fix e :: 'a and req b res s b' res' s'
  assume wf: "sock_wf s" and run: "hello_serve order e req (b, res, s) = (Done (), (b', res', s'))"
  let ?m = "and_then (update (set_status OK)) (\<lambda>_.
             and_then (on_fst (set_content_length (int (length RES_MESSAGE)))) (\<lambda>_.
             and_then (update (set_header ''content-type'' ''text/plain'')) (\<lambda>_.
             http_write_sv order RES_MESSAGE)))"
  have "quiet ?m" by (intro quiet_intros)
  moreover have "?m (res, s) = (Done (), (res', s'))" "b' = b"
    using run by (auto simp: hello_serve_def on_res_def split: prod.splits)
  ultimately have "sock_wf s' \<and> same_in s s'" using quietD [of ?m "(res, s)"] wf by fastforce
  then show "calm s s' \<and> (\<forall>ps rest. body_holds b (incoming s) ps rest
      \<longrightarrow> (\<exists>ps'. body_holds b' (incoming s') ps' rest))"
    using \<open>b' = b\<close> by (auto simp: calm_same_in same_in_def incoming_def)
qed

interpretation hello: http_endpoint "hello_serve order" for order
  by unfold_locales (rule hello_endpoint_ok)

lemma mset_single_list: "mset xs = {#x#} \<Longrightarrow> xs = [x]"
  by (cases xs) auto

section \<open>A request without an endpoint\<close>

definition request_text :: "string \<Rightarrow> (string \<times> string) list \<Rightarrow> string" where
  "request_text line hs =
     line @ CRLF_SEPARATOR @ concat (map (\<lambda>h. header_line h @ CRLF_SEPARATOR) hs) @ CRLF_SEPARATOR"

definition no_newline :: "string \<Rightarrow> bool" where
  "no_newline s \<longleftrightarrow> CHR 0x0A \<notin> set s"

lemma read_line_crlf:
  assumes "sock_wf s" "incoming s = bytes (line @ CRLF_SEPARATOR) @ rest" "no_newline line"
  obtains s' where "read_http_line s = (Done \<lparr>m_val = line, m_received = True\<rparr>, s')"
    "sock_wf s'" "same_out s s'" "incoming s' = rest" "rx_rest (m_rx s') = rx_rest (m_rx s)"
proof -
  have "incoming s = bytes line @ [13, newline] @ rest"
    using assms(2) by (simp add: bytes_CRLF crlf_def)
  then obtain s' where "read_http_line s = (Done \<lparr>m_val = line, m_received = True\<rparr>, s')"
    "consumed (length line + 2) s s'" "incoming s' = rest"
    using read_http_line_crlf [OF assms(1)] assms(3) unfolding no_newline_def by metis
  then show thesis using that by (simp add: consumed_def)
qed

lemma header_line_ne: "header_line h \<noteq> []"
  by (simp add: header_line_def)

lemma read_headers_text:
  assumes "sock_wf s" "list_all header_ok hs" "list_all (no_newline \<circ> header_line) hs"
    "incoming s = bytes (concat (map (\<lambda>h. header_line h @ CRLF_SEPARATOR) hs) @ CRLF_SEPARATOR) @ rest"
  shows "\<exists>s'. read_headers req s = (Done (Some (req\<lparr>m_req_headers := fold (\<lambda>(k, v). hm_assign k v) hs (m_req_headers req)\<rparr>)), s')
    \<and> sock_wf s' \<and> same_out s s' \<and> incoming s' = rest \<and> rx_rest (m_rx s') = rx_rest (m_rx s)"
  using assms
proof (induction hs arbitrary: s req)
  case Nil
  then have "incoming s = bytes ([] @ CRLF_SEPARATOR) @ rest" by simp
  then obtain s' where "read_http_line s = (Done \<lparr>m_val = [], m_received = True\<rparr>, s')"
    "sock_wf s'" "same_out s s'" "incoming s' = rest" "rx_rest (m_rx s') = rx_rest (m_rx s)"
    by (rule read_line_crlf [OF Nil(1)]) (simp add: no_newline_def)
  then show ?case by (subst read_headers.simps) (simp add: has_value_def is_last_line_def)
next
  case (Cons h hs)
  let ?rest = "bytes (concat (map (\<lambda>h. header_line h @ CRLF_SEPARATOR) hs) @ CRLF_SEPARATOR) @ rest"
  have i: "incoming s = bytes (header_line h @ CRLF_SEPARATOR) @ ?rest" using Cons.prems(4) by simp
  have nl: "no_newline (header_line h)" using Cons.prems(3) by simp
  obtain s1 where l: "read_http_line s = (Done \<lparr>m_val = header_line h, m_received = True\<rparr>, s1)"
    "sock_wf s1" "same_out s s1" "incoming s1 = ?rest" "rx_rest (m_rx s1) = rx_rest (m_rx s)"
    by (rule read_line_crlf [OF Cons.prems(1) i nl])
  let ?req = "req\<lparr>m_req_headers := hm_assign (fst h) (snd h) (m_req_headers req)\<rparr>"
  obtain s' where r: "read_headers ?req s1 = (Done (Some (?req\<lparr>m_req_headers := fold (\<lambda>(k, v). hm_assign k v) hs (m_req_headers ?req)\<rparr>)), s')"
    "sock_wf s'" "same_out s1 s'" "incoming s' = rest" "rx_rest (m_rx s') = rx_rest (m_rx s1)"
    using Cons.IH [OF l(2) _ _ l(4), of ?req] Cons.prems(2,3) by auto
  have "process_header_line (header_line h) req = (True, ?req)"
    using Cons.prems(2) by (intro process_header_line_header) simp
  then have "read_headers req s = read_headers ?req s1"
    using l(1) header_line_ne by (subst read_headers.simps) (simp add: has_value_def)
  with r l(3,5) show ?case by (auto simp: split_def intro: same_out_trans)
qed

lemma read_request_text:
  assumes "sock_wf s" "incoming s = bytes (request_text line hs) @ rest" "no_newline line" "line \<noteq> []"
    "process_req_line line new_http_request = (True, req0)"
    "list_all header_ok hs" "list_all (no_newline \<circ> header_line) hs"
  obtains s' where
    "read_request s = (Done (Some (req0\<lparr>m_req_headers := fold (\<lambda>(k, v). hm_assign k v) hs (m_req_headers req0)\<rparr>)), s')"
    "sock_wf s'" "same_out s s'" "incoming s' = rest" "rx_rest (m_rx s') = rx_rest (m_rx s)"
proof -
  let ?rest = "bytes (concat (map (\<lambda>h. header_line h @ CRLF_SEPARATOR) hs) @ CRLF_SEPARATOR) @ rest"
  have i: "incoming s = bytes (line @ CRLF_SEPARATOR) @ ?rest" using assms(2) by (simp add: request_text_def)
  obtain s1 where l: "read_http_line s = (Done \<lparr>m_val = line, m_received = True\<rparr>, s1)"
    "sock_wf s1" "same_out s s1" "incoming s1 = ?rest" "rx_rest (m_rx s1) = rx_rest (m_rx s)"
    by (rule read_line_crlf [OF assms(1) i assms(3)])
  obtain s' where "read_headers req0 s1 = (Done (Some (req0\<lparr>m_req_headers := fold (\<lambda>(k, v). hm_assign k v) hs (m_req_headers req0)\<rparr>)), s')"
    "sock_wf s'" "same_out s1 s'" "incoming s' = rest" "rx_rest (m_rx s') = rx_rest (m_rx s1)"
    using read_headers_text [OF l(2) assms(6,7) l(4)] by blast
  moreover have "read_request s = read_headers req0 s1"
    using l(1) assms(4,5) by (simp add: read_request_def and_then_def has_value_def)
  ultimately show thesis using that same_out_trans [OF l(3)] l(5) by simp
qed

definition NOT_FOUND_TEXT :: string where
  "NOT_FOUND_TEXT = ''HTTP/1.1 404 Not Found'' @ CRLF_SEPARATOR @ ''content-length: 0'' @ CRLF_SEPARATOR @ CRLF_SEPARATOR"

definition not_found_output :: http_output where
  "not_found_output = snd (set_content_length 0 (set_status NOT_FOUND new_http_output))"

lemma not_found_output:
  "not_found (new_http_output, s) = (Done (), (not_found_output, s))"
  "m_status not_found_output = NOT_FOUND" "m_headers not_found_output = [(''content-length'', ''0'')]"
  "\<not> m_headers_written not_found_output" "\<not> chunked_headers [(''content-length'', ''0'')]"
proof -
  have "to_chars 10 0 = ''0''" by code_simp
  then have *: "set_content_length 0 (set_status NOT_FOUND new_http_output)
      = (Done (), set_header ''content-length'' ''0'' (set_status NOT_FOUND new_http_output))"
    by (simp add: set_content_length_def Let_def SERIALIZE_BUFFER_SIZE_def)
  then show "not_found (new_http_output, s) = (Done (), (not_found_output, s))"
    by (simp add: not_found_def not_found_output_def)
  show "m_status not_found_output = NOT_FOUND" "m_headers not_found_output = [(''content-length'', ''0'')]"
    "\<not> m_headers_written not_found_output"
    unfolding not_found_output_def * by (simp_all add: set_header_def set_status_def new_http_output_def)
  show "\<not> chunked_headers [(''content-length'', ''0'')]" by code_simp
qed

text \<open>
  What runs for a request, with the end of its response, writes \<open>bs\<close> and leaves the body alone; and what a
  request that is answered does to the socket.
\<close>

definition http_answers :: "(header_map \<Rightarrow> header_map) \<Rightarrow> (exchange, unit) comp \<Rightarrow> byte list \<Rightarrow> bool" where
  "http_answers order run bs \<longleftrightarrow>
     (\<forall>b s. sock_wf s \<longrightarrow> int (length bs) \<le> slack s \<longrightarrow>
       (\<exists>res' s'. and_then run (\<lambda>_. on_res (http_end order)) (b, new_http_output, s) = (Done (), (b, res', s'))
         \<and> sent bs s s' \<and> m_sent s' = out_stream s @ bs))"

definition answered :: "byte list \<Rightarrow> byte list \<Rightarrow> socket \<Rightarrow> socket \<Rightarrow> bool" where
  "answered bs rest s s' \<longleftrightarrow> sock_wf s' \<and> incoming s' = rest \<and> rx_rest (m_rx s') = rx_rest (m_rx s)
     \<and> m_sent s' = out_stream s @ bs \<and> out_stream s' = out_stream s @ bs \<and> slack s' = slack s - int (length bs)"

lemma not_found_answers:
  assumes "order [(''content-length'', ''0'')] = [(''content-length'', ''0'')]"
  shows "http_answers order (on_res not_found) (bytes NOT_FOUND_TEXT)"
  unfolding http_answers_def
proof (intro allI impI)
  fix b :: http_body and s
  assume wf: "sock_wf s" and room: "int (length (bytes NOT_FOUND_TEXT)) \<le> slack s"
  let ?p = "(not_found_output, s)"
  have bs: "bytes NOT_FOUND_TEXT = head_left order ''404 Not Found'' (fst ?p)
      @ (if m_chunked_encoding (head_done (fst ?p)) then last_chunk else [])"
    using not_found_output(3-5) assms
    by (simp add: head_left_def head_done_def head_text_def NOT_FOUND_TEXT_def header_text_def HTTP_1_1_STR_def
        COLON_SEPARATOR_def)
  have ph: "sock_wf (snd ?p)" "get_status_reason_phrase (m_status (fst ?p)) = Done ''404 Not Found''"
    using wf not_found_output(2) by simp_all
  have room': "int (length (bytes NOT_FOUND_TEXT)) \<le> slack (snd ?p)" using room by simp
  obtain p' where e: "http_end order ?p = (Done (), p')" "m_sent (snd p') = out_stream s @ bytes NOT_FOUND_TEXT"
    "sent (bytes NOT_FOUND_TEXT) s (snd p')"
    using http_end_sent [OF ph bs room'] unfolding snd_conv by metis
  have "and_then (on_res not_found) (\<lambda>_. on_res (http_end order)) (b, new_http_output, s) = (Done (), (b, fst p', snd p'))"
    using not_found_output(1) e(1) by (simp add: and_then_def on_res_def split: prod.splits)
  then show "\<exists>res' s'. and_then (on_res not_found) (\<lambda>_. on_res (http_end order)) (b, new_http_output, s) = (Done (), (b, res', s'))
      \<and> sent (bytes NOT_FOUND_TEXT) s s' \<and> m_sent s' = out_stream s @ bytes NOT_FOUND_TEXT"
    using e(2,3) by blast
qed

lemma handle_request_answer:
  assumes "sock_wf s" "get_method req = Done m" "router_match m (get_path req) router [] = (Done found, ps)"
    "http_answers order (case found of Some e \<Rightarrow> serve e (set_path_params ps req) | None \<Rightarrow> on_res not_found) bs"
    "int (length bs) \<le> slack s" "keep_connection (set_path_params ps req) False = Done keep"
  obtains b' res' s' where "handle_request order serve router req (new_http_body 0 True, new_http_output, s) = (Done keep, (b', res', s'))"
    "sent bs s s'" "m_sent s' = out_stream s @ bs"
proof -
  let ?run = "case found of Some e \<Rightarrow> serve e (set_path_params ps req) | None \<Rightarrow> on_res not_found"
  obtain res' s' where r: "and_then ?run (\<lambda>_. on_res (http_end order)) (new_http_body 0 True, new_http_output, s)
      = (Done (), (new_http_body 0 True, res', s'))" "sent bs s s'" "m_sent s' = out_stream s @ bs"
    using assms(1,4,5) unfolding http_answers_def by blast
  have "has_incoming (new_http_body 0 True, s') = (Done False, (new_http_body 0 True, s'))"
    by (simp add: has_incoming_def new_http_body_def return_def)
  then have "and_then (on_body has_incoming) (\<lambda>left. Pair (keep_connection (set_path_params ps req) left)) (new_http_body 0 True, res', s')
      = (Done keep, (new_http_body 0 True, res', s'))"
    using assms(6) by (simp add: and_then_def on_body_def)
  then have "handle_request order serve router req (new_http_body 0 True, new_http_output, s)
      = (Done keep, (new_http_body 0 True, res', s'))"
    using assms(2,3) and_then_Done [where m = "and_then ?run (\<lambda>_. on_res (http_end order))"
      and f = "\<lambda>_. and_then (on_body has_incoming) (\<lambda>left. Pair (keep_connection (set_path_params ps req) left))", OF r(1)]
    by (simp add: handle_request_def Let_def and_then_def [of "Pair _"]) (simp add: and_then_assoc [symmetric, of ?run])
  with that r show thesis by blast
qed

lemma serve_request_answer:
  assumes "sock_wf s" "incoming s = bytes (request_text line hs) @ rest" "no_newline line" "line \<noteq> []"
    "process_req_line line new_http_request = (True, req0)"
    "list_all header_ok hs" "list_all (no_newline \<circ> header_line) hs"
    "req = req0\<lparr>m_req_headers := fold (\<lambda>(k, v). hm_assign k v) hs (m_req_headers req0)\<rparr>"
    "content_framing req = Some (0, True)"
    "get_method req = Done m" "router_match m (get_path req) router [] = (Done found, ps)"
    "http_answers order (case found of Some e \<Rightarrow> serve e (set_path_params ps req) | None \<Rightarrow> on_res not_found) bs"
    "int (length bs) \<le> slack s"
    "keep_connection (set_path_params ps req) False = Done keep"
  shows "\<exists>s'. serve_request order serve router s = (Done keep, s') \<and> answered bs rest s s'"
proof -
  obtain s1 where r: "read_request s = (Done (Some req), s1)" "sock_wf s1" "same_out s s1" "incoming s1 = rest"
    "rx_rest (m_rx s1) = rx_rest (m_rx s)"
    unfolding assms(8) by (rule read_request_text [OF assms(1-7)])
  have o: "slack s1 = slack s" "out_stream s1 = out_stream s"
    using r(3) by (simp_all add: same_out_def slack_def out_stream_def)
  obtain b' res' s' where h: "handle_request order serve router req (new_http_body 0 True, new_http_output, s1) = (Done keep, (b', res', s'))"
    "sent bs s1 s'" "m_sent s' = out_stream s1 @ bs"
    using handle_request_answer [where s = s1 and order = order and serve = serve, OF r(2) assms(10-12) _ assms(14)]
      assms(13) unfolding o(1) by metis
  have "serve_request order serve router s = (Done keep, s')"
    using r(1) h(1) assms(9) by (simp add: serve_request_def and_then_def)
  moreover have "answered bs rest s s'"
    using h(2,3) r(4,5) o by (simp add: answered_def sent_def handed_def same_in_def incoming_def)
  ultimately show ?thesis by blast
qed

lemma serve_request_not_found:
  assumes "sock_wf s" "incoming s = bytes (request_text line hs) @ rest" "no_newline line" "line \<noteq> []"
    "process_req_line line new_http_request = (True, req0)"
    "list_all header_ok hs" "list_all (no_newline \<circ> header_line) hs"
    "req = req0\<lparr>m_req_headers := fold (\<lambda>(k, v). hm_assign k v) hs (m_req_headers req0)\<rparr>"
    "content_framing req = Some (0, True)"
    "get_method req = Done m" "router_match m (get_path req) router [] = (Done None, ps)"
    "order [(''content-length'', ''0'')] = [(''content-length'', ''0'')]"
    "int (length NOT_FOUND_TEXT) \<le> slack s"
    "keep_connection (set_path_params ps req) False = Done keep"
  shows "\<exists>s'. serve_request order serve router s = (Done keep, s') \<and> sock_wf s' \<and> incoming s' = rest
    \<and> m_sent s' = out_stream s @ bytes NOT_FOUND_TEXT"
proof -
  have a: "http_answers order (case None of Some e \<Rightarrow> serve e (set_path_params ps req) | None \<Rightarrow> on_res not_found) (bytes NOT_FOUND_TEXT)"
    using not_found_answers [where order = order, OF assms(12)] by simp
  have l: "int (length (bytes NOT_FOUND_TEXT)) \<le> slack s" using assms(13) by simp
  show ?thesis
    using serve_request_answer [where order = order and serve = serve, OF assms(1-11) a l assms(14)] by (auto simp: answered_def)
qed

text \<open>A request for the root of an empty router, with a further byte behind it.\<close>

definition example_line :: string where
  "example_line = ''GET / HTTP/1.1''"

definition example_req :: http_request where
  "example_req = snd (process_req_line example_line new_http_request)"

definition example_socket :: socket where
  "example_socket = new_socket [Rx_data (bytes (request_text example_line [] @ ''X''))] [Tx_ok 100]"

lemma example_line:
  "process_req_line example_line new_http_request = (True, example_req)" "no_newline example_line" "example_line \<noteq> []"
proof -
  have "split_string example_line CHR '' '' = [method_text GET, ''/'', version_text HTTP_1_1]"
    using split_req_line [of "''/''" GET HTTP_1_1] by (simp add: example_line_def)
  then have "fst (process_req_line example_line new_http_request)"
    by (simp add: process_req_line_def method_map_def version_map_def)
  then show "process_req_line example_line new_http_request = (True, example_req)"
    by (cases "process_req_line example_line new_http_request") (simp add: example_req_def)
qed (simp_all add: no_newline_def example_line_def)

lemma example_req:
  "content_framing example_req = Some (0, True)" "get_method example_req = Done GET"
  "keep_connection (set_path_params [] example_req) False = Done True"
  "router_match GET (get_path example_req) (new_http_router :: unit http_router) [] = (Done None, [])"
  by code_simp+

lemma example_socket:
  "sock_wf example_socket" "incoming example_socket = bytes (request_text example_line []) @ bytes ''X''"
  "int (length NOT_FOUND_TEXT) \<le> slack example_socket" "out_stream example_socket = []"
proof -
  show "sock_wf example_socket" by (simp add: example_socket_def)
  show "incoming example_socket = bytes (request_text example_line []) @ bytes ''X''"
    by (simp add: example_socket_def request_text_def)
  show "out_stream example_socket = []"
    by (simp add: example_socket_def out_stream_def new_socket_def)
  then show "int (length NOT_FOUND_TEXT) \<le> slack example_socket"
    by (simp add: example_socket_def slack_def new_socket_def out_stream_def NOT_FOUND_TEXT_def CRLF_SEPARATOR_def)
qed

lemma example_req_headers: "example_req = example_req\<lparr>m_req_headers := fold (\<lambda>(k, v). hm_assign k v) [] (m_req_headers example_req)\<rparr>"
  by simp

section \<open>Properties\<close>

text \<open>
  C1: requests never bleed into each other: if a connection is kept after a request, the next request is
  read from the byte right behind the body of this one, whatever part of the body the endpoint has read and
  whatever its framing.
\<close>

theorem http_server_request_boundary:
  assumes "endpoint_ok serve" "sock_wf s" "read_request s = (Done (Some req), s1)"
    "content_framing req = Some (content_len, content_ended)"
    "body_holds (new_http_body content_len content_ended) (incoming s1) ps rest"
    "serve_request order serve router s = (Done True, s')"
  shows "sock_wf s' \<and> incoming s' = rest"
proof -
  have ep: "http_endpoint serve" using assms(1) by unfold_locales
  have wf1: "sock_wf s1" using read_request_calm [OF assms(2,3)] by (simp add: calm_def)
  obtain b' res' where h: "handle_request order serve router req
      (new_http_body content_len content_ended, new_http_output, s1) = (Done True, (b', res', s'))"
    using assms(3,4,6) by (auto simp: serve_request_def and_then_def split: prod.splits)
  show ?thesis
    using http_endpoint.handle_request_boundary [OF ep wf1 h assms(5)]
      http_endpoint.handle_request_calm [OF ep wf1 h] by (simp add: calm_def)
qed

theorem http_server_request_boundary_witness:
  "\<exists>s'. serve_request id (hello_serve id) (new_http_router :: unit http_router) example_socket = (Done True, s')
    \<and> incoming s' = bytes ''X''"
proof -
  obtain s' where t: "serve_request id (hello_serve id) (new_http_router :: unit http_router) example_socket = (Done True, s')"
    using serve_request_not_found [OF example_socket(1,2) example_line(2,3,1) _ _ example_req_headers example_req(1,2,4)
        _ example_socket(3) example_req(3), where order = id and serve = "hello_serve id"] by auto
  obtain s1 where r: "read_request example_socket = (Done (Some example_req), s1)" "incoming s1 = bytes ''X''"
    using read_request_text [OF example_socket(1,2) example_line(2,3,1), of thesis] by auto
  have "body_holds (new_http_body 0 True) (incoming s1) [] (bytes ''X'')"
    by (simp add: body_holds_def new_http_body_def r(2))
  then show ?thesis
    using http_server_request_boundary [OF hello_endpoint_ok example_socket(1) r(1) example_req(1) _ t] t by blast
qed

text \<open>
  a request without content for a path without an endpoint is answered with 404 and nothing else,
  and exactly the request is taken off the stream; the connection is kept as its version and its
  connection header say.
\<close>

theorem http_server_not_found:
  assumes "sock_wf s" "incoming s = bytes (request_text line hs) @ rest" "no_newline line" "line \<noteq> []"
    "process_req_line line new_http_request = (True, req0)"
    "list_all header_ok hs" "list_all (no_newline \<circ> header_line) hs"
    "req = req0\<lparr>m_req_headers := fold (\<lambda>(k, v). hm_assign k v) hs (m_req_headers req0)\<rparr>"
    "content_framing req = Some (0, True)"
    "get_method req = Done m" "router_match m (get_path req) router [] = (Done None, ps)"
    "\<And>hdrs. mset (order hdrs) = mset hdrs"
    "int (length NOT_FOUND_TEXT) \<le> slack s"
    "keep_connection (set_path_params ps req) False = Done keep"
  shows "\<exists>s'. serve_request order serve router s = (Done keep, s') \<and> sock_wf s' \<and> incoming s' = rest
    \<and> m_sent s' = out_stream s @ bytes NOT_FOUND_TEXT"
proof -
  have "mset (order [(''content-length'', ''0'')]) = {#(''content-length'', ''0'')#}"
    using assms(12) [of "[(''content-length'', ''0'')]"] by simp
  then have o: "order [(''content-length'', ''0'')] = [(''content-length'', ''0'')]"
    by (rule mset_single_list)
  show ?thesis
    by (rule serve_request_not_found [where order = order, OF assms(1-11) o assms(13,14)])
qed

theorem http_server_not_found_witness:
  "\<exists>s'. serve_request id (hello_serve id) (new_http_router :: unit http_router) example_socket = (Done True, s')
    \<and> m_sent s' = bytes NOT_FOUND_TEXT"
  using http_server_not_found [OF example_socket(1,2) example_line(2,3,1) _ _ example_req_headers example_req(1,2,4)
        _ example_socket(3) example_req(3), where order = id and serve = "hello_serve id"] example_socket(4)
  by auto

text \<open>
  C16: the loop over the requests ends: on every input and for every endpoint that meets the contract, it
  returns, fails or waits for input after finitely many requests, at most as many as there are bytes and
  completions of input.
\<close>

theorem http_server_connection_ends:
  assumes "endpoint_ok serve" "sock_wf s"
  shows "\<exists>out. on_connection (Suc (rx_work s)) order serve router shut s = Some out"
proof -
  have "http_endpoint serve" using assms(1) by unfold_locales
  from http_endpoint.on_connection_returns [OF this assms(2), of "Suc (rx_work s)" order router shut]
  show ?thesis by auto
qed

theorem http_server_connection_ends_witness:
  "\<exists>out. on_connection (Suc (rx_work (new_socket [Rx_data (bytes ''GET'')] []))) id (hello_serve id)
     (new_http_router :: unit http_router) (return ()) (new_socket [Rx_data (bytes ''GET'')] []) = Some out"
  by (rule http_server_connection_ends [OF hello_endpoint_ok sock_wf_new])

end
