(* ===== verification/Async_Queue.thy ===== *)
theory Async_Queue
  imports Events
begin

text \<open>
  \<open>cppevent_base/async_queue\<close>: a queue whose consumer is a coroutine. Producers and the consumer take steps in
  any order, interleaved with turns of the event loop; the steps are an inductive relation and the
  properties hold in every state that can be reached. The world extends the event loop by the queue, the state
  of the consumer, and the history of the items.
\<close>

section \<open>Operations\<close>

record 'a async_queue =
  m_items :: "'a list"
  m_callback :: event_callback

definition new_async_queue :: "e_id \<Rightarrow> 'a async_queue" where
  "new_async_queue i = \<lparr>m_items = [], m_callback = new_event_callback i\<rparr>"

lemma co_await_Done: "co_await h cb = (Done s, cb') \<Longrightarrow> m_status_opt cb \<noteq> None \<and> m_status_opt cb' = None"
  by (auto simp: co_await_eq split: option.splits if_splits)

function await_items :: "handle \<Rightarrow> ('a async_queue, int) comp" where
  "await_items h q =
     (if m_items q = []
      then (case co_await h (m_callback q) of
              (Done _, cb) \<Rightarrow> await_items h (q\<lparr>m_callback := cb\<rparr>)
            | (Threw e, cb) \<Rightarrow> (Threw e, q\<lparr>m_callback := cb\<rparr>)
            | (Suspended, cb) \<Rightarrow> (Suspended, q\<lparr>m_callback := cb\<rparr>)
            | (Undefined, cb) \<Rightarrow> (Undefined, q\<lparr>m_callback := cb\<rparr>))
      else (Done (int (length (m_items q))), q))"
  by pat_completeness auto
termination
  by (relation "measure (\<lambda>(_, q). if m_status_opt (m_callback q) = None then 0 else 1)")
    (auto dest: co_await_Done [OF sym])

declare await_items.simps [simp del]

text \<open>From the point where the coroutine was suspended on.\<close>

definition resume_items :: "handle \<Rightarrow> ('a async_queue, int) comp" where
  "resume_items h q =
     (case resumed (m_callback q) of
        (Done _, cb) \<Rightarrow> await_items h (q\<lparr>m_callback := cb\<rparr>)
      | (Threw e, cb) \<Rightarrow> (Threw e, q\<lparr>m_callback := cb\<rparr>)
      | (Suspended, cb) \<Rightarrow> (Suspended, q\<lparr>m_callback := cb\<rparr>)
      | (Undefined, cb) \<Rightarrow> (Undefined, q\<lparr>m_callback := cb\<rparr>))"

text \<open>\<open>front\<close> and \<open>pop\<close> of an empty queue are undefined.\<close>

definition queue_front :: "('a async_queue, 'a) comp" where
  "queue_front q = (case m_items q of [] \<Rightarrow> (Undefined, q) | x # xs \<Rightarrow> (Done x, q))"

definition queue_pop :: "('a async_queue, unit) comp" where
  "queue_pop q = (case m_items q of [] \<Rightarrow> (Undefined, q) | x # xs \<Rightarrow> (Done (), q\<lparr>m_items := xs\<rparr>))"

section \<open>The world of a queue\<close>

datatype consumer = Running | Awaiting | Failed

record 'a queue_world = event_loop +
  m_queue :: "'a async_queue"
  m_consumer :: consumer
  m_pushed :: "'a list"
  m_taken :: "'a list"

definition queue_push :: "'a \<Rightarrow> 'a queue_world \<Rightarrow> 'a queue_world" where
  "queue_push item w =
     (let w1 = (if m_items (m_queue w) = []
                then add_event \<lparr>ev_id = m_id (m_callback (m_queue w)), ev_status = 0\<rparr> w else w)
      in w1\<lparr>m_queue := (m_queue w1)\<lparr>m_items := m_items (m_queue w1) @ [item]\<rparr>, m_pushed := m_pushed w1 @ [item]\<rparr>)"

definition consumer_handle :: handle where "consumer_handle = 1"

definition queue_ref :: nat where "queue_ref = 0"

definition settle :: "int outcome \<times> 'a async_queue \<Rightarrow> 'a queue_world \<Rightarrow> 'a queue_world" where
  "settle out w = w\<lparr>m_queue := snd out,
     m_consumer := (case fst out of Done _ \<Rightarrow> Running | Suspended \<Rightarrow> Awaiting | _ \<Rightarrow> Failed)\<rparr>"

text \<open>Delivery through the bus: events of ids without a callback are dropped.\<close>

definition bus_notify :: "e_event \<Rightarrow> 'a queue_world \<Rightarrow> 'a queue_world" where
  "bus_notify ev w =
     (case bus_find (ev_id ev) (m_event_bus w) of
        None \<Rightarrow> w
      | Some p \<Rightarrow>
          if p \<noteq> queue_ref then w
          else (case cb_notify (ev_status ev) (m_callback (m_queue w)) of
            (who, cb) \<Rightarrow>
              let w1 = w\<lparr>m_queue := (m_queue w)\<lparr>m_callback := cb\<rparr>\<rparr> in
              (case who of None \<Rightarrow> w1 | Some h \<Rightarrow> settle (resume_items h (m_queue w1)) w1)))"

inductive queue_step :: "'a queue_world \<Rightarrow> 'a queue_world \<Rightarrow> bool" where
  push: "queue_step w (queue_push x w)"
| take: "m_consumer w = Running \<Longrightarrow> queue_front (m_queue w) = (Done x, q) \<Longrightarrow> queue_pop q = (Done (), q')
    \<Longrightarrow> queue_step w (w\<lparr>m_queue := q', m_taken := m_taken w @ [x]\<rparr>)"
| await: "m_consumer w = Running \<Longrightarrow> queue_step w (settle (await_items consumer_handle (m_queue w)) w)"
| other: "queue_step w (add_event ev w)"
| turn: "run_turn bus_notify (\<lambda>_. None) w = Some w' \<Longrightarrow> queue_step w w'"

inductive queue_reachable :: "'a queue_world \<Rightarrow> 'a queue_world \<Rightarrow> bool" for w0 where
  start: "queue_reachable w0 w0"
| step: "queue_reachable w0 w \<Longrightarrow> queue_step w w' \<Longrightarrow> queue_reachable w0 w'"

inductive_cases queue_stepE: "queue_step w w'"

definition new_queue_world :: "e_id \<Rightarrow> event_bus \<Rightarrow> 'a queue_world" where
  "new_queue_world i bus =
     \<lparr>m_running = True, m_events = [], m_event_bus = bus, m_queue = new_async_queue i, m_consumer = Running,
      m_pushed = [], m_taken = []\<rparr>"

section \<open>Invariant\<close>

definition queue_inv :: "'a queue_world \<Rightarrow> bool" where
  "queue_inv w \<longleftrightarrow>
     bus_find (m_id (m_callback (m_queue w))) (m_event_bus w) = Some queue_ref
   \<and> m_taken w @ m_items (m_queue w) = m_pushed w
   \<and> (case m_consumer w of
        Running \<Rightarrow> idle (m_callback (m_queue w))
      | Awaiting \<Rightarrow> waiting consumer_handle (m_callback (m_queue w))
          \<and> (m_items (m_queue w) = [] \<or> (\<exists>ev \<in> set (m_events w). ev_id ev = m_id (m_callback (m_queue w))))
      | Failed \<Rightarrow> False)"

text \<open>Awaiting on an idle callback gives the items or suspends on a callback that waits.\<close>

lemma await_items_idle:
  assumes "idle (m_callback q)"
  shows "case await_items h q of (r, q') \<Rightarrow>
     m_items q' = m_items q \<and> m_id (m_callback q') = m_id (m_callback q)
   \<and> (if m_items q = [] then r = Suspended \<and> waiting h (m_callback q')
      else r = Done (int (length (m_items q))) \<and> q' = q)"
proof -
  have none: "await_items h q' = (Suspended, q'\<lparr>m_callback := (m_callback q')\<lparr>m_suspended := store_handle h (m_suspended (m_callback q'))\<rparr>\<rparr>)"
    if "idle (m_callback q')" "m_status_opt (m_callback q') = None" "m_items q' = []" for q' :: "'a async_queue"
    using that by (subst await_items.simps) (simp add: co_await_eq idle_def)
  show ?thesis
  proof (cases "m_items q = []")
    case False
    then show ?thesis by (subst await_items.simps) simp
  next
    case True
    show ?thesis
    proof (cases "m_status_opt (m_callback q)")
      case None
      then show ?thesis using none [OF assms None True] True by (simp add: waiting_def)
    next
      case (Some st)
      let ?q = "q\<lparr>m_callback := cb_reset (m_callback q)\<rparr>"
      have "await_items h q = await_items h ?q"
        using True Some by (subst await_items.simps) (simp add: co_await_eq)
      then show ?thesis using none [of ?q] True by (simp add: waiting_def idle_def)
    qed
  qed
qed

lemma resume_items_status:
  assumes "m_status_opt (m_callback q) = Some st"
  shows "case resume_items h q of (r, q') \<Rightarrow>
     m_items q' = m_items q \<and> m_id (m_callback q') = m_id (m_callback q)
   \<and> (if m_items q = [] then r = Suspended \<and> waiting h (m_callback q')
      else (\<exists>n. r = Done n) \<and> idle (m_callback q'))"
proof -
  let ?q = "q\<lparr>m_callback := cb_reset (m_callback q)\<rparr>"
  have "resume_items h q = await_items h ?q"
    using assms by (simp add: resume_items_def resumed_eq)
  then show ?thesis using await_items_idle [of ?q h] by (auto simp: idle_def split: if_splits)
qed

lemma queue_inv_new: "bus_find i bus = Some queue_ref \<Longrightarrow> queue_inv (new_queue_world i bus)"
  by (simp add: queue_inv_def new_queue_world_def new_async_queue_def new_event_callback_def idle_def
      new_suspended_coro_def)

lemma queue_inv_push: "queue_inv w \<Longrightarrow> queue_inv (queue_push x w)"
  by (auto simp: queue_inv_def queue_push_def add_event_def Let_def split: consumer.splits)

lemma queue_inv_await:
  assumes "queue_inv w" "m_consumer w = Running"
  shows "queue_inv (settle (await_items consumer_handle (m_queue w)) w)"
proof -
  have "idle (m_callback (m_queue w))" using assms by (simp add: queue_inv_def)
  from await_items_idle [OF this, of consumer_handle] show ?thesis
    using assms by (cases "await_items consumer_handle (m_queue w)")
      (auto simp: queue_inv_def settle_def split: if_splits)
qed

text \<open>Delivering an event to the queue, or to others.\<close>

lemma bus_notify_cases:
  assumes "queue_inv w"
  shows "bus_notify ev w = w \<and> bus_find (ev_id ev) (m_event_bus w) \<noteq> Some queue_ref
    \<or> (bus_find (ev_id ev) (m_event_bus w) = Some queue_ref
       \<and> m_event_bus (bus_notify ev w) = m_event_bus w \<and> m_events (bus_notify ev w) = m_events w
       \<and> m_taken (bus_notify ev w) = m_taken w \<and> m_pushed (bus_notify ev w) = m_pushed w
       \<and> m_items (m_queue (bus_notify ev w)) = m_items (m_queue w)
       \<and> m_id (m_callback (m_queue (bus_notify ev w))) = m_id (m_callback (m_queue w))
       \<and> (if m_consumer w = Awaiting \<and> m_items (m_queue w) = []
          then m_consumer (bus_notify ev w) = Awaiting \<and> waiting consumer_handle (m_callback (m_queue (bus_notify ev w)))
          else m_consumer (bus_notify ev w) = Running \<and> idle (m_callback (m_queue (bus_notify ev w)))))"
proof (cases "bus_find (ev_id ev) (m_event_bus w) = Some queue_ref")
  case False
  then show ?thesis by (auto simp: bus_notify_def split: option.split)
next
  case True
  let ?cb = "m_callback (m_queue w)"
  let ?cb1 = "?cb\<lparr>m_status_opt := Some (ev_status ev), m_suspended := coro_reset (m_suspended ?cb)\<rparr>"
  let ?w1 = "w\<lparr>m_queue := (m_queue w)\<lparr>m_callback := ?cb1\<rparr>\<rparr>"
  show ?thesis
  proof (cases "m_consumer w")
    case Running
    then have "m_handle (m_suspended ?cb) = None" using assms by (simp add: queue_inv_def idle_def)
    then have "bus_notify ev w = ?w1" using True by (simp add: bus_notify_def cb_notify_eq Let_def)
    then show ?thesis using True Running by (simp add: idle_def)
  next
    case Awaiting
    then have "m_handle (m_suspended ?cb) = Some consumer_handle" using assms by (simp add: queue_inv_def waiting_def)
    then have n: "bus_notify ev w = settle (resume_items consumer_handle (m_queue ?w1)) ?w1"
      using True by (simp add: bus_notify_def cb_notify_eq Let_def)
    obtain r q' where q: "resume_items consumer_handle (m_queue ?w1) = (r, q')" by fastforce
    show ?thesis
      using resume_items_status [of "m_queue ?w1" "ev_status ev" consumer_handle] q True Awaiting
      unfolding n q by (auto simp: settle_def split: if_splits)
  next
    case Failed
    then show ?thesis using assms by (simp add: queue_inv_def)
  qed
qed

lemma queue_inv_turn:
  assumes "queue_inv w" "run_turn bus_notify poll w = Some w'" "poll w = None"
  shows "queue_inv w'"
proof -
  obtain ev evs where e: "m_events w = ev # evs" and w': "w' = bus_notify ev (w\<lparr>m_events := evs\<rparr>)"
    using assms(2,3) by (auto simp: run_turn_def split: list.splits)
  let ?w = "w\<lparr>m_events := evs\<rparr>"
  show ?thesis
  proof (cases "bus_find (ev_id ev) (m_event_bus w) = Some queue_ref")
    case False
    then have "w' = ?w" unfolding w' by (auto simp: bus_notify_def split: option.split)
    moreover have "ev_id ev \<noteq> m_id (m_callback (m_queue w))" using False assms(1) by (auto simp: queue_inv_def)
    ultimately show ?thesis using assms(1) e by (auto simp: queue_inv_def split: consumer.splits)
  next
    case True
    let ?v = "if m_consumer w = Running then w\<lparr>m_events := evs\<rparr> else w\<lparr>m_events := ev # evs\<rparr>"
    have inv: "queue_inv (w\<lparr>m_events := m_events w\<rparr>)" using assms(1) by simp
    have "bus_notify ev ?w = (bus_notify ev w)\<lparr>m_events := evs\<rparr>"
      by (auto simp: bus_notify_def settle_def Let_def split: option.split prod.split)
    then have "w' = (bus_notify ev w)\<lparr>m_events := evs\<rparr>" using w' by simp
    then show ?thesis
      using bus_notify_cases [OF assms(1), of ev] True assms(1)
      by (auto simp: queue_inv_def split: if_splits consumer.splits)
  qed
qed

lemma queue_inv_step: "queue_step w w' \<Longrightarrow> queue_inv w \<Longrightarrow> queue_inv w'"
proof (induction rule: queue_step.induct)
  case (push w x)
  then show ?case by (rule queue_inv_push)
next
  case (take w x q q')
  then show ?case
    by (cases "m_items (m_queue w)") (auto simp: queue_inv_def queue_front_def queue_pop_def)
next
  case (await w)
  then show ?case by (intro queue_inv_await)
next
  case (other w ev)
  then show ?case by (auto simp: queue_inv_def add_event_def split: consumer.splits)
next
  case (turn w w')
  show ?case by (rule queue_inv_turn [OF turn(2,1) refl])
qed

lemma queue_inv_reachable:
  assumes "queue_reachable (new_queue_world i bus) w" "bus_find i bus = Some queue_ref"
  shows "queue_inv w"
  using assms(1)
proof (induction rule: queue_reachable.induct)
  case start
  then show ?case by (rule queue_inv_new [OF assms(2)])
next
  case (step w w')
  then show ?case by (auto intro: queue_inv_step)
qed

section \<open>Wake-up\<close>

lemma wakes_up:
  assumes "queue_inv w" "m_consumer w = Awaiting" "m_items (m_queue w) \<noteq> []"
    "\<exists>ev \<in> set (m_events w). ev_id ev = m_id (m_callback (m_queue w))"
  shows "\<exists>n w'. n \<le> length (m_events w) \<and> dispatch_all bus_notify poll n w = Some w'
    \<and> m_consumer w' = Running \<and> m_items (m_queue w') = m_items (m_queue w)"
  using assms
proof (induction "m_events w" arbitrary: w)
  case Nil
  then show ?case by simp
next
  case (Cons ev evs)
  let ?w = "w\<lparr>m_events := evs\<rparr>"
  have e: "m_events w = ev # evs" using Cons.hyps(2) by (rule sym)
  have turn: "run_turn bus_notify poll w = Some (bus_notify ev ?w)"
    by (simp add: run_turn_def e)
  show ?case
  proof (cases "bus_find (ev_id ev) (m_event_bus w) = Some queue_ref")
    case True
    have "bus_notify ev ?w = (bus_notify ev w)\<lparr>m_events := evs\<rparr>"
      by (auto simp: bus_notify_def settle_def Let_def split: option.split prod.split)
    then have "m_consumer (bus_notify ev ?w) = Running \<and> m_items (m_queue (bus_notify ev ?w)) = m_items (m_queue w)"
      using bus_notify_cases [OF Cons.prems(1), of ev] True Cons.prems(2,3) by auto
    then show ?thesis
      using turn by (intro exI [of _ 1]) (auto simp: e)
  next
    case False
    then have n: "bus_notify ev ?w = ?w" by (auto simp: bus_notify_def split: option.split)
    have ne: "ev_id ev \<noteq> m_id (m_callback (m_queue w))" using False Cons.prems(1) by (auto simp: queue_inv_def)
    then have ex: "\<exists>ev \<in> set evs. ev_id ev = m_id (m_callback (m_queue w))"
      using Cons.prems(4) by (auto simp: e)
    then have "queue_inv ?w" using Cons.prems(1,2) by (simp add: queue_inv_def)
    then obtain n w' where "n \<le> length evs" "dispatch_all bus_notify poll n ?w = Some w'"
      "m_consumer w' = Running" "m_items (m_queue w') = m_items (m_queue w)"
      using Cons.hyps(1) [of ?w] Cons.prems(2,3) ex by auto
    then show ?thesis
      using turn n by (intro exI [of _ "Suc n"] exI [of _ w']) (simp add: e)
  qed
qed

section \<open>Properties\<close>

text \<open>
  C2: whatever the interleaving of pushes, takes, awaits and turns of the event loop, items are taken in
  the order they were pushed, none lost or repeated; the consumer never runs into an exception or takes from an
  empty queue; and if it waits although there are items, an event that wakes it up is on its way.
\<close>

theorem async_queue_no_lost_wakeup:
  assumes "queue_reachable (new_queue_world i bus) w" "bus_find i bus = Some queue_ref"
  shows "m_taken w @ m_items (m_queue w) = m_pushed w \<and> m_consumer w \<noteq> Failed
    \<and> (m_consumer w = Awaiting \<and> m_items (m_queue w) \<noteq> []
       \<longrightarrow> (\<exists>ev \<in> set (m_events w). ev_id ev = m_id (m_callback (m_queue w))))"
  using queue_inv_reachable [OF assms] by (auto simp: queue_inv_def split: consumer.splits)

text \<open>
  a consumer that waits although there are items runs again after the events that are queued now have been
  dispatched, at the latest, and finds the items.
\<close>

theorem async_queue_wakes_up:
  assumes "queue_reachable (new_queue_world i bus) w" "bus_find i bus = Some queue_ref"
    "m_consumer w = Awaiting" "m_items (m_queue w) \<noteq> []"
  shows "\<exists>n w'. n \<le> length (m_events w) \<and> dispatch_all bus_notify poll n w = Some w'
    \<and> m_consumer w' = Running \<and> m_items (m_queue w') = m_items (m_queue w)"
proof -
  have inv: "queue_inv w" by (rule queue_inv_reachable [OF assms(1,2)])
  then have "\<exists>ev \<in> set (m_events w). ev_id ev = m_id (m_callback (m_queue w))"
    using assms(3,4) by (simp add: queue_inv_def)
  from wakes_up [OF inv assms(3,4) this] show ?thesis .
qed

text \<open>A consumer that has begun to wait, and one item that is pushed then.\<close>

definition example_bus :: event_bus where
  "example_bus = snd (register_event_callback queue_ref new_event_bus)"

definition example_world :: "nat queue_world" where
  "example_world = queue_push 7 (settle (await_items consumer_handle (new_async_queue 1)) (new_queue_world 1 example_bus))"

lemma example_world:
  "bus_find 1 example_bus = Some queue_ref" "queue_reachable (new_queue_world 1 example_bus) example_world"
  "m_consumer example_world = Awaiting" "m_items (m_queue example_world) = [7]"
proof -
  show "bus_find 1 example_bus = Some queue_ref"
    by (simp add: example_bus_def register_event_callback_def new_event_bus_def bus_find_def Let_def)
  let ?w = "new_queue_world 1 example_bus :: nat queue_world"
  have w: "m_consumer ?w = Running" "m_queue ?w = new_async_queue 1" by (simp_all add: new_queue_world_def)
  have "queue_reachable ?w (settle (await_items consumer_handle (m_queue ?w)) ?w)"
    by (intro queue_reachable.step [OF queue_reachable.start] queue_step.await w)
  then show "queue_reachable ?w example_world"
    unfolding example_world_def w(2) by (rule queue_reachable.step) (rule queue_step.push)
  have i: "idle (m_callback (new_async_queue 1 :: nat async_queue))" "m_items (new_async_queue 1 :: nat async_queue) = []"
    by (simp_all add: idle_def new_async_queue_def new_event_callback_def new_suspended_coro_def)
  show "m_consumer example_world = Awaiting" "m_items (m_queue example_world) = [7]"
    using await_items_idle [OF i(1), of consumer_handle] i(2)
    by (auto simp: example_world_def queue_push_def settle_def add_event_def Let_def split: prod.splits)
qed

theorem async_queue_no_lost_wakeup_witness:
  "\<exists>ev \<in> set (m_events example_world). ev_id ev = m_id (m_callback (m_queue example_world))"
  using async_queue_no_lost_wakeup [OF example_world(2,1)] example_world(3,4) by simp

theorem async_queue_wakes_up_witness:
  "\<exists>n w'. dispatch_all bus_notify (\<lambda>_. None) n example_world = Some w' \<and> m_consumer w' = Running
    \<and> m_items (m_queue w') = [7]"
  using async_queue_wakes_up [OF example_world(2,1,3), of "\<lambda>_. None"] example_world(4) by auto

end
