(* ===== verification/Async_Signal.thy ===== *)
theory Async_Signal
  imports Events
begin

text \<open>
  \<open>cppevent_base/async_signal\<close>: a callback that a trigger activates through the event loop, and that a coroutine awaits. The world
  extends the event loop by the callback of the signal and the coroutines that it has resumed.
\<close>

record signal_world = event_loop +
  m_signal_callback :: event_callback
  m_resumed :: "handle list"

definition signal_ref :: nat where "signal_ref = 0"

definition new_async_signal :: "event_bus \<Rightarrow> signal_world" where
  "new_async_signal bus =
     (case register_event_callback signal_ref bus of
        (i, bus') \<Rightarrow> \<lparr>m_running = True, m_events = [], m_event_bus = bus', m_signal_callback = new_event_callback i, m_resumed = []\<rparr>)"

definition get_trigger :: "signal_world \<Rightarrow> e_id" where
  "get_trigger w = m_id (m_signal_callback w)"

definition activate :: "e_id \<Rightarrow> signal_world \<Rightarrow> signal_world" where
  "activate trigger w = add_event \<lparr>ev_id = trigger, ev_status = 0\<rparr> w"

definition await_signal :: "handle \<Rightarrow> (signal_world, e_status) comp" where
  "await_signal h w = (case co_await h (m_signal_callback w) of (r, cb) \<Rightarrow> (r, w\<lparr>m_signal_callback := cb\<rparr>))"

definition signal_notify :: "e_event \<Rightarrow> signal_world \<Rightarrow> signal_world" where
  "signal_notify ev w =
     (if bus_find (ev_id ev) (m_event_bus w) \<noteq> Some signal_ref then w
      else (case cb_notify (ev_status ev) (m_signal_callback w) of
              (None, cb) \<Rightarrow> w\<lparr>m_signal_callback := cb\<rparr>
            | (Some h, cb) \<Rightarrow> w\<lparr>m_signal_callback := snd (resumed cb), m_resumed := m_resumed w @ [h]\<rparr>))"

text \<open>At rest, with so many activations under way; or with one that has been delivered.\<close>

definition armed :: "nat \<Rightarrow> signal_world \<Rightarrow> bool" where
  "armed n w \<longleftrightarrow> m_events w = replicate n \<lparr>ev_id = get_trigger w, ev_status = 0\<rparr>
     \<and> bus_find (get_trigger w) (m_event_bus w) = Some signal_ref"

lemma armed_activate: "armed n w \<Longrightarrow> armed (Suc n) (activate (get_trigger w) w)"
  by (simp add: armed_def activate_def add_event_def get_trigger_def replicate_append_same)

lemma signal_turn:
  assumes "armed (Suc n) w" "idle (m_signal_callback w)"
  shows "\<exists>w'. run_turn signal_notify poll w = Some w' \<and> armed n w' \<and> idle (m_signal_callback w')
    \<and> m_status_opt (m_signal_callback w') = Some 0 \<and> m_resumed w' = m_resumed w"
  using assms by (simp add: run_turn_def signal_notify_def armed_def get_trigger_def cb_notify_eq idle_def)

lemma signal_turn_waiting:
  assumes "armed (Suc n) w" "waiting h (m_signal_callback w)"
  shows "\<exists>w'. run_turn signal_notify poll w = Some w' \<and> armed n w' \<and> idle (m_signal_callback w')
    \<and> m_status_opt (m_signal_callback w') = None \<and> m_resumed w' = m_resumed w @ [h]"
  using assms by (simp add: run_turn_def signal_notify_def armed_def get_trigger_def cb_notify_eq resumed_eq idle_def waiting_def)

lemma signal_turns:
  assumes "armed n w" "idle (m_signal_callback w)" "m_status_opt (m_signal_callback w) = Some 0 \<or> 0 < n"
  shows "\<exists>w'. dispatch_all signal_notify poll n w = Some w' \<and> idle (m_signal_callback w')
    \<and> m_status_opt (m_signal_callback w') = Some 0 \<and> m_resumed w' = m_resumed w"
  using assms
proof (induction n arbitrary: w)
  case 0
  then show ?case by simp
next
  case (Suc n)
  obtain w1 where w1: "run_turn signal_notify poll w = Some w1" "armed n w1" "idle (m_signal_callback w1)"
      "m_status_opt (m_signal_callback w1) = Some 0" "m_resumed w1 = m_resumed w"
    using signal_turn [OF Suc.prems(1,2), of poll] by blast
  show ?case using Suc.IH [OF w1(2,3)] w1(1,4,5) by simp
qed

text \<open>
  a signal remembers that it was activated, but not how often: activations that are delivered while nobody waits make the next
  await return at once, and only that one; while a coroutine waits, the first activation resumes it, once, and further ones are kept for the next
  await.
\<close>

theorem async_signal_sticky:
  assumes "armed (Suc n) w" "idle (m_signal_callback w)" "m_status_opt (m_signal_callback w) = None"
  shows "(\<exists>w'. dispatch_all signal_notify poll (Suc n) w = Some w' \<and> m_resumed w' = m_resumed w
      \<and> (case await_signal h w' of (r, w1) \<Rightarrow> r = Done 0 \<and> fst (await_signal h w1) = Suspended))
    \<and> (\<exists>w'. dispatch_all signal_notify poll (Suc n) (snd (await_signal h w)) = Some w' \<and> m_resumed w' = m_resumed w @ [h]
      \<and> fst (await_signal h w') = (if n = 0 then Suspended else Done 0))"
proof
  obtain w' where w': "dispatch_all signal_notify poll (Suc n) w = Some w'" "idle (m_signal_callback w')"
      "m_status_opt (m_signal_callback w') = Some 0" "m_resumed w' = m_resumed w"
    using signal_turns [OF assms(1,2), of poll] by auto
  have "case await_signal h w' of (r, w1) \<Rightarrow> r = Done 0 \<and> fst (await_signal h w1) = Suspended"
    using w'(3) by (simp add: await_signal_def co_await_eq)
  with w'(1,4) show "\<exists>w'. dispatch_all signal_notify poll (Suc n) w = Some w' \<and> m_resumed w' = m_resumed w
      \<and> (case await_signal h w' of (r, w1) \<Rightarrow> r = Done 0 \<and> fst (await_signal h w1) = Suspended)"
    by (intro exI [of _ w'] conjI)
next
  let ?w = "snd (await_signal h w)"
  obtain w1 where w1: "run_turn signal_notify poll ?w = Some w1" "armed n w1" "idle (m_signal_callback w1)"
      "m_status_opt (m_signal_callback w1) = None" "m_resumed w1 = m_resumed w @ [h]"
  proof -
    have "armed (Suc n) ?w" "waiting h (m_signal_callback ?w)" "m_resumed ?w = m_resumed w"
      using assms by (simp_all add: await_signal_def co_await_eq idle_def waiting_def armed_def get_trigger_def)
    from signal_turn_waiting [OF this(1,2), of poll] this(3) show thesis
      by (elim exE conjE) (rule that, simp_all)
  qed
  show "\<exists>w'. dispatch_all signal_notify poll (Suc n) ?w = Some w' \<and> m_resumed w' = m_resumed w @ [h]
      \<and> fst (await_signal h w') = (if n = 0 then Suspended else Done 0)"
  proof (cases n)
    case 0
    then show ?thesis using w1 by (simp add: await_signal_def co_await_eq idle_def)
  next
    case (Suc m)
    then obtain w' where "dispatch_all signal_notify poll n w1 = Some w'" "m_status_opt (m_signal_callback w') = Some 0"
        "m_resumed w' = m_resumed w1"
      using signal_turns [OF w1(2,3), of poll] by auto
    then show ?thesis using w1(1,5) Suc by (simp add: await_signal_def co_await_eq)
  qed
qed

theorem async_signal_sticky_witness:
  "\<exists>w'. dispatch_all signal_notify (\<lambda>_. None) 2 (activate 1 (activate 1 (new_async_signal new_event_bus))) = Some w'
    \<and> fst (await_signal 7 w') = Done 0"
proof -
  let ?init = "new_async_signal new_event_bus"
  have w0: "armed 0 ?init" "idle (m_signal_callback ?init)" "m_status_opt (m_signal_callback ?init) = None" "get_trigger ?init = 1"
    by (simp_all add: new_async_signal_def register_event_callback_def new_event_bus_def armed_def get_trigger_def bus_find_def
        new_event_callback_def idle_def new_suspended_coro_def)
  let ?w = "activate 1 (activate 1 ?init)"
  have t: "get_trigger (activate 1 ?init) = 1" using w0(4) by (simp add: activate_def add_event_def get_trigger_def)
  have a: "armed (Suc 1) ?w"
    using armed_activate [of "Suc 0" "activate 1 ?init"] armed_activate [OF w0(1)] by (simp add: w0(4) t)
  have s: "idle (m_signal_callback ?w)" "m_status_opt (m_signal_callback ?w) = None"
    using w0(2,3) by (simp_all add: activate_def add_event_def)
  from async_signal_sticky [OF a s, of "\<lambda>_. None" 7] show ?thesis by (fastforce simp: numeral_2_eq_2 split: prod.splits)
qed

end
