(* ===== verification/Io_Fair.thy ===== *)
theory Io_Fair
  imports Io_Loop
begin

text \<open>
  No starvation: a coroutine whose operation has completed runs again after at most as many turns of the loop as there are events in front
  of its own, whatever the coroutines that run before it do in the meantime.
\<close>

section \<open>Continuations of a history\<close>

inductive io_steps :: "'r liburing \<Rightarrow> io_label list \<Rightarrow> 'r io_loop \<Rightarrow> 'r io_loop \<Rightarrow> bool" for U where
  stay: "io_steps U [] l l"
| go: "\<lbrakk>io_step U x l l1; io_steps U xs l1 l'\<rbrakk> \<Longrightarrow> io_steps U (x # xs) l l'"

lemma io_history_steps: "io_steps U xs l l' \<Longrightarrow> io_history U r tr l \<Longrightarrow> io_history U r (tr @ xs) l'"
proof (induction arbitrary: tr rule: io_steps.induct)
  case (stay l)
  then show ?case by simp
next
  case (go x l l1 xs l')
  from go.IH [OF io_history.step [OF go.prems go.hyps(1)]] show ?case by simp
qed

fun is_turn :: "io_label \<Rightarrow> bool" where
  "is_turn (Completed i st) = True"
| "is_turn (Resumed h i res) = True"
| "is_turn (Dropped i) = True"
| "is_turn _ = False"

lemma is_turn_label:
  assumes "io_turn U l = Some l'"
  shows "is_turn (turn_label U l)"
proof (cases "m_events l")
  case Nil
  then obtain x where "loop_poll U l = Some x"
    using assms by (auto simp: io_turn_def run_turn_def split: if_splits option.splits)
  then show ?thesis using Nil by (cases x) (simp add: turn_label_def)
qed (simp add: turn_label_def split: option.split)

text \<open>A turn takes the first event; everything else only adds events at the end.\<close>

lemma io_notify_events: "m_events (snd (io_notify ev l)) = m_events l"
  by (simp add: io_notify_def split: option.split prod.split)

lemma io_step_events:
  assumes "io_step U x l l'" "m_events l = ev # evs"
  shows "if is_turn x then m_events l' = evs else \<exists>new. m_events l' = m_events l @ new"
  using assms(1)
proof cases
  case (opened a fd i)
  then show ?thesis by (auto simp: get_io_listener_def split: prod.splits)
next
  case (closed a li)
  then show ?thesis by (auto simp: destroy_listener_def)
next
  case (requested a li h req)
  then have "m_events l' = m_events l"
    by (auto simp: await_request_def split: prod.splits option.splits outcome.splits)
  then show ?thesis using requested(1) by simp
next
  case turn
  have "m_events l' = evs"
    using turn(2) assms(2) by (auto simp: io_turn_def run_turn_def io_notify_events split: if_splits)
  then show ?thesis using is_turn_label [OF turn(2)] turn(1) by simp
qed (simp_all add: add_event_def loop_stop_def)

lemma spec_keeps_finished:
  assumes "io_spec_step x m = Some m'" "m i = Some (Finished h op st)" "x \<noteq> Closed i"
  shows "m' i = Some (Finished h op st) \<or> x = Resumed h i (Done st)"
  using assms by (cases x) (auto split: if_splits option.splits io_state.splits)

text \<open>What a turn does with an event that somebody waits for.\<close>

lemma first_event_resumes:
  assumes "io_step U x l l'" "is_turn x" "m_events l = ev # evs" "io_spec_step x m = Some m'" "m (ev_id ev) \<noteq> None"
  shows "\<exists>h res. x = Resumed h (ev_id ev) res"
  using assms(1)
proof cases
  case turn
  then have x: "x = (case fst (io_notify ev l) of Some (h, res) \<Rightarrow> Resumed h (ev_id ev) res | None \<Rightarrow> Dropped (ev_id ev))"
    using assms(3) by (simp add: turn_label_def)
  show ?thesis
  proof (cases "fst (io_notify ev l)")
    case None
    then show ?thesis using x assms(4,5) by simp
  next
    case (Some p)
    then show ?thesis using x by (cases p) auto
  qed
qed (use assms(2) in auto)

text \<open>A queued event that somebody waits for comes to the front and resumes who waits.\<close>

lemma queued_event_resumes:
  assumes "io_steps U xs l l'" "io_related (w (m_ring l)) m l" "unat (m_id_counter (m_event_bus l)) + length xs < 2 ^ 64"
    "m i = Some (Finished h op st)" "m_events l = evs @ \<lparr>ev_id = i, ev_status = st\<rparr> # rest"
    "Closed i \<notin> set xs" "length evs < length (filter is_turn xs)" and contract: "uring_contract U w"
  shows "Resumed h i (Done st) \<in> set xs"
  using assms(1-7)
proof (induction arbitrary: m evs rest rule: io_steps.induct)
  case (stay l)
  then show ?case by simp
next
  case (go x l l1 xs l')
  have lt: "unat (m_id_counter (m_event_bus l)) + 1 < 2 ^ 64" using go.prems(2) by simp
  obtain m1 where m1: "io_spec_step x m = Some m1" "io_related (w (m_ring l1)) m1 l1"
    "unat (m_id_counter (m_event_bus l1)) \<le> unat (m_id_counter (m_event_bus l)) + 1"
    using io_step_simulated [OF go.hyps(1) contract go.prems(1) lt] by blast
  show ?case
  proof (cases "x = Resumed h i (Done st)")
    case False
    have fin1: "m1 i = Some (Finished h op st)"
      using spec_keeps_finished [OF m1(1) go.prems(3)] go.prems(5) False by auto
    have lt1: "unat (m_id_counter (m_event_bus l1)) + length xs < 2 ^ 64" using m1(3) go.prems(2) by simp
    note IH = go.IH [OF m1(2) lt1 fin1]
    show ?thesis
    proof (cases "is_turn x")
      case True
      show ?thesis
      proof (cases evs)
        case Nil
        obtain h' res where "x = Resumed h' i res"
          using first_event_resumes [OF go.hyps(1) True _ m1(1)] go.prems(3,4) Nil by fastforce
        then have "x = Resumed h i (Done st)" using m1(1) go.prems(3) by (auto split: if_splits)
        then show ?thesis using False by simp
      next
        case (Cons e es)
        have "m_events l1 = es @ \<lparr>ev_id = i, ev_status = st\<rparr> # rest"
          using io_step_events [OF go.hyps(1)] go.prems(4) Cons True by simp
        from IH [OF this] show ?thesis using go.prems(5,6) True Cons by simp
      qed
    next
      case no: False
      obtain new where "m_events l1 = m_events l @ new"
        using io_step_events [OF go.hyps(1)] go.prems(4) no by (cases evs) fastforce+
      then have "m_events l1 = evs @ \<lparr>ev_id = i, ev_status = st\<rparr> # (rest @ new)" using go.prems(4) by simp
      from IH [OF this] show ?thesis using go.prems(5,6) no by simp
    qed
  qed simp
qed

section \<open>Properties\<close>

text \<open>
  C26: a coroutine whose completion is queued behind some events is resumed with its result in the course of at most one turn more than there
  are such events, in every continuation of the history in which its listener is not closed.
\<close>

theorem completed_operation_resumes:
  assumes "uring_contract U under_way" "io_history U r0 tr l" "under_way r0 = {#}" "length (tr @ xs) < 2 ^ 64"
    "m_listeners l a = Some li" "waiting h (l_callback li)" "m_events l = evs @ \<lparr>ev_id = m_id (l_callback li), ev_status = st\<rparr> # rest"
    "io_steps U xs l l'" "Closed (m_id (l_callback li)) \<notin> set xs" "length evs < length (filter is_turn xs)"
  shows "Resumed h (m_id (l_callback li)) (Done st) \<in> set xs"
proof -
  let ?i = "m_id (l_callback li)"
  obtain m where m: "io_spec_run tr Map.empty = Some m" and rel: "io_related (under_way (m_ring l)) m l"
    and cnt: "unat (m_id_counter (m_event_bus l)) \<le> length tr"
    using io_history_simulated [OF assms(2,1,3)] assms(4) by auto
  obtain s where s: "m ?i = Some s"
    "state_ok s (l_callback li) (ops_of ?i (under_way (m_ring l))) (events_of ?i (m_events l))"
    using relatedD(3) [OF rel assms(5)] by blast
  obtain op where fin: "m ?i = Some (Finished h op st)"
    using s assms(6,7) by (cases s) (auto simp: waiting_def append_eq_Cons_conv)
  show ?thesis
    by (rule queued_event_resumes [OF assms(8) rel _ fin assms(7,9,10,1)]) (use cnt assms(4) in simp)
qed

theorem completed_operation_resumes_witness:
  "Resumed 7 1 (Done 5) \<in> set [Resumed 7 1 (Done 5)]
    \<and> (\<exists>l l'. io_steps fifo_uring [Resumed 7 1 (Done 5)] l l' \<and> m_events l = [\<lparr>ev_id = 1, ev_status = 5\<rparr>])"
proof -
  obtain l l' li where d: "io_history fifo_uring demo_ring [Opened 1, Requested 7 1 (Prep_recv 3 100 8 0), Completed 1 5] l"
    "io_step fifo_uring (Resumed 7 1 (Done 5)) l l'" "m_listeners l 20 = Some li" "waiting 7 (l_callback li)"
    "m_id (l_callback li) = 1" "m_events l = [\<lparr>ev_id = 1, ev_status = 5\<rparr>]" by (rule demo_completed)
  have steps: "io_steps fifo_uring [Resumed 7 1 (Done 5)] l l'" by (rule io_steps.go [OF d(2) io_steps.stay])
  have ring: "fifo_under_way demo_ring = {#}" by (simp add: fifo_under_way_def demo_ring_def)
  have ev: "m_events l = [] @ \<lparr>ev_id = m_id (l_callback li), ev_status = 5\<rparr> # []" using d(5,6) by simp
  have "Resumed 7 (m_id (l_callback li)) (Done 5) \<in> set [Resumed 7 1 (Done 5)]"
    by (rule completed_operation_resumes [OF fifo_contract d(1) ring _ d(3,4) ev steps]) (use d(5) in simp_all)
  then show ?thesis using d(5,6) steps by auto
qed

end
