(* ===== verification/Timer.thy ===== *)
theory Timer
  imports Os "HOL-Library.Signed_Division"
begin

text \<open>
  \<open>cppevent_base/timer\<close>: a timer of the kernel that fires for the first time after the interval and then at every interval, read through a listener.
\<close>

record timer =
  t_fd :: int
  t_listener :: nat

definition NANOS_PER_SEC :: int where
  "NANOS_PER_SEC = 1000000000"

text \<open>Division and remainder of a duration go to zero.\<close>

definition timer_spec :: "int \<Rightarrow> itimerspec" where
  "timer_spec interval =
     (let t_spec = \<lparr>tv_sec = interval sdiv NANOS_PER_SEC, tv_nsec = interval smod NANOS_PER_SEC\<rparr>
      in \<lparr>it_interval = t_spec, it_value = t_spec\<rparr>)"

definition CLOCK_REALTIME :: int where
  "CLOCK_REALTIME = 0"

definition new_timer :: "'k posix \<Rightarrow> int \<Rightarrow> nat \<Rightarrow> (('k, 'r) world, timer) comp" where
  "new_timer P interval a =
     and_then (checked_call P (p_timerfd_create P CLOCK_REALTIME 0) ''Failed to create timer fd: '') (\<lambda>fd.
     and_then (checked_call P (p_timerfd_settime P fd 0 (timer_spec interval)) ''Failed to set time: '') (\<lambda>_.
     and_then (make_listener a fd) (\<lambda>_. return \<lparr>t_fd = fd, t_listener = a\<rparr>)))"

text \<open>A destructor does not throw: when its outcome is an exception the program is terminated.\<close>

definition destroy_timer :: "'k posix \<Rightarrow> timer \<Rightarrow> (('k, 'r) world, unit) comp" where
  "destroy_timer P t =
     and_then (checked_call P (p_close P (t_fd t)) ''Failed to close timer fd: '') (\<lambda>_. on_loop (destroy_listener (t_listener t)))"

text \<open>\<open>wait\<close> up to its suspension, with the buffer at \<open>buf\<close>, and behind it.\<close>

definition timer_wait :: "'r liburing \<Rightarrow> handle \<Rightarrow> pointer \<Rightarrow> timer \<Rightarrow> (('k, 'r) world, e_status) comp" where
  "timer_wait U h buf t = on_loop (await_request U h (t_listener t) (Read buf 8))"

definition timer_resumed :: "'k posix \<Rightarrow> e_status \<Rightarrow> (('k, 'r) world, unit) comp" where
  "timer_resumed P status = check P status ''Timer wait failed: ''"

section \<open>What a timer asks for, and how it ends\<close>

lemma timer_spec_eq:
  "timer_spec n = (let ts = \<lparr>tv_sec = sgn n * (\<bar>n\<bar> div NANOS_PER_SEC), tv_nsec = sgn n * (\<bar>n\<bar> mod NANOS_PER_SEC)\<rparr>
     in \<lparr>it_interval = ts, it_value = ts\<rparr>)"
  by (simp add: timer_spec_def NANOS_PER_SEC_def signed_divide_int_def signed_modulo_int_def)

lemma timer_spec_split:
  "tv_sec (it_value (timer_spec n)) * NANOS_PER_SEC + tv_nsec (it_value (timer_spec n)) = n"
proof -
  have "sgn n * (\<bar>n\<bar> div NANOS_PER_SEC) * NANOS_PER_SEC + sgn n * (\<bar>n\<bar> mod NANOS_PER_SEC)
      = sgn n * (\<bar>n\<bar> div NANOS_PER_SEC * NANOS_PER_SEC + \<bar>n\<bar> mod NANOS_PER_SEC)" by (simp only: distrib_left mult.assoc)
  also have "\<dots> = n" by (simp add: sgn_mult_abs)
  finally show ?thesis by (simp add: timer_spec_eq Let_def)
qed

lemma new_timer_leaves:
  assumes P: "posix_contract P held" and w: "holds_at held h l w"
  shows "triple (new_timer P interval a) w
    (\<lambda>t w'. t_listener t = a \<and> holds_at held (add_mset (Fd (t_fd t)) h) (snd (get_io_listener a (t_fd t) l)) w')
    (\<lambda>e w'. e = Errno_error ''Failed to create timer fd: '' (p_errno P (w_os w')) \<and> holds_at held h l w'
      \<or> e = Errno_error ''Failed to set time: '' (p_errno P (w_os w')) \<and> (\<exists>fd. holds_at held (add_mset (Fd fd) h) l w')) u"
  unfolding new_timer_def
  by (rule triple_bind [OF checked_opens [OF P posix_contractD(2) [OF P] w]], erule disjI1,
      rule triple_bind [OF checked_keeps [OF P posix_contractD(9) [OF P]]], assumption, blast,
      rule triple_bind [OF make_listener_leaves [where E = "\<lambda>_ _. False"]], assumption, erule FalseE)
    simp

text \<open>
  A timer fires after the interval and then at every interval, split into seconds and nanoseconds of the same sign; the interval is
  accepted by the kernel only if it is not negative, and then the nanoseconds are less than a second. When the time cannot
  be set the descriptor is lost.
\<close>

theorem timer_created:
  assumes "posix_contract P held" "0 \<le> interval"
  shows "(case new_timer P interval a w of
      (Done t, w') \<Rightarrow> t_listener t = a \<and> held (w_os w') = add_mset (Fd (t_fd t)) (held (w_os w))
        \<and> w_loop w' = snd (get_io_listener a (t_fd t) (w_loop w))
    | (Threw e, w') \<Rightarrow> w_loop w' = w_loop w
        \<and> (e = Errno_error ''Failed to create timer fd: '' (p_errno P (w_os w')) \<and> held (w_os w') = held (w_os w)
         \<or> e = Errno_error ''Failed to set time: '' (p_errno P (w_os w')) \<and> (\<exists>fd. held (w_os w') = add_mset (Fd fd) (held (w_os w))))
    | (Suspended, _) \<Rightarrow> False | (Undefined, _) \<Rightarrow> False)
  \<and> (let ts = it_value (timer_spec interval) in 0 \<le> tv_sec ts \<and> 0 \<le> tv_nsec ts \<and> tv_nsec ts < NANOS_PER_SEC
      \<and> tv_sec ts * NANOS_PER_SEC + tv_nsec ts = interval)"
proof
  have w: "holds_at held (held (w_os w)) (w_loop w) w" by (simp add: holds_at_def)
  show "case new_timer P interval a w of
      (Done t, w') \<Rightarrow> t_listener t = a \<and> held (w_os w') = add_mset (Fd (t_fd t)) (held (w_os w))
        \<and> w_loop w' = snd (get_io_listener a (t_fd t) (w_loop w))
    | (Threw e, w') \<Rightarrow> w_loop w' = w_loop w
        \<and> (e = Errno_error ''Failed to create timer fd: '' (p_errno P (w_os w')) \<and> held (w_os w') = held (w_os w)
         \<or> e = Errno_error ''Failed to set time: '' (p_errno P (w_os w')) \<and> (\<exists>fd. held (w_os w') = add_mset (Fd fd) (held (w_os w))))
    | (Suspended, _) \<Rightarrow> False | (Undefined, _) \<Rightarrow> False"
    using new_timer_leaves [OF assms(1) w, where interval = interval and a = a and u = False]
    by (auto simp: triple_def holds_at_def split: prod.splits outcome.splits)
  show "let ts = it_value (timer_spec interval) in 0 \<le> tv_sec ts \<and> 0 \<le> tv_nsec ts \<and> tv_nsec ts < NANOS_PER_SEC
      \<and> tv_sec ts * NANOS_PER_SEC + tv_nsec ts = interval"
    using assms(2) timer_spec_split [of interval]
    by (cases "interval = 0") (simp_all add: timer_spec_eq Let_def NANOS_PER_SEC_def)
qed

text \<open>
  Waiting reads eight bytes through the listener of the timer; the error of a failed read is reported with the number that the C
  library left in \<open>errno\<close>, not with its own, the negated status.
\<close>

theorem timer_wait_error:
  assumes "io_history U r0 tr (w_loop w)" "m_listeners (w_loop w) (t_listener t) = Some \<lparr>l_callback = new_event_callback i, l_fd = fd\<rparr>"
    "u_get_sqe U (m_ring (w_loop w)) = (Some sqe, r1)" "status < 0"
  shows "(case timer_wait U h buf t w of (res, w1) \<Rightarrow> res = Suspended \<and> w_os w1 = w_os w
      \<and> io_history U r0 (tr @ [Requested h i (Prep_read fd buf 8 0)]) (w_loop w1))
    \<and> fst (timer_resumed P status w2) = Threw (Errno_error ''Timer wait failed: '' (p_errno P (w_os w2)))"
proof -
  obtain res w1 where q: "on_loop (await_request U h (t_listener t) (Read buf 8)) w = (res, w1)" by fastforce
  show ?thesis
    using await_request_history [OF assms(1-3) q] assms(4) by (simp add: timer_wait_def q timer_resumed_def check_def throw_if_error_eq)
qed

end
