(* ===== verification/Pg_Values.thy ===== *)
theory Pg_Values
  imports Cpp_Util Charconv
begin

text \<open>
  \<open>cppevent_postgres/pg_conv\<close>, \<open>pg_params\<close> and \<open>pg_result\<close>: values in the text format of PostgreSQL,
  the parameters of a query as they are sent, and a result whose values point into the bytes that were
  received. The template argument of the source is a \<open>cell_type\<close>: an integer type with its bounds, a
  string or a bool; floating-point numbers are in theory \<open>Pg_Floats\<close>. The type bounds of \<open>pg_parser\<close> matter when a
  number is read; a number is written in the same way whatever its type.
\<close>

section \<open>Parsing and serializing\<close>

datatype cell_type = Integral int int | Text | Boolean

datatype cell = Num int | Str string | Flag bool

text \<open>The \<open>size\<close> bytes from a pointer on, a pointer being an offset into the array it came from.\<close>

definition slice :: "byte list \<Rightarrow> nat \<Rightarrow> int \<Rightarrow> byte list option" where
  "slice data ptr sz = (if 0 \<le> sz \<and> ptr + nat sz \<le> length data then Some (take (nat sz) (drop ptr data)) else None)"

definition pg_parse_number :: "int \<Rightarrow> int \<Rightarrow> byte list \<Rightarrow> nat \<Rightarrow> int \<Rightarrow> int outcome" where
  "pg_parse_number lo hi data ptr sz =
     (case slice data ptr sz of
        None \<Rightarrow> Undefined
      | Some bs \<Rightarrow>
          (case from_chars lo hi 10 (chars bs) of
             Result_out_of_range \<Rightarrow> Threw (Runtime_error ''pg_parser parse: value out of range'')
           | Invalid_argument \<Rightarrow> Threw (Runtime_error ''pg_parser parse: invalid argument'')
           | Parsed val _ \<Rightarrow> Done val))"

definition pg_parse_string :: "byte list \<Rightarrow> nat \<Rightarrow> int \<Rightarrow> string outcome" where
  "pg_parse_string data ptr sz =
     (case slice data ptr sz of None \<Rightarrow> Undefined | Some bs \<Rightarrow> Done (chars bs))"

definition pg_parse_bool :: "byte list \<Rightarrow> nat \<Rightarrow> int \<Rightarrow> bool outcome" where
  "pg_parse_bool data ptr sz =
     (if sz \<noteq> 1 then Threw (Runtime_error ''pg_parser parse: invalid bool value'')
      else case slice data ptr 1 of
             None \<Rightarrow> Undefined
           | Some bs \<Rightarrow>
               (let c = char_of_byte (hd bs) in
                if c = CHR ''t'' then Done True
                else if c = CHR ''f'' then Done False
                else Threw (Runtime_error ''pg_parser parse: invalid bool value'')))"

primrec pg_parse :: "cell_type \<Rightarrow> byte list \<Rightarrow> nat \<Rightarrow> int \<Rightarrow> cell outcome" where
  "pg_parse (Integral lo hi) data ptr sz = out_bind (pg_parse_number lo hi data ptr sz) (\<lambda>v. Done (Num v))"
| "pg_parse Text data ptr sz = out_bind (pg_parse_string data ptr sz) (\<lambda>v. Done (Str v))"
| "pg_parse Boolean data ptr sz = out_bind (pg_parse_bool data ptr sz) (\<lambda>v. Done (Flag v))"

definition SERIALIZE_BUFFER_OCTETS :: nat where
  "SERIALIZE_BUFFER_OCTETS = 256"

text \<open>The common part of the serializers: four bytes of room for the size, the size, then the bytes.\<close>

definition put_sized :: "byte list \<Rightarrow> (byte list, unit) comp" where
  "put_sized val buf =
     (let index = length buf; buf' = buf @ replicate 4 0 in
      case write_u32_be buf' index (of_nat (length val)) of
        None \<Rightarrow> (Undefined, buf')
      | Some b \<Rightarrow> (Done (), b @ val))"

definition pg_serialize_number :: "int \<Rightarrow> (byte list, unit) comp" where
  "pg_serialize_number val =
     (let temp = to_chars 10 val in
      if SERIALIZE_BUFFER_OCTETS < length temp
      then throw (Runtime_error ''pg_serializer serialize: value too large'')
      else put_sized (bytes temp))"

definition pg_serialize_string :: "string \<Rightarrow> (byte list, unit) comp" where
  "pg_serialize_string val = put_sized (bytes val)"

definition pg_serialize_bool :: "bool \<Rightarrow> (byte list, unit) comp" where
  "pg_serialize_bool val = put_sized [byte_of_char (if val then CHR ''t'' else CHR ''f'')]"

primrec pg_serialize :: "cell \<Rightarrow> (byte list, unit) comp" where
  "pg_serialize (Num v) = pg_serialize_number v"
| "pg_serialize (Str v) = pg_serialize_string v"
| "pg_serialize (Flag v) = pg_serialize_bool v"

section \<open>Parameters\<close>

record pg_params =
  m_count :: int
  m_param_buffer :: "byte list"

definition new_pg_params :: pg_params where
  "new_pg_params = \<lparr>m_count = 0, m_param_buffer = [0, 0]\<rparr>"

definition increment :: "(pg_params, unit) comp" where
  "increment p =
     (let p' = p\<lparr>m_count := m_count p + 1\<rparr> in
      case write_u16_be (m_param_buffer p') 0 (of_int (m_count p')) of
        None \<Rightarrow> (Undefined, p')
      | Some b \<Rightarrow> (Done (), p'\<lparr>m_param_buffer := b\<rparr>))"

definition on_param_buffer :: "(byte list, unit) comp \<Rightarrow> (pg_params, unit) comp" where
  "on_param_buffer m p = (case m (m_param_buffer p) of (r, b) \<Rightarrow> (r, p\<lparr>m_param_buffer := b\<rparr>))"

definition store :: "cell \<Rightarrow> (pg_params, unit) comp" where
  "store val = and_then increment (\<lambda>_. on_param_buffer (pg_serialize val))"

definition put_null :: "(byte list, unit) comp" where
  "put_null buf =
     (let index = length buf; buf' = buf @ replicate 4 0 in
      case write_u32_be buf' index (- 1) of None \<Rightarrow> (Undefined, buf') | Some b \<Rightarrow> (Done (), b))"

definition store_opt :: "cell option \<Rightarrow> (pg_params, unit) comp" where
  "store_opt val_opt =
     (case val_opt of
        None \<Rightarrow> and_then increment (\<lambda>_. on_param_buffer put_null)
      | Some val \<Rightarrow> store val)"

text \<open>The variadic overload; a plain argument is stored like a present optional.\<close>

fun store_args :: "cell option list \<Rightarrow> (pg_params, unit) comp" where
  "store_args [] = return ()"
| "store_args (val # args) = and_then (store_opt val) (\<lambda>_. store_args args)"

section \<open>Results\<close>

datatype result_type = PENDING | SUCCESS | SUSPENDED | ERROR

text \<open>
  The enumeration type of the format code has no value but 0 and 1, yet any 16-bit number can be cast
  to it, so the number is kept.
\<close>

datatype format_code = Format_code "16 word"

text \<open>A \<open>string_view\<close> into the bytes of the row description.\<close>

record pg_column =
  m_name :: "nat \<times> nat"
  m_code :: format_code

text \<open>A pointer into the bytes of a row: the number of the row's bytes and an offset into them.\<close>

record pg_value =
  m_ptr :: "nat \<times> nat"
  m_size :: int

record pg_result =
  m_cmd_tag :: string
  m_desc_data :: "byte list"
  m_row_data :: "byte list list"
  m_columns :: "pg_column list"
  m_rows :: "pg_value list list"
  m_type :: result_type

definition new_pg_result :: pg_result where
  "new_pg_result = \<lparr>m_cmd_tag = [], m_desc_data = [], m_row_data = [], m_columns = [], m_rows = [],
     m_type = PENDING\<rparr>"

definition is_null :: "pg_value \<Rightarrow> bool" where
  "is_null v \<longleftrightarrow> m_size v < 0"

definition set_error :: "pg_result \<Rightarrow> pg_result" where
  "set_error r = r\<lparr>m_type := ERROR\<rparr>"

definition set_suspended :: "pg_result \<Rightarrow> pg_result" where
  "set_suspended r = r\<lparr>m_type := SUSPENDED\<rparr>"

definition set_desc_data :: "byte list \<Rightarrow> pg_result \<Rightarrow> pg_result" where
  "set_desc_data d r = r\<lparr>m_desc_data := d\<rparr>"

definition add_row_data :: "byte list \<Rightarrow> pg_result \<Rightarrow> pg_result" where
  "add_row_data d r = r\<lparr>m_row_data := m_row_data r @ [d]\<rparr>"

definition add_column :: "pg_column \<Rightarrow> pg_result \<Rightarrow> pg_result" where
  "add_column c r = r\<lparr>m_columns := m_columns r @ [c]\<rparr>"

definition add_row :: "pg_value list \<Rightarrow> pg_result \<Rightarrow> pg_result" where
  "add_row row r = r\<lparr>m_rows := m_rows r @ [row]\<rparr>"

definition set_command_tag :: "string \<Rightarrow> pg_result \<Rightarrow> pg_result" where
  "set_command_tag t r = r\<lparr>m_cmd_tag := t, m_type := SUCCESS\<rparr>"

definition get_num_rows :: "pg_result \<Rightarrow> int" where
  "get_num_rows r = int (length (m_rows r))"

text \<open>\<open>m_rows[row_index][VAL_INDEX]\<close>, and the parse of the bytes that a value points to.\<close>

definition value_at :: "pg_result \<Rightarrow> int \<Rightarrow> nat \<Rightarrow> pg_value option" where
  "value_at r row_index val_index =
     (if 0 \<le> row_index \<and> nat row_index < length (m_rows r)
         \<and> val_index < length (m_rows r ! nat row_index)
      then Some (m_rows r ! nat row_index ! val_index) else None)"

definition parse_value :: "cell_type \<Rightarrow> pg_result \<Rightarrow> pg_value \<Rightarrow> cell outcome" where
  "parse_value T r v =
     (if fst (m_ptr v) < length (m_row_data r)
      then pg_parse T (m_row_data r ! fst (m_ptr v)) (snd (m_ptr v)) (m_size v)
      else Undefined)"

text \<open>
  What \<open>get_row\<close> assigns to: a variable of a type, or an optional of one, with its present content. The
  variadic overload assigns from left to right, so the first ones keep what they got when a later one
  throws.
\<close>

datatype target = Plain cell_type cell | Optional cell_type "cell option"

fun get_row_one :: "pg_result \<Rightarrow> nat \<Rightarrow> int \<Rightarrow> target \<Rightarrow> target outcome" where
  "get_row_one r val_index row_index (Plain T t) =
     (case value_at r row_index val_index of
        None \<Rightarrow> Undefined
      | Some val \<Rightarrow>
          if is_null val then Threw (Runtime_error ''pg_result get_row: assigning null to non-optional type'')
          else out_bind (parse_value T r val) (\<lambda>v. Done (Plain T v)))"
| "get_row_one r val_index row_index (Optional T opt) =
     (case value_at r row_index val_index of
        None \<Rightarrow> Undefined
      | Some val \<Rightarrow>
          if is_null val then Done (Optional T opt)
          else out_bind (parse_value T r val) (\<lambda>v. Done (Optional T (Some v))))"

fun get_row :: "pg_result \<Rightarrow> nat \<Rightarrow> int \<Rightarrow> (target list, unit) comp" where
  "get_row r val_index row_index [] = (Done (), [])"
| "get_row r val_index row_index (t # args) =
     (case get_row_one r val_index row_index t of
        Done t' \<Rightarrow> (case get_row r (val_index + 1) row_index args of (res, args') \<Rightarrow> (res, t' # args'))
      | Threw e \<Rightarrow> (Threw e, t # args)
      | Suspended \<Rightarrow> (Suspended, t # args)
      | Undefined \<Rightarrow> (Undefined, t # args))"

section \<open>The wire format\<close>

text \<open>
  A field of a Bind or a DataRow message: the size as a 32-bit number and the bytes, or the size \<open>-1\<close> alone for
  NULL; and the text of a value.
\<close>

definition field_bytes :: "byte list option \<Rightarrow> byte list" where
  "field_bytes f = (case f of None \<Rightarrow> u32_bytes (- 1) | Some bs \<Rightarrow> u32_bytes (of_nat (length bs)) @ bs)"

primrec cell_text :: "cell \<Rightarrow> byte list" where
  "cell_text (Num v) = bytes (to_chars 10 v)"
| "cell_text (Str s) = bytes s"
| "cell_text (Flag b) = [byte_of_char (if b then CHR ''t'' else CHR ''f'')]"

text \<open>Numbers of the integer types of C++ are short enough for the buffer they are printed into.\<close>

primrec cell_ok :: "cell \<Rightarrow> bool" where
  "cell_ok (Num v) \<longleftrightarrow> - (2 ^ 63) \<le> v \<and> v < 2 ^ 64"
| "cell_ok (Str s) \<longleftrightarrow> True"
| "cell_ok (Flag b) \<longleftrightarrow> True"

fun has_type :: "cell_type \<Rightarrow> cell \<Rightarrow> bool" where
  "has_type (Integral lo hi) (Num v) \<longleftrightarrow> lo \<le> v \<and> v \<le> hi"
| "has_type Text (Str s) \<longleftrightarrow> True"
| "has_type Boolean (Flag b) \<longleftrightarrow> True"
| "has_type _ _ \<longleftrightarrow> False"

lemma put_sized_eq: "put_sized val buf = (Done (), buf @ field_bytes (Some val))"
  by (simp add: put_sized_def write_u32_be_eq field_bytes_def)

lemma put_null_eq: "put_null buf = (Done (), buf @ field_bytes None)"
  by (simp add: put_null_def write_u32_be_eq field_bytes_def)

lemma number_text_short:
  assumes "cell_ok (Num v)"
  shows "length (to_chars 10 v) \<le> SERIALIZE_BUFFER_OCTETS"
proof -
  have "nat (- v) < 2 ^ 64" "nat v < 2 ^ 64"
    using assms by (simp, linarith)+
  then show ?thesis
    using nat_digits_length [of 10 "nat (- v)" 64] nat_digits_length [of 10 "nat v" 64]
    by (simp add: to_chars_def SERIALIZE_BUFFER_OCTETS_def)
qed

lemma pg_serialize_eq: "cell_ok c \<Longrightarrow> pg_serialize c buf = (Done (), buf @ field_bytes (Some (cell_text c)))"
proof (cases c)
  case (Num v)
  then show "cell_ok c \<Longrightarrow> ?thesis"
    using number_text_short [of v] by (simp add: pg_serialize_number_def Let_def put_sized_eq)
qed (simp_all add: pg_serialize_string_def pg_serialize_bool_def put_sized_eq)

lemma pg_parse_cell_text:
  assumes "has_type T c"
  shows "pg_parse T (pre @ cell_text c @ post) (length pre) (int (length (cell_text c))) = Done c"
proof (cases "(T, c)" rule: has_type.cases)
  case (1 lo hi v)
  have "from_chars lo hi 10 (to_chars 10 v @ []) = Parsed v []"
    by (rule from_chars_to_chars) (use assms 1 in simp_all)
  with 1 show ?thesis by (simp add: pg_parse_number_def slice_def)
qed (use assms in \<open>simp_all add: pg_parse_string_def pg_parse_bool_def slice_def\<close>)

section \<open>What the parameters hold\<close>

text \<open>The contract of a parameter block: the count as sixteen bits, then the fields stored so far.\<close>

definition params_hold :: "byte list option list \<Rightarrow> pg_params \<Rightarrow> bool" where
  "params_hold fs p \<longleftrightarrow> m_count p = int (length fs)
     \<and> m_param_buffer p = u16_bytes (of_nat (length fs)) @ concat (map field_bytes fs)"

lemma params_hold_new [wf_intros]: "params_hold [] new_pg_params"
  by (simp add: params_hold_def new_pg_params_def u16_bytes_def)

lemma increment_eq:
  assumes "params_hold fs p"
  shows "increment p = (Done (), p\<lparr>m_count := int (length fs) + 1,
    m_param_buffer := u16_bytes (of_nat (length fs + 1)) @ concat (map field_bytes fs)\<rparr>)"
  using assms by (simp add: increment_def params_hold_def write_u16_be_eq add.commute)

lemma store_opt_eq:
  assumes "params_hold fs p" "pred_option cell_ok v"
  shows "\<exists>p'. store_opt v p = (Done (), p') \<and> params_hold (fs @ [map_option cell_text v]) p'"
proof (cases v)
  case None
  then show ?thesis
    using assms(1)
    by (simp add: store_opt_def and_then_Done [where m = increment, OF increment_eq [OF assms(1)]] on_param_buffer_def put_null_eq)
       (simp add: params_hold_def)
next
  case (Some c)
  with assms(2) have "cell_ok c" by simp
  with Some show ?thesis
    using assms(1)
    by (simp add: store_opt_def store_def and_then_Done [where m = increment, OF increment_eq [OF assms(1)]] on_param_buffer_def
      pg_serialize_eq) (simp add: params_hold_def)
qed

lemma store_args_eq:
  assumes "params_hold fs p" "list_all (pred_option cell_ok) vs"
  shows "\<exists>p'. store_args vs p = (Done (), p') \<and> params_hold (fs @ map (map_option cell_text) vs) p'"
  using assms
proof (induction vs arbitrary: fs p)
  case Nil
  then show ?case by (simp add: return_def)
next
  case (Cons v vs)
  then obtain p1 where p1: "store_opt v p = (Done (), p1)" "params_hold (fs @ [map_option cell_text v]) p1"
    using store_opt_eq [of fs p v] by auto
  with Cons.IH [OF p1(2)] Cons.prems(2) show ?case
    by (simp add: and_then_Done [where m = "store_opt v", OF p1(1)])
qed

section \<open>Properties\<close>

text \<open>
  storing arguments builds the parameter block of a Bind message: the number of arguments in sixteen bits,
  then for each argument its size and its text, or the size \<open>-1\<close> for an absent optional. The count is taken
  modulo 65536: with more arguments the block no longer describes itself.
\<close>

theorem pg_params_wire_format:
  assumes "list_all (pred_option cell_ok) vs"
  shows "\<exists>p. store_args vs new_pg_params = (Done (), p) \<and> m_count p = int (length vs)
    \<and> m_param_buffer p = u16_bytes (of_nat (length vs))
        @ concat (map (\<lambda>v. case v of None \<Rightarrow> u32_bytes (- 1)
            | Some c \<Rightarrow> u32_bytes (of_nat (length (cell_text c))) @ cell_text c) vs)"
proof -
  have f: "field_bytes (map_option cell_text v) = (case v of None \<Rightarrow> u32_bytes (- 1)
      | Some c \<Rightarrow> u32_bytes (of_nat (length (cell_text c))) @ cell_text c)" for v
    by (cases v) (simp_all add: field_bytes_def)
  show ?thesis
    using store_args_eq [OF params_hold_new assms] by (auto simp: params_hold_def f comp_def)
qed

theorem pg_params_wire_format_witness:
  "\<exists>p. store_args [Some (Num (- 42)), None, Some (Flag True)] new_pg_params = (Done (), p) \<and> m_count p = 3
    \<and> m_param_buffer p = [0, 3, 0, 0, 0, 3, 0x2D, 0x34, 0x32, 0xFF, 0xFF, 0xFF, 0xFF, 0, 0, 0, 1, 0x74]"
proof -
  let ?vs = "[Some (Num (- 42)), None, Some (Flag True)]"
  have e: "u16_bytes (of_nat (length ?vs)) @ concat (map (\<lambda>v. case v of None \<Rightarrow> u32_bytes (- 1)
            | Some c \<Rightarrow> u32_bytes (of_nat (length (cell_text c))) @ cell_text c) ?vs)
      = [0, 3, 0, 0, 0, 3, 0x2D, 0x34, 0x32, 0xFF, 0xFF, 0xFF, 0xFF, 0, 0, 0, 1, 0x74]"
    by code_simp
  have "list_all (pred_option cell_ok) ?vs" "int (length ?vs) = 3" by simp_all
  with pg_params_wire_format [of ?vs] show ?thesis unfolding e by simp
qed

text \<open>
  a value that is printed by the serializer of its type is read back by the parser of that type, wherever its
  bytes are; a bool that is not one byte long, a number without digits and a number out of the range of its type
  are refused with the documented message.
\<close>

theorem pg_conv_roundtrip:
  "(has_type T c \<longrightarrow> pg_parse T (pre @ cell_text c @ post) (length pre) (int (length (cell_text c))) = Done c)
   \<and> (sz \<noteq> 1 \<longrightarrow> pg_parse Boolean data ptr sz = Threw (Runtime_error ''pg_parser parse: invalid bool value''))
   \<and> (is_long v \<and> \<not> (lo \<le> v \<and> v \<le> hi) \<and> lo < 0 \<longrightarrow>
        pg_parse (Integral lo hi) (pre @ cell_text (Num v) @ post) (length pre) (int (length (cell_text (Num v))))
          = Threw (Runtime_error ''pg_parser parse: value out of range''))
   \<and> pg_parse (Integral lo hi) pre 0 0 = Threw (Runtime_error ''pg_parser parse: invalid argument'')"
proof -
  have "from_chars lo hi 10 (to_chars 10 v) = Result_out_of_range"
    if v: "is_long v" "\<not> (lo \<le> v \<and> v \<le> hi)" "lo < 0"
  proof -
    have a: "takeWhile (is_digit 10) (nat_digits 10 n) = nat_digits 10 n" for n
      using takeWhile_digits [OF nat_digits_all [of 10 n], of "[]"] by simp
    have h: "hd (nat_digits 10 (nat v)) \<noteq> CHR ''-''"
      using digit_char_not_minus [OF nat_digits_hd [of 10 "nat v"]] by simp
    show ?thesis
      using v(2,3) h by (auto simp: from_chars_def to_chars_def Let_def a digits_value_nat_digits)
  qed
  moreover have "from_chars lo hi 10 [] = Invalid_argument" by (simp add: from_chars_def)
  ultimately show ?thesis
    using pg_parse_cell_text by (auto simp: pg_parse_bool_def pg_parse_number_def slice_def)
qed

theorem pg_conv_roundtrip_witness:
  "pg_parse (Integral (- 128) 127) (bytes ''x-42y'') 1 3 = Done (Num (- 42))"
proof -
  have t: "cell_text (Num (- 42)) = bytes ''-42''" by code_simp
  have l: "has_type (Integral (- 128) 127) (Num (- 42))" "length (bytes ''x'') = 1" "length (bytes ''-42'') = 3" by simp_all
  have b: "bytes ''x-42y'' = bytes ''x'' @ bytes ''-42'' @ bytes ''y''" by (simp add: bytes_def)
  show ?thesis
    using pg_conv_roundtrip [THEN conjunct1, rule_format, OF l(1), of "bytes ''x''" "bytes ''y''"]
    unfolding t b l of_nat_numeral One_nat_def [symmetric] .
qed

end
