(* ===== verification/Pg_Rows.thy ===== *)
theory Pg_Rows
  imports Pg_Values
begin

text \<open>
  The part of \<open>pg_connection::populate_result\<close> behind the read: a RowDescription or DataRow message, complete
  in memory, is cut into columns or values. The loops trust the counts and sizes of the message; an access
  behind its end is \<open>Undefined\<close>.
\<close>

section \<open>The loops\<close>

text \<open>The inner loop over the name of a column: its length, or \<open>None\<close> when no byte of the block is zero.\<close>

function name_length :: "byte list \<Rightarrow> nat \<Rightarrow> nat \<Rightarrow> nat option" where
  "name_length data data_p col_name_len =
     (if data_p + col_name_len < length data
      then (if data ! (data_p + col_name_len) \<noteq> 0 then name_length data data_p (col_name_len + 1)
            else Some col_name_len)
      else None)"
  by pat_completeness auto
termination by (relation "measure (\<lambda>(data, p, n). length data - (p + n))") auto

declare name_length.simps [simp del]

fun columns_loop :: "nat \<Rightarrow> byte list \<Rightarrow> nat \<Rightarrow> pg_result \<Rightarrow> pg_result outcome" where
  "columns_loop 0 data data_p result = Done result"
| "columns_loop (Suc k) data data_p result =
     (case name_length data data_p 0 of
        None \<Rightarrow> Undefined
      | Some col_name_len \<Rightarrow>
          (let p = data_p + col_name_len + 1 + 4 * 4 in
           case read_u16_be data p of
             None \<Rightarrow> Undefined
           | Some code \<Rightarrow>
               columns_loop k data (p + 2)
                 (add_column \<lparr>m_name = (data_p, col_name_len), m_code = Format_code code\<rparr> result)))"

definition parse_row_description :: "byte list \<Rightarrow> pg_result \<Rightarrow> pg_result outcome" where
  "parse_row_description data result =
     (case read_u16_be data 0 of
        None \<Rightarrow> Undefined
      | Some num_cols \<Rightarrow> columns_loop (unat num_cols) data 2 result)"

text \<open>\<open>blk\<close> is the number of the row's bytes among those the result owns.\<close>

fun values_loop :: "nat \<Rightarrow> byte list \<Rightarrow> nat \<Rightarrow> nat \<Rightarrow> pg_value list \<Rightarrow> pg_value list outcome" where
  "values_loop 0 data blk data_p row = Done row"
| "values_loop (Suc k) data blk data_p row =
     (case read_u32_be data data_p of
        None \<Rightarrow> Undefined
      | Some w \<Rightarrow>
          (let val_len = sint w; p = data_p + 4 in
           values_loop k data blk (if 0 < val_len then p + nat val_len else p)
             (row @ [\<lparr>m_ptr = (blk, p), m_size = val_len\<rparr>])))"

definition parse_data_row :: "byte list \<Rightarrow> nat \<Rightarrow> pg_value list outcome" where
  "parse_data_row data blk =
     (case read_u16_be data 0 of
        None \<Rightarrow> Undefined
      | Some num_cols \<Rightarrow> values_loop (unat num_cols) data blk 2 [])"

section \<open>Well-formed messages\<close>

text \<open>The fields of a DataRow, and where the values of a row point.\<close>

definition row_message :: "byte list option list \<Rightarrow> byte list" where
  "row_message fs = u16_bytes (of_nat (length fs)) @ concat (map field_bytes fs)"

definition field_ok :: "byte list option \<Rightarrow> bool" where
  "field_ok f \<longleftrightarrow> (case f of None \<Rightarrow> True | Some bs \<Rightarrow> length bs < 2 ^ 31)"

fun row_values :: "nat \<Rightarrow> nat \<Rightarrow> byte list option list \<Rightarrow> pg_value list" where
  "row_values blk p [] = []"
| "row_values blk p (f # fs) =
     \<lparr>m_ptr = (blk, p + 4), m_size = (case f of None \<Rightarrow> - 1 | Some bs \<Rightarrow> int (length bs))\<rparr>
       # row_values blk (p + length (field_bytes f)) fs"

lemma length_row_values [simp]: "length (row_values blk p fs) = length fs"
  by (induction fs arbitrary: p) auto

lemma length_field_bytes: "length (field_bytes f) = 4 + (case f of None \<Rightarrow> 0 | Some bs \<Rightarrow> length bs)"
  by (simp add: field_bytes_def split: option.split)

lemma sint_of_small_nat: "n < 2 ^ 31 \<Longrightarrow> sint (of_nat n :: 32 word) = int n"
  by (simp add: sint_uint unsigned_of_nat take_bit_nat_eq_self take_bit_int_eq_self_iff
      signed_take_bit_int_eq_self flip: of_nat_take_bit)

definition field_size :: "byte list option \<Rightarrow> int" where
  "field_size f = (case f of None \<Rightarrow> - 1 | Some bs \<Rightarrow> int (length bs))"

definition field_head :: "byte list option \<Rightarrow> 32 word" where
  "field_head f = (case f of None \<Rightarrow> - 1 | Some bs \<Rightarrow> of_nat (length bs))"

lemma field_bytes_head: "field_bytes f = u32_bytes (field_head f) @ (case f of None \<Rightarrow> [] | Some bs \<Rightarrow> bs)"
  by (cases f) (simp_all add: field_bytes_def field_head_def)

lemma sint_field_head: "field_ok f \<Longrightarrow> sint (field_head f) = field_size f"
  by (cases f) (simp_all add: field_head_def field_size_def field_ok_def sint_of_small_nat)

lemma values_loop_fields:
  assumes "list_all field_ok fs" "data = pre @ concat (map field_bytes fs) @ post"
  shows "values_loop (length fs) data blk (length pre) row = Done (row @ row_values blk (length pre) fs)"
  using assms
proof (induction fs arbitrary: pre row)
  case Nil
  then show ?case by simp
next
  case (Cons f fs)
  have r: "read_u32_be data (length pre) = Some (field_head f)"
    using read_u32_be_bytes [of pre "field_head f"] Cons.prems(2) by (simp add: field_bytes_head)
  have d: "data = (pre @ field_bytes f) @ concat (map field_bytes fs) @ post"
    using Cons.prems(2) by simp
  have s: "sint (field_head f) = field_size f" using Cons.prems(1) by (simp add: sint_field_head)
  have p: "(if 0 < field_size f then length pre + 4 + nat (field_size f) else length pre + 4)
      = length (pre @ field_bytes f)"
    by (cases f) (simp_all add: length_field_bytes field_size_def)
  show ?case
    using Cons.IH [OF _ d] Cons.prems(1)
    by (simp only: list.size values_loop.simps r s option.case Let_def p add_0_right add_Suc_right)
       (simp add: field_size_def)
qed

lemma parse_data_row_message:
  assumes "list_all field_ok fs" "length fs < 65536"
  shows "parse_data_row (row_message fs @ post) blk = Done (row_values blk 2 fs)"
proof -
  have n: "unat (of_nat (length fs) :: 16 word) = length fs"
    using assms(2) by (simp add: unat_of_nat)
  have "read_u16_be (row_message fs @ post) 0 = Some (of_nat (length fs))"
    using read_u16_be_bytes [of "[]" _ "concat (map field_bytes fs) @ post"] by (simp add: row_message_def)
  then show ?thesis
    using values_loop_fields [OF assms(1), of "row_message fs @ post" "u16_bytes (of_nat (length fs))" post blk "[]"]
    by (simp add: parse_data_row_def n row_message_def)
qed

text \<open>Every value of the row is found where it points.\<close>

lemma row_values_nth:
  assumes "i < length fs"
  shows "row_values blk p fs ! i = \<lparr>m_ptr = (blk, p + length (concat (map field_bytes (take i fs))) + 4),
    m_size = field_size (fs ! i)\<rparr>"
  using assms
proof (induction fs arbitrary: p i)
  case (Cons f fs)
  then show ?case by (cases i) (simp_all add: field_size_def)
qed simp

lemma row_message_at:
  assumes "i < length fs" "fs ! i = Some bs"
  shows "\<exists>pre. row_message fs @ post = pre @ bs @ concat (map field_bytes (drop (Suc i) fs)) @ post
    \<and> length pre = 2 + length (concat (map field_bytes (take i fs))) + 4"
proof -
  have "fs = take i fs @ Some bs # drop (Suc i) fs"
    using assms id_take_nth_drop [of i fs] by simp
  then have "concat (map field_bytes fs) = concat (map field_bytes (take i fs)) @ field_bytes (Some bs)
      @ concat (map field_bytes (drop (Suc i) fs))"
    by (metis concat.simps(2) concat_append list.simps(9) map_append)
  then have "row_message fs @ post
      = (u16_bytes (of_nat (length fs)) @ concat (map field_bytes (take i fs)) @ u32_bytes (of_nat (length bs)))
        @ bs @ concat (map field_bytes (drop (Suc i) fs)) @ post"
    by (simp add: row_message_def field_bytes_def)
  then show ?thesis by (intro exI conjI) (assumption, simp)
qed

text \<open>A column of a RowDescription: its name, the sixteen bytes that are skipped and the format code.\<close>

type_synonym column_info = "byte list \<times> byte list \<times> 16 word"

definition column_ok :: "column_info \<Rightarrow> bool" where
  "column_ok c \<longleftrightarrow> (case c of (name, skipped, code) \<Rightarrow> 0 \<notin> set name \<and> length skipped = 16)"

definition column_bytes :: "column_info \<Rightarrow> byte list" where
  "column_bytes c = fst c @ [0] @ fst (snd c) @ u16_bytes (snd (snd c))"

fun described_columns :: "nat \<Rightarrow> column_info list \<Rightarrow> pg_column list" where
  "described_columns p [] = []"
| "described_columns p (c # cs) =
     \<lparr>m_name = (p, length (fst c)), m_code = Format_code (snd (snd c))\<rparr>
       # described_columns (p + length (column_bytes c)) cs"

lemma column_bytes_tuple: "column_bytes (name, skipped, code) = name @ [0] @ skipped @ u16_bytes code"
  by (simp add: column_bytes_def)

lemma name_length_eq:
  assumes "data = pre @ name @ 0 # rest" "0 \<notin> set name" "n \<le> length name"
  shows "name_length data (length pre) n = Some (length name)"
  using assms(3)
proof (induction "length name - n" arbitrary: n)
  case 0
  then have "n = length name" by simp
  then show ?case using assms(1) by (subst name_length.simps) simp
next
  case (Suc k)
  then have "n < length name" "data ! (length pre + n) \<noteq> 0"
    using assms(1,2) by (auto simp: nth_append) (metis nth_mem)
  moreover have "name_length data (length pre) (n + 1) = Some (length name)"
    using Suc by simp
  ultimately show ?case using assms(1) by (subst name_length.simps) simp
qed

lemma columns_loop_described:
  assumes "list_all column_ok cs" "data = pre @ concat (map column_bytes cs) @ post"
  shows "columns_loop (length cs) data (length pre) result
    = Done (result\<lparr>m_columns := m_columns result @ described_columns (length pre) cs\<rparr>)"
  using assms
proof (induction cs arbitrary: pre result)
  case Nil
  then show ?case by simp
next
  case (Cons c cs)
  obtain name skipped code where c: "c = (name, skipped, code)" by (cases c)
  with Cons.prems(1) have ok: "0 \<notin> set name" "length skipped = 16" by (simp_all add: column_ok_def)
  let ?p = "length pre + length name + 1 + 4 * 4"
  have "name_length data (length pre) 0 = Some (length name)"
    by (rule name_length_eq) (use Cons.prems(2) ok in \<open>simp_all add: c column_bytes_tuple\<close>)
  moreover have "data = (pre @ name @ [0] @ skipped) @ u16_bytes code @ concat (map column_bytes cs) @ post"
    using Cons.prems(2) by (simp add: c column_bytes_tuple)
  then have "read_u16_be data ?p = Some code"
    using read_u16_be_bytes [of "pre @ name @ [0] @ skipped" code] ok(2)
    by (simp add: add.commute [of 17] add.assoc)
  moreover have "columns_loop (length cs) data (?p + 2)
      (add_column \<lparr>m_name = (length pre, length name), m_code = Format_code code\<rparr> result)
    = Done (result\<lparr>m_columns := m_columns result @ described_columns (length pre) (c # cs)\<rparr>)"
    using Cons.IH [of "pre @ column_bytes c"
        "add_column \<lparr>m_name = (length pre, length name), m_code = Format_code code\<rparr> result"] Cons.prems ok
    by (simp add: c column_bytes_tuple add_column_def add.commute [of 19] add.assoc)
  ultimately show ?case by (simp add: Let_def)
qed

definition description_message :: "column_info list \<Rightarrow> byte list" where
  "description_message cs = u16_bytes (of_nat (length cs)) @ concat (map column_bytes cs)"

lemma parse_row_description_message:
  assumes "list_all column_ok cs" "length cs < 65536"
  shows "parse_row_description (description_message cs @ post) result
    = Done (result\<lparr>m_columns := m_columns result @ described_columns 2 cs\<rparr>)"
proof -
  have n: "unat (of_nat (length cs) :: 16 word) = length cs"
    using assms(2) by (simp add: unat_of_nat)
  have "read_u16_be (description_message cs @ post) 0 = Some (of_nat (length cs))"
    using read_u16_be_bytes [of "[]" _ "concat (map column_bytes cs) @ post"] by (simp add: description_message_def)
  then show ?thesis
    using columns_loop_described [OF assms(1), of "description_message cs @ post" "u16_bytes (of_nat (length cs))" post]
    by (simp add: parse_row_description_def n description_message_def)
qed

section \<open>Reading values out of a row\<close>

text \<open>What an argument of a type is assigned from a value.\<close>

fun assignable :: "cell option \<Rightarrow> target \<Rightarrow> bool" where
  "assignable v (Optional T old) \<longleftrightarrow> pred_option (has_type T) v"
| "assignable v (Plain T old) \<longleftrightarrow> (\<exists>c. v = Some c \<and> has_type T c)"

fun assign :: "cell option \<Rightarrow> target \<Rightarrow> target" where
  "assign (Some c) (Optional T old) = Optional T (Some c)"
| "assign None (Optional T old) = Optional T old"
| "assign (Some c) (Plain T old) = Plain T c"
| "assign None (Plain T old) = Plain T old"

definition holds_row :: "pg_result \<Rightarrow> int \<Rightarrow> byte list option list \<Rightarrow> bool" where
  "holds_row r row_index fs \<longleftrightarrow> 0 \<le> row_index \<and> nat row_index < length (m_rows r)
     \<and> (\<exists>blk post. m_rows r ! nat row_index = row_values blk 2 fs \<and> blk < length (m_row_data r)
          \<and> m_row_data r ! blk = row_message fs @ post)"

lemma get_row_one_assign:
  assumes "holds_row r row_index fs" "i < length fs" "fs ! i = map_option cell_text v" "assignable v t"
  shows "get_row_one r i row_index t = Done (assign v t)"
proof -
  obtain blk post where b: "m_rows r ! nat row_index = row_values blk 2 fs" "blk < length (m_row_data r)"
      "m_row_data r ! blk = row_message fs @ post"
    using assms(1) by (auto simp: holds_row_def)
  let ?val = "\<lparr>m_ptr = (blk, 2 + length (concat (map field_bytes (take i fs))) + 4), m_size = field_size (fs ! i)\<rparr>"
  have val: "value_at r row_index i = Some ?val"
    using assms(1,2) b(1) by (simp only: value_at_def holds_row_def length_row_values row_values_nth [OF assms(2)]) simp
  show ?thesis
  proof (cases v)
    case None
    then show ?thesis using assms(3,4) by (cases t) (simp_all add: val is_null_def field_size_def)
  next
    case (Some c)
    then obtain pre where pre: "row_message fs @ post = pre @ cell_text c @ concat (map field_bytes (drop (Suc i) fs)) @ post"
        "length pre = 2 + length (concat (map field_bytes (take i fs))) + 4"
      using row_message_at [of i fs "cell_text c" post] assms(2,3) by auto
    have parse: "parse_value T r ?val = Done c" if "has_type T c" for T
      using pg_parse_cell_text [OF that, of pre] pre Some assms(3) b(2,3)
      by (simp add: parse_value_def field_size_def)
    have "\<not> is_null ?val" using Some assms(3) by (simp add: is_null_def field_size_def)
    then show ?thesis using Some assms(4) val parse by (cases t) simp_all
  qed
qed

lemma get_row_assign:
  assumes "holds_row r row_index fs" "k + length vs \<le> length fs" "length ts = length vs"
    and "\<And>i. i < length vs \<Longrightarrow> fs ! (k + i) = map_option cell_text (vs ! i)"
    and "\<And>i. i < length vs \<Longrightarrow> assignable (vs ! i) (ts ! i)"
  shows "get_row r k row_index ts = (Done (), map2 assign vs ts)"
  using assms(2-)
proof (induction vs arbitrary: k ts)
  case Nil
  then show ?case by simp
next
  case (Cons v vs)
  then obtain t ts' where ts: "ts = t # ts'" by (cases ts) auto
  have "get_row_one r k row_index t = Done (assign v t)"
    using get_row_one_assign [OF assms(1), of k v t] Cons.prems(1) Cons.prems(3) [of 0] Cons.prems(4) [of 0] by (simp add: ts)
  moreover have "get_row r (k + 1) row_index ts' = (Done (), map2 assign vs ts')"
    using Cons.IH [of "k + 1" ts'] Cons.prems(1,2) Cons.prems(3) [of "Suc i" for i] Cons.prems(4) [of "Suc i" for i]
    by (simp add: ts)
  ultimately show ?case by (simp add: ts)
qed

section \<open>What a message that is not well formed leads to\<close>

text \<open>The values follow one another, each size ahead of its value, inside the message.\<close>

fun chained :: "byte list \<Rightarrow> nat \<Rightarrow> nat \<Rightarrow> pg_value list \<Rightarrow> bool" where
  "chained data blk p [] \<longleftrightarrow> True"
| "chained data blk p (v # vs) \<longleftrightarrow> m_ptr v = (blk, p + 4) \<and> p + 4 \<le> length data
     \<and> chained data blk (p + 4 + nat (m_size v)) vs"

lemma values_loop_chained:
  assumes "values_loop k data blk p row = Done row'"
  shows "\<exists>new. row' = row @ new \<and> length new = k \<and> chained data blk p new"
  using assms
proof (induction k arbitrary: p row)
  case 0
  then show ?case by simp
next
  case (Suc k)
  then obtain w where w: "read_u32_be data p = Some w" by (auto split: option.splits)
  let ?v = "\<lparr>m_ptr = (blk, p + 4), m_size = sint w\<rparr>"
  have p: "p + 4 \<le> length data"
    using w by (auto simp: read_u32_be_def read_u16_be_def split: option.splits if_splits)
  have q: "(if 0 < sint w then p + 4 + nat (sint w) else p + 4) = p + 4 + nat (sint w)" by simp
  have "values_loop k data blk (p + 4 + nat (sint w)) (row @ [?v]) = Done row'"
    using Suc.prems w by (simp add: Let_def q)
  from Suc.IH [OF this] obtain new where "row' = row @ ?v # new" "length new = k"
      "chained data blk (p + 4 + nat (sint w)) new"
    by auto
  with p show ?case by (intro exI [of _ "?v # new"]) simp
qed

lemma chained_nth:
  assumes "chained data blk p vs" "i < length vs"
  shows "fst (m_ptr (vs ! i)) = blk \<and> snd (m_ptr (vs ! i)) \<le> length data
    \<and> (Suc i < length vs \<longrightarrow> snd (m_ptr (vs ! Suc i)) = snd (m_ptr (vs ! i)) + nat (m_size (vs ! i)) + 4)"
  using assms
proof (induction vs arbitrary: p i)
  case Nil
  then show ?case by simp
next
  case (Cons v vs)
  show ?case
  proof (cases i)
    case 0
    then show ?thesis using Cons.prems by (cases vs) auto
  next
    case (Suc j)
    then show ?thesis using Cons.IH [of "p + 4 + nat (m_size v)" j] Cons.prems by simp
  qed
qed

section \<open>Properties\<close>

text \<open>
  C17: the arguments of a query and the values of a row have the same encoding: a DataRow that carries the block
  built by \<open>pg_params::store\<close> is cut into as many values as were stored, and \<open>get_row\<close> assigns to each
  argument the value that was stored at its place; a stored NULL leaves an optional as it is.
\<close>

theorem pg_params_row_roundtrip:
  assumes "list_all (pred_option cell_ok) vs" "length vs < 65536"
    and "list_all (pred_option (\<lambda>c. length (cell_text c) < 2 ^ 31)) vs"
    and "store_args vs new_pg_params = (Done (), p)"
    and "list_all2 assignable vs ts"
    and "0 \<le> n" "nat n < length (m_rows r)" "blk < length (m_row_data r)"
    and "m_row_data r ! blk = m_param_buffer p @ post"
  shows "\<exists>row. parse_data_row (m_param_buffer p @ post) blk = Done row \<and> length row = length vs
    \<and> (m_rows r ! nat n = row \<longrightarrow> get_row r 0 n ts = (Done (), map2 assign vs ts))"
proof -
  let ?fs = "map (map_option cell_text) vs"
  have buf: "m_param_buffer p = row_message ?fs"
    using store_args_eq [OF params_hold_new assms(1)] assms(4) by (auto simp: params_hold_def row_message_def)
  have ok: "list_all field_ok ?fs"
    using assms(3) by (auto simp: list_all_length field_ok_def split: option.splits)
  have row: "parse_data_row (m_param_buffer p @ post) blk = Done (row_values blk 2 ?fs)"
    using parse_data_row_message [OF ok, of post blk] assms(2) by (simp add: buf)
  have "get_row r 0 n ts = (Done (), map2 assign vs ts)" if "m_rows r ! nat n = row_values blk 2 ?fs"
  proof (rule get_row_assign [where fs = ?fs])
    show "holds_row r n ?fs"
      unfolding holds_row_def using assms(6-9) that buf
      by (intro conjI exI [of _ blk] exI [of _ post]) simp_all
  qed (use assms(5) in \<open>simp_all add: list_all2_conv_all_nth\<close>)
  with row show ?thesis by simp
qed

theorem pg_params_row_roundtrip_witness:
  "\<exists>p row. store_args [Some (Num 7), None] new_pg_params = (Done (), p)
     \<and> parse_data_row (m_param_buffer p) 0 = Done row
     \<and> get_row (new_pg_result\<lparr>m_row_data := [m_param_buffer p], m_rows := [row]\<rparr>) 0 0
         [Plain (Integral 0 255) (Num 0), Optional Text (Some (Str ''old''))]
       = (Done (), [Plain (Integral 0 255) (Num 7), Optional Text (Some (Str ''old''))])"
proof -
  let ?vs = "[Some (Num 7), None]"
  let ?ts = "[Plain (Integral 0 255) (Num 0), Optional Text (Some (Str ''old''))]"
  obtain p where p: "store_args ?vs new_pg_params = (Done (), p)"
    using store_args_eq [OF params_hold_new, of ?vs] by auto
  have l: "length (cell_text (Num 7)) = 1" by code_simp
  obtain row where row: "parse_data_row (m_param_buffer p) 0 = Done row"
    using pg_params_row_roundtrip [of ?vs p ?ts 0 "new_pg_result\<lparr>m_row_data := [m_param_buffer p], m_rows := [[]]\<rparr>" 0 "[]"]
      p l by auto
  show ?thesis
    using pg_params_row_roundtrip [of ?vs p ?ts 0 "new_pg_result\<lparr>m_row_data := [m_param_buffer p], m_rows := [row]\<rparr>" 0 "[]"]
      p l row by auto
qed

text \<open>
  C39: for every DataRow message, well formed or not, that the loop gets through: there are as many values as the
  message announces, every value starts inside the message, right behind its size, and values do not overlap. The end
  of the last value is not checked: a size that reaches behind the message is accepted, and reading that value
  accesses memory behind it.
\<close>

theorem pg_data_row_bounds:
  assumes "parse_data_row data blk = Done row"
  shows "map_option unat (read_u16_be data 0) = Some (length row)
    \<and> (\<forall>i<length row. fst (m_ptr (row ! i)) = blk \<and> snd (m_ptr (row ! i)) \<le> length data)
    \<and> (\<forall>i. Suc i < length row \<longrightarrow> snd (m_ptr (row ! Suc i)) = snd (m_ptr (row ! i)) + nat (m_size (row ! i)) + 4)
    \<and> (\<forall>k. k < 2 ^ 31 \<longrightarrow> length bs < k \<longrightarrow>
        (\<exists>v. parse_data_row (u16_bytes 1 @ u32_bytes (of_nat k) @ bs) blk = Done [v] \<and> m_size v = int k
          \<and> (\<forall>r. m_row_data r ! blk = u16_bytes 1 @ u32_bytes (of_nat k) @ bs \<longrightarrow> parse_value Text r v = Undefined)))"
proof -
  from assms obtain num where num: "read_u16_be data 0 = Some num" "values_loop (unat num) data blk 2 [] = Done row"
    by (auto simp: parse_data_row_def split: option.splits)
  from values_loop_chained [OF num(2)] have ch: "length row = unat num" "chained data blk 2 row" by auto
  have over: "\<exists>v. parse_data_row (u16_bytes 1 @ u32_bytes (of_nat k) @ bs) blk = Done [v] \<and> m_size v = int k
      \<and> (\<forall>r. m_row_data r ! blk = u16_bytes 1 @ u32_bytes (of_nat k) @ bs \<longrightarrow> parse_value Text r v = Undefined)"
    if k: "k < 2 ^ 31" "length bs < k" for k
  proof -
    have "read_u16_be (u16_bytes 1 @ u32_bytes (of_nat k) @ bs) 0 = Some 1"
      using read_u16_be_bytes [of "[]" 1 "u32_bytes (of_nat k) @ bs"] by simp
    moreover have "read_u32_be (u16_bytes 1 @ u32_bytes (of_nat k) @ bs) 2 = Some (of_nat k)"
      using read_u32_be_bytes [of "u16_bytes 1" "of_nat k" bs] by simp
    ultimately have "parse_data_row (u16_bytes 1 @ u32_bytes (of_nat k) @ bs) blk
        = Done [\<lparr>m_ptr = (blk, 6), m_size = int k\<rparr>]"
      using sint_of_small_nat [OF k(1)] by (simp add: parse_data_row_def Let_def)
    then show ?thesis
      using k(2) by (auto simp: parse_value_def pg_parse_string_def slice_def)
  qed
  show ?thesis
    using num(1) ch chained_nth [OF ch(2)] over by auto
qed

theorem pg_data_row_bounds_witness:
  "parse_data_row [0, 2, 0xFF, 0xFF, 0xFF, 0xFF, 0, 0, 0, 1, 0x41] 5
     = Done [\<lparr>m_ptr = (5, 6), m_size = - 1\<rparr>, \<lparr>m_ptr = (5, 10), m_size = 1\<rparr>]
   \<and> (\<exists>v. parse_data_row (u16_bytes 1 @ u32_bytes (of_nat 9) @ [0x41]) 5 = Done [v] \<and> m_size v = 9
        \<and> (\<forall>r. m_row_data r ! 5 = u16_bytes 1 @ u32_bytes (of_nat 9) @ [0x41] \<longrightarrow> parse_value Text r v = Undefined))"
proof -
  have p: "parse_data_row [0, 2, 0xFF, 0xFF, 0xFF, 0xFF, 0, 0, 0, 1, 0x41] 5
     = Done [\<lparr>m_ptr = (5, 6), m_size = - 1\<rparr>, \<lparr>m_ptr = (5, 10), m_size = 1\<rparr>]"
    by code_simp
  from pg_data_row_bounds [OF p, of "[0x41]", THEN conjunct2, THEN conjunct2, THEN conjunct2, rule_format, of 9]
  show ?thesis using p by simp
qed

text \<open>
  a RowDescription with at most 65535 columns, each with a name free of zero bytes, adds exactly its columns to
  the result, in order, the name as a view into the message; a name that no zero byte ends is searched for behind the
  message.
\<close>

theorem pg_row_description_columns:
  assumes "list_all column_ok cs" "length cs < 65536"
  shows "parse_row_description (description_message cs @ post) result
      = Done (result\<lparr>m_columns := m_columns result @ described_columns 2 cs\<rparr>)
    \<and> (0 \<notin> set bs \<longrightarrow> parse_row_description (u16_bytes 1 @ bs) result = Undefined)"
proof -
  have "name_length (u16_bytes 1 @ bs) 2 n = None" if "0 \<notin> set bs" for n
  proof (induction "length bs - n" arbitrary: n)
    case 0
    then show ?case by (subst name_length.simps) simp
  next
    case (Suc k)
    then have "bs ! n \<noteq> 0" using that by (metis diff_is_0_eq nat.distinct(1) not_le_imp_less nth_mem)
    moreover have "name_length (u16_bytes 1 @ bs) 2 (n + 1) = None" using Suc(1) [of "n + 1"] Suc(2) by simp
    ultimately show ?case by (subst name_length.simps) (simp add: nth_append)
  qed
  moreover have "read_u16_be (u16_bytes 1 @ bs) 0 = Some 1"
    using read_u16_be_bytes [of "[]" 1 bs] by simp
  ultimately show ?thesis
    using parse_row_description_message [OF assms] by (simp add: parse_row_description_def)
qed

theorem pg_row_description_columns_witness:
  "parse_row_description ([0, 1, 0x61, 0x62, 0] @ replicate 16 7 @ [0, 1]) new_pg_result
     = Done (new_pg_result\<lparr>m_columns := [\<lparr>m_name = (2, 2), m_code = Format_code 1\<rparr>]\<rparr>)"
proof -
  have d: "description_message [([0x61, 0x62], replicate 16 7, 1)] = [0, 1, 0x61, 0x62, 0] @ replicate 16 7 @ [0, 1]"
    by code_simp
  have "list_all column_ok [([0x61, 0x62], replicate 16 7, 1)]" by (simp add: column_ok_def)
  from pg_row_description_columns [OF this, of "[]" new_pg_result "[]", THEN conjunct1] show ?thesis
    by (simp add: d new_pg_result_def)
qed

text \<open>
  reading a NULL into a plain variable throws and assigns nothing from there on, what stands before it being
  assigned already; reading it into an optional leaves the optional as it was, so a value from an earlier row
  survives.
\<close>

theorem pg_get_row_null:
  assumes "holds_row r row_index (map (map_option cell_text) vs)"
    and "vs = us @ None # ws" "list_all2 assignable us ts"
  shows "get_row r 0 row_index (ts @ Plain T old # rest)
      = (Threw (Runtime_error ''pg_result get_row: assigning null to non-optional type''),
         map2 assign us ts @ Plain T old # rest)
    \<and> get_row r 0 row_index (ts @ [Optional T opt]) = (Done (), map2 assign us ts @ [Optional T opt])"
proof -
  let ?fs = "map (map_option cell_text) vs"
  have split: "get_row r k row_index (ts @ qs)
      = (case get_row r (k + length ts) row_index qs of (res, qs') \<Rightarrow> (res, map2 assign us ts @ qs'))"
    if "list_all2 assignable us ts" "k + length us \<le> length vs" "take (length us) (drop k vs) = us" for k us ts qs
    using that
  proof (induction us ts arbitrary: k rule: list_all2_induct)
    case Nil
    then show ?case by (simp split: prod.split)
  next
    case (Cons u us t ts)
    have k: "k < length vs" using Cons.prems(1) by simp
    then have d: "drop k vs = vs ! k # drop (Suc k) vs" by (simp add: Cons_nth_drop_Suc)
    have "get_row_one r k row_index t = Done (assign u t)"
      by (rule get_row_one_assign [OF assms(1)]) (use k d Cons in simp_all)
    moreover have "take (length us) (drop (Suc k) vs) = us" using Cons.prems(2) d by simp
    ultimately show ?case
      using Cons.IH [of "Suc k"] Cons.prems(1) by (simp split: prod.split)
  qed
  have len: "length ts = length us" using assms(3) by (simp add: list_all2_lengthD)
  have at: "length us < length ?fs" "?fs ! length us = None" by (simp_all add: assms(2) nth_append)
  have opt: "get_row_one r (length us) row_index (Optional T opt) = Done (Optional T opt)"
    using get_row_one_assign [OF assms(1) at(1), of None "Optional T opt"] at(2) by simp
  have plain: "get_row_one r (length us) row_index (Plain T old)
      = Threw (Runtime_error ''pg_result get_row: assigning null to non-optional type'')"
  proof -
    from opt obtain v where "value_at r row_index (length us) = Some v" by (auto split: option.splits)
    moreover have "is_null v" if "value_at r row_index (length us) = Some v" for v
      using that at assms(1)
      by (auto simp: value_at_def holds_row_def row_values_nth is_null_def field_size_def split: if_splits)
    ultimately show ?thesis by simp
  qed
  show ?thesis
    using split [OF assms(3), of 0] by (simp add: assms(2) len plain opt del: get_row_one.simps)
qed

theorem pg_get_row_null_witness:
  "get_row (new_pg_result\<lparr>m_row_data := [row_message [Some [0x74], None]],
       m_rows := [row_values 0 2 [Some [0x74], None]]\<rparr>) 0 0
     ([Plain Boolean (Flag False)] @ Plain Text (Str ''x'') # [])
   = (Threw (Runtime_error ''pg_result get_row: assigning null to non-optional type''),
      map2 assign [Some (Flag True)] [Plain Boolean (Flag False)] @ Plain Text (Str ''x'') # [])"
proof -
  let ?r = "new_pg_result\<lparr>m_row_data := [row_message [Some [0x74], None]],
       m_rows := [row_values 0 2 [Some [0x74], None]]\<rparr>"
  have f: "map (map_option cell_text) ([Some (Flag True)] @ None # []) = [Some [0x74], None]"
    by code_simp
  have "holds_row ?r 0 (map (map_option cell_text) ([Some (Flag True)] @ None # []))"
    unfolding f by (auto simp: holds_row_def)
  from pg_get_row_null [OF this refl, of "[Plain Boolean (Flag False)]" Text "Str ''x''" "[]" None, THEN conjunct1]
  show ?thesis by simp
qed

end
