(* ===== verification/Crypto.thy ===== *)
theory Crypto
  imports Prelude
begin

text \<open>
  \<open>cppevent_crypto/crypto\<close>, \<open>sha256\<close>, \<open>hmac\<close> and \<open>pbkdf2\<close>: the wrappers around OpenSSL. OpenSSL
  is not part of the source: its functions are the fields of a record that every definition takes as an argument.
  \<open>'h\<close> is the type of the handles of fetched algorithms, \<open>'c\<close> that of contexts; a call that works on a context
  returns its status and the context it leaves behind. What the code relies on is \<open>openssl_computes\<close>.
\<close>

section \<open>The library as a parameter\<close>

record ('h, 'c) openssl =
  EVP_MD_fetch :: "string \<Rightarrow> 'h option"
  EVP_KDF_fetch :: "string \<Rightarrow> 'h option"
  EVP_MAC_fetch :: "string \<Rightarrow> 'h option"
  EVP_MD_CTX_new :: 'c
  EVP_DigestInit :: "'h \<Rightarrow> 'c \<Rightarrow> int \<times> 'c"
  EVP_DigestUpdate :: "byte list \<Rightarrow> 'c \<Rightarrow> int \<times> 'c"
  EVP_DigestFinal :: "'c \<Rightarrow> int \<times> byte list \<times> 'c"
  EVP_MAC_CTX_new :: "'h \<Rightarrow> 'c"
  EVP_MAC_init :: "byte list \<Rightarrow> string \<Rightarrow> 'c \<Rightarrow> int \<times> 'c"
  EVP_MAC_update :: "byte list \<Rightarrow> 'c \<Rightarrow> int \<times> 'c"
  EVP_MAC_final :: "nat \<Rightarrow> 'c \<Rightarrow> int \<times> byte list \<times> 'c"
  EVP_KDF_CTX_new :: "'h \<Rightarrow> 'c"
  EVP_KDF_derive :: "nat \<Rightarrow> byte list \<Rightarrow> byte list \<Rightarrow> 64 word \<Rightarrow> string \<Rightarrow> 'c \<Rightarrow> int \<times> byte list \<times> 'c"
  EVP_KDF_CTX_reset :: "'c \<Rightarrow> 'c"

section \<open>The cache of algorithms\<close>

record 'h crypto =
  m_md_algos :: "string \<rightharpoonup> 'h"
  m_kdf_algos :: "string \<rightharpoonup> 'h"
  m_mac_algos :: "string \<rightharpoonup> 'h"

definition new_crypto :: "'h crypto" where
  "new_crypto = \<lparr>m_md_algos = Map.empty, m_kdf_algos = Map.empty, m_mac_algos = Map.empty\<rparr>"

definition fetch_md :: "('h, 'c) openssl \<Rightarrow> string \<Rightarrow> ('h crypto, 'h) comp" where
  "fetch_md ossl algo k =
     (case m_md_algos k algo of
        Some md \<Rightarrow> (Done md, k)
      | None \<Rightarrow>
          (case EVP_MD_fetch ossl algo of
             None \<Rightarrow> (Threw (Runtime_error ''Failed to fetch md''), k)
           | Some md \<Rightarrow> (Done md, k\<lparr>m_md_algos := (m_md_algos k)(algo \<mapsto> md)\<rparr>)))"

definition fetch_kdf :: "('h, 'c) openssl \<Rightarrow> string \<Rightarrow> ('h crypto, 'h) comp" where
  "fetch_kdf ossl algo k =
     (case m_kdf_algos k algo of
        Some kdf \<Rightarrow> (Done kdf, k)
      | None \<Rightarrow>
          (case EVP_KDF_fetch ossl algo of
             None \<Rightarrow> (Threw (Runtime_error ''Failed to fetch kdf''), k)
           | Some kdf \<Rightarrow> (Done kdf, k\<lparr>m_kdf_algos := (m_kdf_algos k)(algo \<mapsto> kdf)\<rparr>)))"

definition fetch_mac :: "('h, 'c) openssl \<Rightarrow> string \<Rightarrow> ('h crypto, 'h) comp" where
  "fetch_mac ossl algo k =
     (case m_mac_algos k algo of
        Some mac \<Rightarrow> (Done mac, k)
      | None \<Rightarrow>
          (case EVP_MAC_fetch ossl algo of
             None \<Rightarrow> (Threw (Runtime_error ''Failed to fetch mac''), k)
           | Some mac \<Rightarrow> (Done mac, k\<lparr>m_mac_algos := (m_mac_algos k)(algo \<mapsto> mac)\<rparr>)))"

section \<open>Contexts\<close>

definition SHA256_OUTPUT_OCTETS :: nat where
  "SHA256_OUTPUT_OCTETS = 32"

definition SHA256_NAME :: string where
  "SHA256_NAME = ''SHA256''"

text \<open>A call of the library whose status must be one.\<close>

definition checked :: "string \<Rightarrow> ('c \<Rightarrow> int \<times> 'c) \<Rightarrow> ('c, unit) comp" where
  "checked msg f c = (case f c of (status, c') \<Rightarrow> (if status \<noteq> 1 then Threw (Runtime_error msg) else Done (), c'))"

definition checked_out :: "string \<Rightarrow> ('c \<Rightarrow> int \<times> byte list \<times> 'c) \<Rightarrow> ('c, byte list) comp" where
  "checked_out msg f c =
     (case f c of (status, out, c') \<Rightarrow> (if status \<noteq> 1 then Threw (Runtime_error msg) else Done out, c'))"

definition new_sha256 :: "('h, 'c) openssl \<Rightarrow> ('h crypto, 'c) comp" where
  "new_sha256 ossl =
     and_then (fetch_md ossl SHA256_NAME) (\<lambda>md.
       case checked ''sha25g constructor error'' (EVP_DigestInit ossl md) (EVP_MD_CTX_new ossl) of
         (r, ctx) \<Rightarrow> Pair (out_bind r (\<lambda>_. Done ctx)))"

definition sha256_update :: "('h, 'c) openssl \<Rightarrow> byte list \<Rightarrow> ('c, unit) comp" where
  "sha256_update ossl data = checked ''sha256 update error'' (EVP_DigestUpdate ossl data)"

definition sha256_derive :: "('h, 'c) openssl \<Rightarrow> ('c, byte list) comp" where
  "sha256_derive ossl = checked_out ''sha256 derive error'' (EVP_DigestFinal ossl)"

definition new_hmac :: "('h, 'c) openssl \<Rightarrow> ('h crypto, 'c) comp" where
  "new_hmac ossl = and_then (fetch_mac ossl ''HMAC'') (\<lambda>mac. return (EVP_MAC_CTX_new ossl mac))"

definition hmac_init :: "('h, 'c) openssl \<Rightarrow> byte list \<Rightarrow> string \<Rightarrow> ('c, unit) comp" where
  "hmac_init ossl key digest = checked ''hmac init error'' (EVP_MAC_init ossl key digest)"

definition hmac_update :: "('h, 'c) openssl \<Rightarrow> byte list \<Rightarrow> ('c, unit) comp" where
  "hmac_update ossl data = checked ''hmac update error'' (EVP_MAC_update ossl data)"

definition hmac_derive :: "('h, 'c) openssl \<Rightarrow> nat \<Rightarrow> ('c, byte list) comp" where
  "hmac_derive ossl out_size = checked_out ''hmac derive error'' (EVP_MAC_final ossl out_size)"

definition new_pbkdf2 :: "('h, 'c) openssl \<Rightarrow> ('h crypto, 'c) comp" where
  "new_pbkdf2 ossl = and_then (fetch_kdf ossl ''PBKDF2'') (\<lambda>kdf. return (EVP_KDF_CTX_new ossl kdf))"

definition pbkdf2_derive ::
  "('h, 'c) openssl \<Rightarrow> nat \<Rightarrow> byte list \<Rightarrow> byte list \<Rightarrow> 64 word \<Rightarrow> string \<Rightarrow> ('c, byte list) comp" where
  "pbkdf2_derive ossl out_len pass salt iter digest =
     checked_out ''pbkdf2 derive error'' (EVP_KDF_derive ossl out_len pass salt iter digest)"

definition pbkdf2_reset :: "('h, 'c) openssl \<Rightarrow> 'c \<Rightarrow> 'c" where
  "pbkdf2_reset ossl c = EVP_KDF_CTX_reset ossl c"

section \<open>What the code relies on\<close>

text \<open>
  The documented behaviour of the library for SHA-256: the algorithms can be fetched, and the sequences of calls the
  wrappers make return one and give the digest \<open>H\<close>, the MAC \<open>M\<close> and the derived key \<open>K\<close>, of the 32 bytes asked for;
  a derivation with an iteration count of zero fails, any other succeeds.
\<close>

definition openssl_computes ::
  "('h, 'c) openssl \<Rightarrow> (byte list \<Rightarrow> byte list) \<Rightarrow> (byte list \<Rightarrow> byte list \<Rightarrow> byte list)
    \<Rightarrow> (byte list \<Rightarrow> byte list \<Rightarrow> 64 word \<Rightarrow> nat \<Rightarrow> byte list) \<Rightarrow> bool" where
  "openssl_computes ossl H M K \<longleftrightarrow>
     (\<exists>md. EVP_MD_fetch ossl SHA256_NAME = Some md
        \<and> (\<forall>data. \<exists>c0 c1 c2. EVP_DigestInit ossl md (EVP_MD_CTX_new ossl) = (1, c0)
             \<and> EVP_DigestUpdate ossl data c0 = (1, c1) \<and> EVP_DigestFinal ossl c1 = (1, H data, c2)))
   \<and> (\<exists>mac. EVP_MAC_fetch ossl ''HMAC'' = Some mac
        \<and> (\<forall>key data. \<exists>c0 c1 c2. EVP_MAC_init ossl key SHA256_NAME (EVP_MAC_CTX_new ossl mac) = (1, c0)
             \<and> EVP_MAC_update ossl data c0 = (1, c1)
             \<and> EVP_MAC_final ossl SHA256_OUTPUT_OCTETS c1 = (1, M key data, c2)))
   \<and> (\<exists>kdf. EVP_KDF_fetch ossl ''PBKDF2'' = Some kdf
        \<and> (\<forall>pass salt iter. iter \<noteq> 0 \<longrightarrow>
             (\<exists>c. EVP_KDF_derive ossl SHA256_OUTPUT_OCTETS pass salt iter SHA256_NAME (EVP_KDF_CTX_new ossl kdf)
               = (1, K pass salt iter SHA256_OUTPUT_OCTETS, c)))
        \<and> (\<forall>pass salt. fst (EVP_KDF_derive ossl SHA256_OUTPUT_OCTETS pass salt 0 SHA256_NAME (EVP_KDF_CTX_new ossl kdf)) \<noteq> 1))
   \<and> (\<forall>data. length (H data) = SHA256_OUTPUT_OCTETS)
   \<and> (\<forall>key data. length (M key data) = SHA256_OUTPUT_OCTETS)
   \<and> (\<forall>pass salt iter. length (K pass salt iter SHA256_OUTPUT_OCTETS) = SHA256_OUTPUT_OCTETS)"

text \<open>The cache holds what the library would return.\<close>

definition crypto_wf :: "('h, 'c) openssl \<Rightarrow> 'h crypto \<Rightarrow> bool" where
  "crypto_wf ossl k \<longleftrightarrow>
     m_md_algos k \<subseteq>\<^sub>m EVP_MD_fetch ossl \<and> m_kdf_algos k \<subseteq>\<^sub>m EVP_KDF_fetch ossl \<and> m_mac_algos k \<subseteq>\<^sub>m EVP_MAC_fetch ossl"

lemma map_le_upd_fetch: "m \<subseteq>\<^sub>m f \<Longrightarrow> f a = Some h \<Longrightarrow> m(a \<mapsto> h) \<subseteq>\<^sub>m f"
  by (auto simp: map_le_def)

lemma map_le_find: "m \<subseteq>\<^sub>m f \<Longrightarrow> m a = Some h \<Longrightarrow> f a = Some h"
  by (metis domI map_le_def)

lemma crypto_wf_new [wf_intros]: "crypto_wf ossl new_crypto"
  by (simp add: crypto_wf_def new_crypto_def)

lemma fetch_cases:
  assumes "crypto_wf ossl k"
  shows "(case EVP_MD_fetch ossl a of None \<Rightarrow> fetch_md ossl a k = (Threw (Runtime_error ''Failed to fetch md''), k)
      | Some h \<Rightarrow> (\<exists>k'. fetch_md ossl a k = (Done h, k') \<and> crypto_wf ossl k' \<and> m_md_algos k' a = Some h))"
    and "(case EVP_KDF_fetch ossl a of None \<Rightarrow> fetch_kdf ossl a k = (Threw (Runtime_error ''Failed to fetch kdf''), k)
      | Some h \<Rightarrow> (\<exists>k'. fetch_kdf ossl a k = (Done h, k') \<and> crypto_wf ossl k' \<and> m_kdf_algos k' a = Some h))"
    and "(case EVP_MAC_fetch ossl a of None \<Rightarrow> fetch_mac ossl a k = (Threw (Runtime_error ''Failed to fetch mac''), k)
      | Some h \<Rightarrow> (\<exists>k'. fetch_mac ossl a k = (Done h, k') \<and> crypto_wf ossl k' \<and> m_mac_algos k' a = Some h))"
  using assms
  by (auto simp: fetch_md_def fetch_kdf_def fetch_mac_def crypto_wf_def map_le_upd_fetch dest: map_le_find
      split: option.splits)

section \<open>An instance\<close>

text \<open>
  A library that meets \<open>openssl_computes\<close>, with sums of bytes for digests and the bytes so far for contexts. It only
  shows that the hypothesis can hold.
\<close>

definition sum_H :: "byte list \<Rightarrow> byte list" where
  "sum_H data = replicate SHA256_OUTPUT_OCTETS (sum_list data)"

definition sum_M :: "byte list \<Rightarrow> byte list \<Rightarrow> byte list" where
  "sum_M key data = replicate SHA256_OUTPUT_OCTETS (sum_list key + sum_list data)"

definition sum_K :: "byte list \<Rightarrow> byte list \<Rightarrow> 64 word \<Rightarrow> nat \<Rightarrow> byte list" where
  "sum_K pass salt iter n = replicate n (sum_list pass + sum_list salt + ucast iter)"

definition sum_openssl :: "(unit, byte list) openssl" where
  "sum_openssl = \<lparr>
     EVP_MD_fetch = (\<lambda>_. Some ()), EVP_KDF_fetch = (\<lambda>_. Some ()), EVP_MAC_fetch = (\<lambda>_. Some ()),
     EVP_MD_CTX_new = [], EVP_DigestInit = (\<lambda>_ c. (1, c)), EVP_DigestUpdate = (\<lambda>d c. (1, c @ d)),
     EVP_DigestFinal = (\<lambda>c. (1, sum_H c, c)),
     EVP_MAC_CTX_new = (\<lambda>_. []), EVP_MAC_init = (\<lambda>key _ c. (1, key)), EVP_MAC_update = (\<lambda>d c. (1, c @ d)),
     EVP_MAC_final = (\<lambda>n c. (1, sum_M [] c, c)),
     EVP_KDF_CTX_new = (\<lambda>_. []), EVP_KDF_derive = (\<lambda>n pass salt iter _ c. (if iter = 0 then 0 else 1, sum_K pass salt iter n, c)),
     EVP_KDF_CTX_reset = (\<lambda>c. c)\<rparr>"

lemma sum_openssl_computes: "openssl_computes sum_openssl sum_H sum_M sum_K"
  by (simp add: openssl_computes_def sum_openssl_def sum_H_def sum_M_def sum_K_def)

section \<open>Properties\<close>

text \<open>
  fetching an algorithm returns the library's handle, or throws when the library has none and changes nothing;
  the cache stays true to the library, and once a handle has been returned the same one is returned for that name
  without asking the library again, whatever the library would answer then.
\<close>

theorem crypto_fetch_cached:
  assumes "crypto_wf ossl k"
  shows "(case EVP_MD_fetch ossl a of
      None \<Rightarrow> fetch_md ossl a k = (Threw (Runtime_error ''Failed to fetch md''), k)
    | Some h \<Rightarrow> \<exists>k'. fetch_md ossl a k = (Done h, k') \<and> crypto_wf ossl k' \<and> (\<forall>ossl'. fetch_md ossl' a k' = (Done h, k')))
   \<and> (case EVP_KDF_fetch ossl a of
      None \<Rightarrow> fetch_kdf ossl a k = (Threw (Runtime_error ''Failed to fetch kdf''), k)
    | Some h \<Rightarrow> \<exists>k'. fetch_kdf ossl a k = (Done h, k') \<and> crypto_wf ossl k' \<and> (\<forall>ossl'. fetch_kdf ossl' a k' = (Done h, k')))
   \<and> (case EVP_MAC_fetch ossl a of
      None \<Rightarrow> fetch_mac ossl a k = (Threw (Runtime_error ''Failed to fetch mac''), k)
    | Some h \<Rightarrow> \<exists>k'. fetch_mac ossl a k = (Done h, k') \<and> crypto_wf ossl k' \<and> (\<forall>ossl'. fetch_mac ossl' a k' = (Done h, k')))"
proof (intro conjI)
  note c = fetch_cases [OF assms, of a]
  show "case EVP_MD_fetch ossl a of
      None \<Rightarrow> fetch_md ossl a k = (Threw (Runtime_error ''Failed to fetch md''), k)
    | Some h \<Rightarrow> \<exists>k'. fetch_md ossl a k = (Done h, k') \<and> crypto_wf ossl k' \<and> (\<forall>ossl'. fetch_md ossl' a k' = (Done h, k'))"
    using c(1) by (fastforce simp: fetch_md_def split: option.splits)
  show "case EVP_KDF_fetch ossl a of
      None \<Rightarrow> fetch_kdf ossl a k = (Threw (Runtime_error ''Failed to fetch kdf''), k)
    | Some h \<Rightarrow> \<exists>k'. fetch_kdf ossl a k = (Done h, k') \<and> crypto_wf ossl k' \<and> (\<forall>ossl'. fetch_kdf ossl' a k' = (Done h, k'))"
    using c(2) by (fastforce simp: fetch_kdf_def split: option.splits)
  show "case EVP_MAC_fetch ossl a of
      None \<Rightarrow> fetch_mac ossl a k = (Threw (Runtime_error ''Failed to fetch mac''), k)
    | Some h \<Rightarrow> \<exists>k'. fetch_mac ossl a k = (Done h, k') \<and> crypto_wf ossl k' \<and> (\<forall>ossl'. fetch_mac ossl' a k' = (Done h, k'))"
    using c(3) by (fastforce simp: fetch_mac_def split: option.splits)
qed

theorem crypto_fetch_cached_witness:
  "\<exists>k'. fetch_md sum_openssl ''SHA256'' new_crypto = (Done (), k') \<and> crypto_wf sum_openssl k'
     \<and> (\<forall>ossl' :: (unit, byte list) openssl. fetch_md ossl' ''SHA256'' k' = (Done (), k'))"
  using crypto_fetch_cached [OF crypto_wf_new, of sum_openssl "''SHA256''", THEN conjunct1]
  by (simp add: sum_openssl_def)

end
