(* ===== verification/Scram.thy ===== *)
theory Scram
  imports Crypto Encoding Charconv
begin

text \<open>
  \<open>cppevent_postgres/scram\<close>: the client side of SCRAM-SHA-256 (RFC 5802 and 7677), over the wrappers of OpenSSL.
  The state is the cache of algorithms, shared by reference, and the exchange itself. \<open>m_server_nonce\<close> is a view
  into \<open>m_server_first_msg\<close> and kept as the characters it shows. \<open>m_iterations\<close> has no value before a server
  message has been resolved, and no operation reads it before.
\<close>

section \<open>State\<close>

record scram =
  m_client_first_msg_bare :: string
  m_client_nonce :: string
  m_server_first_msg :: string
  m_server_nonce :: string
  m_salt :: "byte list"
  m_iterations :: int
  m_expected_server_final_msg :: string

definition new_scram :: scram where
  "new_scram = \<lparr>m_client_first_msg_bare = [], m_client_nonce = [], m_server_first_msg = [], m_server_nonce = [],
     m_salt = [], m_iterations = 0, m_expected_server_final_msg = []\<rparr>"

definition GS2_HEADER :: string where
  "GS2_HEADER = ''n,,''"

definition generate_client_first_msg :: "string \<Rightarrow> string \<Rightarrow> scram \<Rightarrow> string \<times> scram" where
  "generate_client_first_msg user client_nonce s =
     (let bare = ''n='' @ user @ '',r='' @ client_nonce in
      (GS2_HEADER @ bare, s\<lparr>m_client_nonce := client_nonce, m_client_first_msg_bare := bare\<rparr>))"

section \<open>The first message of the server\<close>

definition SERVER_FIRST_MSG_PARAMS_COUNT :: nat where
  "SERVER_FIRST_MSG_PARAMS_COUNT = 3"

text \<open>
  A \<open>char\<close> is signed, and a sum that leaves the range of \<open>long\<close> is undefined. Nothing checks that the
  characters are digits.
\<close>

fun num_loop :: "int \<Rightarrow> string \<Rightarrow> int outcome" where
  "num_loop result [] = Done result"
| "num_loop result (c # input) =
     (let r = result * 10; r' = r + (sint (byte_of_char c) - 48) in
      if is_long r \<and> is_long r' then num_loop r' input else Undefined)"

definition convert_to_num :: "string \<Rightarrow> int outcome" where
  "convert_to_num input = num_loop 0 input"

text \<open>Each field is entered two characters behind the comma, past what should be a letter and an equals sign.\<close>

function server_params :: "string \<Rightarrow> nat \<Rightarrow> nat \<Rightarrow> string list \<Rightarrow> string list" where
  "server_params msg start i params =
     (if i \<le> length msg
      then (if i = length msg \<or> msg ! i = CHR '',''
            then server_params msg (i + 3) (i + 3) (params @ [take (i - start) (drop start msg)])
            else server_params msg start (i + 1) params)
      else params)"
  by pat_completeness auto
termination by (relation "measure (\<lambda>(msg, _, i, _). Suc (length msg) - i)") auto

declare server_params.simps [simp del]

definition starts_with :: "string \<Rightarrow> string \<Rightarrow> bool" where
  "starts_with s pre \<longleftrightarrow> take (length pre) s = pre"

definition resolve_server_first_msg :: "string \<Rightarrow> (scram, unit) comp" where
  "resolve_server_first_msg msg s =
     (let s1 = s\<lparr>m_server_first_msg := msg\<rparr>; params = server_params msg 2 2 [] in
      if length params \<noteq> SERVER_FIRST_MSG_PARAMS_COUNT
      then (Threw (Runtime_error ''Not enough params server first message''), s1)
      else if \<not> starts_with (params ! 0) (m_client_nonce s1)
      then (Threw (Runtime_error ''Server nonce doesn't begin with client nonce''), s1)
      else let s2 = s1\<lparr>m_server_nonce := params ! 0\<rparr> in
           and_then (Pair (base64_decode (params ! 1))) (\<lambda>salt s.
           and_then (Pair (convert_to_num (params ! 2))) (\<lambda>iterations s.
             (Done (), s\<lparr>m_iterations := iterations\<rparr>)) (s\<lparr>m_salt := salt\<rparr>)) s2)"

section \<open>Keys\<close>

text \<open>
  A \<open>key_buffer\<close> is an array of 32 bytes that starts uninitialised: the library has to fill it exactly.
\<close>

definition key_buffer :: "byte list \<Rightarrow> ('s, byte list) comp" where
  "key_buffer out = Pair (if length out = SHA256_OUTPUT_OCTETS then Done out else Undefined)"

text \<open>The calls on a context that lives for one computation.\<close>

definition on_context :: "('c, 'a) comp \<Rightarrow> 'c \<Rightarrow> ('s, 'a) comp" where
  "on_context m ctx = Pair (fst (m ctx))"

definition generate_salted_password :: "('h, 'c) openssl \<Rightarrow> string \<Rightarrow> ('h crypto \<times> scram, byte list) comp" where
  "generate_salted_password ossl password st =
     and_then (on_fst (new_pbkdf2 ossl))
       (on_context (and_then (pbkdf2_derive ossl SHA256_OUTPUT_OCTETS (bytes password) (m_salt (snd st))
                                (of_int (m_iterations (snd st))) SHA256_NAME) key_buffer)) st"

definition generate_hmac :: "('h, 'c) openssl \<Rightarrow> byte list \<Rightarrow> string \<Rightarrow> ('h crypto \<times> scram, byte list) comp" where
  "generate_hmac ossl key input =
     and_then (on_fst (new_hmac ossl))
       (on_context (and_then (hmac_init ossl key SHA256_NAME) (\<lambda>_.
                    and_then (hmac_update ossl (bytes input)) (\<lambda>_.
                    and_then (hmac_derive ossl SHA256_OUTPUT_OCTETS) key_buffer))))"

definition generate_sha :: "('h, 'c) openssl \<Rightarrow> byte list \<Rightarrow> ('h crypto \<times> scram, byte list) comp" where
  "generate_sha ossl input =
     and_then (on_fst (new_sha256 ossl))
       (on_context (and_then (sha256_update ossl input) (\<lambda>_. and_then (sha256_derive ossl) key_buffer)))"

section \<open>The last messages\<close>

definition generate_client_final_msg :: "('h, 'c) openssl \<Rightarrow> string \<Rightarrow> ('h crypto \<times> scram, string) comp" where
  "generate_client_final_msg ossl password st =
     (let client_final_msg_bare = ''c=biws,r='' @ m_server_nonce (snd st);
          auth_message = m_client_first_msg_bare (snd st) @ '','' @ m_server_first_msg (snd st) @ '','' @ client_final_msg_bare
      in
      and_then (generate_salted_password ossl password) (\<lambda>salted_password.
      and_then (generate_hmac ossl salted_password ''Client Key'') (\<lambda>client_key.
      and_then (generate_sha ossl client_key) (\<lambda>stored_key.
      and_then (generate_hmac ossl stored_key auth_message) (\<lambda>client_signature.
      and_then (generate_hmac ossl salted_password ''Server Key'') (\<lambda>server_key.
      and_then (generate_hmac ossl server_key auth_message) (\<lambda>server_signature.
      and_then (Pair (base64_encode server_signature)) (\<lambda>sig s.
      and_then (Pair (base64_encode (map2 (XOR) client_key client_signature))) (\<lambda>proof.
        return (client_final_msg_bare @ '',p='' @ proof))
        (fst s, (snd s)\<lparr>m_expected_server_final_msg := ''v='' @ sig\<rparr>)))))))) st)"

definition verify_server_final_msg :: "string \<Rightarrow> scram \<Rightarrow> bool" where
  "verify_server_final_msg msg s \<longleftrightarrow> msg = m_expected_server_final_msg s"

section \<open>The fields of the first message\<close>

lemma server_params_end: "length msg < i \<Longrightarrow> server_params msg start i ps = ps"
  by (subst server_params.simps) simp

lemma server_params_field:
  assumes "msg = pre @ f @ post" "CHR '','' \<notin> set f" "post = [] \<or> hd post = CHR '',''" "n \<le> length f"
  shows "server_params msg (length pre) (length pre + n) ps
    = server_params msg (length pre + length f + 3) (length pre + length f + 3) (ps @ [f])"
  using assms(4)
proof (induction "length f - n" arbitrary: n)
  case 0
  then have n: "n = length f" by simp
  have "length pre + n = length msg \<or> msg ! (length pre + n) = CHR '',''"
    using assms(1,3) n by (cases post) (simp_all add: nth_append)
  then show ?case
    using n assms(1) by (subst server_params.simps) (simp add: add.assoc)
next
  case (Suc k)
  then have n: "n < length f" by simp
  then have "msg ! (length pre + n) = f ! n" using assms(1) by (simp add: nth_append)
  moreover have "f ! n \<noteq> CHR '',''" using assms(2) n by (metis nth_mem)
  moreover have "server_params msg (length pre) (length pre + (n + 1)) ps
      = server_params msg (length pre + length f + 3) (length pre + length f + 3) (ps @ [f])"
    using Suc(1) [of "n + 1"] Suc(2) n by simp
  ultimately show ?case using n assms(1) by (subst server_params.simps) simp
qed

definition attributes :: "(string \<times> string) list \<Rightarrow> string" where
  "attributes fs = concat (map (\<lambda>(k, f). CHR '','' # k @ f) fs)"

definition attribute_ok :: "string \<times> string \<Rightarrow> bool" where
  "attribute_ok kf \<longleftrightarrow> length (fst kf) = 2 \<and> CHR '','' \<notin> set (snd kf)"

lemma server_params_attributes:
  assumes "list_all attribute_ok fs" "attribute_ok (k, f)" "msg = pre @ k @ f @ attributes fs"
  shows "server_params msg (length pre + 2) (length pre + 2) ps = ps @ f # map snd fs"
  using assms
proof (induction fs arbitrary: k f pre ps)
  case Nil
  then have "server_params msg (length (pre @ k)) (length (pre @ k) + 0) ps
      = server_params msg (length (pre @ k) + length f + 3) (length (pre @ k) + length f + 3) (ps @ [f])"
    by (intro server_params_field [where post = "[]"]) (simp_all add: attribute_ok_def attributes_def)
  moreover have "length msg = length pre + 2 + length f" using Nil by (simp add: attribute_ok_def attributes_def)
  ultimately show ?case using Nil.prems(2) by (simp add: attribute_ok_def server_params_end)
next
  case (Cons kf fs)
  obtain k' f' where kf: "kf = (k', f')" by fastforce
  have a: "attributes ((k', f') # fs) = CHR '','' # k' @ f' @ attributes fs" by (simp add: attributes_def)
  have "server_params msg (length (pre @ k)) (length (pre @ k) + 0) ps
      = server_params msg (length (pre @ k) + length f + 3) (length (pre @ k) + length f + 3) (ps @ [f])"
    by (rule server_params_field [where post = "attributes (kf # fs)"])
       (use Cons.prems in \<open>simp_all add: attribute_ok_def a kf\<close>)
  also have "server_params msg (length (pre @ k) + length f + 3) (length (pre @ k) + length f + 3) (ps @ [f])
      = (ps @ [f]) @ f' # map snd fs"
  proof -
    have e: "length (pre @ k) + length f + 3 = length (pre @ k @ f @ '','') + 2" by simp
    show ?thesis unfolding e
      by (rule Cons.IH [where k = k']) (use Cons.prems in \<open>simp_all add: a kf\<close>)
  qed
  finally have "server_params msg (length (pre @ k)) (length (pre @ k)) ps = (ps @ [f]) @ f' # map snd fs"
    unfolding add_0_right .
  moreover have "length (pre @ k) = length pre + 2" using Cons.prems(2) by (simp add: attribute_ok_def)
  ultimately show ?case by (simp only: kf list.map snd_conv append_assoc append.simps)
qed

lemma sint_digit_char:
  assumes "d < 10" shows "sint (byte_of_char (digit_char d)) = 48 + int d"
proof -
  have "d \<in> {0, 1, 2, 3, 4, 5, 6, 7, 8, 9}" using assms by auto
  then show ?thesis by (elim insertE emptyE; simp only:; code_simp)
qed

lemma num_loop_append: "num_loop r (xs @ ys) = out_bind (num_loop r xs) (\<lambda>r. num_loop r ys)"
  by (induction xs arbitrary: r) (simp_all add: Let_def)

lemma convert_to_num_digits: "int n \<le> LONG_MAX \<Longrightarrow> convert_to_num (nat_digits 10 n) = Done (int n)"
proof (induction n rule: less_induct)
  case (less n)
  have small: "is_long (int m)" if "m \<le> n" for m
    using that less.prems by (simp add: is_long_def LONG_MIN_def)
  show ?case
  proof (cases "n < 10")
    case True
    then show ?thesis
      using small [of n] by (subst nat_digits.simps) (simp add: convert_to_num_def sint_digit_char is_long_def LONG_MIN_def LONG_MAX_def)
  next
    case False
    then have "convert_to_num (nat_digits 10 (n div 10)) = Done (int (n div 10))"
      using less by simp
    moreover have "int (n div 10) * 10 + (48 + int (n mod 10) - 48) = int n" by presburger
    moreover have "is_long (int (n div 10) * 10)" using small [of "n div 10 * 10"] by simp
    ultimately show ?thesis
      using False small [of n]
      by (subst nat_digits.simps) (simp add: convert_to_num_def num_loop_append sint_digit_char)
  qed
qed

lemma resolve_attributes:
  assumes "list_all attribute_ok [(k0, f0), (k1, f1), (k2, f2)]" "starts_with f0 (m_client_nonce s)"
    and "msg = k0 @ f0 @ attributes [(k1, f1), (k2, f2)]"
    and "base64_decode f1 = Done salt" "convert_to_num f2 = Done n"
  shows "resolve_server_first_msg msg s = (Done (), s\<lparr>m_server_first_msg := msg, m_server_nonce := f0,
    m_salt := salt, m_iterations := n\<rparr>)"
proof -
  have "server_params msg 2 2 [] = [f0, f1, f2]"
    using server_params_attributes [of "[(k1, f1), (k2, f2)]" k0 f0 msg "[]" "[]"] assms(1,3) unfolding list.size(3) add_0 by simp
  then show ?thesis
    using assms(2,4,5)
    by (simp add: resolve_server_first_msg_def SERVER_FIRST_MSG_PARAMS_COUNT_def Let_def and_then_def)
qed

section \<open>What the library calls compute\<close>

lemma key_buffer_Done: "length out = SHA256_OUTPUT_OCTETS \<Longrightarrow> key_buffer out c = (Done out, c)"
  by (simp add: key_buffer_def)

lemma generate_sha_eq:
  assumes "openssl_computes ossl H M K" "crypto_wf ossl k"
  shows "\<exists>k'. generate_sha ossl input (k, s) = (Done (H input), (k', s)) \<and> crypto_wf ossl k'"
proof -
  obtain md where md: "EVP_MD_fetch ossl SHA256_NAME = Some md"
      "\<forall>data. \<exists>c0 c1 c2. EVP_DigestInit ossl md (EVP_MD_CTX_new ossl) = (1, c0)
             \<and> EVP_DigestUpdate ossl data c0 = (1, c1) \<and> EVP_DigestFinal ossl c1 = (1, H data, c2)"
      "length (H input) = SHA256_OUTPUT_OCTETS"
    using assms(1) unfolding openssl_computes_def by blast
  then obtain c0 c1 c2 where c: "EVP_DigestInit ossl md (EVP_MD_CTX_new ossl) = (1, c0)"
      "EVP_DigestUpdate ossl input c0 = (1, c1)" "EVP_DigestFinal ossl c1 = (1, H input, c2)"
    by blast
  obtain k' where k': "fetch_md ossl SHA256_NAME k = (Done md, k')" "crypto_wf ossl k'"
    using fetch_cases(1) [OF assms(2), of SHA256_NAME] md(1) by auto
  have "new_sha256 ossl k = (Done c0, k')"
    by (simp add: new_sha256_def and_then_def k'(1) checked_def c(1))
  moreover have "and_then (sha256_update ossl input) (\<lambda>_. and_then (sha256_derive ossl) key_buffer) c0 = (Done (H input), c2)"
    by (simp add: and_then_def sha256_update_def sha256_derive_def checked_def c(2) checked_out_def c(3)
      key_buffer_Done md(3))
  ultimately have "generate_sha ossl input (k, s) = (Done (H input), (k', s))"
    by (simp add: generate_sha_def and_then_def [of "on_fst _"] on_fst_def on_context_def)
  with k'(2) show ?thesis by blast
qed

lemma generate_hmac_eq:
  assumes "openssl_computes ossl H M K" "crypto_wf ossl k"
  shows "\<exists>k'. generate_hmac ossl key input (k, s) = (Done (M key (bytes input)), (k', s)) \<and> crypto_wf ossl k'"
proof -
  obtain mac where mac: "EVP_MAC_fetch ossl ''HMAC'' = Some mac"
      "\<forall>key data. \<exists>c0 c1 c2. EVP_MAC_init ossl key SHA256_NAME (EVP_MAC_CTX_new ossl mac) = (1, c0)
             \<and> EVP_MAC_update ossl data c0 = (1, c1)
             \<and> EVP_MAC_final ossl SHA256_OUTPUT_OCTETS c1 = (1, M key data, c2)"
      "length (M key (bytes input)) = SHA256_OUTPUT_OCTETS"
    using assms(1) unfolding openssl_computes_def by blast
  then obtain c0 c1 c2 where c: "EVP_MAC_init ossl key SHA256_NAME (EVP_MAC_CTX_new ossl mac) = (1, c0)"
      "EVP_MAC_update ossl (bytes input) c0 = (1, c1)"
      "EVP_MAC_final ossl SHA256_OUTPUT_OCTETS c1 = (1, M key (bytes input), c2)"
    by blast
  obtain k' where k': "fetch_mac ossl ''HMAC'' k = (Done mac, k')" "crypto_wf ossl k'"
    using fetch_cases(3) [OF assms(2), of "''HMAC''"] mac(1) by auto
  have "new_hmac ossl k = (Done (EVP_MAC_CTX_new ossl mac), k')"
    by (simp add: new_hmac_def and_then_def k'(1) return_def)
  moreover have "and_then (hmac_init ossl key SHA256_NAME) (\<lambda>_. and_then (hmac_update ossl (bytes input)) (\<lambda>_.
      and_then (hmac_derive ossl SHA256_OUTPUT_OCTETS) key_buffer)) (EVP_MAC_CTX_new ossl mac)
      = (Done (M key (bytes input)), c2)"
    by (simp add: and_then_def hmac_init_def hmac_update_def hmac_derive_def checked_def c(1) checked_def c(2)
      checked_out_def c(3) key_buffer_Done mac(3))
  ultimately have "generate_hmac ossl key input (k, s) = (Done (M key (bytes input)), (k', s))"
    by (simp add: generate_hmac_def and_then_def [of "on_fst _"] on_fst_def on_context_def)
  with k'(2) show ?thesis by blast
qed

lemma new_pbkdf2_Done:
  assumes "crypto_wf ossl k" "EVP_KDF_fetch ossl ''PBKDF2'' = Some kdf"
  obtains k' where "new_pbkdf2 ossl k = (Done (EVP_KDF_CTX_new ossl kdf), k')" "crypto_wf ossl k'"
proof -
  obtain k' where k': "fetch_kdf ossl ''PBKDF2'' k = (Done kdf, k')" "crypto_wf ossl k'"
    using fetch_cases(2) [OF assms(1), of "''PBKDF2''"] assms(2) by auto
  then show thesis using that by (simp add: new_pbkdf2_def and_then_def return_def)
qed

text \<open>An iteration count of zero is refused by the library.\<close>

lemma generate_salted_password_eq:
  assumes "openssl_computes ossl H M K" "crypto_wf ossl k"
  shows "\<exists>k'. generate_salted_password ossl password (k, s)
      = (if of_int (m_iterations s) = (0 :: 64 word) then Threw (Runtime_error ''pbkdf2 derive error'')
         else Done (K (bytes password) (m_salt s) (of_int (m_iterations s)) SHA256_OUTPUT_OCTETS), (k', s)) \<and> crypto_wf ossl k'"
proof -
  let ?iter = "of_int (m_iterations s) :: 64 word"
  let ?out = "K (bytes password) (m_salt s) ?iter SHA256_OUTPUT_OCTETS"
  let ?use = "\<lambda>kdf. and_then (pbkdf2_derive ossl SHA256_OUTPUT_OCTETS (bytes password) (m_salt s) ?iter SHA256_NAME) key_buffer
    (EVP_KDF_CTX_new ossl kdf)"
  obtain kdf where kdf: "EVP_KDF_fetch ossl ''PBKDF2'' = Some kdf"
      "\<forall>pass salt iter. iter \<noteq> 0 \<longrightarrow>
         (\<exists>c. EVP_KDF_derive ossl SHA256_OUTPUT_OCTETS pass salt iter SHA256_NAME (EVP_KDF_CTX_new ossl kdf)
           = (1, K pass salt iter SHA256_OUTPUT_OCTETS, c))"
      "\<forall>pass salt. fst (EVP_KDF_derive ossl SHA256_OUTPUT_OCTETS pass salt 0 SHA256_NAME (EVP_KDF_CTX_new ossl kdf)) \<noteq> 1"
      "length ?out = SHA256_OUTPUT_OCTETS"
    using assms(1) unfolding openssl_computes_def by blast
  obtain k' where k': "new_pbkdf2 ossl k = (Done (EVP_KDF_CTX_new ossl kdf), k')" "crypto_wf ossl k'"
    by (rule new_pbkdf2_Done [OF assms(2) kdf(1)])
  have "fst (?use kdf) = (if ?iter = 0 then Threw (Runtime_error ''pbkdf2 derive error'') else Done ?out)"
  proof (cases "?iter = 0")
    case True
    obtain status out c where e: "EVP_KDF_derive ossl SHA256_OUTPUT_OCTETS (bytes password) (m_salt s) 0
        SHA256_NAME (EVP_KDF_CTX_new ossl kdf) = (status, out, c)" by (metis prod.exhaust)
    then have "status \<noteq> 1" using kdf(3) by (metis fst_conv)
    then show ?thesis using True e by (simp add: and_then_def pbkdf2_derive_def checked_out_def)
  next
    case False
    then obtain c where "EVP_KDF_derive ossl SHA256_OUTPUT_OCTETS (bytes password) (m_salt s) ?iter
        SHA256_NAME (EVP_KDF_CTX_new ossl kdf) = (1, ?out, c)"
      using kdf(2) by blast
    then show ?thesis
      using False by (simp add: and_then_def pbkdf2_derive_def checked_out_def key_buffer_Done kdf(4))
  qed
  then have "generate_salted_password ossl password (k, s)
      = (if ?iter = 0 then Threw (Runtime_error ''pbkdf2 derive error'') else Done ?out, (k', s))"
    using k'(1) by (simp add: generate_salted_password_def and_then_def [of "on_fst _"] on_fst_def on_context_def)
  with k'(2) show ?thesis by blast
qed

section \<open>The exchange\<close>

text \<open>
  What RFC 5802 prescribes, as functions of the salted password: the message that both sides sign, the proof of the
  client, and the signature of the server.
\<close>

definition auth_message :: "scram \<Rightarrow> string" where
  "auth_message s = m_client_first_msg_bare s @ '','' @ m_server_first_msg s @ '',c=biws,r='' @ m_server_nonce s"

definition client_proof ::
  "(byte list \<Rightarrow> byte list) \<Rightarrow> (byte list \<Rightarrow> byte list \<Rightarrow> byte list) \<Rightarrow> byte list \<Rightarrow> string \<Rightarrow> byte list" where
  "client_proof H M salted auth =
     map2 (XOR) (M salted (bytes ''Client Key'')) (M (H (M salted (bytes ''Client Key''))) (bytes auth))"

definition server_signature :: "(byte list \<Rightarrow> byte list \<Rightarrow> byte list) \<Rightarrow> byte list \<Rightarrow> string \<Rightarrow> byte list" where
  "server_signature M salted auth = M (M salted (bytes ''Server Key'')) (bytes auth)"

lemma generate_client_final_msg_eq:
  fixes s :: scram and password :: string
  assumes "openssl_computes ossl H M K" "crypto_wf ossl k" "of_int (m_iterations s) \<noteq> (0 :: 64 word)"
  defines "salted \<equiv> K (bytes password) (m_salt s) (of_int (m_iterations s)) SHA256_OUTPUT_OCTETS"
  shows "\<exists>k'. generate_client_final_msg ossl password (k, s)
      = (Done (''c=biws,r='' @ m_server_nonce s @ '',p='' @ base64_ref (client_proof H M salted (auth_message s))),
         (k', s\<lparr>m_expected_server_final_msg := ''v='' @ base64_ref (server_signature M salted (auth_message s))\<rparr>))
      \<and> crypto_wf ossl k'"
proof -
  let ?ck = "M salted (bytes ''Client Key'')"
  let ?sk = "M salted (bytes ''Server Key'')"
  obtain k1 where k1: "generate_salted_password ossl password (k, s) = (Done salted, (k1, s))" "crypto_wf ossl k1"
    using generate_salted_password_eq [OF assms(1,2), of password s] assms(3) unfolding salted_def by auto
  obtain k2 where k2: "generate_hmac ossl salted ''Client Key'' (k1, s) = (Done ?ck, (k2, s))" "crypto_wf ossl k2"
    using generate_hmac_eq [OF assms(1) k1(2)] by blast
  obtain k3 where k3: "generate_sha ossl ?ck (k2, s) = (Done (H ?ck), (k3, s))" "crypto_wf ossl k3"
    using generate_sha_eq [OF assms(1) k2(2)] by blast
  obtain k4 where k4: "generate_hmac ossl (H ?ck) (auth_message s) (k3, s)
      = (Done (M (H ?ck) (bytes (auth_message s))), (k4, s))" "crypto_wf ossl k4"
    using generate_hmac_eq [OF assms(1) k3(2)] by blast
  obtain k5 where k5: "generate_hmac ossl salted ''Server Key'' (k4, s) = (Done ?sk, (k5, s))" "crypto_wf ossl k5"
    using generate_hmac_eq [OF assms(1) k4(2)] by blast
  obtain k6 where k6: "generate_hmac ossl ?sk (auth_message s) (k5, s)
      = (Done (server_signature M salted (auth_message s)), (k6, s))" "crypto_wf ossl k6"
    using generate_hmac_eq [OF assms(1) k5(2)] unfolding server_signature_def by blast
  have a: "m_client_first_msg_bare s @ '','' @ m_server_first_msg s @ '','' @ ''c=biws,r='' @ m_server_nonce s = auth_message s"
    by (simp add: auth_message_def)
  have "generate_client_final_msg ossl password (k, s)
      = (Done ((''c=biws,r='' @ m_server_nonce s) @ '',p='' @ base64_ref (client_proof H M salted (auth_message s))),
         (k6, s\<lparr>m_expected_server_final_msg := ''v='' @ base64_ref (server_signature M salted (auth_message s))\<rparr>))"
    unfolding generate_client_final_msg_def Let_def snd_conv a
    by (simp only: and_then_def [of "generate_salted_password _ _"] and_then_def [of "generate_hmac _ _ _"]
        and_then_def [of "generate_sha _ _"] and_then_def [of "Pair _"] k1(1) k2(1) k3(1) k4(1) k5(1) k6(1)
        base64_encode_ref prod.case pass_on.simps return_def client_proof_def snd_conv fst_conv)
  with k6(2) show ?thesis by (metis append_assoc)
qed

lemma generate_client_final_msg_zero:
  assumes "openssl_computes ossl H M K" "crypto_wf ossl k" "of_int (m_iterations s) = (0 :: 64 word)"
  shows "\<exists>k'. generate_client_final_msg ossl password (k, s) = (Threw (Runtime_error ''pbkdf2 derive error''), (k', s))
      \<and> crypto_wf ossl k'"
proof -
  obtain k1 where k1: "generate_salted_password ossl password (k, s)
      = (Threw (Runtime_error ''pbkdf2 derive error''), (k1, s))" "crypto_wf ossl k1"
    using generate_salted_password_eq [OF assms(1,2), of password s] assms(3) by auto
  then show ?thesis
    by (simp add: generate_client_final_msg_def Let_def and_then_def [of "generate_salted_password _ _"])
qed

text \<open>
  The check of the server: it has stored the hash of the client key, and takes the signature off the proof to get the
  key back.
\<close>

definition server_accepts ::
  "(byte list \<Rightarrow> byte list) \<Rightarrow> (byte list \<Rightarrow> byte list \<Rightarrow> byte list) \<Rightarrow> byte list \<Rightarrow> string \<Rightarrow> string \<Rightarrow> bool" where
  "server_accepts H M stored_key auth proof \<longleftrightarrow>
     (case base64_decode proof of
        Done p \<Rightarrow> H (map2 (XOR) p (M stored_key (bytes auth))) = stored_key
      | _ \<Rightarrow> False)"

lemma map2_xor_twice: "length a = length b \<Longrightarrow> map2 (XOR) (map2 (XOR) a b) b = (a :: byte list)"
  by (induction a b rule: list_induct2) (simp_all add: xor.assoc)

lemma server_accepts_proof:
  assumes "openssl_computes ossl H M K"
  shows "server_accepts H M (H (M salted (bytes ''Client Key''))) auth (base64_ref (client_proof H M salted auth))"
proof -
  have "length (M key data) = SHA256_OUTPUT_OCTETS" for key data
    using assms by (simp add: openssl_computes_def)
  then show ?thesis
    by (simp add: server_accepts_def base64_decode_ref client_proof_def map2_xor_twice)
qed

lemma base64_ref_no_comma: "CHR '','' \<notin> set (base64_ref data)"
proof -
  have "list_all base64_valid (base64_ref data)"
    using decode_loop_total [of 0 "base64_ref data" 0 "[]"] base64_decode_ref [of data]
    by (auto simp: base64_decode_def bits_ok_def split: if_splits)
  moreover have "\<not> base64_valid (CHR '','')" by code_simp
  ultimately show ?thesis by (auto simp: list_all_iff)
qed

text \<open>The steps of the client in an exchange with a server that follows the protocol.\<close>

lemma scram_steps:
  assumes "openssl_computes ossl H M K" "crypto_wf ossl k"
    and "CHR '','' \<notin> set cnonce" "CHR '','' \<notin> set snonce" "int iterations \<le> LONG_MAX"
    and "generate_client_first_msg user cnonce new_scram = (first, s1)"
    and "server_first = ''r='' @ cnonce @ snonce @ '',s='' @ base64_ref salt @ '',i='' @ to_chars 10 (int iterations)"
    and "salted = K (bytes password) salt (of_nat iterations) SHA256_OUTPUT_OCTETS"
    and "auth = ''n='' @ user @ '',r='' @ cnonce @ '','' @ server_first @ '',c=biws,r='' @ cnonce @ snonce"
  shows "first = ''n,,n='' @ user @ '',r='' @ cnonce"
    and "\<exists>s2 k'. resolve_server_first_msg server_first s1 = (Done (), s2)
      \<and> generate_client_final_msg ossl password (k, s2)
        = (if iterations = 0 then (Threw (Runtime_error ''pbkdf2 derive error''), (k', s2))
           else (Done (''c=biws,r='' @ cnonce @ snonce @ '',p='' @ base64_ref (client_proof H M salted auth)),
             (k', s2\<lparr>m_expected_server_final_msg := ''v='' @ base64_ref (server_signature M salted auth)\<rparr>)))
      \<and> crypto_wf ossl k'"
proof -
  have s1: "first = ''n,,n='' @ user @ '',r='' @ cnonce"
      "s1 = new_scram\<lparr>m_client_nonce := cnonce, m_client_first_msg_bare := ''n='' @ user @ '',r='' @ cnonce\<rparr>"
    using assms(6) by (simp_all add: generate_client_first_msg_def GS2_HEADER_def Let_def)
  define s2 where "s2 = s1\<lparr>m_server_first_msg := server_first, m_server_nonce := cnonce @ snonce,
    m_salt := salt, m_iterations := int iterations\<rparr>"
  have digits: "to_chars 10 (int iterations) = nat_digits 10 iterations" by (simp add: to_chars_def)
  have comma: "CHR '','' \<notin> set (nat_digits 10 iterations)"
  proof
    assume "CHR '','' \<in> set (nat_digits 10 iterations)"
    then have "is_digit 10 (CHR '','')" using nat_digits_all [of 10 iterations] by (simp add: list_all_iff)
    then show False by (simp add: is_digit_def digit_value_def)
  qed
  have r: "resolve_server_first_msg server_first s1 = (Done (), s2)"
    unfolding s2_def
  proof (rule resolve_attributes [of "''r=''" _ "''s=''" "base64_ref salt" "''i=''" "nat_digits 10 iterations"])
    show "server_first = ''r='' @ (cnonce @ snonce) @ attributes [(''s='', base64_ref salt), (''i='', nat_digits 10 iterations)]"
      using assms(7) by (simp add: attributes_def digits)
  qed (use assms(3-5) comma base64_ref_no_comma convert_to_num_digits in
      \<open>auto simp: attribute_ok_def starts_with_def s1(2) base64_decode_ref\<close>)
  have auth: "auth_message s2 = auth"
    using assms(9) by (simp add: auth_message_def s2_def s1(2))
  have salted: "salted = K (bytes password) (m_salt s2) (of_int (m_iterations s2)) SHA256_OUTPUT_OCTETS"
    using assms(8) by (simp add: s2_def)
  show "first = ''n,,n='' @ user @ '',r='' @ cnonce" by (rule s1(1))
  have iter: "of_int (m_iterations s2) = (0 :: 64 word) \<longleftrightarrow> iterations = 0"
  proof -
    have "iterations < 2 ^ 64" using assms(5) by (simp add: LONG_MAX_def)
    then have "(of_nat iterations = (0 :: 64 word)) = (iterations = 0)"
      by (simp add: word_of_nat_eq_0_iff nat_dvd_not_less dvd_imp_le linorder_not_le) (metis dvd_imp_le gr0I not_le dvd_0_right)
    then show ?thesis by (simp add: s2_def)
  qed
  have nonce: "m_server_nonce s2 = cnonce @ snonce" by (simp add: s2_def)
  show "\<exists>s2 k'. resolve_server_first_msg server_first s1 = (Done (), s2)
      \<and> generate_client_final_msg ossl password (k, s2)
        = (if iterations = 0 then (Threw (Runtime_error ''pbkdf2 derive error''), (k', s2))
           else (Done (''c=biws,r='' @ cnonce @ snonce @ '',p='' @ base64_ref (client_proof H M salted auth)),
             (k', s2\<lparr>m_expected_server_final_msg := ''v='' @ base64_ref (server_signature M salted auth)\<rparr>)))
      \<and> crypto_wf ossl k'"
  proof (cases "iterations = 0")
    case True
    then show ?thesis
      using generate_client_final_msg_zero [OF assms(1,2), of s2 password] iter r by auto
  next
    case False
    then have "of_int (m_iterations s2) \<noteq> (0 :: 64 word)" using iter by simp
    from generate_client_final_msg_eq [OF assms(1,2) this, of password] obtain k' where
      "generate_client_final_msg ossl password (k, s2)
        = (Done (''c=biws,r='' @ m_server_nonce s2 @ '',p='' @ base64_ref (client_proof H M salted auth)),
           (k', s2\<lparr>m_expected_server_final_msg := ''v='' @ base64_ref (server_signature M salted auth)\<rparr>))"
        and wf: "crypto_wf ossl k'"
      unfolding auth salted by blast
    then have "generate_client_final_msg ossl password (k, s2)
        = (Done (''c=biws,r='' @ cnonce @ snonce @ '',p='' @ base64_ref (client_proof H M salted auth)),
           (k', s2\<lparr>m_expected_server_final_msg := ''v='' @ base64_ref (server_signature M salted auth)\<rparr>))"
      unfolding nonce by (simp only: append_assoc)
    then show ?thesis using r wf False by auto
  qed
qed

section \<open>Properties\<close>

text \<open>
  C10: a whole exchange with a server that follows RFC 5802 succeeds on both sides: the client's first message is
  \<open>n,,n=user,r=nonce\<close>; the server's nonce, salt and iteration count are read off its first message; the final message
  carries a proof from which the server recovers the client key it has the hash of; and the server's final message is
  accepted exactly when it carries the server's signature for this exchange. An iteration count of zero, which the library
  refuses, ends the exchange with an exception instead of the final message.
\<close>

theorem scram_exchange:
  assumes "openssl_computes ossl H M K" "crypto_wf ossl k"
    and "CHR '','' \<notin> set cnonce" "CHR '','' \<notin> set snonce" "int iterations \<le> LONG_MAX"
    and "generate_client_first_msg user cnonce new_scram = (first, s1)"
    and "server_first = ''r='' @ cnonce @ snonce @ '',s='' @ base64_ref salt @ '',i='' @ to_chars 10 (int iterations)"
    and "salted = K (bytes password) salt (of_nat iterations) SHA256_OUTPUT_OCTETS"
    and "auth = ''n='' @ user @ '',r='' @ cnonce @ '','' @ server_first @ '',c=biws,r='' @ cnonce @ snonce"
  shows "first = ''n,,n='' @ user @ '',r='' @ cnonce
    \<and> (\<exists>s2. resolve_server_first_msg server_first s1 = (Done (), s2)
      \<and> (if iterations = 0
         then fst (generate_client_final_msg ossl password (k, s2)) = Threw (Runtime_error ''pbkdf2 derive error'')
         else \<exists>s3 k' proof.
             generate_client_final_msg ossl password (k, s2) = (Done (''c=biws,r='' @ cnonce @ snonce @ '',p='' @ proof), (k', s3))
             \<and> server_accepts H M (H (M salted (bytes ''Client Key''))) auth proof
             \<and> (\<forall>msg. verify_server_final_msg msg s3 \<longleftrightarrow> msg = ''v='' @ base64_ref (server_signature M salted auth))))"
proof -
  note st = scram_steps [OF assms]
  from st(2) show ?thesis
    using st(1) server_accepts_proof [OF assms(1), of salted auth]
    by (cases "iterations = 0") (fastforce simp: verify_server_final_msg_def)+
qed

theorem scram_exchange_witness:
  "\<exists>s2 s3 k' proof. resolve_server_first_msg ''r=abXY,s=AQI=,i=4096''
        (snd (generate_client_first_msg ''joe'' ''ab'' new_scram)) = (Done (), s2)
      \<and> generate_client_final_msg sum_openssl ''pw'' (new_crypto, s2) = (Done (''c=biws,r=abXY,p='' @ proof), (k', s3))
      \<and> verify_server_final_msg (''v='' @ base64_ref (server_signature sum_M (sum_K (bytes ''pw'') [1, 2] 4096 32)
          ''n=joe,r=ab,r=abXY,s=AQI=,i=4096,c=biws,r=abXY'')) s3"
proof -
  let ?sf = "''r='' @ ''ab'' @ ''XY'' @ '',s='' @ base64_ref [1, 2] @ '',i='' @ to_chars 10 (int 4096)"
  have b: "base64_ref [1, 2] = ''AQI=''" by code_simp
  have d: "to_chars 10 (int 4096) = ''4096''" by code_simp
  have n: "CHR '','' \<notin> set ''ab''" "CHR '','' \<notin> set ''XY''" "int 4096 \<le> LONG_MAX" by (simp_all add: LONG_MAX_def)
  obtain first s1 where fs: "generate_client_first_msg ''joe'' ''ab'' new_scram = (first, s1)" by fastforce
  from scram_exchange [OF sum_openssl_computes crypto_wf_new n fs refl refl refl, of "[1, 2]" "''pw''"]
  show ?thesis unfolding b d fs snd_conv by (auto simp: SHA256_OUTPUT_OCTETS_def)
qed

text \<open>
  the first message of the server is refused when it has not exactly three fields or when its nonce does not
  begin with the nonce of the client, and a field of the salt that is not base64 is refused too. The letters in front
  of the fields are not looked at, and the iteration count may hold any characters.
\<close>

theorem scram_server_first_checks:
  assumes "list_all attribute_ok ((k0, f0) # fs)" "msg = k0 @ f0 @ attributes fs"
  shows "(length fs \<noteq> 2 \<longrightarrow> resolve_server_first_msg msg s
        = (Threw (Runtime_error ''Not enough params server first message''), s\<lparr>m_server_first_msg := msg\<rparr>))
    \<and> (length fs = 2 \<longrightarrow> \<not> starts_with f0 (m_client_nonce s) \<longrightarrow> resolve_server_first_msg msg s
        = (Threw (Runtime_error ''Server nonce doesn't begin with client nonce''), s\<lparr>m_server_first_msg := msg\<rparr>))
    \<and> (length fs = 2 \<longrightarrow> starts_with f0 (m_client_nonce s) \<longrightarrow> \<not> list_all base64_valid (snd (fs ! 0)) \<longrightarrow>
        (\<exists>e. fst (resolve_server_first_msg msg s) = Threw e))
    \<and> (\<forall>j0 gs. length j0 = 2 \<longrightarrow> map snd gs = map snd fs \<longrightarrow> list_all attribute_ok gs \<longrightarrow>
        fst (resolve_server_first_msg (j0 @ f0 @ attributes gs) s) = fst (resolve_server_first_msg msg s))"
proof -
  have p: "server_params (j0 @ f0 @ attributes gs) 2 2 [] = f0 # map snd gs"
    if "length j0 = 2" "list_all attribute_ok gs" for j0 gs
    using server_params_attributes [of gs j0 f0 "j0 @ f0 @ attributes gs" "[]" "[]"] assms(1) that
    unfolding list.size(3) add_0 by (simp add: attribute_ok_def)
  have m: "server_params msg 2 2 [] = f0 # map snd fs"
    using p [of k0 fs] assms by (simp add: attribute_ok_def)
  note r = resolve_server_first_msg_def SERVER_FIRST_MSG_PARAMS_COUNT_def Let_def
  have bad: "\<exists>e. fst (resolve_server_first_msg msg s) = Threw e"
    if "length fs = 2" "starts_with f0 (m_client_nonce s)" "\<not> list_all base64_valid (snd (fs ! 0))"
  proof -
    have "\<exists>e. base64_decode (snd (fs ! 0)) = Threw e"
      using decode_loop_total [of 0 "snd (fs ! 0)" 0 "[]"] that(3) by (simp add: base64_decode_def bits_ok_def)
    then show ?thesis using that(1,2) by (auto simp: r m and_then_def)
  qed
  have same: "fst (resolve_server_first_msg (j0 @ f0 @ attributes gs) s) = fst (resolve_server_first_msg msg s)"
    if g: "length j0 = 2" "map snd gs = map snd fs" "list_all attribute_ok gs" for j0 gs
  proof -
    have l: "length gs = length fs" using g(2) by (rule map_eq_imp_length_eq)
    show ?thesis
      using l by (cases "base64_decode (snd (fs ! 0))"; cases "convert_to_num (snd (fs ! Suc 0))")
        (simp_all add: r m p [OF g(1,3)] g(2) and_then_def)
  qed
  show ?thesis
    using bad same by (auto simp: r m)
qed

theorem scram_server_first_checks_witness:
  "fst (resolve_server_first_msg ''r=ab,s=AQI='' (new_scram\<lparr>m_client_nonce := ''ab''\<rparr>))
     = Threw (Runtime_error ''Not enough params server first message'')"
proof -
  have ok: "list_all attribute_ok ((''r='', ''ab'') # [(''s='', ''AQI='')])" by (simp add: attribute_ok_def)
  have m: "''r=ab,s=AQI='' = ''r='' @ ''ab'' @ attributes [(''s='', ''AQI='')]" by (simp add: attributes_def)
  from scram_server_first_checks [OF ok m, of "new_scram\<lparr>m_client_nonce := ''ab''\<rparr>", THEN conjunct1]
  show ?thesis by simp
qed

end
