(* ===== verification/Pg_Connection.thy ===== *)
theory Pg_Connection
  imports Socket_Calls Pg_Rows Scram
begin

text \<open>
  \<open>cppevent_postgres/pg_connection\<close>: the client side of the PostgreSQL protocol on one connection. The state is the
  connection together with the socket it owns; the count of connections that it points to belongs to the pool.
\<close>

section \<open>Messages\<close>

datatype auth_type = AUTH_OK | CLEAR_TEXT_PASSWORD | SASL | SASL_CONTINUE | SASL_FINAL | Other_auth "32 word"

definition auth_type_of :: "32 word \<Rightarrow> auth_type" where
  "auth_type_of w =
     (if w = 0 then AUTH_OK else if w = 3 then CLEAR_TEXT_PASSWORD else if w = 10 then SASL
      else if w = 11 then SASL_CONTINUE else if w = 12 then SASL_FINAL else Other_auth w)"

text \<open>Any byte can be cast to the enumeration, whether it is one of its values or not.\<close>

datatype response_type =
    ERROR_RESPONSE | NEGOTIATE_PROTOCOL_VERSION | AUTHENTICATION | BACKEND_KEY_DATA | PARAMETER_STATUS
  | READY_FOR_QUERY | NOTICE_RESPONSE | EMPTY_QUERY_RESPONSE | COMMAND_COMPLETE | DATA_ROW | ROW_DESCRIPTION
  | PARSE_COMPLETE | BIND_COMPLETE | PORTAL_SUSPENDED | Other_response char

definition response_type_of :: "char \<Rightarrow> response_type" where
  "response_type_of c =
     (if c = CHR ''E'' then ERROR_RESPONSE else if c = CHR ''v'' then NEGOTIATE_PROTOCOL_VERSION
      else if c = CHR ''R'' then AUTHENTICATION else if c = CHR ''K'' then BACKEND_KEY_DATA
      else if c = CHR ''S'' then PARAMETER_STATUS else if c = CHR ''Z'' then READY_FOR_QUERY
      else if c = CHR ''N'' then NOTICE_RESPONSE else if c = CHR ''I'' then EMPTY_QUERY_RESPONSE
      else if c = CHR ''C'' then COMMAND_COMPLETE else if c = CHR ''D'' then DATA_ROW
      else if c = CHR ''T'' then ROW_DESCRIPTION else if c = CHR ''1'' then PARSE_COMPLETE
      else if c = CHR ''2'' then BIND_COMPLETE else if c = CHR ''s'' then PORTAL_SUSPENDED
      else Other_response c)"

record response_info =
  m_info_type :: response_type
  m_info_size :: int

definition HEADER_SIZE :: nat where
  "HEADER_SIZE = 5"

record response_header =
  m_buf :: "byte list"

text \<open>The five bytes start without a value; both setters are called before they are sent.\<close>

definition new_response_header :: response_header where
  "new_response_header = \<lparr>m_buf = replicate HEADER_SIZE 0\<rparr>"

definition set_type :: "char \<Rightarrow> response_header \<Rightarrow> response_header" where
  "set_type c h = h\<lparr>m_buf := (m_buf h)[0 := byte_of_char c]\<rparr>"

definition INT_32_OCTETS :: int where
  "INT_32_OCTETS = 4"

definition set_size :: "int \<Rightarrow> response_header \<Rightarrow> response_header outcome" where
  "set_size sz h =
     (case write_u32_be (m_buf h) 1 (of_int (sz + INT_32_OCTETS)) of
        None \<Rightarrow> Undefined
      | Some b \<Rightarrow> Done (h\<lparr>m_buf := b\<rparr>))"

record pg_connection =
  m_query_ready :: bool

definition new_pg_connection :: pg_connection where
  "new_pg_connection = \<lparr>m_query_ready = False\<rparr>"

type_synonym conn = "pg_connection \<times> socket"

definition set_query_ready :: "bool \<Rightarrow> (conn, unit) comp" where
  "set_query_ready b p = (Done (), ((fst p)\<lparr>m_query_ready := b\<rparr>, snd p))"

section \<open>Reading a header\<close>

text \<open>
  The size is an \<open>uint32_t\<close> minus four, so a length below four wraps around; a notice without a body is skipped
  without reading.
\<close>

definition read_header :: "(socket, response_info) comp" where
  "read_header =
     and_then (read_mem (replicate HEADER_SIZE 0) 0 (int HEADER_SIZE) True) (\<lambda>(res_header, _).
       case read_u32_be res_header 1 of
         None \<Rightarrow> Pair Undefined
       | Some w \<Rightarrow> return \<lparr>m_info_type = response_type_of (char_of_byte (res_header ! 0)),
                          m_info_size = uint (w - of_int INT_32_OCTETS)\<rparr>)"

lemma read_header_work: "read_header s = (Done info, s') \<Longrightarrow> rx_work s' < rx_work s"
  using read_mem_work [of "replicate HEADER_SIZE 0" 0 "int HEADER_SIZE" s]
  by (fastforce simp: read_header_def HEADER_SIZE_def return_def split: prod.splits option.splits elim!: and_then_DoneE)

function response_loop :: "bool \<Rightarrow> int \<Rightarrow> (socket, response_info) comp" where
  "response_loop ignore_notice sz s =
     and_then (if sz > 0 then and_then (skip sz True) (\<lambda>_. return ()) else return ()) (\<lambda>_ s1.
       case read_header s1 of
         (Done info, s2) \<Rightarrow>
           if ignore_notice \<and> m_info_type info = NOTICE_RESPONSE
           then response_loop ignore_notice (m_info_size info) s2
           else (Done info, s2)
       | (Threw e, s2) \<Rightarrow> (Threw e, s2)
       | (Suspended, s2) \<Rightarrow> (Suspended, s2)
       | (Undefined, s2) \<Rightarrow> (Undefined, s2)) s"
  by pat_completeness auto
termination
proof (relation "measure (\<lambda>(_, _, s). rx_work s)", goal_cases)
  case 1
  show ?case by simp
next
  case (2 ign sz s u s1 r s2 info)
  have "frugal (\<lambda>s. s) (if sz > 0 then and_then (skip sz True) (\<lambda>_. return ()) else return ())"
    by (simp add: frugal_intros)
  from frugalD [OF this 2(1)] have "rx_work s1 \<le> rx_work s" .
  moreover have "rx_work s2 < rx_work s1" using 2(2,3) read_header_work by metis
  ultimately show ?case by simp
qed

declare response_loop.simps [simp del]

definition get_response_info :: "bool \<Rightarrow> (conn, response_info) comp" where
  "get_response_info ignore_notice = on_snd (response_loop ignore_notice 0)"

lemma response_loop_Done:
  "response_loop ign sz s = (Done info, s') \<Longrightarrow> rx_work s' < rx_work s \<and> 0 \<le> m_info_size info"
proof (induction ign sz s rule: response_loop.induct)
  case (1 ign sz s)
  let ?pre = "if sz > 0 then and_then (skip sz True) (\<lambda>_. return ()) else return ()"
  obtain u s1 where pre: "?pre s = (Done u, s1)"
    using "1.prems" by (subst (asm) response_loop.simps) (erule and_then_DoneE)
  have "frugal (\<lambda>s. s) ?pre" by (simp add: frugal_intros)
  from frugalD [OF this pre] have w: "rx_work s1 \<le> rx_work s" .
  obtain i s2 where h: "read_header s1 = (Done i, s2)"
    using "1.prems" pre by (subst (asm) response_loop.simps) (auto simp: and_then_def split: prod.splits outcome.splits)
  have sz: "0 \<le> m_info_size i"
    using h by (auto simp: read_header_def return_def split: option.splits elim!: and_then_DoneE)
  show ?case
  proof (cases "ign \<and> m_info_type i = NOTICE_RESPONSE")
    case True
    then have "response_loop ign (m_info_size i) s2 = (Done info, s')"
      using "1.prems" pre h by (subst (asm) response_loop.simps) (simp add: and_then_def)
    then show ?thesis
      using "1.IH" [OF pre h [symmetric] refl True] read_header_work [OF h] w by simp
  next
    case False
    then have "i = info \<and> s2 = s'"
      using "1.prems" pre h by (subst (asm) response_loop.simps) (auto simp: and_then_def)
    then show ?thesis using read_header_work [OF h] w sz by simp
  qed
qed

lemma get_response_info_Done:
  "get_response_info ign p = (Done info, p') \<Longrightarrow> rx_work (snd p') < rx_work (snd p) \<and> 0 \<le> m_info_size info"
  by (auto simp: get_response_info_def on_snd_def dest: response_loop_Done split: prod.splits)

section \<open>Writing\<close>

definition write_bytes :: "byte list \<Rightarrow> (conn, unit) comp" where
  "write_bytes src = on_snd (sock_write src (int (length src)))"

definition write_header :: "char \<Rightarrow> int \<Rightarrow> (conn, unit) comp" where
  "write_header c sz =
     and_then (Pair (set_size sz (set_type c new_response_header))) (\<lambda>res_header. write_bytes (m_buf res_header))"

text \<open>The characters of a string and the zero byte behind them that \<open>c_str\<close> guarantees.\<close>

definition c_str :: "string \<Rightarrow> byte list" where
  "c_str q = bytes q @ [0]"

definition NULL_ARR :: "byte list" where
  "NULL_ARR = [0, 0]"

section \<open>Authentication\<close>

definition SCRAM_SHA256 :: string where
  "SCRAM_SHA256 = ''SCRAM-SHA-256''"

definition CLIENT_NONCE_OCTETS :: nat where
  "CLIENT_NONCE_OCTETS = 24"

text \<open>\<open>std::string::find\<close> as it is called: whether a string occurs in another.\<close>

fun occurs :: "string \<Rightarrow> string \<Rightarrow> bool" where
  "occurs pat [] \<longleftrightarrow> pat = []"
| "occurs pat (c # str) \<longleftrightarrow> take (length pat) (c # str) = pat \<or> occurs pat str"

text \<open>\<open>rand\<close> is the answer of \<open>RAND_bytes\<close>: so many bytes, or \<open>None\<close> when it fails.\<close>

definition generate_random_string :: "nat \<Rightarrow> (nat \<Rightarrow> byte list option) \<Rightarrow> string outcome" where
  "generate_random_string n rand =
     (case rand n of
        None \<Rightarrow> Threw (Runtime_error ''Error generating RAND_BYTES'')
      | Some bs \<Rightarrow> base64_encode bs)"

record pg_config =
  m_user :: string
  m_password :: string
  m_database :: string
  m_max_connections :: int

text \<open>The exchange works on the connection and on the state of SCRAM.\<close>

type_synonym 'h auth = "conn \<times> 'h crypto \<times> scram"

definition read_string :: "int \<Rightarrow> ('h auth, string) comp" where
  "read_string sz = on_fst (on_snd (and_then (read_str [] sz True) (\<lambda>(str, _). return str)))"

text \<open>The three answers of the client.\<close>

definition send_password :: "pg_config \<Rightarrow> (conn, unit) comp" where
  "send_password config =
     and_then (write_header (CHR ''p'') (int (length (m_password config)) + 1)) (\<lambda>_.
     and_then (write_bytes (c_str (m_password config))) (\<lambda>_.
     on_snd flush))"

definition send_initial_response :: "string \<Rightarrow> (conn, unit) comp" where
  "send_initial_response client_first_msg =
     and_then (write_header (CHR ''p'')
                 (int (length (c_str SCRAM_SHA256)) + INT_32_OCTETS + int (length client_first_msg))) (\<lambda>_.
     and_then (write_bytes (c_str SCRAM_SHA256)) (\<lambda>_.
     and_then (Pair (case write_u32_be (replicate 4 0) 0 (of_nat (length client_first_msg)) of
                       None \<Rightarrow> Undefined | Some arr \<Rightarrow> Done arr)) (\<lambda>arr.
     and_then (write_bytes arr) (\<lambda>_.
     and_then (write_bytes (bytes client_first_msg)) (\<lambda>_.
     on_snd flush)))))"

definition send_final_response :: "string \<Rightarrow> (conn, unit) comp" where
  "send_final_response client_final_msg =
     and_then (write_header (CHR ''p'') (int (length client_final_msg))) (\<lambda>_.
     and_then (write_bytes (bytes client_final_msg)) (\<lambda>_.
     on_snd flush))"

definition start_sasl :: "(nat \<Rightarrow> byte list option) \<Rightarrow> pg_config \<Rightarrow> string \<Rightarrow> ('h auth, unit) comp" where
  "start_sasl rand config sasl_mechanisms =
     (if \<not> occurs SCRAM_SHA256 sasl_mechanisms then throw (Runtime_error ''SCRAM mechanism not found'')
      else
        and_then (Pair (generate_random_string CLIENT_NONCE_OCTETS rand)) (\<lambda>c_nonce.
        and_then (on_snd (on_snd (\<lambda>scr. case generate_client_first_msg (m_user config) c_nonce scr of
                    (msg, scr') \<Rightarrow> (Done msg, scr')))) (\<lambda>client_first_msg.
        on_fst (send_initial_response client_first_msg))))"

definition continue_sasl :: "('h, 'c) openssl \<Rightarrow> pg_config \<Rightarrow> string \<Rightarrow> ('h auth, unit) comp" where
  "continue_sasl ossl config server_first_msg =
     and_then (on_snd (on_snd (resolve_server_first_msg server_first_msg))) (\<lambda>_.
     and_then (on_snd (generate_client_final_msg ossl (m_password config))) (\<lambda>client_final_msg.
     on_fst (send_final_response client_final_msg)))"

definition finish_sasl :: "string \<Rightarrow> ('h auth, unit) comp" where
  "finish_sasl server_final_msg st =
     (if \<not> verify_server_final_msg server_final_msg (snd (snd st))
      then (Threw (Runtime_error ''SASL Auth unexpected final msg''), st)
      else (Done (), st))"

text \<open>The cases of the switch; \<open>msg_size\<close> is the size of what follows the kind.\<close>

definition auth_case ::
  "('h, 'c) openssl \<Rightarrow> (nat \<Rightarrow> byte list option) \<Rightarrow> pg_config \<Rightarrow> int \<Rightarrow> auth_type \<Rightarrow> ('h auth, unit) comp" where
  "auth_case ossl rand config msg_size type =
     (case type of
        AUTH_OK \<Rightarrow> return ()
      | CLEAR_TEXT_PASSWORD \<Rightarrow> on_fst (send_password config)
      | SASL \<Rightarrow> and_then (read_string msg_size) (start_sasl rand config)
      | SASL_CONTINUE \<Rightarrow> and_then (read_string msg_size) (continue_sasl ossl config)
      | SASL_FINAL \<Rightarrow> and_then (read_string msg_size) finish_sasl
      | Other_auth _ \<Rightarrow> throw (Runtime_error ''Unrecognized auth method''))"

definition handle_auth ::
  "('h, 'c) openssl \<Rightarrow> (nat \<Rightarrow> byte list option) \<Rightarrow> response_info \<Rightarrow> pg_config \<Rightarrow> ('h auth, unit) comp" where
  "handle_auth ossl rand info config =
     and_then (on_fst (on_snd (read_mem (replicate 4 0) 0 INT_32_OCTETS True))) (\<lambda>(type_data, _).
     case read_u32_be type_data 0 of
       None \<Rightarrow> Pair Undefined
     | Some w \<Rightarrow> auth_case ossl rand config (m_info_size info - INT_32_OCTETS) (auth_type_of w))"

definition STARTUP_HEADER_SIZE :: nat where
  "STARTUP_HEADER_SIZE = 8"

definition POSTGRES_PROTOCOL :: "32 word" where
  "POSTGRES_PROTOCOL = push_bit 16 3 + 0"

definition startup_message :: "pg_config \<Rightarrow> byte list" where
  "startup_message config =
     c_str ''user'' @ c_str (m_user config)
     @ (if m_database config \<noteq> [] then c_str ''database'' @ c_str (m_database config) else [])
     @ [0]"

definition startup_header :: "byte list \<Rightarrow> byte list outcome" where
  "startup_header message =
     (case write_u32_be (replicate STARTUP_HEADER_SIZE 0) 0 (of_nat (STARTUP_HEADER_SIZE + length message)) of
        None \<Rightarrow> Undefined
      | Some h \<Rightarrow> (case write_u32_be h 4 POSTGRES_PROTOCOL of None \<Rightarrow> Undefined | Some h' \<Rightarrow> Done h'))"

text \<open>A message of the start-up phase. \<open>rand\<close> is what \<open>RAND_bytes\<close> would answer while it is handled.\<close>

definition init_step ::
  "('h, 'c) openssl \<Rightarrow> (nat \<Rightarrow> byte list option) \<Rightarrow> pg_config \<Rightarrow> response_info \<Rightarrow> ('h auth, unit) comp" where
  "init_step ossl rand config info =
     (case m_info_type info of
        ERROR_RESPONSE \<Rightarrow> throw (Runtime_error ''Postgres ErrorResponse'')
      | NEGOTIATE_PROTOCOL_VERSION \<Rightarrow> throw (Runtime_error ''Postgres Protocol Version mismatch'')
      | AUTHENTICATION \<Rightarrow> handle_auth ossl rand info config
      | BACKEND_KEY_DATA \<Rightarrow> on_fst (and_then (on_snd (skip (m_info_size info) True)) (\<lambda>_. return ()))
      | PARAMETER_STATUS \<Rightarrow> on_fst (and_then (on_snd (skip (m_info_size info) True)) (\<lambda>_. return ()))
      | READY_FOR_QUERY \<Rightarrow>
          on_fst (and_then (on_snd (skip (m_info_size info) True)) (\<lambda>_. set_query_ready True))
      | _ \<Rightarrow> throw (Runtime_error ''Postgres unexpected response''))"

abbreviation conn_socket :: "conn \<Rightarrow> socket" where
  "conn_socket p \<equiv> snd p"

lemma frugal_write_bytes [frugal_intros]: "frugal snd (write_bytes src)"
  unfolding write_bytes_def by (rule frugal_on_snd [where sel = "\<lambda>s. s", OF frugal_socket(4)])

lemma frugal_flush_conn [frugal_intros]: "frugal snd (on_snd flush :: (conn, unit) comp)"
  by (rule frugal_on_snd [where sel = "\<lambda>s. s", OF frugal_socket(5)])

lemma frugal_write_header [frugal_intros]: "frugal snd (write_header c sz)"
  unfolding write_header_def by (intro frugal_intros)

lemma frugal_read_string [frugal_intros]: "frugal (\<lambda>st. snd (fst st)) (read_string sz)"
proof -
  have "frugal (\<lambda>s. s) (and_then (read_str [] sz True) (\<lambda>(str, _). return str))"
    by (auto intro!: frugal_intros split: prod.split)
  then show ?thesis
    unfolding read_string_def by (rule frugal_on_fst [where sel = snd, OF frugal_on_snd [where sel = "\<lambda>s. s"]])
qed

lemma frugal_fst_conn [frugal_intros]: "frugal snd m \<Longrightarrow> frugal (\<lambda>st. snd (fst st)) (on_fst m)"
  by (rule frugal_on_fst)

lemma frugal_scram [frugal_intros]: "frugal (\<lambda>st. snd (fst st)) (on_snd m)"
  by (rule frugal_other_snd)

lemma frugal_answers [frugal_intros]:
  "frugal snd (send_password config)" "frugal snd (send_initial_response msg)" "frugal snd (send_final_response msg)"
  unfolding send_password_def send_initial_response_def send_final_response_def by (intro frugal_intros)+

lemma frugal_sasl [frugal_intros]:
  "frugal (\<lambda>st. snd (fst st)) (start_sasl rand config msg)"
  "frugal (\<lambda>st. snd (fst st)) (continue_sasl ossl config msg)"
  "frugal (\<lambda>st. snd (fst st)) (finish_sasl msg)"
proof -
  show "frugal (\<lambda>st. snd (fst st)) (start_sasl rand config msg)"
    unfolding start_sasl_def by (cases "occurs SCRAM_SHA256 msg") (simp_all add: frugal_intros)
  show "frugal (\<lambda>st. snd (fst st)) (continue_sasl ossl config msg)"
    unfolding continue_sasl_def by (intro frugal_intros)
  show "frugal (\<lambda>st. snd (fst st)) (finish_sasl msg)"
    by (auto simp: frugal_def finish_sasl_def split: if_splits)
qed

lemma frugal_handle_auth: "frugal (\<lambda>st. snd (fst st)) (handle_auth ossl rand info config)"
proof -
  have r: "frugal (\<lambda>st. snd (fst st)) (on_fst (on_snd (read_mem (replicate 4 0) 0 INT_32_OCTETS True)) :: ('d auth, _) comp)"
    by (rule frugal_on_fst [where sel = snd, OF frugal_on_snd [where sel = "\<lambda>s. s", OF frugal_socket(2)]])
      (simp add: INT_32_OCTETS_def)
  have c: "frugal (\<lambda>st. snd (fst st)) (auth_case ossl rand config sz type)" for sz type
    unfolding auth_case_def by (cases type) (auto intro!: frugal_intros)
  show ?thesis
    unfolding handle_auth_def
    by (intro frugal_then r) (auto split: prod.split option.split intro!: frugal_Pair c)
qed

lemma frugal_skip_conn [frugal_intros]: "0 \<le> n \<Longrightarrow> frugal snd (on_snd (skip n True) :: (conn, int) comp)"
  by (rule frugal_on_snd [where sel = "\<lambda>s. s", OF frugal_socket(3)])

lemma frugal_set_query_ready [frugal_intros]: "frugal snd (set_query_ready b)"
  by (simp add: frugal_def set_query_ready_def)

lemma frugal_init_step: "0 \<le> m_info_size info \<Longrightarrow> frugal (\<lambda>st. snd (fst st)) (init_step ossl rand config info)"
  unfolding init_step_def
  by (cases "m_info_type info") (auto intro!: frugal_intros frugal_handle_auth)

text \<open>The loop of \<open>init\<close>; \<open>rand n\<close> is what \<open>RAND_bytes\<close> answers during the \<open>n\<close>-th turn.\<close>

function init_loop ::
  "('h, 'c) openssl \<Rightarrow> (nat \<Rightarrow> nat \<Rightarrow> byte list option) \<Rightarrow> pg_config \<Rightarrow> nat \<Rightarrow> ('h auth, unit) comp" where
  "init_loop ossl rand config n st =
     (if m_query_ready (fst (fst st)) then (Done (), st)
      else and_then (on_fst (get_response_info True)) (\<lambda>info.
           and_then (init_step ossl (rand n) config info) (\<lambda>_.
           init_loop ossl rand config (n + 1))) st)"
  by pat_completeness auto
termination
proof (relation "measure (\<lambda>(_, _, _, _, st). rx_work (snd (fst st)))", goal_cases)
  case 1
  show ?case by simp
next
  case (2 ossl rand config n st info st1 u st2)
  have "rx_work (snd (fst st1)) < rx_work (snd (fst st))" "0 \<le> m_info_size info"
    using 2(2) by (auto simp: on_fst_def dest!: get_response_info_Done split: prod.splits)
  moreover have "rx_work (snd (fst st2)) \<le> rx_work (snd (fst st1))"
    using frugalD [OF frugal_init_step [OF calculation(2)] 2(3)] .
  ultimately show ?case by simp
qed

declare init_loop.simps [simp del]

definition init :: "('h, 'c) openssl \<Rightarrow> (nat \<Rightarrow> nat \<Rightarrow> byte list option) \<Rightarrow> pg_config \<Rightarrow> (conn \<times> 'h crypto, unit) comp" where
  "init ossl rand config st =
     (let message = startup_message config in
      case and_then (on_fst (and_then (Pair (startup_header message)) (\<lambda>header.
                              and_then (write_bytes header) (\<lambda>_.
                              and_then (write_bytes message) (\<lambda>_.
                              on_snd flush)))))
                    (\<lambda>_. init_loop ossl rand config 0) (fst st, snd st, new_scram) of
        (r, (p, k, scr)) \<Rightarrow> (r, (p, k)))"

section \<open>What is written\<close>

text \<open>A message: its type, the size of what follows the type, and its body.\<close>

definition message :: "char \<Rightarrow> byte list \<Rightarrow> byte list" where
  "message c body = byte_of_char c # u32_bytes (of_nat (length body + 4)) @ body"

lemma length_message [simp]: "length (message c body) = 5 + length body"
  by (simp add: message_def)

lemma message_ne [simp]: "message c body \<noteq> []"
  by (simp add: message_def)

lemma header_bytes:
  "set_size sz (set_type c new_response_header) = Done \<lparr>m_buf = byte_of_char c # u32_bytes (of_int (sz + 4))\<rparr>"
  by (simp add: set_size_def set_type_def new_response_header_def HEADER_SIZE_def INT_32_OCTETS_def
      write_u32_be_eq list_update_append numeral_eq_Suc)

text \<open>Writing is \<open>emits\<close> on the connection; these rules follow the calls one by one.\<close>

lemma emits_write_bytes: "sock_wf (snd p) \<Longrightarrow> fst p = c \<Longrightarrow> emits bs c p (write_bytes bs p)"
  unfolding write_bytes_def using emits_write [of p] by auto

lemma emits_write_bytes_then:
  assumes "sock_wf (snd p)" "fst p = c"
    and "\<And>p'. sock_wf (snd p') \<Longrightarrow> fst p' = c \<Longrightarrow> emits ys c' p' (f p')"
  shows "emits (bs @ ys) c' p (and_then (write_bytes bs) (\<lambda>_. f) p)"
  by (rule emits_then, rule emits_write_bytes [OF assms(1,2)], rule assms(3))

lemma write_header_eq: "write_header c sz = write_bytes (byte_of_char c # u32_bytes (of_int (sz + 4)))"
  by (rule ext) (simp add: write_header_def header_bytes and_then_def)

lemma emits_flush: "sock_wf (snd p) \<Longrightarrow> fst p = c \<Longrightarrow> emits [] c p (on_snd flush p)"
  using flush_handed [of "snd p"]
  by (auto simp: emits_def on_snd_def sent_def handed_def split: outcome.split prod.split)

lemma emits_set_query_ready: "sock_wf (snd p) \<Longrightarrow> fst p = c \<Longrightarrow> emits [] (c\<lparr>m_query_ready := b\<rparr>) p (set_query_ready b p)"
  by (simp add: set_query_ready_def emits_Done sent_Nil)

lemma length_c_str [simp]: "length (c_str q) = length q + 1"
  by (simp add: c_str_def)

text \<open>The three answers during authentication, and the start-up message.\<close>

lemma send_password_emits:
  assumes "sock_wf (snd p)" "fst p = c"
  shows "emits (message (CHR ''p'') (c_str (m_password config))) c p (send_password config p)"
proof -
  have m: "message (CHR ''p'') (c_str (m_password config))
      = (byte_of_char (CHR ''p'') # u32_bytes (of_int (int (length (m_password config)) + 1 + 4)))
        @ c_str (m_password config) @ []"
    by (simp add: message_def add.commute)
  show ?thesis
    unfolding m send_password_def write_header_eq
    by (intro emits_write_bytes_then emits_flush) (use assms in simp_all)
qed

lemma send_initial_response_emits:
  assumes "sock_wf (snd p)" "fst p = c"
  shows "emits (message (CHR ''p'') (c_str SCRAM_SHA256 @ u32_bytes (of_nat (length msg)) @ bytes msg)) c p
    (send_initial_response msg p)"
proof -
  have m: "message (CHR ''p'') (c_str SCRAM_SHA256 @ u32_bytes (of_nat (length msg)) @ bytes msg)
      = (byte_of_char (CHR ''p'') # u32_bytes (of_int (int (length (c_str SCRAM_SHA256)) + INT_32_OCTETS + int (length msg) + 4)))
        @ c_str SCRAM_SHA256 @ u32_bytes (of_nat (length msg)) @ bytes msg @ []"
    by (simp add: message_def INT_32_OCTETS_def algebra_simps)
  have a: "(case write_u32_be (replicate 4 0) 0 w of None \<Rightarrow> Undefined | Some arr \<Rightarrow> Done arr) = Done (u32_bytes w)" for w
    by (simp add: write_u32_be_eq)
  have pr: "and_then (Pair (Done x)) f = f x" for x and f :: "_ \<Rightarrow> (conn, unit) comp"
    by (rule ext) (simp add: and_then_def)
  show ?thesis
    unfolding m send_initial_response_def write_header_eq a pr
    by (intro emits_write_bytes_then emits_flush) (use assms in simp_all)
qed

lemma send_final_response_emits:
  assumes "sock_wf (snd p)" "fst p = c"
  shows "emits (message (CHR ''p'') (bytes msg)) c p (send_final_response msg p)"
proof -
  have m: "message (CHR ''p'') (bytes msg)
      = (byte_of_char (CHR ''p'') # u32_bytes (of_int (int (length msg) + 4))) @ bytes msg @ []"
    by (simp add: message_def)
  show ?thesis
    unfolding m send_final_response_def write_header_eq
    by (intro emits_write_bytes_then emits_flush) (use assms in simp_all)
qed

text \<open>With enough room at the kernel, all of it is written.\<close>

lemma emits_sent:
  assumes "emits bs c p out" "int (length bs) \<le> slack (snd p)"
  obtains a s' where "out = (Done a, (c, s'))" "sent bs (snd p) s'"
  using assms by (cases "fst out"; cases out) (auto simp: emits_def)

lemma slack_new [simp]: "slack (new_socket rx [Tx_ok n]) = int n"
  by (simp add: slack_def) (simp add: new_socket_def)

section \<open>What is read\<close>

lemma u32_head: "byte_of_char c # u32_bytes w @ body = [byte_of_char c] @ u32_bytes w @ body"
  by simp

lemma read_header_message:
  assumes "sock_wf s" "incoming s = message c body @ rest" "length body + 4 < 2 ^ 32"
  obtains s' where "read_header s = (Done \<lparr>m_info_type = response_type_of c, m_info_size = int (length body)\<rparr>, s')"
    "consumed 5 s s'" "incoming s' = body @ rest"
proof -
  let ?h = "byte_of_char c # u32_bytes (of_nat (length body + 4))"
  have h: "take 5 (incoming s) = ?h" "5 \<le> length (incoming s)" "drop 5 (incoming s) = body @ rest"
    using assms(2) by (simp_all add: message_def numeral_eq_Suc)
  obtain d s' where r: "read_mem (replicate 5 0) 0 (int 5) True s = (d, s')" by (cases "read_mem (replicate 5 0) 0 (int 5) True s")
  have "filled ''socket read'' 5 True 0 (\<lambda>bs. take (0 + 0) (replicate 5 0) @ bs @ drop (0 + 0 + length bs) (replicate 5 (0 :: byte))) s
      (read_mem (replicate 5 0) 0 (int 5) True s)"
    unfolding read_mem_def by (rule mem.fill_filled) (use assms(1) in simp_all)
  then have f: "d = Done (?h, 5)" "consumed 5 s s'"
    using h r by (simp_all add: filled_def)
  have "read_u32_be (?h @ []) 1 = Some (of_nat (length body + 4))"
    using read_u32_be_bytes [of "[byte_of_char c]" "of_nat (length body + 4)" "[]"] by simp
  moreover have "uint (of_nat (length body + 4) - of_int INT_32_OCTETS :: 32 word) = int (length body)"
  proof -
    have "(of_nat (length body + 4) - of_int INT_32_OCTETS :: 32 word) = of_nat (length body)"
      by (simp add: INT_32_OCTETS_def)
    then show ?thesis using assms(3) by (simp add: unsigned_of_nat take_bit_nat_eq_self)
  qed
  ultimately have "read_header s = (Done \<lparr>m_info_type = response_type_of c, m_info_size = int (length body)\<rparr>, s')"
    using r f(1) by (simp add: read_header_def HEADER_SIZE_def and_then_def return_def)
  moreover have "incoming s' = body @ rest" using f(2) h(3) by (simp add: consumed_def)
  ultimately show thesis using f(2) that by blast
qed

text \<open>A socket from which what stood in front of \<open>rest\<close> has been read.\<close>

definition advanced :: "socket \<Rightarrow> byte list \<Rightarrow> socket \<Rightarrow> bool" where
  "advanced s rest s' \<longleftrightarrow> sock_wf s' \<and> incoming s' = rest \<and> same_out s s'"

lemma advanced_trans: "advanced s r1 s1 \<Longrightarrow> advanced s1 r2 s2 \<Longrightarrow> advanced s r2 s2"
  by (auto simp: advanced_def intro: same_out_trans)

lemma advancedD: "advanced s rest s' \<Longrightarrow> sock_wf s'" "advanced s rest s' \<Longrightarrow> incoming s' = rest"
  by (simp_all add: advanced_def)

lemma consumed_advanced: "consumed (length xs) s s' \<Longrightarrow> incoming s = xs @ rest \<Longrightarrow> advanced s rest s'"
  by (simp add: consumed_def advanced_def)

lemma skip_stream:
  assumes "sock_wf s" "incoming s = xs @ rest"
  obtains s' where "skip (int (length xs)) True s = (Done (int (length xs)), s')" "advanced s rest s'"
proof -
  let ?r = "fill ''socket skip'' drain_skip (int (length xs)) True () s"
  have "filled ''socket skip'' (length xs) True 0 (\<lambda>_. ()) s ?r"
    by (rule skp.fill_filled) (use assms(1) in simp_all)
  then have "fst ?r = Done ((), int (length xs))" "consumed (length xs) s (snd ?r)"
    using assms(2) by (simp_all add: filled_def)
  then show thesis
    using that [of "snd ?r"] consumed_advanced assms(2)
    by (cases ?r) (simp add: skip_def and_then_def return_def)
qed

lemma read_str_stream:
  assumes "sock_wf s" "incoming s = xs @ rest"
  obtains s' where "read_str [] (int (length xs)) True s = (Done (chars xs, int (length xs)), s')" "advanced s rest s'"
proof -
  let ?r = "read_str [] (int (length xs)) True s"
  have "filled ''socket read'' (length xs) True 0 (\<lambda>bs. [] @ chars bs) s ?r"
    unfolding read_str_def by (rule str.fill_filled) (use assms(1) in simp_all)
  then have "fst ?r = Done (chars xs, int (length xs))" "consumed (length xs) s (snd ?r)"
    using assms(2) by (simp_all add: filled_def)
  then show thesis
    using that [of "snd ?r"] consumed_advanced assms(2) by (cases ?r) simp
qed

lemma read_mem_stream:
  assumes "sock_wf s" "incoming s = xs @ rest" "length z = length xs"
  obtains s' where "read_mem z 0 (int (length xs)) True s = (Done (xs, int (length xs)), s')" "advanced s rest s'"
proof -
  let ?r = "read_mem z 0 (int (length xs)) True s"
  have "filled ''socket read'' (length xs) True 0 (\<lambda>bs. take (0 + 0) z @ bs @ drop (0 + 0 + length bs) z) s ?r"
    unfolding read_mem_def by (rule mem.fill_filled) (use assms(1,3) in simp_all)
  then have "fst ?r = Done (xs, int (length xs))" "consumed (length xs) s (snd ?r)"
    using assms(2,3) by (simp_all add: filled_def)
  then show thesis
    using that [of "snd ?r"] consumed_advanced assms(2) by (cases ?r) simp
qed

lemma skip_if_stream:
  assumes "sock_wf s" "incoming s = pre @ rest"
  obtains s' where "(if 0 < int (length pre) then and_then (skip (int (length pre)) True) (\<lambda>_. return ()) else return ()) s
      = (Done (), s')" "advanced s rest s'"
proof (cases "pre = []")
  case True
  then show ?thesis using that [of s] assms by (simp add: return_def advanced_def)
next
  case False
  obtain s' where "skip (int (length pre)) True s = (Done (int (length pre)), s')" "advanced s rest s'"
    by (rule skip_stream [OF assms])
  then show ?thesis using False that by (simp add: and_then_def return_def)
qed

definition body_ok :: "byte list \<Rightarrow> bool" where
  "body_ok body \<longleftrightarrow> length body + 4 < 2 ^ 32"

definition notices :: "byte list list \<Rightarrow> byte list" where
  "notices ns = concat (map (message (CHR ''N'')) ns)"

lemma response_loop_stream:
  assumes "sock_wf s" "incoming s = pre @ notices ns @ message c body @ rest" "list_all body_ok ns" "body_ok body"
    and "response_type_of c \<noteq> NOTICE_RESPONSE \<or> \<not> ign" "\<not> ign \<longrightarrow> ns = []"
  obtains s' where "response_loop ign (int (length pre)) s
      = (Done \<lparr>m_info_type = response_type_of c, m_info_size = int (length body)\<rparr>, s')" "advanced s (body @ rest) s'"
  using assms
proof (induction ns arbitrary: pre s thesis)
  case Nil
  obtain s1 where s1: "(if 0 < int (length pre) then and_then (skip (int (length pre)) True) (\<lambda>_. return ()) else return ()) s
      = (Done (), s1)" "advanced s (message c body @ rest) s1"
    by (rule skip_if_stream [OF Nil.prems(2)]) (use Nil.prems(3) in \<open>auto simp: notices_def\<close>)
  obtain s2 where s2: "read_header s1 = (Done \<lparr>m_info_type = response_type_of c, m_info_size = int (length body)\<rparr>, s2)"
      "consumed 5 s1 s2" "incoming s2 = body @ rest"
    by (rule read_header_message [OF advancedD(1) [OF s1(2)] advancedD(2) [OF s1(2)]])
       (use Nil.prems(5) in \<open>simp_all add: body_ok_def\<close>)
  have "advanced s1 (body @ rest) s2" using s2(2,3) by (simp add: consumed_def advanced_def)
  moreover have "response_loop ign (int (length pre)) s
      = (Done \<lparr>m_info_type = response_type_of c, m_info_size = int (length body)\<rparr>, s2)"
    using s1(1) s2(1) Nil.prems(6) by (subst response_loop.simps) (auto simp: and_then_def)
  ultimately show ?case using Nil.prems(1) advanced_trans [OF s1(2)] by blast
next
  case (Cons n ns)
  have ign: "ign" using Cons.prems(7) by simp
  have inc: "incoming s = pre @ message (CHR ''N'') n @ notices ns @ message c body @ rest"
    using Cons.prems(3) by (simp add: notices_def)
  obtain s1 where s1: "(if 0 < int (length pre) then and_then (skip (int (length pre)) True) (\<lambda>_. return ()) else return ()) s
      = (Done (), s1)" "advanced s (message (CHR ''N'') n @ notices ns @ message c body @ rest) s1"
    by (rule skip_if_stream [OF Cons.prems(2) inc])
  obtain s2 where s2: "read_header s1 = (Done \<lparr>m_info_type = response_type_of (CHR ''N''), m_info_size = int (length n)\<rparr>, s2)"
      "consumed 5 s1 s2" "incoming s2 = n @ notices ns @ message c body @ rest"
    by (rule read_header_message [OF advancedD(1) [OF s1(2)] advancedD(2) [OF s1(2)]])
       (use Cons.prems(4) in \<open>simp_all add: body_ok_def\<close>)
  have a2: "advanced s1 (n @ notices ns @ message c body @ rest) s2" using s2(2,3) by (simp add: consumed_def advanced_def)
  obtain s' where s': "response_loop ign (int (length n)) s2
      = (Done \<lparr>m_info_type = response_type_of c, m_info_size = int (length body)\<rparr>, s')" "advanced s2 (body @ rest) s'"
    by (rule Cons.IH [OF _ advancedD(1) [OF a2] advancedD(2) [OF a2]]) (use Cons.prems in simp_all)
  have "response_type_of (CHR ''N'') = NOTICE_RESPONSE" by code_simp
  then have "response_loop ign (int (length pre)) s
      = (Done \<lparr>m_info_type = response_type_of c, m_info_size = int (length body)\<rparr>, s')"
    using s1(1) s2(1) s'(1) ign by (subst response_loop.simps) (simp add: and_then_def)
  then show ?case
    using Cons.prems(1) advanced_trans [OF s1(2) advanced_trans [OF a2 s'(2)]] by blast
qed

section \<open>Properties\<close>

text \<open>
  waiting for a response skips the notices in front of it and returns the type and the size of the body of the
  first other message, with the stream right at its body, for every segmentation by the kernel; a response that is
  asked for with the notices included is the first message itself.
\<close>

theorem pg_response_info_skips_notices:
  assumes "sock_wf s" "incoming s = notices ns @ message c body @ rest" "list_all body_ok ns" "body_ok body"
    and "response_type_of c \<noteq> NOTICE_RESPONSE \<or> \<not> ign" "\<not> ign \<longrightarrow> ns = []"
  shows "\<exists>s'. get_response_info ign (conn, s)
      = (Done \<lparr>m_info_type = response_type_of c, m_info_size = int (length body)\<rparr>, (conn, s'))
    \<and> incoming s' = body @ rest \<and> same_out s s' \<and> sock_wf s'"
proof -
  obtain s' where "response_loop ign 0 s
      = (Done \<lparr>m_info_type = response_type_of c, m_info_size = int (length body)\<rparr>, s')" "advanced s (body @ rest) s'"
    using response_loop_stream [of s "[]" ns c body rest ign] assms by auto
  then show ?thesis by (auto simp: get_response_info_def on_snd_def advanced_def)
qed

theorem pg_response_info_skips_notices_witness:
  "\<exists>s'. get_response_info True
      (new_pg_connection, new_socket [Rx_data (notices [[1, 2], []] @ message (CHR ''Z'') [0x49] @ [])] [])
      = (Done \<lparr>m_info_type = READY_FOR_QUERY, m_info_size = 1\<rparr>, (new_pg_connection, s'))
    \<and> incoming s' = [0x49] @ [] \<and> same_out (new_socket [Rx_data (notices [[1, 2], []] @ message (CHR ''Z'') [0x49] @ [])] []) s'
    \<and> sock_wf s'"
proof -
  have t: "response_type_of (CHR ''Z'') = READY_FOR_QUERY" by code_simp
  show ?thesis
    using pg_response_info_skips_notices
        [of "new_socket [Rx_data (notices [[1, 2], []] @ message (CHR ''Z'') [0x49] @ [])] []" "[[1, 2], []]" "CHR ''Z''"
          "[0x49]" "[]" True new_pg_connection]
    by (simp add: body_ok_def t)
qed

text \<open>
  the size of a response is computed on 32 bits: whatever length a header announces, the size is between 0 and
  4294967295, and four less than the length; a length below four, which no message can have, is taken for a size close
  to four gigabytes.
\<close>

theorem pg_header_size_bounds:
  assumes "sock_wf s" "incoming s = byte_of_char c # u32_bytes w @ rest"
  shows "\<exists>s'. read_header s = (Done \<lparr>m_info_type = response_type_of c,
      m_info_size = (if 4 \<le> unat w then int (unat w) - 4 else 2 ^ 32 - 4 + int (unat w))\<rparr>, s')
    \<and> incoming s' = rest \<and> sock_wf s'"
proof -
  obtain s' where s': "read_mem (replicate 5 0) 0 (int (length (byte_of_char c # u32_bytes w))) True s
      = (Done (byte_of_char c # u32_bytes w, int (length (byte_of_char c # u32_bytes w))), s')" "advanced s rest s'"
    using read_mem_stream [OF assms(1), of "byte_of_char c # u32_bytes w" rest "replicate 5 0"] assms(2)
    by auto
  have "read_u32_be (byte_of_char c # u32_bytes w) 1 = Some w"
    using read_u32_be_bytes [of "[byte_of_char c]" w "[]"] by simp
  moreover have "uint (w - 4) = (if 4 \<le> unat w then int (unat w) - 4 else 2 ^ 32 - 4 + int (unat w))"
  proof -
    have "uint (w - 4) = (uint w - 4) mod 2 ^ 32" by (simp add: uint_word_ariths)
    moreover have "0 \<le> uint w" "uint w < 2 ^ 32" using unsigned_less [of w] by simp_all
    moreover have "(uint w - 4) mod 2 ^ 32 = uint w - 4 + 2 ^ 32" if "uint w < 4" "0 \<le> uint w"
      using that by (subst mod_add_self2 [symmetric]) (intro mod_pos_pos_trivial, simp_all)
    moreover have "4 \<le> unat w \<longleftrightarrow> 4 \<le> uint w"
    proof -
      have "4 \<le> unat w \<longleftrightarrow> (4 :: int) \<le> int (unat w)" by linarith
      then show ?thesis by simp
    qed
    ultimately show ?thesis
      by (cases "4 \<le> uint w") (simp_all add: mod_pos_pos_trivial)
  qed
  ultimately have "read_header s = (Done \<lparr>m_info_type = response_type_of c,
      m_info_size = (if 4 \<le> unat w then int (unat w) - 4 else 2 ^ 32 - 4 + int (unat w))\<rparr>, s')"
    using s'(1) by (simp add: read_header_def HEADER_SIZE_def INT_32_OCTETS_def and_then_def return_def)
  then show ?thesis using s'(2) by (auto simp: advanced_def)
qed

theorem pg_header_size_bounds_witness:
  "\<exists>s'. read_header (new_socket [Rx_data [0x53, 0, 0], Rx_data [0, 3, 7]] [])
      = (Done \<lparr>m_info_type = PARAMETER_STATUS, m_info_size = 4294967295\<rparr>, s')
    \<and> incoming s' = [7] \<and> sock_wf s'"
proof -
  have t: "response_type_of (CHR ''S'') = PARAMETER_STATUS" "byte_of_char (CHR ''S'') # u32_bytes 3 @ [7] = [0x53, 0, 0, 0, 3, 7]"
    by code_simp+
  show ?thesis
    using pg_header_size_bounds [of "new_socket [Rx_data [0x53, 0, 0], Rx_data [0, 3, 7]] []" "CHR ''S''" 3 "[7]"]
    by (simp add: t)
qed

end
