(* ===== verification/Pg_Login.thy ===== *)
theory Pg_Login
  imports Pg_Connection
begin

text \<open>
  The start-up of a PostgreSQL connection, \<open>pg_connection::init\<close> with \<open>handle_auth\<close>: what the client sends and
  when it is ready, for a server that follows the protocol, whatever the segmentation of its messages.
\<close>

section \<open>Reading and writing at once\<close>

text \<open>
  From one state of a socket to a later one: \<open>bs\<close> has been handed over, within the room the kernel has, and what is
  left to be read is \<open>rest\<close>.
\<close>

definition io :: "byte list \<Rightarrow> byte list \<Rightarrow> socket \<Rightarrow> socket \<Rightarrow> bool" where
  "io bs rest s s' \<longleftrightarrow> sock_wf s' \<and> incoming s' = rest \<and> out_stream s' = out_stream s @ bs
     \<and> slack s' = slack s - int (length bs)"

lemma io_refl: "sock_wf s \<Longrightarrow> incoming s = rest \<Longrightarrow> io [] rest s s"
  by (simp add: io_def)

lemma io_trans: "io xs r1 s s1 \<Longrightarrow> io ys r2 s1 s2 \<Longrightarrow> io (xs @ ys) r2 s s2"
  by (simp add: io_def)

lemma io_advanced: "advanced s rest s' \<Longrightarrow> io [] rest s s'"
  by (auto simp: io_def advanced_def same_out_def out_stream_def slack_def)

lemma io_sent: "sent bs s s' \<Longrightarrow> io bs (incoming s) s s'"
  by (auto simp: io_def sent_def handed_def same_in_def incoming_def)

lemma io_wf: "io bs rest s s' \<Longrightarrow> sock_wf s'" and io_incoming: "io bs rest s s' \<Longrightarrow> incoming s' = rest"
  and io_slack: "io bs rest s s' \<Longrightarrow> slack s' = slack s - int (length bs)"
  by (simp_all add: io_def)

lemma emits_room:
  assumes "emits bs c p out" "int (length bs) \<le> slack (snd p)"
  obtains a s' where "out = (Done a, (c, s'))" "io bs (incoming (snd p)) (snd p) s'"
  using emits_sent [OF assms] io_sent by metis

section \<open>The messages of the server\<close>

text \<open>A turn of the loop: the header is read, the message handled with the stream at its body.\<close>

lemma init_loop_turn:
  assumes "sock_wf s" "incoming s = message c body @ rest" "body_ok body" "response_type_of c \<noteq> NOTICE_RESPONSE"
    and "\<not> m_query_ready conn"
  obtains s' where "io [] (body @ rest) s s'"
    "init_loop ossl rand config n ((conn, s), k, scr)
      = and_then (init_step ossl (rand n) config \<lparr>m_info_type = response_type_of c, m_info_size = int (length body)\<rparr>)
          (\<lambda>_. init_loop ossl rand config (n + 1)) ((conn, s'), k, scr)"
proof -
  obtain s' where "response_loop True 0 s
      = (Done \<lparr>m_info_type = response_type_of c, m_info_size = int (length body)\<rparr>, s')" "advanced s (body @ rest) s'"
    using response_loop_stream [of s "[]" "[]" c body rest True] assms by (auto simp: notices_def)
  then show thesis
    using that [OF io_advanced] assms(5)
    by (subst (asm) init_loop.simps) (simp add: and_then_def [of "on_fst _"] on_fst_def get_response_info_def on_snd_def)
qed

lemma read_string_stream:
  assumes "sock_wf s" "incoming s = xs @ rest"
  obtains s' where "read_string (int (length xs)) ((conn, s), ks) = (Done (chars xs), ((conn, s'), ks))" "io [] rest s s'"
proof -
  obtain s' where "read_str [] (int (length xs)) True s = (Done (chars xs, int (length xs)), s')" "advanced s rest s'"
    by (rule read_str_stream [OF assms])
  then show thesis
    using that [OF _ io_advanced] by (simp add: read_string_def on_fst_def on_snd_def and_then_def return_def)
qed

text \<open>The head of an authentication message: its kind.\<close>

lemma handle_auth_kind:
  assumes "sock_wf s" "incoming s = u32_bytes w @ payload @ rest"
    and "m_info_size info = int (length (u32_bytes w @ payload))"
  obtains s' where "io [] (payload @ rest) s s'"
    "handle_auth ossl rand info config ((conn, s), ks)
      = auth_case ossl rand config (int (length payload)) (auth_type_of w) ((conn, s'), ks)"
proof -
  obtain s' where r: "read_mem (replicate 4 0) 0 (int (length (u32_bytes w))) True s
      = (Done (u32_bytes w, int (length (u32_bytes w))), s')" "advanced s (payload @ rest) s'"
    using read_mem_stream [OF assms(1), of "u32_bytes w" "payload @ rest" "replicate 4 0"] assms(2) by auto
  have "read_u32_be (u32_bytes w) 0 = Some w" using read_u32_be_bytes [of "[]" w "[]"] by simp
  moreover have "m_info_size info - INT_32_OCTETS = int (length payload)"
    using assms(3) by (simp add: INT_32_OCTETS_def)
  ultimately show thesis
    using that [OF io_advanced [OF r(2)]] r(1)
    by (simp add: handle_auth_def and_then_def [of "on_fst _"] on_fst_def on_snd_def INT_32_OCTETS_def)
qed

text \<open>One authentication message in the loop.\<close>

lemma init_loop_auth:
  assumes "sock_wf s" "incoming s = message (CHR ''R'') (u32_bytes w @ payload) @ rest" "body_ok (u32_bytes w @ payload)"
    and "\<not> m_query_ready conn"
  obtains s' where "io [] (payload @ rest) s s'"
    "init_loop ossl rand config n ((conn, s), ks)
      = and_then (auth_case ossl (rand n) config (int (length payload)) (auth_type_of w))
          (\<lambda>_. init_loop ossl rand config (n + 1)) ((conn, s'), ks)"
proof -
  obtain k scr where ks: "ks = (k, scr)" by fastforce
  let ?info = "\<lparr>m_info_type = AUTHENTICATION, m_info_size = int (length (u32_bytes w @ payload))\<rparr>"
  have R: "response_type_of (CHR ''R'') = AUTHENTICATION" by code_simp
  obtain s1 where s1: "io [] ((u32_bytes w @ payload) @ rest) s s1"
      "init_loop ossl rand config n ((conn, s), k, scr)
        = and_then (init_step ossl (rand n) config ?info) (\<lambda>_. init_loop ossl rand config (n + 1)) ((conn, s1), k, scr)"
    using init_loop_turn [OF assms(1-3) _ assms(4), of ossl rand config n k scr] unfolding R by auto
  have inc: "incoming s1 = u32_bytes w @ payload @ rest" using io_incoming [OF s1(1)] by simp
  have sz: "m_info_size ?info = int (length (u32_bytes w @ payload))" by simp
  obtain s2 where s2: "io [] (payload @ rest) s1 s2"
      "handle_auth ossl (rand n) ?info config ((conn, s1), k, scr)
      = auth_case ossl (rand n) config (int (length payload)) (auth_type_of w) ((conn, s2), k, scr)"
    by (rule handle_auth_kind [OF io_wf [OF s1(1)] inc sz])
  have "io [] (payload @ rest) s s2" using io_trans [OF s1(1) s2(1)] by simp
  then show thesis
    using that s1(2) s2(2) unfolding ks
    by (simp add: init_step_def and_then_def [of "handle_auth _ _ _ _"] and_then_def [of "auth_case _ _ _ _ _"])
qed

lemma auth_types:
  "auth_type_of 0 = AUTH_OK" "auth_type_of 3 = CLEAR_TEXT_PASSWORD" "auth_type_of 10 = SASL"
  "auth_type_of 11 = SASL_CONTINUE" "auth_type_of 12 = SASL_FINAL"
  by (simp_all add: auth_type_of_def)

lemma init_loop_auth_ok:
  assumes "sock_wf s" "incoming s = message (CHR ''R'') (u32_bytes 0) @ rest" "\<not> m_query_ready conn"
  obtains s' where "io [] rest s s'"
    "init_loop ossl rand config n ((conn, s), ks) = init_loop ossl rand config (n + 1) ((conn, s'), ks)"
proof -
  obtain s' where "io [] ([] @ rest) s s'" "init_loop ossl rand config n ((conn, s), ks)
      = and_then (auth_case ossl (rand n) config (int (length ([] :: byte list))) (auth_type_of 0))
          (\<lambda>_. init_loop ossl rand config (n + 1)) ((conn, s'), ks)"
    by (rule init_loop_auth [where payload = "[]" and w = 0, OF assms(1) _ _ assms(3)])
       (use assms(2) in \<open>simp_all add: body_ok_def\<close>)
  then show thesis using that by (simp add: auth_types auth_case_def and_then_def return_def)
qed

text \<open>An answer of the client returns when the kernel has room for it.\<close>

lemma answer_room:
  fixes m :: "(conn, unit) comp"
  assumes "\<And>p. sock_wf (snd p) \<Longrightarrow> fst p = c \<Longrightarrow> emits out c p (m p)"
    and "io [] rest s0 s" "int (length out) \<le> slack s0"
  obtains s' where "m (c, s) = (Done (), (c, s'))" "io out rest s0 s'"
proof -
  have "emits out c (c, s) (m (c, s))" using assms(1) io_wf [OF assms(2)] by simp
  moreover have "int (length out) \<le> slack (snd (c, s))" using assms(3) io_slack [OF assms(2)] by simp
  ultimately obtain a s' where "m (c, s) = (Done a, (c, s'))" "io out (incoming s) s s'"
    by (rule emits_room) simp
  then show thesis
    using that io_trans [OF assms(2), of out rest s'] io_incoming [OF assms(2)] by simp
qed

lemma init_loop_password:
  assumes "sock_wf s" "incoming s = message (CHR ''R'') (u32_bytes 3) @ rest" "\<not> m_query_ready conn"
    and "out = message (CHR ''p'') (c_str (m_password config))" "int (length out) \<le> slack s"
  obtains s' where "io out rest s s'"
    "init_loop ossl rand config n ((conn, s), ks) = init_loop ossl rand config (n + 1) ((conn, s'), ks)"
proof -
  obtain s1 where s1: "io [] ([] @ rest) s s1" "init_loop ossl rand config n ((conn, s), ks)
      = and_then (auth_case ossl (rand n) config (int (length ([] :: byte list))) (auth_type_of 3))
          (\<lambda>_. init_loop ossl rand config (n + 1)) ((conn, s1), ks)"
    by (rule init_loop_auth [where payload = "[]" and w = 3, OF assms(1) _ _ assms(3)])
       (use assms(2) in \<open>simp_all add: body_ok_def\<close>)
  obtain s2 where "send_password config (conn, s1) = (Done (), (conn, s2))" "io out ([] @ rest) s s2"
    by (rule answer_room [OF _ s1(1) assms(5)]) (unfold assms(4), erule (1) send_password_emits)
  then show thesis
    using that s1(2) by (simp add: auth_types auth_case_def and_then_def on_fst_def)
qed

text \<open>The three rounds of SASL.\<close>

lemma init_loop_start_sasl:
  assumes "sock_wf s" "incoming s = message (CHR ''R'') (u32_bytes 10 @ mechs) @ rest" "body_ok (u32_bytes 10 @ mechs)"
    and "\<not> m_query_ready conn" "occurs SCRAM_SHA256 (chars mechs)" "rand n CLIENT_NONCE_OCTETS = Some nb"
    and "generate_client_first_msg (m_user config) (base64_ref nb) scr = (first, scr1)"
    and "out = message (CHR ''p'') (c_str SCRAM_SHA256 @ u32_bytes (of_nat (length first)) @ bytes first)"
    and "int (length out) \<le> slack s"
  obtains s' where "io out rest s s'"
    "init_loop ossl rand config n ((conn, s), k, scr) = init_loop ossl rand config (n + 1) ((conn, s'), k, scr1)"
proof -
  obtain s1 where s1: "io [] (mechs @ rest) s s1" "init_loop ossl rand config n ((conn, s), k, scr)
      = and_then (auth_case ossl (rand n) config (int (length mechs)) (auth_type_of 10))
          (\<lambda>_. init_loop ossl rand config (n + 1)) ((conn, s1), k, scr)"
    by (rule init_loop_auth [OF assms(1-4)])
  obtain s2 where s2: "read_string (int (length mechs)) ((conn, s1), k, scr) = (Done (chars mechs), ((conn, s2), k, scr))"
      "io [] rest s1 s2"
    by (rule read_string_stream [OF io_wf [OF s1(1)] io_incoming [OF s1(1)]])
  obtain s3 where s3: "send_initial_response first (conn, s2) = (Done (), (conn, s3))" "io out rest s s3"
    by (rule answer_room [OF _ io_trans [OF s1(1) s2(2), simplified] assms(9)])
       (unfold assms(8), erule (1) send_initial_response_emits)
  have "start_sasl (rand n) config (chars mechs) ((conn, s2), k, scr) = (Done (), ((conn, s3), k, scr1))"
    using assms(5-7) s3(1)
    by (simp add: start_sasl_def generate_random_string_def base64_encode_ref and_then_def on_fst_def on_snd_def)
  then show thesis
    using that [OF s3(2)] s1(2) s2(1) by (simp add: auth_types auth_case_def and_then_def)
qed

lemma init_loop_continue_sasl:
  assumes "sock_wf s" "incoming s = message (CHR ''R'') (u32_bytes 11 @ bytes msg) @ rest" "body_ok (u32_bytes 11 @ bytes msg)"
    and "\<not> m_query_ready conn" "resolve_server_first_msg msg scr = (Done (), scr1)"
    and "generate_client_final_msg ossl (m_password config) (k, scr1) = (Done final, (k', scr2))"
    and "out = message (CHR ''p'') (bytes final)" "int (length out) \<le> slack s"
  obtains s' where "io out rest s s'"
    "init_loop ossl rand config n ((conn, s), k, scr) = init_loop ossl rand config (n + 1) ((conn, s'), k', scr2)"
proof -
  obtain s1 where s1: "io [] (bytes msg @ rest) s s1" "init_loop ossl rand config n ((conn, s), k, scr)
      = and_then (auth_case ossl (rand n) config (int (length (bytes msg))) (auth_type_of 11))
          (\<lambda>_. init_loop ossl rand config (n + 1)) ((conn, s1), k, scr)"
    by (rule init_loop_auth [OF assms(1-4)])
  obtain s2 where s2: "read_string (int (length (bytes msg))) ((conn, s1), k, scr) = (Done (chars (bytes msg)), ((conn, s2), k, scr))"
      "io [] rest s1 s2"
    by (rule read_string_stream [OF io_wf [OF s1(1)] io_incoming [OF s1(1)]])
  obtain s3 where s3: "send_final_response final (conn, s2) = (Done (), (conn, s3))" "io out rest s s3"
    by (rule answer_room [OF _ io_trans [OF s1(1) s2(2), simplified] assms(8)])
       (unfold assms(7), erule (1) send_final_response_emits)
  have "continue_sasl ossl config msg ((conn, s2), k, scr) = (Done (), ((conn, s3), k', scr2))"
    using assms(5,6) s3(1) by (simp add: continue_sasl_def and_then_def on_fst_def on_snd_def)
  then show thesis
    using that [OF s3(2)] s1(2) s2(1) by (simp add: auth_types auth_case_def and_then_def)
qed

lemma init_loop_continue_fails:
  assumes "sock_wf s" "incoming s = message (CHR ''R'') (u32_bytes 11 @ bytes msg) @ rest" "body_ok (u32_bytes 11 @ bytes msg)"
    and "\<not> m_query_ready conn" "resolve_server_first_msg msg scr = (Done (), scr1)"
    and "generate_client_final_msg ossl (m_password config) (k, scr1) = (Threw e, (k', scr2))"
  obtains s' where "io [] rest s s'"
    "init_loop ossl rand config n ((conn, s), k, scr) = (Threw e, ((conn, s'), k', scr2))"
proof -
  obtain s1 where s1: "io [] (bytes msg @ rest) s s1" "init_loop ossl rand config n ((conn, s), k, scr)
      = and_then (auth_case ossl (rand n) config (int (length (bytes msg))) (auth_type_of 11))
          (\<lambda>_. init_loop ossl rand config (n + 1)) ((conn, s1), k, scr)"
    by (rule init_loop_auth [OF assms(1-4)])
  obtain s2 where s2: "read_string (int (length (bytes msg))) ((conn, s1), k, scr) = (Done (chars (bytes msg)), ((conn, s2), k, scr))"
      "io [] rest s1 s2"
    by (rule read_string_stream [OF io_wf [OF s1(1)] io_incoming [OF s1(1)]])
  have "continue_sasl ossl config msg ((conn, s2), k, scr) = (Threw e, ((conn, s2), k', scr2))"
    using assms(5,6) by (simp add: continue_sasl_def and_then_def on_fst_def on_snd_def)
  moreover have "io [] rest s s2" using io_trans [OF s1(1) s2(2)] by simp
  ultimately show thesis
    using that s1(2) s2(1) by (simp add: auth_types auth_case_def and_then_def)
qed

lemma init_loop_finish_sasl:
  assumes "sock_wf s" "incoming s = message (CHR ''R'') (u32_bytes 12 @ bytes msg) @ rest" "body_ok (u32_bytes 12 @ bytes msg)"
    and "\<not> m_query_ready conn"
  obtains s' where "io [] rest s s'"
    "init_loop ossl rand config n ((conn, s), k, scr)
      = (if msg = m_expected_server_final_msg scr then init_loop ossl rand config (n + 1) ((conn, s'), k, scr)
         else (Threw (Runtime_error ''SASL Auth unexpected final msg''), ((conn, s'), k, scr)))"
proof -
  obtain s1 where s1: "io [] (bytes msg @ rest) s s1" "init_loop ossl rand config n ((conn, s), k, scr)
      = and_then (auth_case ossl (rand n) config (int (length (bytes msg))) (auth_type_of 12))
          (\<lambda>_. init_loop ossl rand config (n + 1)) ((conn, s1), k, scr)"
    by (rule init_loop_auth [OF assms(1-4)])
  obtain s2 where s2: "read_string (int (length (bytes msg))) ((conn, s1), k, scr) = (Done (chars (bytes msg)), ((conn, s2), k, scr))"
      "io [] rest s1 s2"
    by (rule read_string_stream [OF io_wf [OF s1(1)] io_incoming [OF s1(1)]])
  have "io [] rest s s2" using io_trans [OF s1(1) s2(2)] by simp
  then show thesis
    using that s1(2) s2(1) by (simp add: auth_types auth_case_def and_then_def finish_sasl_def verify_server_final_msg_def)
qed

text \<open>What follows: keys and parameters, which are skipped, and the message that ends the start-up.\<close>

lemma init_loop_skip:
  assumes "sock_wf s" "incoming s = message c body @ rest" "body_ok body" "\<not> m_query_ready conn"
    and "c = CHR ''S'' \<or> c = CHR ''K''"
  obtains s' where "io [] rest s s'"
    "init_loop ossl rand config n ((conn, s), k, scr) = init_loop ossl rand config (n + 1) ((conn, s'), k, scr)"
proof -
  have t: "response_type_of c = PARAMETER_STATUS \<or> response_type_of c = BACKEND_KEY_DATA"
    using assms(5) by (elim disjE; simp only:; code_simp)
  then have "response_type_of c \<noteq> NOTICE_RESPONSE" by auto
  from init_loop_turn [OF assms(1-3) this assms(4)] obtain s1 where s1: "io [] (body @ rest) s s1"
    "init_loop ossl rand config n ((conn, s), k, scr)
      = and_then (init_step ossl (rand n) config \<lparr>m_info_type = response_type_of c, m_info_size = int (length body)\<rparr>)
          (\<lambda>_. init_loop ossl rand config (n + 1)) ((conn, s1), k, scr)"
    by metis
  obtain s2 where s2: "skip (int (length body)) True s1 = (Done (int (length body)), s2)" "advanced s1 rest s2"
    by (rule skip_stream [OF io_wf [OF s1(1)] io_incoming [OF s1(1)]])
  have "io [] rest s s2" using io_trans [OF s1(1) io_advanced [OF s2(2)]] by simp
  then show thesis
    using that s1(2) s2(1) t by (auto simp: init_step_def and_then_def on_fst_def on_snd_def return_def)
qed

lemma init_loop_ready:
  assumes "sock_wf s" "incoming s = message (CHR ''Z'') body @ rest" "body_ok body" "\<not> m_query_ready conn"
  obtains s' where "io [] rest s s'"
    "init_loop ossl rand config n ((conn, s), k, scr) = (Done (), ((conn\<lparr>m_query_ready := True\<rparr>, s'), k, scr))"
proof -
  have t: "response_type_of (CHR ''Z'') = READY_FOR_QUERY" by code_simp
  obtain s1 where s1: "io [] (body @ rest) s s1"
    "init_loop ossl rand config n ((conn, s), k, scr)
      = and_then (init_step ossl (rand n) config \<lparr>m_info_type = READY_FOR_QUERY, m_info_size = int (length body)\<rparr>)
          (\<lambda>_. init_loop ossl rand config (n + 1)) ((conn, s1), k, scr)"
    using init_loop_turn [OF assms(1-3) _ assms(4), of ossl rand config n k scr] unfolding t by auto
  obtain s2 where s2: "skip (int (length body)) True s1 = (Done (int (length body)), s2)" "advanced s1 rest s2"
    by (rule skip_stream [OF io_wf [OF s1(1)] io_incoming [OF s1(1)]])
  have "io [] rest s s2" using io_trans [OF s1(1) io_advanced [OF s2(2)]] by simp
  then show thesis
    using that s1(2) s2(1)
    by (simp add: init_step_def and_then_def on_fst_def on_snd_def set_query_ready_def init_loop.simps)
qed

text \<open>The end of every start-up: authentication is accepted, parameters follow, the server is ready.\<close>

definition parameters :: "(char \<times> byte list) list \<Rightarrow> byte list" where
  "parameters ps = concat (map (\<lambda>(c, body). message c body) ps)"

definition parameter_ok :: "char \<times> byte list \<Rightarrow> bool" where
  "parameter_ok p \<longleftrightarrow> (fst p = CHR ''S'' \<or> fst p = CHR ''K'') \<and> body_ok (snd p)"

lemma init_loop_parameters:
  assumes "sock_wf s" "incoming s = parameters ps @ message (CHR ''Z'') body @ rest" "list_all parameter_ok ps"
    and "body_ok body" "\<not> m_query_ready conn"
  obtains s' where "io [] rest s s'"
    "init_loop ossl rand config n ((conn, s), k, scr) = (Done (), ((conn\<lparr>m_query_ready := True\<rparr>, s'), k, scr))"
  using assms(1-3)
proof (induction ps arbitrary: s n thesis)
  case Nil
  then show ?case
    using init_loop_ready [of s body rest conn ossl rand config n k scr] assms(4,5) by (auto simp: parameters_def)
next
  case (Cons p ps)
  obtain c b where p: "p = (c, b)" by fastforce
  have inc: "incoming s = message c b @ parameters ps @ message (CHR ''Z'') body @ rest"
    using Cons.prems(3) by (simp add: parameters_def p)
  obtain s1 where s1: "io [] (parameters ps @ message (CHR ''Z'') body @ rest) s s1"
    "init_loop ossl rand config n ((conn, s), k, scr) = init_loop ossl rand config (n + 1) ((conn, s1), k, scr)"
    by (rule init_loop_skip [OF Cons.prems(2) inc _ assms(5)]) (use Cons.prems(4) in \<open>auto simp: parameter_ok_def p\<close>)
  obtain s2 where s2: "io [] rest s1 s2"
    "init_loop ossl rand config (n + 1) ((conn, s1), k, scr) = (Done (), ((conn\<lparr>m_query_ready := True\<rparr>, s2), k, scr))"
    by (rule Cons.IH [OF _ io_wf [OF s1(1)] io_incoming [OF s1(1)]]) (use Cons.prems(4) in simp_all)
  show ?case using Cons.prems(1) [of s2] io_trans [OF s1(1) s2(1)] s1(2) s2(2) by simp
qed

text \<open>The end of the exchange: the final message of the server is accepted or not, and what follows makes the connection ready.\<close>

lemma init_loop_verdict:
  assumes "sock_wf s" "\<not> m_query_ready conn" "list_all parameter_ok ps" "body_ok status" "body_ok (u32_bytes 12 @ bytes msg)"
    and "incoming s = message (CHR ''R'') (u32_bytes 12 @ bytes msg) @ message (CHR ''R'') (u32_bytes 0)
        @ parameters ps @ message (CHR ''Z'') status @ rest"
  obtains s' where "out_stream s' = out_stream s"
    "if msg = m_expected_server_final_msg scr
     then init_loop ossl rand config n ((conn, s), k, scr) = (Done (), ((conn\<lparr>m_query_ready := True\<rparr>, s'), k, scr)) \<and> incoming s' = rest
     else init_loop ossl rand config n ((conn, s), k, scr)
       = (Threw (Runtime_error ''SASL Auth unexpected final msg''), ((conn, s'), k, scr))"
proof -
  let ?tail = "message (CHR ''R'') (u32_bytes 0) @ parameters ps @ message (CHR ''Z'') status @ rest"
  obtain s1 where s1: "io [] ?tail s s1" "init_loop ossl rand config n ((conn, s), k, scr)
      = (if msg = m_expected_server_final_msg scr then init_loop ossl rand config (n + 1) ((conn, s1), k, scr)
         else (Threw (Runtime_error ''SASL Auth unexpected final msg''), ((conn, s1), k, scr)))"
    by (rule init_loop_finish_sasl [OF assms(1,6,5,2)])
  obtain s2 where s2: "io [] (parameters ps @ message (CHR ''Z'') status @ rest) s1 s2"
      "init_loop ossl rand config (n + 1) ((conn, s1), k, scr) = init_loop ossl rand config (n + 1 + 1) ((conn, s2), k, scr)"
    by (rule init_loop_auth_ok [OF io_wf [OF s1(1)] io_incoming [OF s1(1)] assms(2)])
  obtain s3 where s3: "io [] rest s2 s3" "init_loop ossl rand config (n + 1 + 1) ((conn, s2), k, scr)
      = (Done (), ((conn\<lparr>m_query_ready := True\<rparr>, s3), k, scr))"
    by (rule init_loop_parameters [OF io_wf [OF s2(1)] io_incoming [OF s2(1)] assms(3,4,2)])
  have "out_stream s1 = out_stream s" "out_stream s3 = out_stream s" "incoming s3 = rest"
    using s1(1) s2(1) s3(1) by (simp_all add: io_def)
  then show thesis
    using that [of s1] that [of s3] s1(2) s2(2) s3(2) by (cases "msg = m_expected_server_final_msg scr") simp_all
qed

section \<open>The start-up message\<close>

text \<open>The packet that the protocol prescribes: its length, the version 3.0, names and values, each ended by a zero byte, and a zero byte.\<close>

definition startup_packet :: "pg_config \<Rightarrow> byte list" where
  "startup_packet config =
     (let params = (''user'', m_user config) # (if m_database config = [] then [] else [(''database'', m_database config)]);
          body = concat (map (\<lambda>(name, val). bytes name @ [0] @ bytes val @ [0]) params) @ [0]
      in u32_bytes (of_nat (4 + 4 + length body)) @ u32_bytes 0x00030000 @ body)"

lemma startup_packet_eq:
  "startup_packet config = u32_bytes (of_nat (8 + length (startup_message config))) @ u32_bytes 196608 @ startup_message config"
  by (simp add: startup_packet_def startup_message_def c_str_def Let_def)

lemma startup_header_eq:
  "startup_header msg = Done (u32_bytes (of_nat (8 + length msg)) @ u32_bytes 196608)"
proof -
  have w: "write_u32_be (replicate 8 0) 0 v = Some (u32_bytes v @ replicate 4 0)" for v
    by (simp add: write_u32_be_eq)
  have "write_u32_be (u32_bytes v @ replicate 4 0) 4 (196608 :: 32 word) = Some (u32_bytes v @ u32_bytes 196608)" for v
    by (simp add: write_u32_be_eq)
  then show ?thesis
    by (simp add: startup_header_def STARTUP_HEADER_SIZE_def POSTGRES_PROTOCOL_def w push_bit_eq_mult)
qed

lemma startup_emits:
  assumes "sock_wf (snd p)" "fst p = c"
  shows "emits (startup_packet config) c p
    (and_then (Pair (startup_header (startup_message config))) (\<lambda>header.
     and_then (write_bytes header) (\<lambda>_. and_then (write_bytes (startup_message config)) (\<lambda>_. on_snd flush))) p)"
proof -
  have pr: "and_then (Pair (Done x)) f p = f x p" for x and f :: "_ \<Rightarrow> (conn, unit) comp"
    by (simp add: and_then_def)
  have m: "startup_packet config
      = (u32_bytes (of_nat (8 + length (startup_message config))) @ u32_bytes 196608) @ startup_message config @ []"
    by (simp add: startup_packet_eq)
  show ?thesis
    unfolding startup_header_eq pr m
    by (intro emits_write_bytes_then emits_flush) (use assms in simp_all)
qed

lemma init_eq:
  assumes "sock_wf s" "incoming s = rest" "int (length (startup_packet config)) \<le> slack s"
  obtains s' where "io (startup_packet config) rest s s'"
    "init ossl rand config ((conn, s), k)
      = (case init_loop ossl rand config 0 ((conn, s'), k, new_scram) of (r, (p, k, scr)) \<Rightarrow> (r, (p, k)))"
proof -
  obtain s' where "(and_then (Pair (startup_header (startup_message config))) (\<lambda>header.
     and_then (write_bytes header) (\<lambda>_. and_then (write_bytes (startup_message config)) (\<lambda>_. on_snd flush)))) (conn, s)
      = (Done (), (conn, s'))" "io (startup_packet config) rest s s'"
    by (rule answer_room [OF _ io_refl [OF assms(1,2)] assms(3)]) (erule (1) startup_emits)
  then show thesis using that by (simp add: init_def Let_def and_then_def [of "on_fst _"] on_fst_def)
qed

section \<open>Properties\<close>

text \<open>
  C6: a start-up with SCRAM-SHA-256 against a server that follows RFC 5802: whatever the segmentation, the client sends
  the start-up packet, the initial response and the final response with the right proof, and nothing else; it is ready
  when the server's last message carries the signature of this exchange, with the stream right behind
  ReadyForQuery; any other last message ends the start-up with an exception, and the connection is not ready.
  A server that asks for no iteration at all, which OpenSSL refuses, ends it with an exception in front of the final response.
\<close>

theorem pg_login_scram:
  assumes "openssl_computes ossl H M K" "crypto_wf ossl k" "sock_wf s" "\<not> m_query_ready conn"
    and "rand 0 CLIENT_NONCE_OCTETS = Some nb" "cnonce = base64_ref nb"
    and "CHR '','' \<notin> set snonce" "int iterations \<le> LONG_MAX" "occurs SCRAM_SHA256 (chars mechs)"
    and "server_first = ''r='' @ cnonce @ snonce @ '',s='' @ base64_ref salt @ '',i='' @ to_chars 10 (int iterations)"
    and "salted = K (bytes (m_password config)) salt (of_nat iterations) SHA256_OUTPUT_OCTETS"
    and "auth = ''n='' @ m_user config @ '',r='' @ cnonce @ '','' @ server_first @ '',c=biws,r='' @ cnonce @ snonce"
    and "first = ''n,,n='' @ m_user config @ '',r='' @ cnonce"
    and "final = ''c=biws,r='' @ cnonce @ snonce @ '',p='' @ base64_ref (client_proof H M salted auth)"
    and "incoming s = message (CHR ''R'') (u32_bytes 10 @ mechs) @ message (CHR ''R'') (u32_bytes 11 @ bytes server_first)
        @ message (CHR ''R'') (u32_bytes 12 @ bytes server_final) @ message (CHR ''R'') (u32_bytes 0)
        @ parameters ps @ message (CHR ''Z'') status @ rest"
    and "body_ok (u32_bytes 10 @ mechs)" "body_ok (u32_bytes 11 @ bytes server_first)"
      "body_ok (u32_bytes 12 @ bytes server_final)" "list_all parameter_ok ps" "body_ok status"
    and "begun = startup_packet config
        @ message (CHR ''p'') (c_str SCRAM_SHA256 @ u32_bytes (of_nat (length first)) @ bytes first)"
    and "int (length (begun @ message (CHR ''p'') (bytes final))) \<le> slack s"
  shows "if iterations = 0
    then \<exists>s' k'. init ossl rand config ((conn, s), k) = (Threw (Runtime_error ''pbkdf2 derive error''), ((conn, s'), k'))
      \<and> out_stream s' = out_stream s @ begun \<and> crypto_wf ossl k'
    else \<exists>s' k'. out_stream s' = out_stream s @ begun @ message (CHR ''p'') (bytes final) \<and> crypto_wf ossl k'
    \<and> (if server_final = ''v='' @ base64_ref (server_signature M salted auth)
       then init ossl rand config ((conn, s), k) = (Done (), ((conn\<lparr>m_query_ready := True\<rparr>, s'), k')) \<and> incoming s' = rest
       else init ossl rand config ((conn, s), k)
          = (Threw (Runtime_error ''SASL Auth unexpected final msg''), ((conn, s'), k')))"
proof -
  let ?m1 = "message (CHR ''p'') (c_str SCRAM_SHA256 @ u32_bytes (of_nat (length first)) @ bytes first)"
  let ?m2 = "message (CHR ''p'') (bytes final)"
  let ?tail = "message (CHR ''R'') (u32_bytes 0) @ parameters ps @ message (CHR ''Z'') status @ rest"
  let ?sig = "''v='' @ base64_ref (server_signature M salted auth)"
  obtain fst1 scr1 where g: "generate_client_first_msg (m_user config) cnonce new_scram = (fst1, scr1)" by fastforce
  have comma: "CHR '','' \<notin> set cnonce" by (simp add: assms(6) base64_ref_no_comma)
  note st = scram_steps [OF assms(1,2) comma assms(7,8) g assms(10) assms(11) assms(12)]
  have f1: "fst1 = first" using st(1) assms(13) by simp
  obtain scr2 k' where r: "resolve_server_first_msg server_first scr1 = (Done (), scr2)"
      "generate_client_final_msg ossl (m_password config) (k, scr2)
        = (if iterations = 0 then (Threw (Runtime_error ''pbkdf2 derive error''), (k', scr2))
           else (Done final, (k', scr2\<lparr>m_expected_server_final_msg := ?sig\<rparr>)))" "crypto_wf ossl k'"
    using st(2) assms(14) by blast
  have room: "int (length (startup_packet config)) \<le> slack s" using assms(22) by (simp add: assms(21))
  obtain s0 where s0: "io (startup_packet config) (incoming s) s s0"
      "init ossl rand config ((conn, s), k)
        = (case init_loop ossl rand config 0 ((conn, s0), k, new_scram) of (r, (p, k, scr)) \<Rightarrow> (r, (p, k)))"
    by (rule init_eq [OF assms(3) refl room])
  note i0 = io_incoming [OF s0(1), unfolded assms(15)]
  have room1: "int (length ?m1) \<le> slack s0" using assms(22) io_slack [OF s0(1)] by (simp add: assms(21))
  obtain s1 where s1: "io ?m1 (message (CHR ''R'') (u32_bytes 11 @ bytes server_first)
        @ message (CHR ''R'') (u32_bytes 12 @ bytes server_final) @ ?tail) s0 s1"
      "init_loop ossl rand config 0 ((conn, s0), k, new_scram) = init_loop ossl rand config (0 + 1) ((conn, s1), k, scr1)"
    by (rule init_loop_start_sasl [where rand = rand and n = 0, OF io_wf [OF s0(1)] i0 assms(16,4,9,5) g [unfolded assms(6) f1] refl room1])
  have o1: "out_stream s1 = out_stream s @ begun"
    using s0(1) s1(1) by (simp add: io_def assms(21))
  show ?thesis
  proof (cases "iterations = 0")
    case True
    obtain s2 where s2: "io [] (message (CHR ''R'') (u32_bytes 12 @ bytes server_final) @ ?tail) s1 s2"
        "init_loop ossl rand config (0 + 1) ((conn, s1), k, scr1)
          = (Threw (Runtime_error ''pbkdf2 derive error''), ((conn, s2), k', scr2))"
      by (rule init_loop_continue_fails [OF io_wf [OF s1(1)] io_incoming [OF s1(1)] assms(17,4) r(1)
          r(2) [unfolded True, simplified if_True refl]])
    have "out_stream s2 = out_stream s @ begun" using s2(1) o1 by (simp add: io_def)
    moreover have "init ossl rand config ((conn, s), k) = (Threw (Runtime_error ''pbkdf2 derive error''), ((conn, s2), k'))"
      unfolding s0(2) s1(2) s2(2) by simp
    ultimately show ?thesis using r(3) True by auto
  next
    case False
    have room2: "int (length ?m2) \<le> slack s1"
      using assms(22) io_slack [OF s0(1)] io_slack [OF s1(1)] by (simp add: assms(21))
    obtain s2 where s2: "io ?m2 (message (CHR ''R'') (u32_bytes 12 @ bytes server_final) @ ?tail) s1 s2"
        "init_loop ossl rand config (0 + 1) ((conn, s1), k, scr1)
          = init_loop ossl rand config (0 + 1 + 1) ((conn, s2), k', scr2\<lparr>m_expected_server_final_msg := ?sig\<rparr>)"
      by (rule init_loop_continue_sasl [OF io_wf [OF s1(1)] io_incoming [OF s1(1)] assms(17,4) r(1)
          r(2) [unfolded if_not_P [OF False]] refl room2])
    let ?scr = "scr2\<lparr>m_expected_server_final_msg := ?sig\<rparr>"
    obtain s3 where s3: "out_stream s3 = out_stream s2"
        "if server_final = m_expected_server_final_msg ?scr
         then init_loop ossl rand config (0 + 1 + 1) ((conn, s2), k', ?scr)
            = (Done (), ((conn\<lparr>m_query_ready := True\<rparr>, s3), k', ?scr)) \<and> incoming s3 = rest
         else init_loop ossl rand config (0 + 1 + 1) ((conn, s2), k', ?scr)
            = (Threw (Runtime_error ''SASL Auth unexpected final msg''), ((conn, s3), k', ?scr))"
      by (rule init_loop_verdict [OF io_wf [OF s2(1)] assms(4,19,20,18) io_incoming [OF s2(1)]])
    have o: "out_stream s3 = out_stream s @ begun @ ?m2"
      using o1 s2(1) s3(1) by (simp add: io_def)
    have e: "m_expected_server_final_msg ?scr = ?sig" by simp
    show ?thesis
      using s3(2) o r(3) unfolding s0(2) s1(2) s2(2) e if_not_P [OF False]
      by (intro exI [of _ s3] exI [of _ k']) (simp split: if_splits)
  qed
qed

lemma out_stream_new [simp]: "out_stream (new_socket rx tx) = []"
  by (simp add: out_stream_def) (simp add: new_socket_def)

theorem pg_login_scram_witness:
  "\<exists>s s' k'. incoming s \<noteq> [] \<and> incoming s' = [] \<and>
     init sum_openssl (\<lambda>_ n. Some (replicate n 5))
        \<lparr>m_user = ''joe'', m_password = ''pw'', m_database = [], m_max_connections = 1\<rparr> ((new_pg_connection, s), new_crypto)
      = (Done (), ((\<lparr>m_query_ready = True\<rparr>, s'), k'))"
proof -
  let ?config = "\<lparr>m_user = ''joe'', m_password = ''pw'', m_database = [], m_max_connections = 1\<rparr>"
  let ?cnonce = "base64_ref (replicate 24 5)"
  let ?first = "''n,,n='' @ m_user ?config @ '',r='' @ ?cnonce"
  let ?sf = "''r='' @ ?cnonce @ ''XY'' @ '',s='' @ base64_ref [1, 2] @ '',i='' @ to_chars 10 (int 4096)"
  let ?auth = "''n='' @ m_user ?config @ '',r='' @ ?cnonce @ '','' @ ?sf @ '',c=biws,r='' @ ?cnonce @ ''XY''"
  let ?salted = "sum_K (bytes (m_password ?config)) [1, 2] (of_nat 4096) SHA256_OUTPUT_OCTETS"
  let ?tail = "''c=biws,r='' @ ?cnonce @ ''XY'' @ '',p='' @ base64_ref (client_proof sum_H sum_M ?salted ?auth)"
  let ?v = "''v='' @ base64_ref (server_signature sum_M ?salted ?auth)"
  let ?mechs = "bytes (SCRAM_SHA256 @ [CHR 0x00, CHR 0x00])"
  let ?begun = "startup_packet ?config
         @ message (CHR ''p'') (c_str SCRAM_SHA256 @ u32_bytes (of_nat (length ?first)) @ bytes ?first)"
  let ?out = "?begun @ message (CHR ''p'') (bytes ?tail)"
  let ?stream = "message (CHR ''R'') (u32_bytes 10 @ ?mechs) @ message (CHR ''R'') (u32_bytes 11 @ bytes ?sf)
         @ message (CHR ''R'') (u32_bytes 12 @ bytes ?v) @ message (CHR ''R'') (u32_bytes 0)
         @ parameters [] @ message (CHR ''Z'') [0x49] @ []"
  let ?rand = "\<lambda>(_ :: nat) n. Some (replicate n (5 :: byte))"
  let ?s = "new_socket [Rx_data ?stream] [Tx_ok (length ?out)]"
  have rand: "?rand 0 CLIENT_NONCE_OCTETS = Some (replicate 24 5)" by (simp add: CLIENT_NONCE_OCTETS_def)
  have digits: "to_chars 10 (int 4096) = ''4096''" by code_simp
  have sig: "length (server_signature sum_M x y) = 32" for x y
    by (simp add: server_signature_def sum_M_def SHA256_OUTPUT_OCTETS_def)
  have ok: "body_ok (u32_bytes 10 @ ?mechs)" "body_ok (u32_bytes 11 @ bytes ?sf)" "body_ok (u32_bytes 12 @ bytes ?v)"
    "body_ok [0x49]"
    unfolding digits by (simp_all add: body_ok_def length_base64_ref sig SCRAM_SHA256_def)
  have occ: "occurs SCRAM_SHA256 (chars ?mechs)" unfolding chars_bytes by code_simp
  have inc: "incoming ?s = ?stream" by simp
  have lm: "int 4096 \<le> LONG_MAX" by (simp add: LONG_MAX_def)
  have comma: "CHR '','' \<notin> set ''XY''" by simp
  have room: "int (length ?out) \<le> slack ?s" by (simp only: slack_new order_refl)
  have pk: "list_all parameter_ok []" by simp
  have nr: "\<not> m_query_ready new_pg_connection" by (simp add: new_pg_connection_def)
  note th = pg_login_scram [where rand = ?rand and config = ?config and s = ?s and nb = "replicate 24 5" and snonce = "''XY''"
      and iterations = 4096 and mechs = ?mechs and salt = "[1, 2]" and server_final = ?v and ps = "[]" and status = "[0x49]"
      and rest = "[]", OF sum_openssl_computes crypto_wf_new sock_wf_new nr rand refl comma lm occ refl refl refl refl refl
      inc ok(1-3) pk ok(4) refl room]
  obtain s' k' where "init sum_openssl ?rand ?config ((new_pg_connection, ?s), new_crypto)
      = (Done (), ((new_pg_connection\<lparr>m_query_ready := True\<rparr>, s'), k'))" "incoming s' = []"
    using th by (simp only: refl if_True if_False numeral_neq_zero) blast
  moreover have "incoming ?s \<noteq> []" unfolding inc by simp
  moreover have "new_pg_connection\<lparr>m_query_ready := True\<rparr> = \<lparr>m_query_ready = True\<rparr>" by (simp add: new_pg_connection_def)
  ultimately show ?thesis by (intro exI conjI; assumption?) (simp_all only: simp_thms)
qed

text \<open>
  a server that asks for the password in clear text gets the start-up packet and the password, ended by a zero byte,
  and nothing else; the connection is then ready with the stream right behind ReadyForQuery.
\<close>

theorem pg_login_password:
  assumes "sock_wf s" "\<not> m_query_ready conn"
    and "incoming s = message (CHR ''R'') (u32_bytes 3) @ message (CHR ''R'') (u32_bytes 0)
        @ parameters ps @ message (CHR ''Z'') status @ rest"
    and "list_all parameter_ok ps" "body_ok status"
    and "out = startup_packet config @ message (CHR ''p'') (bytes (m_password config) @ [0])" "int (length out) \<le> slack s"
  shows "\<exists>s'. init ossl rand config ((conn, s), k) = (Done (), ((conn\<lparr>m_query_ready := True\<rparr>, s'), k))
    \<and> out_stream s' = out_stream s @ out \<and> incoming s' = rest"
proof -
  let ?m = "message (CHR ''p'') (c_str (m_password config))"
  have out: "out = startup_packet config @ ?m" using assms(6) by (simp add: c_str_def)
  have room: "int (length (startup_packet config)) \<le> slack s" using assms(7) by (simp add: out)
  obtain s0 where s0: "io (startup_packet config) (incoming s) s s0"
      "init ossl rand config ((conn, s), k)
        = (case init_loop ossl rand config 0 ((conn, s0), k, new_scram) of (r, (p, k, scr)) \<Rightarrow> (r, (p, k)))"
    by (rule init_eq [OF assms(1) refl room])
  have room1: "int (length ?m) \<le> slack s0" using assms(7) io_slack [OF s0(1)] by (simp add: out)
  obtain s1 where s1: "io ?m (message (CHR ''R'') (u32_bytes 0) @ parameters ps @ message (CHR ''Z'') status @ rest) s0 s1"
      "init_loop ossl rand config 0 ((conn, s0), k, new_scram) = init_loop ossl rand config (0 + 1) ((conn, s1), k, new_scram)"
    by (rule init_loop_password [OF io_wf [OF s0(1)] io_incoming [OF s0(1), unfolded assms(3)] assms(2) refl room1])
  obtain s2 where s2: "io [] (parameters ps @ message (CHR ''Z'') status @ rest) s1 s2"
      "init_loop ossl rand config (0 + 1) ((conn, s1), k, new_scram)
        = init_loop ossl rand config (0 + 1 + 1) ((conn, s2), k, new_scram)"
    by (rule init_loop_auth_ok [OF io_wf [OF s1(1)] io_incoming [OF s1(1)] assms(2)])
  obtain s3 where s3: "io [] rest s2 s3" "init_loop ossl rand config (0 + 1 + 1) ((conn, s2), k, new_scram)
      = (Done (), ((conn\<lparr>m_query_ready := True\<rparr>, s3), k, new_scram))"
    by (rule init_loop_parameters [OF io_wf [OF s2(1)] io_incoming [OF s2(1)] assms(4,5,2)])
  have "out_stream s3 = out_stream s @ out" "incoming s3 = rest"
    using s0(1) s1(1) s2(1) s3(1) by (simp_all add: io_def out)
  then show ?thesis unfolding s0(2) s1(2) s2(2) s3(2) by auto
qed

theorem pg_login_password_witness:
  "\<exists>s'. init sum_openssl (\<lambda>_ _. None) \<lparr>m_user = ''u'', m_password = ''p'', m_database = ''d'', m_max_connections = 1\<rparr>
      ((new_pg_connection, new_socket [Rx_data (message (CHR ''R'') (u32_bytes 3) @ message (CHR ''R'') (u32_bytes 0)
          @ parameters [(CHR ''S'', [1, 0, 2, 0])] @ message (CHR ''Z'') [0x49] @ [])] [Tx_ok 100]), new_crypto)
      = (Done (), ((\<lparr>m_query_ready = True\<rparr>, s'), new_crypto))"
proof -
  let ?config = "\<lparr>m_user = ''u'', m_password = ''p'', m_database = ''d'', m_max_connections = 1\<rparr>"
  let ?stream = "message (CHR ''R'') (u32_bytes 3) @ message (CHR ''R'') (u32_bytes 0)
          @ parameters [(CHR ''S'', [1, 0, 2, 0])] @ message (CHR ''Z'') [0x49] @ []"
  let ?s = "new_socket [Rx_data ?stream] [Tx_ok 100]"
  have h: "\<not> m_query_ready new_pg_connection" "incoming ?s = ?stream" "list_all parameter_ok [(CHR ''S'', [1, 0, 2, 0])]"
      "body_ok [0x49]" "int (length (startup_packet ?config @ message (CHR ''p'') (bytes (m_password ?config) @ [0]))) \<le> slack ?s"
    by (simp_all add: new_pg_connection_def parameter_ok_def body_ok_def startup_packet_def startup_message_def)
  from pg_login_password [OF sock_wf_new h(1-4) refl h(5), of sum_openssl "\<lambda>_ _. None" new_crypto]
  show ?thesis by (auto simp: new_pg_connection_def)
qed

text \<open>
  the client does not insist on an exchange: a server that knows nothing may send an empty final SASL message, which
  is what the client expects as long as no exchange has taken place, and then accept; the connection counts as
  authenticated although the server has proved nothing.
\<close>

theorem pg_login_server_unverified:
  assumes "sock_wf s" "\<not> m_query_ready conn" "list_all parameter_ok ps" "body_ok status"
    and "incoming s = message (CHR ''R'') (u32_bytes 12) @ message (CHR ''R'') (u32_bytes 0)
        @ parameters ps @ message (CHR ''Z'') status @ rest"
    and "int (length (startup_packet config)) \<le> slack s"
  shows "\<exists>s'. init ossl rand config ((conn, s), k) = (Done (), ((conn\<lparr>m_query_ready := True\<rparr>, s'), k))
    \<and> out_stream s' = out_stream s @ startup_packet config \<and> incoming s' = rest"
proof -
  obtain s0 where s0: "io (startup_packet config) (incoming s) s s0"
      "init ossl rand config ((conn, s), k)
        = (case init_loop ossl rand config 0 ((conn, s0), k, new_scram) of (r, (p, k, scr)) \<Rightarrow> (r, (p, k)))"
    by (rule init_eq [OF assms(1) refl assms(6)])
  have i0: "incoming s0 = message (CHR ''R'') (u32_bytes 12 @ bytes []) @ message (CHR ''R'') (u32_bytes 0)
      @ parameters ps @ message (CHR ''Z'') status @ rest"
    using io_incoming [OF s0(1)] assms(5) by simp
  have b: "body_ok (u32_bytes 12 @ bytes [])" by (simp add: body_ok_def)
  have e: "[] = m_expected_server_final_msg new_scram" by (simp add: new_scram_def)
  obtain s1 where s1: "out_stream s1 = out_stream s0" "incoming s1 = rest"
      "init_loop ossl rand config 0 ((conn, s0), k, new_scram) = (Done (), ((conn\<lparr>m_query_ready := True\<rparr>, s1), k, new_scram))"
    by (rule init_loop_verdict [where scr = new_scram and ossl = ossl and rand = rand and config = config and n = 0 and k = k,
          OF io_wf [OF s0(1)] assms(2,3,4) b i0, folded e]) simp
  have "out_stream s0 = out_stream s @ startup_packet config" using s0(1) by (simp add: io_def)
  then show ?thesis unfolding s0(2) s1(3) using s1(1,2) by auto
qed

theorem pg_login_server_unverified_witness:
  "\<exists>s'. init sum_openssl (\<lambda>_ _. None) \<lparr>m_user = ''u'', m_password = ''p'', m_database = [], m_max_connections = 1\<rparr>
      ((new_pg_connection, new_socket [Rx_data (message (CHR ''R'') (u32_bytes 12) @ message (CHR ''R'') (u32_bytes 0)
          @ parameters [] @ message (CHR ''Z'') [0x49] @ [])] [Tx_ok 100]), new_crypto)
      = (Done (), ((\<lparr>m_query_ready = True\<rparr>, s'), new_crypto))"
proof -
  let ?config = "\<lparr>m_user = ''u'', m_password = ''p'', m_database = [], m_max_connections = 1\<rparr>"
  let ?stream = "message (CHR ''R'') (u32_bytes 12) @ message (CHR ''R'') (u32_bytes 0)
          @ parameters [] @ message (CHR ''Z'') [0x49] @ []"
  let ?s = "new_socket [Rx_data ?stream] [Tx_ok 100]"
  have h: "\<not> m_query_ready new_pg_connection" "list_all parameter_ok []" "body_ok [0x49]" "incoming ?s = ?stream"
      "int (length (startup_packet ?config)) \<le> slack ?s"
    by (simp_all add: new_pg_connection_def body_ok_def startup_packet_def startup_message_def)
  from pg_login_server_unverified [OF sock_wf_new h, of sum_openssl "\<lambda>_ _. None" new_crypto]
  show ?thesis by (auto simp: new_pg_connection_def)
qed

end
