(* ===== verification/Pg_Query.thy ===== *)
theory Pg_Query
  imports Pg_Connection
begin

text \<open>
  \<open>cppevent_postgres/pg_connection\<close>, second part: simple queries, prepared queries and the collection of results.
  \<open>query\<close> and \<open>execute\<close> start the coroutine \<open>populate_result\<close> without awaiting it. The task that is returned
  dies at once, so the coroutine only gets as far as its first suspension, and an exception in it is lost.
\<close>

section \<open>Collecting a result\<close>

definition on_result :: "(pg_result \<Rightarrow> pg_result outcome) \<Rightarrow> (pg_result, unit) comp" where
  "on_result f r = (case f r of
     Done r' \<Rightarrow> (Done (), r') | Threw e \<Rightarrow> (Threw e, r) | Suspended \<Rightarrow> (Suspended, r) | Undefined \<Rightarrow> (Undefined, r))"

text \<open>
  The bytes of the message are moved into the result before they are read, as zeros; the read then fills them in. What a
  read that does not end has stored of them is not kept in the model: no row refers to it.
\<close>

definition set_row_data :: "nat \<Rightarrow> byte list \<Rightarrow> pg_result \<Rightarrow> pg_result" where
  "set_row_data blk d r = r\<lparr>m_row_data := (m_row_data r)[blk := d]\<rparr>"

definition populate_result :: "response_info \<Rightarrow> (socket \<times> pg_result, unit) comp" where
  "populate_result info p =
     (let n = nat (m_info_size info); zeros = replicate n 0 in
      case m_info_type info of
        ROW_DESCRIPTION \<Rightarrow>
          and_then (on_snd (on_result (\<lambda>r. Done (set_desc_data zeros r)))) (\<lambda>_.
          and_then (on_fst (read_mem zeros 0 (m_info_size info) True)) (\<lambda>(data, _).
          on_snd (on_result (\<lambda>r. parse_row_description data (set_desc_data data r))))) p
      | DATA_ROW \<Rightarrow>
          (let blk = length (m_row_data (snd p)) in
           and_then (on_snd (on_result (\<lambda>r. Done (add_row_data zeros r)))) (\<lambda>_.
           and_then (on_fst (read_mem zeros 0 (m_info_size info) True)) (\<lambda>(data, _).
           and_then (on_snd (on_result (\<lambda>r. Done (set_row_data blk data r)))) (\<lambda>_.
           and_then (Pair (parse_data_row data blk)) (\<lambda>row.
           on_snd (on_result (\<lambda>r. Done (add_row row r))))))) p)
      | _ \<Rightarrow> (Done (), p))"

text \<open>
  The statement \<open>populate_result(info, result);\<close>: no completion comes while it runs, so a receive suspends the
  coroutine, with the buffer drained by then. Its frame is destroyed with the task, and with it the awaiter of the receive,
  whose destructor resets the callback. The caller goes on, and its next receive, into the same place of the drained
  buffer, is resumed by the completion of the abandoned one: it gets the bytes that come next. One receive more than the
  program waits for stays under way from then on; the script of completions stands for a kernel that writes into
  the buffer only when the program waits for it again.
\<close>

definition start_populate_result :: "response_info \<Rightarrow> (socket \<times> pg_result, unit) comp" where
  "start_populate_result info p =
     (case populate_result info ((fst p)\<lparr>m_rx := []\<rparr>, snd p) of
        (r, (s', res')) \<Rightarrow> ((case r of Undefined \<Rightarrow> Undefined | _ \<Rightarrow> Done ()), (s'\<lparr>m_rx := m_rx (fst p)\<rparr>, res')))"

text \<open>The tag of a completed command; taking the last character off an empty string is undefined.\<close>

definition read_tag :: "int \<Rightarrow> (conn, string) comp" where
  "read_tag sz =
     and_then (on_snd (read_str [] sz True)) (\<lambda>(tag, _). if tag = [] then Pair Undefined else return (butlast tag))"

section \<open>Simple queries\<close>

type_synonym query_state = "conn \<times> pg_result list"

text \<open>The list of results always has a last one, the one being collected.\<close>

definition map_last :: "('a \<Rightarrow> 'a) \<Rightarrow> 'a list \<Rightarrow> 'a list" where
  "map_last f xs = (if xs = [] then [] else butlast xs @ [f (last xs)])"

definition on_back :: "(socket \<times> pg_result, unit) comp \<Rightarrow> (query_state, unit) comp" where
  "on_back m st =
     (case m (snd (fst st), last (snd st)) of
        (r, (s', res')) \<Rightarrow> (r, ((fst (fst st), s'), map_last (\<lambda>_. res') (snd st))))"

definition end_result :: "(pg_result \<Rightarrow> pg_result) \<Rightarrow> (query_state, unit) comp" where
  "end_result f st = (Done (), (fst st, map_last f (snd st) @ [new_pg_result]))"

definition query_step :: "response_info \<Rightarrow> (query_state, unit) comp" where
  "query_step info =
     (let skip_body = on_fst (on_snd (skip (m_info_size info) True)) in
      case m_info_type info of
        COMMAND_COMPLETE \<Rightarrow>
          and_then (on_fst (read_tag (m_info_size info))) (\<lambda>tag. end_result (set_command_tag tag))
      | ROW_DESCRIPTION \<Rightarrow> on_back (start_populate_result info)
      | DATA_ROW \<Rightarrow> on_back (start_populate_result info)
      | EMPTY_QUERY_RESPONSE \<Rightarrow> and_then skip_body (\<lambda>_. end_result set_error)
      | ERROR_RESPONSE \<Rightarrow> and_then skip_body (\<lambda>_. end_result set_error)
      | READY_FOR_QUERY \<Rightarrow> and_then skip_body (\<lambda>_. on_fst (set_query_ready True))
      | _ \<Rightarrow> return ())"

text \<open>With nothing to receive, a read takes what is in the buffer, and perhaps suspends.\<close>

lemma read_mem_no_rx:
  assumes "m_rx s = []" "0 \<le> sz"
  shows "rx_work (snd (read_mem d off sz True s)) \<le> rx_work s" "m_rx (snd (read_mem d off sz True s)) = []"
proof -
  obtain r b where b: "bb_read d off sz (m_in_buffer s) = (r, b)" by fastforce
  let ?s = "s\<lparr>m_in_buffer := b\<rparr>"
  have d: "on_in (drain_mem off d 0 sz) s = (r, ?s)" using b by (simp add: on_in_def drain_mem_def)
  have stop: "recv_incoming t = (Suspended, t)" if "m_rx t = []" for t
    using that by (simp add: recv_incoming_def split: prod.split)
  have "snd (read_mem d off sz True s) = ?s"
    using d assms(1) stop [of ?s] by (cases r) (auto simp: read_mem_def fill_def and_then_def fill_loop.simps)
  moreover have "nat (available b) \<le> nat (available (m_in_buffer s))"
    using b assms(2) by (auto simp: bb_read_def Let_def available_increment_read_p split: if_splits option.splits)
  ultimately show "rx_work (snd (read_mem d off sz True s)) \<le> rx_work s" "m_rx (snd (read_mem d off sz True s)) = []"
    using assms(1) by (simp_all add: rx_work_def)
qed

lemma fst_on_snd: "fst (snd (on_snd m p)) = fst p"
  by (simp add: on_snd_def split: prod.split)

lemma fst_then_on_snd:
  assumes "\<And>a p. fst (snd (f a p)) = fst p"
  shows "fst (snd (and_then m f p)) = fst (snd (m p))"
  using assms by (cases "m p"; cases "fst (m p)") (auto simp: and_then_def)

lemma populate_result_socket:
  "fst (snd (populate_result info p)) = fst p
   \<or> fst (snd (populate_result info p)) = snd (read_mem (replicate (nat (m_info_size info)) 0) 0 (m_info_size info) True (fst p))"
proof -
  let ?rd = "on_fst (read_mem (replicate (nat (m_info_size info)) 0) 0 (m_info_size info) True) :: (socket \<times> pg_result, byte list \<times> int) comp"
  have rd: "fst (snd (?rd q)) = snd (read_mem (replicate (nat (m_info_size info)) 0) 0 (m_info_size info) True (fst q))" for q
    by (simp add: on_fst_def split: prod.split)
  have first: "and_then (on_snd (on_result (\<lambda>r. Done (g r)))) f p = f () (fst p, g (snd p))"
    for g and f :: "unit \<Rightarrow> (socket \<times> pg_result, unit) comp"
    by (simp add: and_then_def on_snd_def on_result_def)
  have pr: "fst (snd (and_then (Pair r) f q)) = fst q" if "\<And>a q. fst (snd (f a q)) = fst q"
    for r and f :: "pg_value list \<Rightarrow> (socket \<times> pg_result, unit) comp" and q
    using that by (subst fst_then_on_snd) simp_all
  show ?thesis
    by (cases "m_info_type info")
      (auto simp: populate_result_def Let_def first rd fst_on_snd fst_then_on_snd pr split: prod.split)
qed

lemma rx_work_m_rx: "rx_work (s\<lparr>m_rx := rx\<rparr>) = nat (available (m_in_buffer s)) + rx_weight rx"
  by (simp add: rx_work_def)

lemma frugal_start: "0 \<le> m_info_size info \<Longrightarrow> frugal fst (start_populate_result info)"
proof -
  assume sz: "0 \<le> m_info_size info"
  have "rx_work (fst (snd (start_populate_result info p))) \<le> rx_work (fst p)" for p
  proof -
    let ?s = "(fst p)\<lparr>m_rx := []\<rparr>"
    obtain r s' res' where r: "populate_result info (?s, snd p) = (r, (s', res'))" by (metis prod.exhaust)
    have "nat (available (m_in_buffer s')) \<le> nat (available (m_in_buffer (fst p)))"
      using populate_result_socket [of info "(?s, snd p)"] r
        read_mem_no_rx [of ?s, OF _ sz, of "replicate (nat (m_info_size info)) 0" 0]
      by (auto simp: rx_work_def)
    then show ?thesis using r by (simp add: start_populate_result_def rx_work_m_rx) (simp add: rx_work_def)
  qed
  then show ?thesis unfolding frugal_def by (metis snd_conv)
qed

lemma frugal_on_back: "frugal fst m \<Longrightarrow> frugal (\<lambda>st. snd (fst st)) (on_back m)"
  by (auto simp: frugal_def on_back_def split: prod.splits)

lemma frugal_query_step: "0 \<le> m_info_size info \<Longrightarrow> frugal (\<lambda>st. snd (fst st)) (query_step info)"
proof -
  assume sz: "0 \<le> m_info_size info"
  have tag: "frugal snd (read_tag (m_info_size info))"
    unfolding read_tag_def
    by (intro frugal_then frugal_on_snd [where sel = "\<lambda>s. s", OF frugal_socket(1)])
       (auto split: prod.split intro: frugal_intros)
  have e: "frugal (\<lambda>st. snd (fst st)) (end_result f)" for f
    by (simp add: frugal_def end_result_def)
  have skp: "frugal (\<lambda>st. snd (fst st)) (on_fst (on_snd (skip (m_info_size info) True)) :: (query_state, int) comp)"
    by (intro frugal_intros sz)
  have rdy: "frugal (\<lambda>st. snd (fst st)) (on_fst (set_query_ready b) :: (query_state, unit) comp)" for b
    by (intro frugal_intros)
  have bk: "frugal (\<lambda>st. snd (fst st)) (on_back (start_populate_result info))"
    by (rule frugal_on_back [OF frugal_start [OF sz]])
  show ?thesis
    unfolding query_step_def Let_def
    by (cases "m_info_type info") (auto intro!: frugal_intros tag e skp rdy bk)
qed

function query_loop :: "(query_state, unit) comp" where
  "query_loop st =
     (if m_query_ready (fst (fst st)) then (Done (), st)
      else and_then (on_fst (get_response_info True)) (\<lambda>info.
           and_then (query_step info) (\<lambda>_.
           query_loop)) st)"
  by pat_completeness auto
termination
proof (relation "measure (\<lambda>st. rx_work (snd (fst st)))", goal_cases)
  case 1
  show ?case by simp
next
  case (2 st info st1 u st2)
  have "rx_work (snd (fst st1)) < rx_work (snd (fst st))" "0 \<le> m_info_size info"
    using 2(2) by (auto simp: on_fst_def dest!: get_response_info_Done split: prod.splits)
  moreover have "rx_work (snd (fst st2)) \<le> rx_work (snd (fst st1))"
    using frugalD [OF frugal_query_step [OF calculation(2)] 2(3)] .
  ultimately show ?case by simp
qed

declare query_loop.simps [simp del]

definition query :: "string \<Rightarrow> (conn, pg_result list) comp" where
  "query q p =
     (if \<not> m_query_ready (fst p)
      then (Threw (Runtime_error ''pg_connection query_simple: Not query ready''), p)
      else
        and_then (write_header (CHR ''Q'') (int (length q) + 1)) (\<lambda>_.
        and_then (write_bytes (c_str q)) (\<lambda>_.
        and_then (on_snd flush) (\<lambda>_.
        and_then (set_query_ready False) (\<lambda>_ p1.
          case query_loop (p1, [new_pg_result]) of
            (Done _, (p2, results)) \<Rightarrow> (Done (butlast results), p2)
          | (Threw e, (p2, results)) \<Rightarrow> (Threw e, p2)
          | (Suspended, (p2, results)) \<Rightarrow> (Suspended, p2)
          | (Undefined, (p2, results)) \<Rightarrow> (Undefined, p2))))) p)"

section \<open>Prepared queries\<close>

definition INT_16_OCTETS :: int where
  "INT_16_OCTETS = 2"

definition prepare_query :: "string \<Rightarrow> pg_params \<Rightarrow> (conn, unit) comp" where
  "prepare_query q params p =
     (if \<not> m_query_ready (fst p)
      then (Threw (Runtime_error ''pg_connection query_extended: Not query ready''), p)
      else
        and_then (write_header (CHR ''P'') (int (length q) + INT_32_OCTETS)) (\<lambda>_.
        and_then (write_bytes (take 1 NULL_ARR)) (\<lambda>_.
        and_then (write_bytes (c_str q)) (\<lambda>_.
        and_then (write_bytes NULL_ARR) (\<lambda>_.
        and_then (write_header (CHR ''B'') (int (length (m_param_buffer params)) + 3 * INT_16_OCTETS)) (\<lambda>_.
        and_then (write_bytes (take 1 NULL_ARR)) (\<lambda>_.
        and_then (write_bytes (take 1 NULL_ARR)) (\<lambda>_.
        and_then (write_bytes NULL_ARR) (\<lambda>_.
        and_then (write_bytes (m_param_buffer params)) (\<lambda>_.
        and_then (write_bytes NULL_ARR) (\<lambda>_.
        set_query_ready False)))))))))) p)"

text \<open>Waiting for the server to be ready again; every message before that is skipped.\<close>

function sync_loop :: "(conn, unit) comp" where
  "sync_loop p =
     and_then (get_response_info True) (\<lambda>info.
     and_then (if m_info_size info > 0 then and_then (on_snd (skip (m_info_size info) True)) (\<lambda>_. return ()) else return ()) (\<lambda>_ p.
     if m_info_type info \<noteq> READY_FOR_QUERY then sync_loop p else (Done (), p))) p"
  by pat_completeness auto
termination
proof (relation "measure (\<lambda>p. rx_work (snd p))", goal_cases)
  case 1
  show ?case by simp
next
  case (2 p info p1 u p2)
  have "rx_work (snd p1) < rx_work (snd p)" using get_response_info_Done [OF 2(1)] by simp
  moreover have "frugal snd (if m_info_size info > 0
      then and_then (on_snd (skip (m_info_size info) True)) (\<lambda>_. return ()) else (return () :: (conn, unit) comp))"
    by (auto intro!: frugal_intros)
  then have "rx_work (snd p2) \<le> rx_work (snd p1)" using 2(2) by (rule frugalD)
  ultimately show ?case by simp
qed

declare sync_loop.simps [simp del]

definition CLOSE_SYNC :: "byte list" where
  "CLOSE_SYNC = [byte_of_char (CHR ''C''), 0, 0, 0, 6, byte_of_char (CHR ''P''), 0, byte_of_char (CHR ''S''), 0, 0, 0, 4]"

definition close_sync :: "(conn, unit) comp" where
  "close_sync =
     and_then (write_bytes CLOSE_SYNC) (\<lambda>_.
     and_then (on_snd flush) (\<lambda>_.
     and_then sync_loop (\<lambda>_.
     set_query_ready True)))"

type_synonym execute_state = "conn \<times> pg_result"

definition execute_populate :: "response_info \<Rightarrow> (execute_state, unit) comp" where
  "execute_populate info st =
     (case start_populate_result info (snd (fst st), snd st) of (r, (s', res')) \<Rightarrow> (r, ((fst (fst st), s'), res')))"

definition update_result :: "(pg_result \<Rightarrow> pg_result) \<Rightarrow> (execute_state, unit) comp" where
  "update_result f = on_snd (on_result (\<lambda>r. Done (f r)))"

definition execute_step :: "response_info \<Rightarrow> (execute_state, unit) comp" where
  "execute_step info =
     (let skip_body = on_fst (on_snd (skip (m_info_size info) True)) in
      case m_info_type info of
        EMPTY_QUERY_RESPONSE \<Rightarrow> and_then skip_body (\<lambda>_. update_result set_error)
      | ERROR_RESPONSE \<Rightarrow> and_then skip_body (\<lambda>_. update_result set_error)
      | ROW_DESCRIPTION \<Rightarrow> execute_populate info
      | DATA_ROW \<Rightarrow> execute_populate info
      | COMMAND_COMPLETE \<Rightarrow>
          and_then (on_fst (read_tag (m_info_size info))) (\<lambda>tag. update_result (set_command_tag tag))
      | PORTAL_SUSPENDED \<Rightarrow> update_result set_suspended
      | _ \<Rightarrow> return ())"

lemma frugal_read_tag: "frugal snd (read_tag sz)"
  unfolding read_tag_def
  by (intro frugal_then frugal_on_snd [where sel = "\<lambda>s. s", OF frugal_socket(1)])
     (auto split: prod.split intro: frugal_intros)

lemma frugal_execute_step: "0 \<le> m_info_size info \<Longrightarrow> frugal (\<lambda>st. snd (fst st)) (execute_step info)"
proof -
  assume sz: "0 \<le> m_info_size info"
  have u: "frugal (\<lambda>st. snd (fst st)) (update_result f)" for f
    unfolding update_result_def by (rule frugal_intros)
  have skp: "frugal (\<lambda>st. snd (fst st)) (on_fst (on_snd (skip (m_info_size info) True)) :: (execute_state, int) comp)"
    by (intro frugal_intros sz)
  have pop: "frugal (\<lambda>st. snd (fst st)) (execute_populate info)"
    using frugal_start [OF sz] by (auto simp: frugal_def execute_populate_def split: prod.splits)
  show ?thesis
    unfolding execute_step_def Let_def
    by (cases "m_info_type info") (auto intro!: frugal_intros u skp pop frugal_read_tag)
qed

function execute_loop :: "(execute_state, unit) comp" where
  "execute_loop st =
     (if m_type (snd st) \<noteq> PENDING then (Done (), st)
      else and_then (on_fst (get_response_info True)) (\<lambda>info.
           and_then (execute_step info) (\<lambda>_.
           execute_loop)) st)"
  by pat_completeness auto
termination
proof (relation "measure (\<lambda>st. rx_work (snd (fst st)))", goal_cases)
  case 1
  show ?case by simp
next
  case (2 st info st1 u st2)
  have "rx_work (snd (fst st1)) < rx_work (snd (fst st))" "0 \<le> m_info_size info"
    using 2(2) by (auto simp: on_fst_def dest!: get_response_info_Done split: prod.splits)
  moreover have "rx_work (snd (fst st2)) \<le> rx_work (snd (fst st1))"
    using frugalD [OF frugal_execute_step [OF calculation(2)] 2(3)] .
  ultimately show ?case by simp
qed

declare execute_loop.simps [simp del]

text \<open>A suspended portal is the only way out of the loop that does not close the statement.\<close>

definition execute :: "int \<Rightarrow> (conn, pg_result) comp" where
  "execute max_rows =
     and_then (write_header (CHR ''E'') (INT_32_OCTETS + 1)) (\<lambda>_.
     and_then (Pair (case write_u32_be (replicate 4 0) 0 (of_int max_rows) of
                       None \<Rightarrow> Undefined | Some arr \<Rightarrow> Done arr)) (\<lambda>rows_arr.
     and_then (write_bytes (take 1 NULL_ARR)) (\<lambda>_.
     and_then (write_bytes rows_arr) (\<lambda>_.
     and_then (write_header (CHR ''H'') 0) (\<lambda>_.
     and_then (on_snd flush) (\<lambda>_ p.
       case execute_loop (p, new_pg_result) of
         (Done _, (p2, result)) \<Rightarrow>
           if m_type result = SUSPENDED then (Done result, p2)
           else and_then close_sync (\<lambda>_. return result) p2
       | (Threw e, (p2, result)) \<Rightarrow> (Threw e, p2)
       | (Suspended, (p2, result)) \<Rightarrow> (Suspended, p2)
       | (Undefined, (p2, result)) \<Rightarrow> (Undefined, p2)))))))"

end
