(* ===== verification/Pg_Replies.thy ===== *)
theory Pg_Replies
  imports Pg_Query
begin

text \<open>
  What \<open>pg_connection::query\<close>, \<open>prepare_query\<close>, \<open>execute\<close> and \<open>close_sync\<close> send, and the results they
  return for the answers of a server. Because \<open>populate_result\<close> is not awaited, the answers have to come in
  completions that hold whole messages (\<open>aligned\<close>); a row that is cut between two completions is shown to be lost, and
  what follows the cut to be read as messages.
\<close>

section \<open>Messages in whole completions\<close>

text \<open>
  \<open>pend\<close> is what the buffer still holds of the message being read; behind it \<open>msgs\<close> follow, some of them in the
  buffer already, the others in completions, each of which brings at least one message and fits into the buffer.
\<close>

definition group_ok :: "byte list list \<Rightarrow> bool" where
  "group_ok g \<longleftrightarrow> g \<noteq> [] \<and> length (concat g) \<le> SOCKET_BUFFER_SIZE"

definition aligned :: "byte list \<Rightarrow> byte list list \<Rightarrow> socket \<Rightarrow> bool" where
  "aligned pend msgs s \<longleftrightarrow> sock_wf s \<and> [] \<notin> set msgs \<and>
     (\<exists>ms gs rx. get_read_chunk (m_in_buffer s) = pend @ concat ms \<and> m_rx s = map (\<lambda>g. Rx_data (concat g)) gs @ rx
        \<and> msgs = ms @ concat gs \<and> list_all group_ok gs)"

lemma aligned_took:
  assumes "aligned (xs @ ys) msgs s" "took (length xs) s s'"
  shows "aligned ys msgs s'"
proof -
  obtain ms gs rx where a: "get_read_chunk (m_in_buffer s) = (xs @ ys) @ concat ms"
      "m_rx s = map (\<lambda>g. Rx_data (concat g)) gs @ rx" "msgs = ms @ concat gs" "list_all group_ok gs" "[] \<notin> set msgs"
    using assms(1) by (auto simp: aligned_def)
  moreover have "get_read_chunk (m_in_buffer s') = ys @ concat ms" "m_rx s' = m_rx s" "sock_wf s'"
    using assms(2) a(1) by (simp_all add: took_def)
  ultimately show ?thesis
    unfolding aligned_def by (intro conjI exI [of _ ms] exI [of _ gs] exI [of _ rx]) simp_all
qed

lemma aligned_chunk: "aligned pend msgs s \<Longrightarrow> \<exists>zs. sock_wf s \<and> get_read_chunk (m_in_buffer s) = pend @ zs"
  by (auto simp: aligned_def)

lemma aligned_same_in: "aligned pend msgs s \<Longrightarrow> same_in s s' \<Longrightarrow> sock_wf s' \<Longrightarrow> aligned pend msgs s'"
  by (simp add: aligned_def same_in_def)

text \<open>A message that begins is in the buffer, or the next completion brings it.\<close>

lemma aligned_begin:
  assumes "aligned [] (m # msgs) s"
  obtains "aligned m msgs s"
  | k s1 where "get_read_chunk (m_in_buffer s) = []" "recv_incoming s = (Done (int k), s1)" "0 < k" "aligned m msgs s1"
      "same_out s s1" "sock_wf s"
proof -
  obtain ms gs rx where a: "get_read_chunk (m_in_buffer s) = concat ms" "m_rx s = map (\<lambda>g. Rx_data (concat g)) gs @ rx"
      "m # msgs = ms @ concat gs" "list_all group_ok gs"
    using assms by (auto simp: aligned_def)
  have wf: "sock_wf s" "[] \<notin> set (m # msgs)" using assms by (auto simp: aligned_def)
  show thesis
  proof (cases ms)
    case (Cons m' ms')
    then have "aligned m msgs s" using a wf by (auto simp: aligned_def)
    then show thesis by (rule that(1))
  next
    case Nil
    then obtain g gs' where gs: "gs = g # gs'" using a(3) by (cases gs) auto
    then obtain g' where g: "g = m # g'" "msgs = g' @ concat gs'"
      using a(3,4) Nil by (cases g) (auto simp: group_ok_def)
    have ne: "concat g \<noteq> []" using wf(2) g(1) by auto
    have rx: "m_rx s = Rx_data (concat g) # (map (\<lambda>g. Rx_data (concat g)) gs' @ rx)" using a(2) gs by simp
    have emp: "get_read_chunk (m_in_buffer s) = []" using a(1) Nil by simp
    obtain s1 where s1: "recv_incoming s = (Done (int (length (concat g))), s1)" "sock_wf s1"
        "m_rx s1 = map (\<lambda>g. Rx_data (concat g)) gs' @ rx" "same_out s s1" "get_read_chunk (m_in_buffer s1) = concat g"
      by (rule recv_whole [OF wf(1) emp rx ne]) (use a(4) gs in \<open>simp add: group_ok_def\<close>)
    have "aligned m msgs s1" using s1 g a(4) gs wf(2) by (auto simp: aligned_def)
    moreover have "0 < length (concat g)" using ne by simp
    ultimately show thesis using that(2) emp s1(1,4) wf(1) by blast
  qed
qed

text \<open>The header of a message, from the buffer and from a completion.\<close>

lemma read_header_buffered:
  assumes "sock_wf t" "get_read_chunk (m_in_buffer t) = (byte_of_char c # u32_bytes w) @ xs"
  obtains t' where "read_header t = (Done \<lparr>m_info_type = response_type_of c, m_info_size = uint (w - 4)\<rparr>, t')"
    "took (length (byte_of_char c # u32_bytes w)) t t'"
proof -
  let ?h = "byte_of_char c # u32_bytes w"
  obtain t' where t: "read_mem (replicate 5 0) 0 (int (length ?h)) True t = (Done (?h, int (length ?h)), t')" "took (length ?h) t t'"
    by (rule buffered_read_mem [OF assms, of "replicate 5 0"]) simp_all
  have "read_u32_be ?h 1 = Some w" using read_u32_be_bytes [of "[byte_of_char c]" w "[]"] by simp
  then show thesis
    using that t by (simp add: read_header_def HEADER_SIZE_def INT_32_OCTETS_def and_then_def return_def)
qed

lemma read_header_refill:
  assumes "sock_wf s" "get_read_chunk (m_in_buffer s) = []" "recv_incoming s = (Done (int k), s1)" "0 < k"
  shows "read_header s = read_header s1"
proof -
  have "read_mem (replicate 5 0) 0 (int 5) True s = read_mem (replicate 5 0) 0 (int 5) True s1"
    by (rule read_mem_refill [OF assms(1,2) _ _ assms(3,4)]) simp_all
  then show ?thesis by (simp add: read_header_def HEADER_SIZE_def and_then_def)
qed

lemma aligned_head:
  assumes "aligned [] ((byte_of_char c # u32_bytes w @ xs) # msgs) s"
  obtains s' where "read_header s = (Done \<lparr>m_info_type = response_type_of c, m_info_size = uint (w - 4)\<rparr>, s')"
    "aligned xs msgs s'" "same_out s s'"
proof -
  let ?h = "byte_of_char c # u32_bytes w"
  have in_buffer: "\<exists>s'. read_header t = (Done \<lparr>m_info_type = response_type_of c, m_info_size = uint (w - 4)\<rparr>, s')
      \<and> aligned xs msgs s' \<and> same_out t s'" if al: "aligned (byte_of_char c # u32_bytes w @ xs) msgs t" for t
  proof -
    have al': "aligned (?h @ xs) msgs t" using al by simp
    obtain zs where z: "sock_wf t" "get_read_chunk (m_in_buffer t) = ?h @ xs @ zs"
      using aligned_chunk [OF al'] by auto
    obtain t' where t: "read_header t = (Done \<lparr>m_info_type = response_type_of c, m_info_size = uint (w - 4)\<rparr>, t')" "took (length ?h) t t'"
      by (rule read_header_buffered [OF z])
    then show ?thesis using aligned_took [OF al' t(2)] by (auto simp: took_def)
  qed
  show thesis
    using assms(1)
  proof (rule aligned_begin)
    assume "aligned (byte_of_char c # u32_bytes w @ xs) msgs s"
    from in_buffer [OF this] show thesis using that by blast
  next
    fix k s1 assume r: "get_read_chunk (m_in_buffer s) = []" "recv_incoming s = (Done (int k), s1)" "0 < k"
      "aligned (byte_of_char c # u32_bytes w @ xs) msgs s1" "same_out s s1" "sock_wf s"
    have "read_header s = read_header s1" by (rule read_header_refill [OF r(6,1-3)])
    then show thesis using in_buffer [OF r(4)] that same_out_trans [OF r(5)] by metis
  qed
qed

lemma aligned_header:
  assumes "aligned [] (message c body # msgs) s" "body_ok body"
  obtains s' where "read_header s = (Done \<lparr>m_info_type = response_type_of c, m_info_size = int (length body)\<rparr>, s')"
    "aligned body msgs s'" "same_out s s'"
proof -
  have "uint (of_nat (length body + 4) - 4 :: 32 word) = int (length body)"
    using assms(2) by (simp add: body_ok_def unsigned_of_nat take_bit_nat_eq_self)
  then show thesis
    using that aligned_head [OF assms(1) [unfolded message_def]] by metis
qed

lemma aligned_new:
  assumes "list_all group_ok gs" "[] \<notin> set (concat gs)"
  shows "aligned [] (concat gs) (new_socket (map (\<lambda>g. Rx_data (concat g)) gs) tx)"
proof -
  have "get_read_chunk (m_in_buffer (new_socket (map (\<lambda>g. Rx_data (concat g)) gs) tx)) = [] @ concat []"
    using incoming_new [of "[]" tx] by (simp add: incoming_def new_socket_def)
  moreover have "m_rx (new_socket (map (\<lambda>g. Rx_data (concat g)) gs) tx) = map (\<lambda>g. Rx_data (concat g)) gs @ []"
    by (simp add: new_socket_def)
  ultimately show ?thesis
    unfolding aligned_def using assms sock_wf_new by (metis append_Nil)
qed

lemma message_ne' [simp]: "[] \<noteq> message c body"
  using message_ne [of c body] by metis

lemma aligned_skip:
  assumes "aligned xs msgs s"
  obtains s' where "skip (int (length xs)) True s = (Done (int (length xs)), s')" "aligned [] msgs s'" "same_out s s'"
proof -
  obtain zs where z: "sock_wf s" "get_read_chunk (m_in_buffer s) = xs @ zs" using aligned_chunk [OF assms] by blast
  obtain s' where "skip (int (length xs)) True s = (Done (int (length xs)), s')" "took (length xs) s s'"
    by (rule buffered_skip [OF z])
  then show thesis using that aligned_took [of xs "[]" msgs s s'] assms by (simp add: took_def)
qed

lemma aligned_read_tag:
  assumes "aligned (bytes tag @ [0]) msgs s"
  obtains s' where "read_tag (int (length tag + 1)) (conn, s) = (Done tag, (conn, s'))" "aligned [] msgs s'" "same_out s s'"
proof -
  let ?xs = "bytes tag @ [0]"
  obtain zs where z: "sock_wf s" "get_read_chunk (m_in_buffer s) = ?xs @ zs" using aligned_chunk [OF assms] by blast
  obtain s' where s': "read_str [] (int (length ?xs)) True s = (Done (chars ?xs, int (length ?xs)), s')" "took (length ?xs) s s'"
    by (rule buffered_read_str [OF z])
  have "chars [0] \<noteq> []" by (simp add: chars_def)
  then have "butlast (chars ?xs) = tag" by (simp add: butlast_append) (simp add: chars_def)
  moreover have "chars ?xs \<noteq> []" by simp
  ultimately have "read_tag (int (length tag + 1)) (conn, s) = (Done tag, (conn, s'))"
    using s'(1) by (simp add: read_tag_def and_then_def on_snd_def return_def)
  then show thesis using that aligned_took [of ?xs "[]" msgs s s'] assms s'(2) by (simp add: took_def)
qed

section \<open>What a result collects\<close>

definition with_columns :: "column_info list \<Rightarrow> pg_result \<Rightarrow> pg_result" where
  "with_columns cs r = r\<lparr>m_desc_data := description_message cs, m_columns := m_columns r @ described_columns 2 cs\<rparr>"

definition with_row :: "byte list option list \<Rightarrow> pg_result \<Rightarrow> pg_result" where
  "with_row fs r = r\<lparr>m_row_data := m_row_data r @ [row_message fs],
     m_rows := m_rows r @ [row_values (length (m_row_data r)) 2 fs]\<rparr>"

lemma populate_read:
  assumes "aligned xs msgs s"
  obtains s' where "read_mem (replicate (length xs) 0) 0 (int (length xs)) True (s\<lparr>m_rx := []\<rparr>) = (Done (xs, int (length xs)), s')"
    "aligned [] msgs (s'\<lparr>m_rx := m_rx s\<rparr>)" "same_out s (s'\<lparr>m_rx := m_rx s\<rparr>)"
proof -
  obtain zs where "sock_wf s" "get_read_chunk (m_in_buffer s) = xs @ zs" using aligned_chunk [OF assms] by blast
  then have z: "sock_wf (s\<lparr>m_rx := []\<rparr>)" "get_read_chunk (m_in_buffer (s\<lparr>m_rx := []\<rparr>)) = xs @ zs"
    by (simp_all add: sock_wf_def)
  obtain s' where s': "read_mem (replicate (length xs) 0) 0 (int (length xs)) True (s\<lparr>m_rx := []\<rparr>) = (Done (xs, int (length xs)), s')"
      "took (length xs) (s\<lparr>m_rx := []\<rparr>) s'"
    by (rule buffered_read_mem [OF z, of "replicate (length xs) 0"]) simp_all
  then have t: "took (length xs) s (s'\<lparr>m_rx := m_rx s\<rparr>)" by (auto simp: took_def same_out_def sock_wf_def)
  then show thesis using that s'(1) aligned_took [of xs "[]" msgs s] assms by (simp add: took_def)
qed

lemma start_populate_columns:
  assumes "aligned (description_message cs) msgs s" "list_all column_ok cs" "length cs < 65536"
  obtains s' where "start_populate_result \<lparr>m_info_type = ROW_DESCRIPTION, m_info_size = int (length (description_message cs))\<rparr> (s, r)
      = (Done (), (s', with_columns cs r))" "aligned [] msgs s'" "same_out s s'"
proof -
  obtain s' where s': "read_mem (replicate (length (description_message cs)) 0) 0 (int (length (description_message cs))) True
        (s\<lparr>m_rx := []\<rparr>) = (Done (description_message cs, int (length (description_message cs))), s')"
      "aligned [] msgs (s'\<lparr>m_rx := m_rx s\<rparr>)" "same_out s (s'\<lparr>m_rx := m_rx s\<rparr>)"
    by (rule populate_read [OF assms(1)])
  have p: "parse_row_description (description_message cs) r' = Done (r'\<lparr>m_columns := m_columns r' @ described_columns 2 cs\<rparr>)" for r'
    using parse_row_description_message [OF assms(2,3), of "[]" r'] by simp
  show thesis
    using that [OF _ s'(2,3)] s'(1)
    by (simp add: start_populate_result_def populate_result_def and_then_def on_fst_def on_snd_def on_result_def p
        set_desc_data_def with_columns_def)
qed

lemma start_populate_row:
  assumes "aligned (row_message fs) msgs s" "list_all field_ok fs" "length fs < 65536"
  obtains s' where "start_populate_result \<lparr>m_info_type = DATA_ROW, m_info_size = int (length (row_message fs))\<rparr> (s, r)
      = (Done (), (s', with_row fs r))" "aligned [] msgs s'" "same_out s s'"
proof -
  obtain s' where s': "read_mem (replicate (length (row_message fs)) 0) 0 (int (length (row_message fs))) True (s\<lparr>m_rx := []\<rparr>)
      = (Done (row_message fs, int (length (row_message fs))), s')"
      "aligned [] msgs (s'\<lparr>m_rx := m_rx s\<rparr>)" "same_out s (s'\<lparr>m_rx := m_rx s\<rparr>)"
    by (rule populate_read [OF assms(1)])
  have p: "parse_data_row (row_message fs) blk = Done (row_values blk 2 fs)" for blk
    using parse_data_row_message [OF assms(2,3), of "[]"] by simp
  show thesis
    using that [OF _ s'(2,3)] s'(1)
    by (simp add: start_populate_result_def populate_result_def and_then_def on_fst_def on_snd_def on_result_def p
        add_row_data_def set_row_data_def add_row_def with_row_def Let_def)
qed

text \<open>
  A message of which the buffer holds only a part: the part is taken, and nothing is collected.
\<close>

definition blank :: "pg_result \<Rightarrow> bool" where
  "blank r \<longleftrightarrow> m_rows r = [] \<and> m_columns r = []"

lemma blank_new [simp]: "blank new_pg_result"
  by (simp add: blank_def new_pg_result_def)

lemma read_mem_short:
  assumes "sock_wf s" "length (get_read_chunk (m_in_buffer s)) < n" "m_rx s = []"
  obtains s' where "read_mem (replicate n 0) 0 (int n) True s = (Suspended, s')" "sock_wf s'"
    "get_read_chunk (m_in_buffer s') = []" "same_out s s'"
proof -
  let ?b = "m_in_buffer s"
  have wf: "bb_wf ?b" and av: "available ?b = int (length (get_read_chunk ?b))"
    using assms(1) length_read_chunk [of ?b] by (simp_all add: sock_wf_def)
  let ?b' = "increment_read_p (available ?b) ?b"
  have chunk: "take (nat (available ?b)) (drop (read_ptr ?b) (m_buffer ?b)) = get_read_chunk ?b"
    by (simp add: get_read_chunk_def)
  have "\<exists>d. memcpy (replicate n 0) 0 (get_read_chunk ?b) = Some d"
    using assms(2) by (simp add: memcpy_def)
  then obtain d where "bb_read (replicate n 0) 0 (int n) ?b = (Done (d, available ?b), ?b')"
    using assms(2) av chunk by (auto simp: bb_read_def Let_def min_def)
  then have "read_mem (replicate n 0) 0 (int n) True s = (Suspended, s\<lparr>m_in_buffer := ?b'\<rparr>)"
    using assms(2,3) av
    by (simp add: read_mem_def fill_def and_then_def on_in_def drain_mem_def fill_loop.simps recv_incoming_def split: prod.split)
  moreover have "bb_wf ?b'" "get_read_chunk ?b' = []"
    using bb_wf_increment_read_p [OF wf, of "available ?b"] read_chunk_increment_read_p [OF wf, of "available ?b"] av by simp_all
  ultimately show thesis using that assms(1) by (simp add: sock_wf_def same_out_def)
qed

lemma start_populate_short:
  assumes "sock_wf s" "length (get_read_chunk (m_in_buffer s)) < n" "t = ROW_DESCRIPTION \<or> t = DATA_ROW" "blank r"
  obtains s' r' where "start_populate_result \<lparr>m_info_type = t, m_info_size = int n\<rparr> (s, r) = (Done (), (s', r'))" "sock_wf s'"
    "get_read_chunk (m_in_buffer s') = []" "m_rx s' = m_rx s" "same_out s s'" "blank r'"
proof -
  have pre: "sock_wf (s\<lparr>m_rx := []\<rparr>)" "length (get_read_chunk (m_in_buffer (s\<lparr>m_rx := []\<rparr>))) < n" "m_rx (s\<lparr>m_rx := []\<rparr>) = []"
    using assms(1,2) by (simp_all add: sock_wf_def)
  obtain s' where s': "read_mem (replicate n 0) 0 (int n) True (s\<lparr>m_rx := []\<rparr>) = (Suspended, s')" "sock_wf s'"
      "get_read_chunk (m_in_buffer s') = []" "same_out (s\<lparr>m_rx := []\<rparr>) s'"
    by (rule read_mem_short [OF pre])
  let ?r = "if t = ROW_DESCRIPTION then set_desc_data (replicate n 0) r else add_row_data (replicate n 0) r"
  have "start_populate_result \<lparr>m_info_type = t, m_info_size = int n\<rparr> (s, r) = (Done (), (s'\<lparr>m_rx := m_rx s\<rparr>, ?r))"
    using assms(3) s'(1)
    by (auto simp: start_populate_result_def populate_result_def and_then_def on_fst_def on_snd_def on_result_def Let_def)
  moreover have "blank ?r" using assms(4) by (simp add: blank_def set_desc_data_def add_row_data_def)
  ultimately show thesis
    using that s'(2-4) by (auto simp: sock_wf_def same_out_def)
qed

section \<open>Replies\<close>

text \<open>
  The answer to a statement: perhaps a description of the columns, rows, and how it ended: the tag of the command, or
  an error or an empty query with whatever body.
\<close>

datatype ending = Completed string | Failed char "byte list"

datatype reply = Reply "column_info list option" "byte list option list list" ending

definition columns_messages :: "column_info list option \<Rightarrow> byte list list" where
  "columns_messages cs = (case cs of None \<Rightarrow> [] | Some cs \<Rightarrow> [message (CHR ''T'') (description_message cs)])"

primrec ending_message :: "ending \<Rightarrow> byte list" where
  "ending_message (Completed tag) = message (CHR ''C'') (bytes tag @ [0])"
| "ending_message (Failed c body) = message c body"

primrec reply_messages :: "reply \<Rightarrow> byte list list" where
  "reply_messages (Reply cs rows e)
     = columns_messages cs @ map (\<lambda>fs. message (CHR ''D'') (row_message fs)) rows @ [ending_message e]"

primrec end_with :: "ending \<Rightarrow> pg_result \<Rightarrow> pg_result" where
  "end_with (Completed tag) r = set_command_tag tag r"
| "end_with (Failed c body) r = set_error r"

definition columns_result :: "column_info list option \<Rightarrow> pg_result \<Rightarrow> pg_result" where
  "columns_result cs r = (case cs of None \<Rightarrow> r | Some cs \<Rightarrow> with_columns cs r)"

primrec reply_from :: "pg_result \<Rightarrow> reply \<Rightarrow> pg_result" where
  "reply_from r (Reply cs rows e) = end_with e (fold with_row rows (columns_result cs r))"

abbreviation reply_result :: "reply \<Rightarrow> pg_result" where
  "reply_result \<equiv> reply_from new_pg_result"

definition columns_ok :: "column_info list \<Rightarrow> bool" where
  "columns_ok cs \<longleftrightarrow> list_all column_ok cs \<and> length cs < 65536 \<and> body_ok (description_message cs)"

definition row_ok :: "byte list option list \<Rightarrow> bool" where
  "row_ok fs \<longleftrightarrow> list_all field_ok fs \<and> length fs < 65536 \<and> body_ok (row_message fs)"

primrec ending_ok :: "ending \<Rightarrow> bool" where
  "ending_ok (Completed tag) \<longleftrightarrow> body_ok (bytes tag @ [0])"
| "ending_ok (Failed c body) \<longleftrightarrow> (c = CHR ''E'' \<or> c = CHR ''I'') \<and> body_ok body"

primrec reply_ok :: "reply \<Rightarrow> bool" where
  "reply_ok (Reply cs rows e) \<longleftrightarrow> pred_option columns_ok cs \<and> list_all row_ok rows \<and> ending_ok e"

lemma response_types:
  "response_type_of (CHR ''T'') = ROW_DESCRIPTION" "response_type_of (CHR ''D'') = DATA_ROW"
  "response_type_of (CHR ''C'') = COMMAND_COMPLETE" "response_type_of (CHR ''E'') = ERROR_RESPONSE"
  "response_type_of (CHR ''I'') = EMPTY_QUERY_RESPONSE" "response_type_of (CHR ''Z'') = READY_FOR_QUERY"
  "response_type_of (CHR ''1'') = PARSE_COMPLETE" "response_type_of (CHR ''2'') = BIND_COMPLETE"
  "response_type_of (CHR ''s'') = PORTAL_SUSPENDED" "response_type_of (CHR ''3'') = Other_response (CHR ''3'')"
  by code_simp+

text \<open>The rows of a result are where \<open>get_row\<close> finds them.\<close>

fun rows_from :: "nat \<Rightarrow> byte list option list list \<Rightarrow> pg_value list list" where
  "rows_from n [] = []"
| "rows_from n (fs # rows) = row_values n 2 fs # rows_from (Suc n) rows"

lemma length_rows_from [simp]: "length (rows_from n rows) = length rows"
  by (induction rows arbitrary: n) auto

lemma nth_rows_from: "i < length rows \<Longrightarrow> rows_from n rows ! i = row_values (n + i) 2 (rows ! i)"
proof (induction rows arbitrary: n i)
  case (Cons fs rows)
  then show ?case by (cases i) simp_all
qed simp

lemma fold_with_row:
  "m_row_data (fold with_row rows r) = m_row_data r @ map row_message rows"
  "m_rows (fold with_row rows r) = m_rows r @ rows_from (length (m_row_data r)) rows"
  "m_type (fold with_row rows r) = m_type r"
  by (induction rows arbitrary: r) (simp_all add: with_row_def)

lemma reply_from_parts:
  assumes "blank r"
  shows "m_row_data (reply_from r (Reply cs rows e)) = m_row_data r @ map row_message rows"
    "m_rows (reply_from r (Reply cs rows e)) = rows_from (length (m_row_data r)) rows"
proof -
  have c: "m_row_data (columns_result cs r) = m_row_data r" "m_rows (columns_result cs r) = []"
    using assms by (simp_all add: columns_result_def with_columns_def blank_def split: option.split)
  show "m_row_data (reply_from r (Reply cs rows e)) = m_row_data r @ map row_message rows"
      "m_rows (reply_from r (Reply cs rows e)) = rows_from (length (m_row_data r)) rows"
    by (cases e; simp add: set_command_tag_def set_error_def fold_with_row c)+
qed

lemma reply_from_holds:
  assumes "blank r" "i < length rows"
  shows "holds_row (reply_from r (Reply cs rows e)) (int i) (rows ! i)"
proof -
  let ?r = "reply_from r (Reply cs rows e)" and ?n = "length (m_row_data r)"
  have "m_rows ?r ! i = row_values (?n + i) 2 (rows ! i)" "m_row_data ?r ! (?n + i) = row_message (rows ! i) @ []"
    using assms(2) by (simp_all only: reply_from_parts [OF assms(1)] nth_rows_from nth_append_length_plus nth_map append_Nil2)
  moreover have "i < length (m_rows ?r)" "?n + i < length (m_row_data ?r)"
    using assms(2) by (simp_all only: reply_from_parts [OF assms(1)] length_rows_from length_append length_map)
  ultimately show ?thesis
    unfolding holds_row_def nat_int by (intro conjI exI [of _ "?n + i"] exI [of _ "[]"]) simp_all
qed

section \<open>Turns of the loops\<close>

lemma aligned_response:
  assumes "aligned [] (message c body # msgs) s" "body_ok body" "response_type_of c \<noteq> NOTICE_RESPONSE"
  obtains s' where "get_response_info True (conn, s)
      = (Done \<lparr>m_info_type = response_type_of c, m_info_size = int (length body)\<rparr>, (conn, s'))"
    "aligned body msgs s'" "same_out s s'"
proof -
  obtain s' where s': "read_header s = (Done \<lparr>m_info_type = response_type_of c, m_info_size = int (length body)\<rparr>, s')"
      "aligned body msgs s'" "same_out s s'"
    by (rule aligned_header [OF assms(1,2)])
  show thesis
    by (rule that [OF _ s'(2,3)])
       (use s'(1) assms(3) in \<open>simp add: get_response_info_def on_snd_def response_loop.simps [of _ 0] and_then_def return_def\<close>)
qed

lemma query_turn:
  assumes "aligned [] (message c body # msgs) s" "body_ok body" "response_type_of c \<noteq> NOTICE_RESPONSE"
    and "\<not> m_query_ready conn"
  obtains s' where "aligned body msgs s'" "same_out s s'"
    "query_loop ((conn, s), rs) = and_then (query_step \<lparr>m_info_type = response_type_of c, m_info_size = int (length body)\<rparr>)
      (\<lambda>_. query_loop) ((conn, s'), rs)"
proof -
  obtain s' where s': "get_response_info True (conn, s)
      = (Done \<lparr>m_info_type = response_type_of c, m_info_size = int (length body)\<rparr>, (conn, s'))"
      "aligned body msgs s'" "same_out s s'"
    by (rule aligned_response [OF assms(1-3)])
  show thesis
    by (rule that [OF s'(2,3)])
       (use s'(1) assms(4) in \<open>subst query_loop.simps, simp add: and_then_def [of "on_fst _"] on_fst_def\<close>)
qed

text \<open>A socket that goes from one place between messages to another.\<close>

definition passed :: "byte list list \<Rightarrow> socket \<Rightarrow> socket \<Rightarrow> bool" where
  "passed msgs s s' \<longleftrightarrow> aligned [] msgs s' \<and> same_out s s'"

lemma passed_trans: "passed ms1 s s1 \<Longrightarrow> passed ms2 s1 s2 \<Longrightarrow> passed ms2 s s2"
  by (auto simp: passed_def intro: same_out_trans)

lemma passedI: "same_out s s1 \<Longrightarrow> aligned [] msgs s2 \<Longrightarrow> same_out s1 s2 \<Longrightarrow> passed msgs s s2"
  by (auto simp: passed_def intro: same_out_trans)

lemma on_back_append:
  "start_populate_result info (s, r) = (a, (s', r'))
    \<Longrightarrow> on_back (start_populate_result info) ((conn, s), rs @ [r]) = (a, ((conn, s'), rs @ [r']))"
  by (simp add: on_back_def map_last_def)

lemma query_loop_columns:
  assumes "aligned [] (columns_messages cs @ msgs) s" "pred_option columns_ok cs" "\<not> m_query_ready conn"
  shows "\<exists>s'. query_loop ((conn, s), rs @ [r]) = query_loop ((conn, s'), rs @ [columns_result cs r]) \<and> passed msgs s s'"
proof (cases cs)
  case None
  then show ?thesis
    using assms(1) by (auto simp: columns_messages_def columns_result_def passed_def intro: same_out_refl)
next
  case (Some c)
  then have ok: "list_all column_ok c" "length c < 65536" "body_ok (description_message c)"
    using assms(2) by (simp_all add: columns_ok_def)
  have al: "aligned [] (message (CHR ''T'') (description_message c) # msgs) s"
    using assms(1) Some by (simp add: columns_messages_def)
  obtain s1 where s1: "aligned (description_message c) msgs s1" "same_out s s1"
      "query_loop ((conn, s), rs @ [r]) = and_then (query_step \<lparr>m_info_type = ROW_DESCRIPTION,
        m_info_size = int (length (description_message c))\<rparr>) (\<lambda>_. query_loop) ((conn, s1), rs @ [r])"
    using query_turn [OF al ok(3) _ assms(3), of "rs @ [r]"] unfolding response_types by auto
  obtain s2 where s2: "start_populate_result \<lparr>m_info_type = ROW_DESCRIPTION,
        m_info_size = int (length (description_message c))\<rparr> (s1, r) = (Done (), (s2, with_columns c r))"
      "aligned [] msgs s2" "same_out s1 s2"
    by (rule start_populate_columns [OF s1(1) ok(1,2)])
  show ?thesis
    using s1(3) on_back_append [OF s2(1)] Some passedI [OF s1(2) s2(2,3)]
    by (auto simp: query_step_def and_then_def columns_result_def)
qed

lemma query_loop_rows:
  assumes "aligned [] (map (\<lambda>fs. message (CHR ''D'') (row_message fs)) rows @ msgs) s" "list_all row_ok rows"
    and "\<not> m_query_ready conn"
  shows "\<exists>s'. query_loop ((conn, s), rs @ [r]) = query_loop ((conn, s'), rs @ [fold with_row rows r]) \<and> passed msgs s s'"
  using assms(1,2)
proof (induction rows arbitrary: s r)
  case Nil
  then show ?case by (auto simp: passed_def intro: same_out_refl)
next
  case (Cons fs rows)
  let ?msgs = "map (\<lambda>fs. message (CHR ''D'') (row_message fs)) rows @ msgs"
  have ok: "list_all field_ok fs" "length fs < 65536" "body_ok (row_message fs)"
    using Cons.prems(2) by (simp_all add: row_ok_def)
  have al: "aligned [] (message (CHR ''D'') (row_message fs) # ?msgs) s" using Cons.prems(1) by simp
  obtain s1 where s1: "aligned (row_message fs) ?msgs s1" "same_out s s1"
      "query_loop ((conn, s), rs @ [r]) = and_then (query_step \<lparr>m_info_type = DATA_ROW,
        m_info_size = int (length (row_message fs))\<rparr>) (\<lambda>_. query_loop) ((conn, s1), rs @ [r])"
    using query_turn [OF al ok(3) _ assms(3), of "rs @ [r]"] unfolding response_types by auto
  obtain s2 where s2: "start_populate_result \<lparr>m_info_type = DATA_ROW,
        m_info_size = int (length (row_message fs))\<rparr> (s1, r) = (Done (), (s2, with_row fs r))"
      "aligned [] ?msgs s2" "same_out s1 s2"
    by (rule start_populate_row [OF s1(1) ok(1,2)])
  have "query_loop ((conn, s), rs @ [r]) = query_loop ((conn, s2), rs @ [with_row fs r])"
    using s1(3) on_back_append [OF s2(1)] by (simp add: query_step_def and_then_def)
  moreover obtain s3 where "query_loop ((conn, s2), rs @ [with_row fs r])
      = query_loop ((conn, s3), rs @ [fold with_row rows (with_row fs r)])" "passed msgs s2 s3"
    using Cons.IH [OF s2(2)] Cons.prems(2) by auto
  ultimately show ?case using passed_trans [OF passedI [OF s1(2) s2(2,3)]] by auto
qed

lemma query_loop_ending:
  assumes "aligned [] (ending_message e # msgs) s" "ending_ok e" "\<not> m_query_ready conn"
  shows "\<exists>s'. query_loop ((conn, s), rs @ [r]) = query_loop ((conn, s'), (rs @ [end_with e r]) @ [new_pg_result]) \<and> passed msgs s s'"
proof (cases e)
  case (Completed tag)
  then have al: "aligned [] (message (CHR ''C'') (bytes tag @ [0]) # msgs) s" and ok: "body_ok (bytes tag @ [0])"
    using assms(1,2) by simp_all
  obtain s1 where s1: "aligned (bytes tag @ [0]) msgs s1" "same_out s s1"
      "query_loop ((conn, s), rs @ [r]) = and_then (query_step \<lparr>m_info_type = COMMAND_COMPLETE,
        m_info_size = int (length (bytes tag @ [0]))\<rparr>) (\<lambda>_. query_loop) ((conn, s1), rs @ [r])"
    using query_turn [OF al ok _ assms(3), of "rs @ [r]"] unfolding response_types by auto
  obtain s2 where s2: "read_tag (int (length tag + 1)) (conn, s1) = (Done tag, (conn, s2))" "aligned [] msgs s2" "same_out s1 s2"
    by (rule aligned_read_tag [OF s1(1)])
  have n: "length (bytes tag @ [0]) = length tag + 1" by simp
  have "query_loop ((conn, s), rs @ [r]) = query_loop ((conn, s2), (rs @ [end_with e r]) @ [new_pg_result])"
    using s1(3) s2(1) unfolding n Completed
    by (simp add: query_step_def and_then_def on_fst_def end_result_def map_last_def)
  then show ?thesis using passedI [OF s1(2) s2(2,3)] by blast
next
  case (Failed c body)
  then have al: "aligned [] (message c body # msgs) s" and ok: "body_ok body" "c = CHR ''E'' \<or> c = CHR ''I''"
    using assms(1,2) by simp_all
  have t: "response_type_of c = ERROR_RESPONSE \<or> response_type_of c = EMPTY_QUERY_RESPONSE"
    using ok(2) by (elim disjE) (simp_all only: response_types, simp_all)
  then have nn: "response_type_of c \<noteq> NOTICE_RESPONSE" by auto
  obtain s1 where s1: "aligned body msgs s1" "same_out s s1"
      "query_loop ((conn, s), rs @ [r]) = and_then (query_step \<lparr>m_info_type = response_type_of c,
        m_info_size = int (length body)\<rparr>) (\<lambda>_. query_loop) ((conn, s1), rs @ [r])"
    by (rule query_turn [OF al ok(1) nn assms(3)])
  obtain s2 where s2: "skip (int (length body)) True s1 = (Done (int (length body)), s2)" "aligned [] msgs s2" "same_out s1 s2"
    by (rule aligned_skip [OF s1(1)])
  have "query_loop ((conn, s), rs @ [r]) = query_loop ((conn, s2), (rs @ [end_with e r]) @ [new_pg_result])"
    using s1(3) s2(1) t unfolding Failed
    by (auto simp: query_step_def and_then_def on_fst_def on_snd_def end_result_def map_last_def)
  then show ?thesis using passedI [OF s1(2) s2(2,3)] by blast
qed

lemma query_loop_reply:
  assumes "aligned [] (reply_messages rp @ msgs) s" "reply_ok rp" "\<not> m_query_ready conn"
  shows "\<exists>s'. query_loop ((conn, s), rs @ [r]) = query_loop ((conn, s'), (rs @ [reply_from r rp]) @ [new_pg_result])
    \<and> passed msgs s s'"
proof -
  obtain cs rows e where rp: "rp = Reply cs rows e" by (cases rp)
  let ?rows = "map (\<lambda>fs. message (CHR ''D'') (row_message fs)) rows"
  have ok: "pred_option columns_ok cs" "list_all row_ok rows" "ending_ok e" using assms(2) rp by simp_all
  have "aligned [] (columns_messages cs @ ?rows @ ending_message e # msgs) s" using assms(1) rp by simp
  from query_loop_columns [OF this ok(1) assms(3)] obtain s1 where s1: "query_loop ((conn, s), rs @ [r])
      = query_loop ((conn, s1), rs @ [columns_result cs r])" "passed (?rows @ ending_message e # msgs) s s1"
    by blast
  then have "aligned [] (?rows @ ending_message e # msgs) s1" by (simp add: passed_def)
  from query_loop_rows [OF this ok(2) assms(3)] obtain s2 where s2: "query_loop ((conn, s1), rs @ [columns_result cs r])
      = query_loop ((conn, s2), rs @ [fold with_row rows (columns_result cs r)])" "passed (ending_message e # msgs) s1 s2"
    by blast
  then have "aligned [] (ending_message e # msgs) s2" by (simp add: passed_def)
  from query_loop_ending [OF this ok(3) assms(3)] obtain s3 where s3:
      "query_loop ((conn, s2), rs @ [fold with_row rows (columns_result cs r)])
        = query_loop ((conn, s3), (rs @ [reply_from r rp]) @ [new_pg_result])" "passed msgs s2 s3"
    unfolding rp reply_from.simps by blast
  show ?thesis using s1 s2 s3 by (metis passed_trans)
qed

lemma query_loop_replies:
  assumes "aligned [] (concat (map reply_messages replies) @ msgs) s" "list_all reply_ok replies" "\<not> m_query_ready conn"
  shows "\<exists>s'. query_loop ((conn, s), rs @ [new_pg_result])
      = query_loop ((conn, s'), (rs @ map reply_result replies) @ [new_pg_result]) \<and> passed msgs s s'"
  using assms(1,2)
proof (induction replies arbitrary: s rs)
  case Nil
  then show ?case by (auto simp: passed_def intro: same_out_refl)
next
  case (Cons rp replies)
  have al: "aligned [] (reply_messages rp @ concat (map reply_messages replies) @ msgs) s" and ok: "reply_ok rp"
    using Cons.prems by simp_all
  obtain s1 where s1: "query_loop ((conn, s), rs @ [new_pg_result])
      = query_loop ((conn, s1), (rs @ [reply_result rp]) @ [new_pg_result])"
      "passed (concat (map reply_messages replies) @ msgs) s s1"
    using query_loop_reply [OF al ok assms(3)] by blast
  then have "aligned [] (concat (map reply_messages replies) @ msgs) s1" by (simp add: passed_def)
  then obtain s2 where "query_loop ((conn, s1), (rs @ [reply_result rp]) @ [new_pg_result])
      = query_loop ((conn, s2), ((rs @ [reply_result rp]) @ map reply_result replies) @ [new_pg_result])" "passed msgs s1 s2"
    using Cons.IH [of s1 "rs @ [reply_result rp]"] Cons.prems(2) by auto
  then show ?case using s1 passed_trans [OF s1(2)] by auto
qed

lemma query_loop_ready:
  assumes "aligned [] (message (CHR ''Z'') st # msgs) s" "body_ok st" "\<not> m_query_ready conn"
  shows "\<exists>s'. query_loop ((conn, s), rs) = (Done (), ((conn\<lparr>m_query_ready := True\<rparr>, s'), rs)) \<and> passed msgs s s'"
proof -
  obtain s1 where s1: "aligned st msgs s1" "same_out s s1"
      "query_loop ((conn, s), rs) = and_then (query_step \<lparr>m_info_type = READY_FOR_QUERY,
        m_info_size = int (length st)\<rparr>) (\<lambda>_. query_loop) ((conn, s1), rs)"
    using query_turn [OF assms(1,2) _ assms(3), of rs] unfolding response_types by auto
  obtain s2 where s2: "skip (int (length st)) True s1 = (Done (int (length st)), s2)" "aligned [] msgs s2" "same_out s1 s2"
    by (rule aligned_skip [OF s1(1)])
  have "query_loop ((conn, s), rs) = query_loop ((conn\<lparr>m_query_ready := True\<rparr>, s2), rs)"
    using s1(3) s2(1) by (simp add: query_step_def and_then_def on_fst_def on_snd_def set_query_ready_def)
  moreover have "query_loop ((conn\<lparr>m_query_ready := True\<rparr>, s2), rs) = (Done (), ((conn\<lparr>m_query_ready := True\<rparr>, s2), rs))"
    by (simp add: query_loop.simps)
  ultimately show ?thesis using passedI [OF s1(2) s2(2,3)] by auto
qed

section \<open>Prepared statements\<close>

lemma execute_turn:
  assumes "aligned [] (message c body # msgs) s" "body_ok body" "response_type_of c \<noteq> NOTICE_RESPONSE" "m_type r = PENDING"
  obtains s' where "aligned body msgs s'" "same_out s s'"
    "execute_loop ((conn, s), r) = and_then (execute_step \<lparr>m_info_type = response_type_of c, m_info_size = int (length body)\<rparr>)
      (\<lambda>_. execute_loop) ((conn, s'), r)"
proof -
  obtain s' where s': "get_response_info True (conn, s)
      = (Done \<lparr>m_info_type = response_type_of c, m_info_size = int (length body)\<rparr>, (conn, s'))"
      "aligned body msgs s'" "same_out s s'"
    by (rule aligned_response [OF assms(1-3)])
  show thesis
    by (rule that [OF s'(2,3)])
       (use s'(1) assms(4) in \<open>subst execute_loop.simps, simp add: and_then_def [of "on_fst _"] on_fst_def\<close>)
qed

text \<open>The server acknowledges the parse and the bind before the rows.\<close>

definition acknowledged :: "char list \<Rightarrow> byte list list" where
  "acknowledged acks = map (\<lambda>c. message c []) acks"

definition ack_ok :: "char \<Rightarrow> bool" where
  "ack_ok c \<longleftrightarrow> c = CHR ''1'' \<or> c = CHR ''2''"

lemma body_ok_Nil: "body_ok []"
  by (simp add: body_ok_def)

lemma execute_acks:
  assumes "aligned [] (acknowledged acks @ msgs) s" "list_all ack_ok acks" "m_type r = PENDING"
  shows "\<exists>s'. execute_loop ((conn, s), r) = execute_loop ((conn, s'), r) \<and> passed msgs s s'"
  using assms(1,2)
proof (induction acks arbitrary: s)
  case Nil
  then show ?case by (auto simp: passed_def acknowledged_def intro: same_out_refl)
next
  case (Cons c acks)
  have t: "response_type_of c = PARSE_COMPLETE \<or> response_type_of c = BIND_COMPLETE"
    using Cons.prems(2) unfolding list.pred_inject ack_ok_def by (elim conjE disjE) (simp_all only: response_types, simp_all)
  then have nn: "response_type_of c \<noteq> NOTICE_RESPONSE" by auto
  have al: "aligned [] (message c [] # acknowledged acks @ msgs) s" using Cons.prems(1) by (simp add: acknowledged_def)
  obtain s1 where s1: "aligned [] (acknowledged acks @ msgs) s1" "same_out s s1"
      "execute_loop ((conn, s), r) = and_then (execute_step \<lparr>m_info_type = response_type_of c, m_info_size = int (length ([] :: byte list))\<rparr>)
        (\<lambda>_. execute_loop) ((conn, s1), r)"
    by (rule execute_turn [OF al body_ok_Nil nn assms(3)])
  have "execute_loop ((conn, s), r) = execute_loop ((conn, s1), r)"
    using s1(3) t by (auto simp: execute_step_def and_then_def return_def)
  moreover obtain s2 where "execute_loop ((conn, s1), r) = execute_loop ((conn, s2), r)" "passed msgs s1 s2"
    using Cons.IH [OF s1(1)] Cons.prems(2) by auto
  moreover have "passed (acknowledged acks @ msgs) s s1" using s1(1,2) by (simp add: passed_def)
  ultimately show ?case using passed_trans by metis
qed

lemma execute_rows:
  assumes "aligned [] (map (\<lambda>fs. message (CHR ''D'') (row_message fs)) rows @ msgs) s" "list_all row_ok rows"
    and "m_type r = PENDING"
  shows "\<exists>s'. execute_loop ((conn, s), r) = execute_loop ((conn, s'), fold with_row rows r) \<and> passed msgs s s'"
  using assms
proof (induction rows arbitrary: s r)
  case Nil
  then show ?case by (auto simp: passed_def intro: same_out_refl)
next
  case (Cons fs rows)
  let ?msgs = "map (\<lambda>fs. message (CHR ''D'') (row_message fs)) rows @ msgs"
  have ok: "list_all field_ok fs" "length fs < 65536" "body_ok (row_message fs)"
    using Cons.prems(2) by (simp_all add: row_ok_def)
  have al: "aligned [] (message (CHR ''D'') (row_message fs) # ?msgs) s" using Cons.prems(1) by simp
  obtain s1 where s1: "aligned (row_message fs) ?msgs s1" "same_out s s1"
      "execute_loop ((conn, s), r) = and_then (execute_step \<lparr>m_info_type = DATA_ROW,
        m_info_size = int (length (row_message fs))\<rparr>) (\<lambda>_. execute_loop) ((conn, s1), r)"
    using execute_turn [OF al ok(3) _ Cons.prems(3)] unfolding response_types by auto
  obtain s2 where s2: "start_populate_result \<lparr>m_info_type = DATA_ROW,
        m_info_size = int (length (row_message fs))\<rparr> (s1, r) = (Done (), (s2, with_row fs r))"
      "aligned [] ?msgs s2" "same_out s1 s2"
    by (rule start_populate_row [OF s1(1) ok(1,2)])
  have "execute_loop ((conn, s), r) = execute_loop ((conn, s2), with_row fs r)"
    using s1(3) s2(1) by (simp add: execute_step_def execute_populate_def and_then_def)
  moreover have "m_type (with_row fs r) = PENDING" using Cons.prems(3) by (simp add: with_row_def)
  then obtain s3 where "execute_loop ((conn, s2), with_row fs r)
      = execute_loop ((conn, s3), fold with_row rows (with_row fs r))" "passed msgs s2 s3"
    using Cons.IH [OF s2(2)] Cons.prems(2) by auto
  ultimately show ?case using passed_trans [OF passedI [OF s1(2) s2(2,3)]] by auto
qed

lemma execute_ending:
  assumes "aligned [] (ending_message e # msgs) s" "ending_ok e" "m_type r = PENDING"
  shows "\<exists>s'. execute_loop ((conn, s), r) = (Done (), ((conn, s'), end_with e r)) \<and> passed msgs s s'"
proof (cases e)
  case (Completed tag)
  then have al: "aligned [] (message (CHR ''C'') (bytes tag @ [0]) # msgs) s" and ok: "body_ok (bytes tag @ [0])"
    using assms(1,2) by simp_all
  obtain s1 where s1: "aligned (bytes tag @ [0]) msgs s1" "same_out s s1"
      "execute_loop ((conn, s), r) = and_then (execute_step \<lparr>m_info_type = COMMAND_COMPLETE,
        m_info_size = int (length (bytes tag @ [0]))\<rparr>) (\<lambda>_. execute_loop) ((conn, s1), r)"
    using execute_turn [OF al ok _ assms(3)] unfolding response_types by auto
  obtain s2 where s2: "read_tag (int (length tag + 1)) (conn, s1) = (Done tag, (conn, s2))" "aligned [] msgs s2" "same_out s1 s2"
    by (rule aligned_read_tag [OF s1(1)])
  have n: "length (bytes tag @ [0]) = length tag + 1" by simp
  have "execute_loop ((conn, s), r) = (Done (), ((conn, s2), end_with e r))"
    using s1(3) s2(1) unfolding n Completed
    by (simp add: execute_step_def and_then_def on_fst_def on_snd_def on_result_def update_result_def
        execute_loop.simps [of "(_, set_command_tag _ _)"]) (simp add: set_command_tag_def)
  then show ?thesis using passedI [OF s1(2) s2(2,3)] by blast
next
  case (Failed c body)
  then have al: "aligned [] (message c body # msgs) s" and ok: "body_ok body" "c = CHR ''E'' \<or> c = CHR ''I''"
    using assms(1,2) by simp_all
  have t: "response_type_of c = ERROR_RESPONSE \<or> response_type_of c = EMPTY_QUERY_RESPONSE"
    using ok(2) by (elim disjE) (simp_all only: response_types, simp_all)
  then have nn: "response_type_of c \<noteq> NOTICE_RESPONSE" by auto
  obtain s1 where s1: "aligned body msgs s1" "same_out s s1"
      "execute_loop ((conn, s), r) = and_then (execute_step \<lparr>m_info_type = response_type_of c,
        m_info_size = int (length body)\<rparr>) (\<lambda>_. execute_loop) ((conn, s1), r)"
    by (rule execute_turn [OF al ok(1) nn assms(3)])
  obtain s2 where s2: "skip (int (length body)) True s1 = (Done (int (length body)), s2)" "aligned [] msgs s2" "same_out s1 s2"
    by (rule aligned_skip [OF s1(1)])
  have "execute_loop ((conn, s), r) = (Done (), ((conn, s2), end_with e r))"
    using s1(3) s2(1) t unfolding Failed
    by (auto simp: execute_step_def and_then_def on_fst_def on_snd_def on_result_def update_result_def
        execute_loop.simps [of "(_, set_error _)"]) (simp_all add: set_error_def)
  then show ?thesis using passedI [OF s1(2) s2(2,3)] by blast
qed

lemma execute_suspended:
  assumes "aligned [] (message (CHR ''s'') [] # msgs) s" "m_type r = PENDING"
  shows "\<exists>s'. execute_loop ((conn, s), r) = (Done (), ((conn, s'), set_suspended r)) \<and> passed msgs s s'"
proof -
  obtain s1 where s1: "aligned [] msgs s1" "same_out s s1"
      "execute_loop ((conn, s), r) = and_then (execute_step \<lparr>m_info_type = PORTAL_SUSPENDED,
        m_info_size = int (length ([] :: byte list))\<rparr>) (\<lambda>_. execute_loop) ((conn, s1), r)"
    using execute_turn [OF assms(1) body_ok_Nil _ assms(2)] unfolding response_types by auto
  have "execute_loop ((conn, s), r) = (Done (), ((conn, s1), set_suspended r))"
    using s1(3)
    by (simp add: execute_step_def and_then_def on_snd_def on_result_def update_result_def
        execute_loop.simps [of "(_, set_suspended _)"]) (simp add: set_suspended_def)
  then show ?thesis using s1(1,2) by (auto simp: passed_def)
qed

text \<open>Waiting for the end of the synchronisation; what comes before it is of no interest.\<close>

definition skipped_ok :: "char \<times> byte list \<Rightarrow> bool" where
  "skipped_ok m \<longleftrightarrow> response_type_of (fst m) \<noteq> NOTICE_RESPONSE \<and> response_type_of (fst m) \<noteq> READY_FOR_QUERY \<and> body_ok (snd m)"

lemma sync_turn:
  assumes "aligned [] (message c body # msgs) s" "body_ok body" "response_type_of c \<noteq> NOTICE_RESPONSE"
  shows "\<exists>s'. sync_loop (conn, s) = (if response_type_of c \<noteq> READY_FOR_QUERY then sync_loop (conn, s') else (Done (), (conn, s')))
    \<and> passed msgs s s'"
proof -
  obtain s1 where s1: "get_response_info True (conn, s)
      = (Done \<lparr>m_info_type = response_type_of c, m_info_size = int (length body)\<rparr>, (conn, s1))"
      "aligned body msgs s1" "same_out s s1"
    by (rule aligned_response [OF assms])
  obtain s2 where s2: "skip (int (length body)) True s1 = (Done (int (length body)), s2)" "aligned [] msgs s2" "same_out s1 s2"
    by (rule aligned_skip [OF s1(2)])
  show ?thesis
  proof (cases "body = []")
    case True
    then show ?thesis
      using s1 by (subst sync_loop.simps) (auto simp: and_then_def return_def passed_def)
  next
    case False
    then have "sync_loop (conn, s) = (if response_type_of c \<noteq> READY_FOR_QUERY then sync_loop (conn, s2) else (Done (), (conn, s2)))"
      using s1(1) s2(1) by (subst sync_loop.simps) (simp add: and_then_def return_def on_snd_def)
    then show ?thesis using passedI [OF s1(3) s2(2,3)] by blast
  qed
qed

lemma sync_loop_ends:
  assumes "aligned [] (map (\<lambda>(c, body). message c body) ms @ message (CHR ''Z'') st # msgs) s" "list_all skipped_ok ms" "body_ok st"
  shows "\<exists>s'. sync_loop (conn, s) = (Done (), (conn, s')) \<and> passed msgs s s'"
  using assms(1,2)
proof (induction ms arbitrary: s)
  case Nil
  then have al: "aligned [] (message (CHR ''Z'') st # msgs) s" by simp
  show ?case
    using sync_turn [OF al assms(3), of conn] unfolding response_types by auto
next
  case (Cons m ms)
  obtain c body where m: "m = (c, body)" by fastforce
  have ok: "response_type_of c \<noteq> NOTICE_RESPONSE" "response_type_of c \<noteq> READY_FOR_QUERY" "body_ok body"
    using Cons.prems(2) by (simp_all add: m skipped_ok_def)
  have al: "aligned [] (message c body # map (\<lambda>(c, body). message c body) ms @ message (CHR ''Z'') st # msgs) s"
    using Cons.prems(1) by (simp add: m)
  obtain s1 where s1: "sync_loop (conn, s) = sync_loop (conn, s1)"
      "passed (map (\<lambda>(c, body). message c body) ms @ message (CHR ''Z'') st # msgs) s s1"
    using sync_turn [OF al ok(3,1), of conn] ok(2) by auto
  then obtain s2 where "sync_loop (conn, s1) = (Done (), (conn, s2))" "passed msgs s1 s2"
    using Cons.IH [of s1] Cons.prems(2) by (auto simp: passed_def)
  then show ?case using s1 passed_trans by metis
qed

section \<open>What a reply promises\<close>

primrec ended :: "ending \<Rightarrow> pg_result \<Rightarrow> bool" where
  "ended (Completed tag) r \<longleftrightarrow> m_type r = SUCCESS \<and> m_cmd_tag r = tag"
| "ended (Failed c body) r \<longleftrightarrow> m_type r = ERROR"

definition holds_rows :: "byte list option list list \<Rightarrow> pg_result \<Rightarrow> bool" where
  "holds_rows rows r \<longleftrightarrow> get_num_rows r = int (length rows) \<and> list_all (\<lambda>j. holds_row r (int j) (rows ! j)) [0..<length rows]"

primrec answers :: "reply \<Rightarrow> pg_result \<Rightarrow> bool" where
  "answers (Reply cs rows e) r \<longleftrightarrow> ended e r \<and> holds_rows rows r
     \<and> m_columns r = (case cs of None \<Rightarrow> [] | Some cs \<Rightarrow> described_columns 2 cs)"

lemma fold_with_row_columns: "m_columns (fold with_row rows r) = m_columns r"
  by (induction rows arbitrary: r) (simp_all add: with_row_def)

lemma reply_from_answers:
  assumes "blank r"
  shows "answers rp (reply_from r rp)"
proof -
  obtain cs rows e where rp: "rp = Reply cs rows e" by (cases rp)
  have "ended e (reply_from r rp)" by (cases e) (simp_all add: rp set_command_tag_def set_error_def)
  moreover have "holds_rows rows (reply_from r rp)"
    by (auto simp: rp holds_rows_def get_num_rows_def reply_from_parts [OF assms] list_all_iff simp del: reply_from.simps
        intro: reply_from_holds [OF assms])
  moreover have "m_columns (reply_from r rp) = m_columns (columns_result cs r)"
    by (cases e) (simp_all add: rp set_command_tag_def set_error_def fold_with_row_columns)
  moreover have "m_columns (columns_result cs r) = (case cs of None \<Rightarrow> [] | Some cs \<Rightarrow> described_columns 2 cs)"
    using assms by (simp add: columns_result_def with_columns_def blank_def split: option.split)
  ultimately show ?thesis by (simp add: rp)
qed

lemmas reply_answers = reply_from_answers [OF blank_new]

section \<open>What is sent\<close>

lemma sent_aligned:
  assumes "sent bs s s1" "aligned [] msgs s"
  shows "aligned [] msgs s1" "out_stream s1 = out_stream s @ bs" "slack s1 = slack s - int (length bs)"
  using assms by (auto simp: sent_def handed_def intro: aligned_same_in)

lemma passed_out: "passed msgs s s' \<Longrightarrow> out_stream s' = out_stream s" "passed msgs s s' \<Longrightarrow> slack s' = slack s"
  by (auto simp: passed_def same_out_def out_stream_def slack_def)

definition send_query :: "string \<Rightarrow> (conn, unit) comp" where
  "send_query q =
     and_then (write_header (CHR ''Q'') (int (length q) + 1)) (\<lambda>_.
     and_then (write_bytes (c_str q)) (\<lambda>_.
     and_then (on_snd flush) (\<lambda>_.
     set_query_ready False)))"

lemma send_query_emits:
  assumes "sock_wf (snd p)" "fst p = c"
  shows "emits (message (CHR ''Q'') (c_str q)) (c\<lparr>m_query_ready := False\<rparr>) p (send_query q p)"
proof -
  have m: "message (CHR ''Q'') (c_str q)
      = (byte_of_char (CHR ''Q'') # u32_bytes (of_int (int (length q) + 1 + 4))) @ c_str q @ [] @ []"
    by (simp add: message_def add.commute)
  have f: "emits ([] @ []) (c\<lparr>m_query_ready := False\<rparr>) p' (and_then (on_snd flush) (\<lambda>_. set_query_ready False) p')"
    if "sock_wf (snd p')" "fst p' = c" for p'
    by (rule emits_then, rule emits_flush [OF that], rule emits_set_query_ready)
  show ?thesis
    unfolding m send_query_def write_header_eq
    by (intro emits_write_bytes_then f) (use assms in simp_all)
qed

lemma query_sends:
  assumes "m_query_ready (fst p)"
  shows "query q p = and_then (send_query q) (\<lambda>_ p1.
    case query_loop (p1, [new_pg_result]) of
      (Done _, (p2, results)) \<Rightarrow> (Done (butlast results), p2)
    | (Threw e, (p2, results)) \<Rightarrow> (Threw e, p2)
    | (Suspended, (p2, results)) \<Rightarrow> (Suspended, p2)
    | (Undefined, (p2, results)) \<Rightarrow> (Undefined, p2)) p"
  using assms by (simp add: query_def send_query_def and_then_assoc)

text \<open>The two messages of a prepared query, which are written without a flush.\<close>

lemma prepare_query_emits:
  assumes "sock_wf (snd p)" "fst p = c" "m_query_ready c"
  shows "emits (message (CHR ''P'') ([0] @ c_str q @ [0, 0])
      @ message (CHR ''B'') ([0, 0] @ [0, 0] @ m_param_buffer params @ [0, 0])) (c\<lparr>m_query_ready := False\<rparr>) p
    (prepare_query q params p)"
proof -
  have m: "message (CHR ''P'') ([0] @ c_str q @ [0, 0]) @ message (CHR ''B'') ([0, 0] @ [0, 0] @ m_param_buffer params @ [0, 0])
      = (byte_of_char (CHR ''P'') # u32_bytes (of_int (int (length q) + INT_32_OCTETS + 4))) @ take 1 NULL_ARR @ c_str q
        @ NULL_ARR @ (byte_of_char (CHR ''B'') # u32_bytes (of_int (int (length (m_param_buffer params)) + 3 * INT_16_OCTETS + 4)))
        @ take 1 NULL_ARR @ take 1 NULL_ARR @ NULL_ARR @ m_param_buffer params @ NULL_ARR @ []"
    by (simp add: message_def INT_32_OCTETS_def INT_16_OCTETS_def NULL_ARR_def add.commute)
  have "emits (message (CHR ''P'') ([0] @ c_str q @ [0, 0])
      @ message (CHR ''B'') ([0, 0] @ [0, 0] @ m_param_buffer params @ [0, 0])) (c\<lparr>m_query_ready := False\<rparr>) p
    (and_then (write_header (CHR ''P'') (int (length q) + INT_32_OCTETS)) (\<lambda>_.
        and_then (write_bytes (take 1 NULL_ARR)) (\<lambda>_.
        and_then (write_bytes (c_str q)) (\<lambda>_.
        and_then (write_bytes NULL_ARR) (\<lambda>_.
        and_then (write_header (CHR ''B'') (int (length (m_param_buffer params)) + 3 * INT_16_OCTETS)) (\<lambda>_.
        and_then (write_bytes (take 1 NULL_ARR)) (\<lambda>_.
        and_then (write_bytes (take 1 NULL_ARR)) (\<lambda>_.
        and_then (write_bytes NULL_ARR) (\<lambda>_.
        and_then (write_bytes (m_param_buffer params)) (\<lambda>_.
        and_then (write_bytes NULL_ARR) (\<lambda>_.
        set_query_ready False)))))))))) p)"
    unfolding m write_header_eq
    by (intro emits_write_bytes_then emits_set_query_ready) (use assms in simp_all)
  then show ?thesis using assms(2,3) by (simp add: prepare_query_def)
qed

definition send_execute :: "int \<Rightarrow> (conn, unit) comp" where
  "send_execute max_rows =
     and_then (write_header (CHR ''E'') (INT_32_OCTETS + 1)) (\<lambda>_.
     and_then (write_bytes (take 1 NULL_ARR)) (\<lambda>_.
     and_then (write_bytes (u32_bytes (of_int max_rows))) (\<lambda>_.
     and_then (write_header (CHR ''H'') 0) (\<lambda>_.
     on_snd flush))))"

definition execute_request :: "int \<Rightarrow> byte list" where
  "execute_request max_rows = message (CHR ''E'') ([0] @ u32_bytes (of_int max_rows)) @ message (CHR ''H'') []"

lemma send_execute_emits:
  assumes "sock_wf (snd p)" "fst p = c"
  shows "emits (execute_request max_rows) c p (send_execute max_rows p)"
proof -
  have m: "execute_request max_rows
      = (byte_of_char (CHR ''E'') # u32_bytes (of_int (INT_32_OCTETS + 1 + 4))) @ take 1 NULL_ARR @ u32_bytes (of_int max_rows)
        @ (byte_of_char (CHR ''H'') # u32_bytes (of_int (0 + 4))) @ []"
    by (simp add: message_def execute_request_def INT_32_OCTETS_def NULL_ARR_def)
  show ?thesis
    unfolding m send_execute_def write_header_eq
    by (intro emits_write_bytes_then emits_flush) (use assms in simp_all)
qed

lemma execute_sends:
  "execute max_rows p = and_then (send_execute max_rows) (\<lambda>_ p.
     case execute_loop (p, new_pg_result) of
       (Done _, (p2, result)) \<Rightarrow>
         if m_type result = SUSPENDED then (Done result, p2) else and_then close_sync (\<lambda>_. return result) p2
     | (Threw e, (p2, result)) \<Rightarrow> (Threw e, p2)
     | (Suspended, (p2, result)) \<Rightarrow> (Suspended, p2)
     | (Undefined, (p2, result)) \<Rightarrow> (Undefined, p2)) p"
proof -
  have a: "(case write_u32_be (replicate 4 0) 0 w of None \<Rightarrow> Undefined | Some arr \<Rightarrow> Done arr) = Done (u32_bytes w)" for w
    by (simp add: write_u32_be_eq)
  have pr: "and_then (Pair (Done x)) f = f x" for x and f :: "_ \<Rightarrow> (conn, pg_result) comp"
    by (rule ext) (simp add: and_then_def)
  show ?thesis unfolding execute_def send_execute_def and_then_assoc a pr ..
qed

definition close_request :: "byte list" where
  "close_request = message (CHR ''C'') (bytes ''P'' @ [0]) @ message (CHR ''S'') []"

lemma CLOSE_SYNC_messages: "CLOSE_SYNC = close_request"
  unfolding CLOSE_SYNC_def close_request_def by code_simp

lemma close_sync_syncs:
  assumes "aligned [] (map (\<lambda>(c, body). message c body) ms @ message (CHR ''Z'') st # msgs) s" "list_all skipped_ok ms" "body_ok st"
    and "int (length close_request) \<le> slack s"
  shows "\<exists>s'. close_sync (conn, s) = (Done (), (conn\<lparr>m_query_ready := True\<rparr>, s')) \<and> aligned [] msgs s'
    \<and> out_stream s' = out_stream s @ close_request \<and> slack s' = slack s - int (length close_request)"
proof -
  have wf: "sock_wf s" using assms(1) by (simp add: aligned_def)
  have "emits (close_request @ []) conn (conn, s) (and_then (write_bytes CLOSE_SYNC) (\<lambda>_. on_snd flush) (conn, s))"
    unfolding CLOSE_SYNC_messages by (intro emits_write_bytes_then emits_flush) (simp_all add: wf)
  then have em: "emits close_request conn (conn, s) (and_then (write_bytes CLOSE_SYNC) (\<lambda>_. on_snd flush) (conn, s))"
    by simp
  obtain u s1 where s1: "and_then (write_bytes CLOSE_SYNC) (\<lambda>_. on_snd flush) (conn, s) = (Done u, (conn, s1))"
      "sent close_request s s1"
    using emits_sent [OF em] assms(4) by auto
  obtain s2 where s2: "sync_loop (conn, s1) = (Done (), (conn, s2))" "passed msgs s1 s2"
    using sync_loop_ends [OF sent_aligned(1) [OF s1(2) assms(1)] assms(2,3)] by blast
  have eq: "close_sync = and_then (and_then (write_bytes CLOSE_SYNC) (\<lambda>_. on_snd flush)) (\<lambda>_.
      and_then sync_loop (\<lambda>_. set_query_ready True))"
    by (simp add: close_sync_def and_then_assoc)
  have "close_sync (conn, s) = (Done (), (conn\<lparr>m_query_ready := True\<rparr>, s2))"
    unfolding eq by (simp only: and_then_Done [where m = "and_then (write_bytes CLOSE_SYNC) (\<lambda>_. on_snd flush)", OF s1(1)]
        and_then_Done [where m = sync_loop, OF s2(1)] set_query_ready_def fst_conv snd_conv)
  then show ?thesis
    using s2(2) sent_aligned(2,3) [OF s1(2) assms(1)] passed_out [OF s2(2)] by (simp add: passed_def)
qed

text \<open>Up to the message behind the rows.\<close>

lemma execute_collects:
  assumes "aligned [] (acknowledged acks @ map (\<lambda>fs. message (CHR ''D'') (row_message fs)) rows @ final) s"
    and "list_all ack_ok acks" "list_all row_ok rows" "15 \<le> slack s"
  obtains s' where "aligned [] final s'" "out_stream s' = out_stream s @ execute_request max_rows" "slack s' = slack s - 15"
    "execute max_rows (conn, s) = (case execute_loop ((conn, s'), fold with_row rows new_pg_result) of
       (Done _, (p2, result)) \<Rightarrow>
         if m_type result = SUSPENDED then (Done result, p2) else and_then close_sync (\<lambda>_. return result) p2
     | (Threw e, (p2, result)) \<Rightarrow> (Threw e, p2)
     | (Suspended, (p2, result)) \<Rightarrow> (Suspended, p2)
     | (Undefined, (p2, result)) \<Rightarrow> (Undefined, p2))"
proof -
  have wf: "sock_wf s" using assms(1) by (simp add: aligned_def)
  have len: "length (execute_request max_rows) = 15" by (simp add: execute_request_def)
  have em: "emits (execute_request max_rows) conn (conn, s) (send_execute max_rows (conn, s))"
    by (rule send_execute_emits) (simp_all add: wf)
  obtain u s1 where s1: "send_execute max_rows (conn, s) = (Done u, (conn, s1))" "sent (execute_request max_rows) s s1"
    using emits_sent [OF em] assms(4) len by auto
  note a1 = sent_aligned [OF s1(2) assms(1)]
  have pend: "m_type new_pg_result = PENDING" by (simp add: new_pg_result_def)
  obtain s2 where s2: "execute_loop ((conn, s1), new_pg_result) = execute_loop ((conn, s2), new_pg_result)"
      "passed (map (\<lambda>fs. message (CHR ''D'') (row_message fs)) rows @ final) s1 s2"
    using execute_acks [OF a1(1) assms(2) pend] by blast
  obtain s3 where s3: "execute_loop ((conn, s2), new_pg_result) = execute_loop ((conn, s3), fold with_row rows new_pg_result)"
      "passed final s2 s3"
    using execute_rows [OF _ assms(3) pend] s2(2) unfolding passed_def by blast
  show thesis
  proof (rule that)
    show "aligned [] final s3" using s3(2) by (simp add: passed_def)
    show "out_stream s3 = out_stream s @ execute_request max_rows" "slack s3 = slack s - 15"
      using a1(2,3) passed_out [OF s2(2)] passed_out [OF s3(2)] len by simp_all
  qed (simp only: execute_sends and_then_Done [where m = "send_execute max_rows", OF s1(1)] s2(1) s3(1))
qed

lemma collected_rows:
  "m_type (fold with_row rows new_pg_result) = PENDING"
  "holds_rows rows (set_suspended (fold with_row rows new_pg_result))"
  "holds_rows rows (end_with e (fold with_row rows new_pg_result))" "ended e (end_with e (fold with_row rows new_pg_result))"
proof -
  let ?r = "fold with_row rows new_pg_result"
  show "m_type ?r = PENDING" by (simp add: fold_with_row) (simp add: new_pg_result_def)
  have rr: "reply_result (Reply None rows e) = end_with e ?r" for e by (simp add: columns_result_def)
  show e: "holds_rows rows (end_with e ?r)" "ended e (end_with e ?r)" for e
    using reply_answers [of "Reply None rows e"] unfolding rr answers.simps by blast+
  have "holds_rows rows (set_suspended x) \<longleftrightarrow> holds_rows rows (set_error x)" for x
    unfolding set_error_def set_suspended_def holds_rows_def holds_row_def get_num_rows_def by simp
  then show "holds_rows rows (set_suspended ?r)"
    using e(1) [of "Failed c body" for c body] unfolding end_with.simps by blast
qed

lemma query_loop_returns:
  assumes "aligned [] (concat (map reply_messages replies) @ message (CHR ''Z'') st # msgs) s"
    and "list_all reply_ok replies" "body_ok st" "\<not> m_query_ready conn" "blank r"
  shows "\<exists>results last s'. query_loop ((conn, s), [r]) = (Done (), ((conn\<lparr>m_query_ready := True\<rparr>, s'), results @ [last]))
    \<and> list_all2 answers replies results \<and> passed msgs s s'"
proof -
  obtain s1 results last where s1: "query_loop ((conn, s), [r]) = query_loop ((conn, s1), results @ [last])"
      "list_all2 answers replies results" "passed (message (CHR ''Z'') st # msgs) s s1"
  proof (cases replies)
    case Nil
    then show thesis using that [of s "[]" r] assms(1) by (simp add: passed_def)
  next
    case (Cons rp rps)
    have al: "aligned [] (reply_messages rp @ concat (map reply_messages rps) @ message (CHR ''Z'') st # msgs) s"
      and ok: "reply_ok rp" "list_all reply_ok rps" using assms(1,2) Cons by simp_all
    obtain s1 where s1: "query_loop ((conn, s), [] @ [r]) = query_loop ((conn, s1), ([] @ [reply_from r rp]) @ [new_pg_result])"
        "passed (concat (map reply_messages rps) @ message (CHR ''Z'') st # msgs) s s1"
      using query_loop_reply [OF al ok(1) assms(4)] by blast
    obtain s2 where s2: "query_loop ((conn, s1), [reply_from r rp] @ [new_pg_result])
        = query_loop ((conn, s2), ([reply_from r rp] @ map reply_result rps) @ [new_pg_result])"
        "passed (message (CHR ''Z'') st # msgs) s1 s2"
      using query_loop_replies [OF _ ok(2) assms(4)] s1(2) unfolding passed_def by blast
    show thesis
      using that [of s2 "[reply_from r rp] @ map reply_result rps" new_pg_result] s1 s2 passed_trans [OF s1(2) s2(2)]
        reply_from_answers [OF assms(5)] reply_answers
      by (simp add: Cons list_all2_map2 list.rel_refl_strong list_all2_same)
  qed
  obtain s2 where "query_loop ((conn, s1), results @ [last]) = (Done (), ((conn\<lparr>m_query_ready := True\<rparr>, s2), results @ [last]))"
      "passed msgs s1 s2"
    using query_loop_ready [OF _ assms(3,4)] s1(3) unfolding passed_def by blast
  then show ?thesis using s1(1,2) passed_trans [OF s1(3)] by auto
qed

lemma query_returns:
  assumes "aligned [] (concat (map reply_messages replies) @ message (CHR ''Z'') st # msgs) s"
    and "list_all reply_ok replies" "body_ok st" "m_query_ready conn" "int (length q) + 6 \<le> slack s"
  shows "\<exists>results s'. query q (conn, s) = (Done results, (conn, s')) \<and> list_all2 answers replies results
    \<and> out_stream s' = out_stream s @ message (CHR ''Q'') (c_str q) \<and> aligned [] msgs s'
    \<and> slack s' = slack s - (int (length q) + 6)"
proof -
  let ?conn = "conn\<lparr>m_query_ready := False\<rparr>"
  have wf: "sock_wf s" using assms(1) by (simp add: aligned_def)
  have room: "int (length (message (CHR ''Q'') (c_str q))) \<le> slack s" using assms(5) by simp
  have em: "emits (message (CHR ''Q'') (c_str q)) ?conn (conn, s) (send_query q (conn, s))"
    by (rule send_query_emits) (simp_all add: wf)
  obtain u s1 where s1: "send_query q (conn, s) = (Done u, (?conn, s1))" "sent (message (CHR ''Q'') (c_str q)) s s1"
    using emits_sent [OF em] room by auto
  have nr: "\<not> m_query_ready ?conn" by simp
  obtain results last s3 where s3: "query_loop ((?conn, s1), [new_pg_result])
      = (Done (), ((?conn\<lparr>m_query_ready := True\<rparr>, s3), results @ [last]))" "list_all2 answers replies results" "passed msgs s1 s3"
    using query_loop_returns [OF sent_aligned(1) [OF s1(2) assms(1)] assms(2,3) nr blank_new] by blast
  have "query q (conn, s) = (Done results, (conn, s3))"
    using s1(1) s3(1) assms(4) by (simp add: query_sends and_then_Done)
  moreover note s3(2)
  moreover have "out_stream s3 = out_stream s @ message (CHR ''Q'') (c_str q)"
    using sent_aligned(2) [OF s1(2) assms(1)] passed_out(1) [OF s3(3)] by simp
  moreover have "slack s3 = slack s - (int (length q) + 6)"
    using sent_aligned(3) [OF s1(2) assms(1)] passed_out(2) [OF s3(3)] by (simp add: c_str_def)
  ultimately show ?thesis using s3(3) by (auto simp: passed_def)
qed

lemma execute_returns:
  assumes "aligned [] (acknowledged acks @ map (\<lambda>fs. message (CHR ''D'') (row_message fs)) rows @ final) s"
    and "list_all ack_ok acks" "list_all row_ok rows"
    and "final = message (CHR ''s'') [] # msgs \<and> susp
      \<or> final = ending_message e # map (\<lambda>(c, body). message c body) ms @ message (CHR ''Z'') st # msgs \<and> \<not> susp"
    and "ending_ok e" "list_all skipped_ok ms" "body_ok st" "27 \<le> slack s"
  shows "\<exists>r s'. execute max_rows (conn, s) = (Done r, (if susp then conn else conn\<lparr>m_query_ready := True\<rparr>, s'))
    \<and> (if susp then m_type r = SUSPENDED else ended e r) \<and> holds_rows rows r
    \<and> out_stream s' = out_stream s @ execute_request max_rows @ (if susp then [] else close_request)
    \<and> aligned [] msgs s' \<and> slack s' = slack s - (if susp then 15 else 27)"
proof -
  let ?r = "fold with_row rows new_pg_result"
  have len: "length close_request = 12" by (simp add: close_request_def)
  have "15 \<le> slack s" using assms(8) by simp
  from execute_collects [OF assms(1-3) this] obtain s3 where s3: "aligned [] final s3"
      "out_stream s3 = out_stream s @ execute_request max_rows" "slack s3 = slack s - 15"
      "execute max_rows (conn, s) = (case execute_loop ((conn, s3), ?r) of
         (Done _, (p2, result)) \<Rightarrow>
           if m_type result = SUSPENDED then (Done result, p2) else and_then close_sync (\<lambda>_. return result) p2
       | (Threw e, (p2, result)) \<Rightarrow> (Threw e, p2)
       | (Suspended, (p2, result)) \<Rightarrow> (Suspended, p2)
       | (Undefined, (p2, result)) \<Rightarrow> (Undefined, p2))" .
  show ?thesis
  proof (cases susp)
    case True
    then have al: "aligned [] (message (CHR ''s'') [] # msgs) s3" using s3(1) assms(4) by simp
    obtain s4 where s4: "execute_loop ((conn, s3), ?r) = (Done (), ((conn, s4), set_suspended ?r))" "passed msgs s3 s4"
      using execute_suspended [OF al collected_rows(1)] by blast
    then show ?thesis
      using True s3(2-4) passed_out [OF s4(2)] collected_rows(2) [of rows] by (auto simp: passed_def set_suspended_def)
  next
    case False
    then have al: "aligned [] (ending_message e # map (\<lambda>(c, body). message c body) ms @ message (CHR ''Z'') st # msgs) s3"
      using s3(1) assms(4) by simp
    obtain s4 where s4: "execute_loop ((conn, s3), ?r) = (Done (), ((conn, s4), end_with e ?r))"
        "passed (map (\<lambda>(c, body). message c body) ms @ message (CHR ''Z'') st # msgs) s3 s4"
      using execute_ending [OF al assms(5) collected_rows(1)] by blast
    have room: "int (length close_request) \<le> slack s4" using s3(3) passed_out(2) [OF s4(2)] assms(8) len by simp
    obtain s5 where s5: "close_sync (conn, s4) = (Done (), (conn\<lparr>m_query_ready := True\<rparr>, s5))" "aligned [] msgs s5"
        "out_stream s5 = out_stream s4 @ close_request" "slack s5 = slack s4 - 12"
      using close_sync_syncs [OF _ assms(6,7) room] s4(2) len unfolding passed_def by fastforce
    have "m_type (end_with e ?r) \<noteq> SUSPENDED" by (cases e) (simp_all add: set_command_tag_def set_error_def)
    then have "execute max_rows (conn, s) = (Done (end_with e ?r), (conn\<lparr>m_query_ready := True\<rparr>, s5))"
      unfolding s3(4) using s4(1) s5(1) by (simp add: and_then_Done return_def)
    then show ?thesis
      using False s5(2-4) s3(2,3) passed_out [OF s4(2)] collected_rows(3,4) [where e = e and rows = rows] by auto
  qed
qed

section \<open>Properties\<close>

text \<open>
  C4: when every completion brings whole messages, at most 8192 bytes together (\<open>aligned\<close>; a row that is
  cut between two completions is lost, see below), a simple query sends exactly one message with the text, and returns one result for each
  reply of the server: the command tag or the error it ended with, its columns, and its rows, each where \<open>get_row\<close> finds
  it; then the connection is ready again, with the stream behind the message that says so.
\<close>

theorem pg_query_results:
  assumes "aligned [] (concat (map reply_messages replies) @ message (CHR ''Z'') st # msgs) s"
    and "list_all reply_ok replies" "body_ok st" "m_query_ready conn" "int (length q) + 6 \<le> slack s"
  shows "\<exists>results s'. query q (conn, s) = (Done results, (conn, s')) \<and> list_all2 answers replies results
    \<and> out_stream s' = out_stream s @ message (CHR ''Q'') (c_str q) \<and> aligned [] msgs s'"
  using query_returns [OF assms] by blast

theorem pg_query_results_witness:
  "\<exists>results s'. query ''select 1'' (\<lparr>m_query_ready = True\<rparr>,
      new_socket (map (\<lambda>g. Rx_data (concat g))
        [[message (CHR ''T'') (description_message [([0x61], replicate 16 7, 0)]), message (CHR ''D'') (row_message [Some [0x31], None])],
         [message (CHR ''C'') (bytes ''SELECT 1'' @ [0]), message (CHR ''E'') [1, 2, 0], message (CHR ''Z'') [0x49]]]) [Tx_ok 100])
      = (Done results, (\<lparr>m_query_ready = True\<rparr>, s'))
    \<and> list_all2 answers [Reply (Some [([0x61], replicate 16 7, 0)]) [[Some [0x31], None]] (Completed ''SELECT 1''),
        Reply None [] (Failed (CHR ''E'') [1, 2, 0])] results"
proof -
  let ?gs = "[[message (CHR ''T'') (description_message [([0x61], replicate 16 7, 0)]), message (CHR ''D'') (row_message [Some [0x31], None])],
         [message (CHR ''C'') (bytes ''SELECT 1'' @ [0]), message (CHR ''E'') [1, 2, 0], message (CHR ''Z'') [0x49]]]"
  let ?replies = "[Reply (Some [([0x61], replicate 16 7, 0)]) [[Some [0x31], None]] (Completed ''SELECT 1''),
        Reply None [] (Failed (CHR ''E'') [1, 2, 0])]"
  let ?s = "new_socket (map (\<lambda>g. Rx_data (concat g)) ?gs) [Tx_ok 100]"
  have len: "length (description_message [([0x61], replicate 16 7, 0)]) = 22" "length (row_message [Some [0x31], None]) = 11"
    by code_simp+
  have "aligned [] (concat ?gs) ?s"
    by (rule aligned_new) (simp_all add: group_ok_def SOCKET_BUFFER_SIZE_def len)
  moreover have "concat ?gs = concat (map reply_messages ?replies) @ message (CHR ''Z'') [0x49] # []"
    by (simp add: columns_messages_def)
  ultimately have al: "aligned [] (concat (map reply_messages ?replies) @ message (CHR ''Z'') [0x49] # []) ?s" by metis
  have ok: "list_all reply_ok ?replies"
    by (simp add: columns_ok_def row_ok_def column_ok_def field_ok_def body_ok_def len)
  have "int (length ''select 1'') + 6 \<le> slack ?s" by simp
  from pg_query_results [OF al ok _ _ this, of "\<lparr>m_query_ready = True\<rparr>"] show ?thesis by (auto simp: body_ok_def)
qed

text \<open>
  preparing a query writes the parse message, whose text is the query without a name and without parameter types,
  and the bind message with the parameters as they are laid out in the buffer, and asks for results in the default format;
  all of it is written when the kernel has room, otherwise a prefix; the connection is not ready afterwards. On a
  connection that is not ready nothing is written and an error is thrown.
\<close>

theorem pg_prepare_query_messages:
  assumes "sock_wf s"
  shows "(if m_query_ready conn
          then emits (message (CHR ''P'') ([0] @ c_str q @ [0, 0])
              @ message (CHR ''B'') ([0, 0] @ [0, 0] @ m_param_buffer params @ [0, 0])) (conn\<lparr>m_query_ready := False\<rparr>) (conn, s)
            (prepare_query q params (conn, s))
          else prepare_query q params (conn, s)
            = (Threw (Runtime_error ''pg_connection query_extended: Not query ready''), (conn, s)))"
proof (cases "m_query_ready conn")
  case True
  have "emits (message (CHR ''P'') ([0] @ c_str q @ [0, 0])
      @ message (CHR ''B'') ([0, 0] @ [0, 0] @ m_param_buffer params @ [0, 0])) (conn\<lparr>m_query_ready := False\<rparr>) (conn, s)
    (prepare_query q params (conn, s))"
    by (rule prepare_query_emits) (simp_all add: assms True)
  then show ?thesis using True by simp
next
  case False
  then show ?thesis by (simp add: prepare_query_def)
qed

theorem pg_prepare_query_messages_witness:
  "emits (message (CHR ''P'') ([0] @ c_str ''q'' @ [0, 0]) @ message (CHR ''B'') ([0, 0] @ [0, 0] @ [0, 0] @ [0, 0]))
      \<lparr>m_query_ready = False\<rparr> (\<lparr>m_query_ready = True\<rparr>, new_socket [] [Tx_ok 40])
      (prepare_query ''q'' new_pg_params (\<lparr>m_query_ready = True\<rparr>, new_socket [] [Tx_ok 40]))"
  using pg_prepare_query_messages [OF sock_wf_new [of "[]" "[Tx_ok 40]"], of "\<lparr>m_query_ready = True\<rparr>" "''q''" new_pg_params]
  by (simp add: new_pg_params_def INT_16_OCTETS_def numeral_2_eq_2)

text \<open>
  C11: when every completion brings whole messages, at most 8192 bytes together (\<open>aligned\<close>), executing a prepared
  query asks for the rows and flushes, whatever acknowledgements come first. It returns the rows and the ending the server gave, closes the portal, waits until the server is ready, whatever else it says before,
  and leaves the connection ready; nothing else is sent. A portal that is suspended gives its rows, and nothing is closed:
  the connection keeps its state, so that \<open>execute\<close> can be called again.
\<close>

theorem pg_execute_results:
  assumes "aligned [] (acknowledged acks @ map (\<lambda>fs. message (CHR ''D'') (row_message fs)) rows @ final) s"
    and "list_all ack_ok acks" "list_all row_ok rows"
    and "final = message (CHR ''s'') [] # msgs \<and> susp
      \<or> final = ending_message e # map (\<lambda>(c, body). message c body) ms @ message (CHR ''Z'') st # msgs \<and> \<not> susp"
    and "ending_ok e" "list_all skipped_ok ms" "body_ok st" "27 \<le> slack s"
  shows "\<exists>r s'. execute max_rows (conn, s) = (Done r, (if susp then conn else conn\<lparr>m_query_ready := True\<rparr>, s'))
    \<and> (if susp then m_type r = SUSPENDED else ended e r) \<and> holds_rows rows r
    \<and> out_stream s' = out_stream s @ execute_request max_rows @ (if susp then [] else close_request)
    \<and> aligned [] msgs s'"
  using execute_returns [OF assms] by blast

theorem pg_execute_results_witness:
  "\<exists>r s'. execute 0 (\<lparr>m_query_ready = False\<rparr>,
      new_socket (map (\<lambda>g. Rx_data (concat g)) [acknowledged ''12'' @ [message (CHR ''D'') (row_message [Some [0x31]])],
        [message (CHR ''C'') (bytes ''SELECT 1'' @ [0])], [message (CHR ''3'') [], message (CHR ''Z'') [0x49]]]) [Tx_ok 100])
      = (Done r, (\<lparr>m_query_ready = True\<rparr>, s'))
    \<and> ended (Completed ''SELECT 1'') r \<and> holds_rows [[Some [0x31]]] r"
proof -
  let ?gs = "[acknowledged ''12'' @ [message (CHR ''D'') (row_message [Some [0x31]])],
        [message (CHR ''C'') (bytes ''SELECT 1'' @ [0])], [message (CHR ''3'') [], message (CHR ''Z'') [0x49]]]"
  let ?s = "new_socket (map (\<lambda>g. Rx_data (concat g)) ?gs) [Tx_ok 100]"
  let ?e = "Completed ''SELECT 1''"
  let ?final = "ending_message ?e # map (\<lambda>(c, body). message c body) [(CHR ''3'', [])] @ message (CHR ''Z'') [0x49] # []"
  have len: "length (row_message [Some [0x31]]) = 7" by code_simp
  have "aligned [] (concat ?gs) ?s"
    by (rule aligned_new) (simp_all add: group_ok_def SOCKET_BUFFER_SIZE_def len acknowledged_def)
  moreover have "concat ?gs = acknowledged ''12'' @ map (\<lambda>fs. message (CHR ''D'') (row_message fs)) [[Some [0x31]]] @ ?final"
    by simp
  ultimately have al: "aligned [] (acknowledged ''12'' @ map (\<lambda>fs. message (CHR ''D'') (row_message fs)) [[Some [0x31]]] @ ?final) ?s"
    by metis
  have acks: "list_all ack_ok ''12''" by (simp add: ack_ok_def)
  have rows: "list_all row_ok [[Some [0x31]]]" by (simp add: row_ok_def field_ok_def body_ok_def len)
  have fin: "?final = message (CHR ''s'') [] # [] \<and> False \<or> ?final = ?final \<and> \<not> False" by simp
  have rest: "ending_ok ?e" "list_all skipped_ok [(CHR ''3'', [])]" "body_ok [0x49]" "27 \<le> slack ?s"
    by (simp_all add: body_ok_def skipped_ok_def response_types)
  from pg_execute_results [OF al acks rows fin rest, of 0 "\<lparr>m_query_ready = False\<rparr>"] show ?thesis by auto
qed

lemma row_message_types:
  assumes "c = CHR ''T'' \<or> c = CHR ''D''"
  shows "response_type_of c = ROW_DESCRIPTION \<or> response_type_of c = DATA_ROW" "response_type_of c \<noteq> NOTICE_RESPONSE"
  using assms by (elim disjE; simp only: response_types; simp)+

text \<open>The first message of a query, cut: the query goes on behind the completion that brought the first part.\<close>

lemma query_drops_split_row:
  assumes "sock_wf s" "get_read_chunk (m_in_buffer s) = []" "m_rx s = Rx_data (take k (message c body)) # after"
    and "c = CHR ''T'' \<or> c = CHR ''D''" "body_ok body" "5 \<le> k" "k < 5 + length body" "k \<le> SOCKET_BUFFER_SIZE"
    and "m_query_ready conn" "int (length q) + 6 \<le> slack s"
  obtains s' r where "query q (conn, s) = (case query_loop ((conn\<lparr>m_query_ready := False\<rparr>, s'), [r]) of
        (Done _, (p2, results)) \<Rightarrow> (Done (butlast results), p2)
      | (Threw e, (p2, results)) \<Rightarrow> (Threw e, p2)
      | (Suspended, (p2, results)) \<Rightarrow> (Suspended, p2)
      | (Undefined, (p2, results)) \<Rightarrow> (Undefined, p2))"
    "sock_wf s'" "get_read_chunk (m_in_buffer s') = []" "m_rx s' = after"
    "out_stream s' = out_stream s @ message (CHR ''Q'') (c_str q)" "blank r"
proof -
  let ?conn = "conn\<lparr>m_query_ready := False\<rparr>" and ?w = "of_nat (length body + 4) :: 32 word" and ?part = "take (k - 5) body"
  let ?h = "byte_of_char c # u32_bytes ?w"
  have part: "take k (message c body) = ?h @ ?part"
    using assms(6) by (simp add: message_def take_Cons' take_append)
  have "aligned [] ([] @ concat [[byte_of_char c # u32_bytes ?w @ ?part]]) s"
    unfolding aligned_def using assms(1-3,6,8) part
    by (intro conjI exI [of _ "[] :: byte list list"] exI [of _ "[[byte_of_char c # u32_bytes ?w @ ?part]]"] exI [of _ after])
       (simp_all add: group_ok_def)
  then have al: "aligned [] [byte_of_char c # u32_bytes ?w @ ?part] s" by simp
  have em: "emits (message (CHR ''Q'') (c_str q)) ?conn (conn, s) (send_query q (conn, s))"
    by (rule send_query_emits) (simp_all add: assms(1))
  obtain u s1 where s1: "send_query q (conn, s) = (Done u, (?conn, s1))" "sent (message (CHR ''Q'') (c_str q)) s s1"
    using emits_sent [OF em] assms(10) by auto
  have s1_in: "sock_wf s1" "get_read_chunk (m_in_buffer s1) = []" "m_rx s1 = Rx_data (?h @ ?part) # after"
    using s1(2) sent_aligned(1) [OF s1(2) al] assms(2,3) part by (simp_all add: sent_def handed_def same_in_def aligned_def)
  obtain t where t: "recv_incoming s1 = (Done (int (length (?h @ ?part))), t)" "sock_wf t" "m_rx t = after" "same_out s1 t"
      "get_read_chunk (m_in_buffer t) = ?h @ ?part"
    by (rule recv_whole [OF s1_in]) (use assms(6-8) in simp_all)
  obtain s2 where s2: "read_header s1 = (Done \<lparr>m_info_type = response_type_of c, m_info_size = uint (?w - 4)\<rparr>, s2)"
      "took (length ?h) t s2"
    using read_header_refill [OF s1_in(1,2) t(1)] read_header_buffered [OF t(2,5)] by (metis Zero_not_Suc length_Cons neq0_conv append_Cons)
  let ?info = "\<lparr>m_info_type = response_type_of c, m_info_size = int (length body)\<rparr>"
  have "uint (?w - 4) = int (length body)"
    using assms(5) by (simp add: body_ok_def unsigned_of_nat take_bit_nat_eq_self)
  then have info: "get_response_info True (?conn, s1) = (Done ?info, (?conn, s2))"
    using s2(1) row_message_types(2) [OF assms(4)]
    by (simp add: get_response_info_def on_snd_def response_loop.simps [of _ 0] and_then_def return_def)
  have chunk: "sock_wf s2" "get_read_chunk (m_in_buffer s2) = ?part" "m_rx s2 = after" "same_out s1 s2"
    using s2(2) t(3,4,5) by (auto simp: took_def intro: same_out_trans)
  have short: "length (get_read_chunk (m_in_buffer s2)) < length body" using chunk(2) assms(6,7) by simp
  obtain s' r where s': "start_populate_result ?info (s2, new_pg_result) = (Done (), (s', r))" "sock_wf s'"
      "get_read_chunk (m_in_buffer s') = []" "m_rx s' = m_rx s2" "same_out s2 s'" "blank r"
    by (rule start_populate_short [OF chunk(1) short row_message_types(1) [OF assms(4)] blank_new])
  have "query_step ?info ((?conn, s2), [new_pg_result]) = (Done (), ((?conn, s'), [r]))"
    using row_message_types(1) [OF assms(4)] s'(1) by (auto simp: query_step_def on_back_def map_last_def)
  then have "query_loop ((?conn, s1), [new_pg_result]) = query_loop ((?conn, s'), [r])"
    using info by (subst query_loop.simps) (simp add: and_then_def on_fst_def)
  then have q: "query q (conn, s) = (case query_loop ((?conn, s'), [r]) of
        (Done _, (p2, results)) \<Rightarrow> (Done (butlast results), p2)
      | (Threw e, (p2, results)) \<Rightarrow> (Threw e, p2)
      | (Suspended, (p2, results)) \<Rightarrow> (Suspended, p2)
      | (Undefined, (p2, results)) \<Rightarrow> (Undefined, p2))"
    using s1(1) assms(9) by (simp add: query_sends and_then_Done)
  have "out_stream s' = out_stream s1"
    using chunk(4) s'(5) by (simp add: same_out_def out_stream_def)
  then show thesis
    using that [OF q s'(2,3)] s'(4,6) chunk(3) sent_aligned(2) [OF s1(2) al] by simp
qed

lemma query_loop_waits:
  assumes "sock_wf s" "get_read_chunk (m_in_buffer s) = []" "m_rx s = []" "\<not> m_query_ready conn"
  shows "\<exists>st. query_loop ((conn, s), rs) = (Suspended, st)"
proof -
  have "length (get_read_chunk (m_in_buffer s)) < 5" using assms(2) by simp
  then obtain s' where "read_mem (replicate 5 0) 0 (int 5) True s = (Suspended, s')"
    using read_mem_short [OF assms(1) _ assms(3)] by metis
  then have "read_header s = (Suspended, s')"
    by (simp add: read_header_def HEADER_SIZE_def and_then_def)
  then show ?thesis
    using assms(4)
    by (simp add: query_loop.simps get_response_info_def on_fst_def on_snd_def response_loop.simps [of _ 0] and_then_def return_def)
qed

text \<open>
  C36: the coroutine that collects a row is started and not awaited, so a row, or a description of columns, that comes in
  two completions is lost, and nothing tells the caller. What the buffer holds of it is thrown away, and the query reads
  on at the place where the row was cut, as if a message began there: when nothing follows, the query waits; when what
  follows reads as messages, though it be the value of a column, they are the results that the query returns,
  without the row or the columns that the server sent.
\<close>

theorem pg_query_split_row:
  assumes "sock_wf s" "get_read_chunk (m_in_buffer s) = []" "m_rx s = Rx_data (take k (message c body)) # after"
    and "c = CHR ''T'' \<or> c = CHR ''D''" "body_ok body" "5 \<le> k" "k < 5 + length body" "k \<le> SOCKET_BUFFER_SIZE"
    and "m_query_ready conn" "int (length q) + 6 \<le> slack s"
  shows "(after = [] \<longrightarrow> fst (query q (conn, s)) = Suspended)
    \<and> (\<forall>gs rx replies st msgs.
        after = map (\<lambda>g. Rx_data (concat g)) gs @ rx \<and> list_all group_ok gs \<and> [] \<notin> set (concat gs)
        \<and> concat gs = concat (map reply_messages replies) @ message (CHR ''Z'') st # msgs
        \<and> list_all reply_ok replies \<and> body_ok st
        \<longrightarrow> (\<exists>results s'. query q (conn, s) = (Done results, (conn, s')) \<and> list_all2 answers replies results
              \<and> out_stream s' = out_stream s @ message (CHR ''Q'') (c_str q) \<and> aligned [] msgs s'))"
proof -
  let ?conn = "conn\<lparr>m_query_ready := False\<rparr>"
  obtain s3 r where s3: "query q (conn, s) = (case query_loop ((?conn, s3), [r]) of
        (Done _, (p2, results)) \<Rightarrow> (Done (butlast results), p2)
      | (Threw e, (p2, results)) \<Rightarrow> (Threw e, p2)
      | (Suspended, (p2, results)) \<Rightarrow> (Suspended, p2)
      | (Undefined, (p2, results)) \<Rightarrow> (Undefined, p2))"
    "sock_wf s3" "get_read_chunk (m_in_buffer s3) = []" "m_rx s3 = after"
    "out_stream s3 = out_stream s @ message (CHR ''Q'') (c_str q)" "blank r"
    by (rule query_drops_split_row [OF assms])
  show ?thesis
  proof (intro conjI allI impI)
    assume "after = []"
    then obtain st where "query_loop ((?conn, s3), [r]) = (Suspended, st)"
      using query_loop_waits [of s3 ?conn "[r]"] s3(2-4) by auto
    then show "fst (query q (conn, s)) = Suspended" by (cases st) (simp add: s3(1))
  next
    fix gs rx replies st msgs
    assume h: "after = map (\<lambda>g. Rx_data (concat g)) gs @ rx \<and> list_all group_ok gs \<and> [] \<notin> set (concat gs)
        \<and> concat gs = concat (map reply_messages replies) @ message (CHR ''Z'') st # msgs
        \<and> list_all reply_ok replies \<and> body_ok st"
    then have gs: "m_rx s3 = map (\<lambda>g. Rx_data (concat g)) gs @ rx" "list_all group_ok gs" "[] \<notin> set (concat gs)"
      "concat gs = concat (map reply_messages replies) @ message (CHR ''Z'') st # msgs"
      unfolding s3(4) by blast+
    have "aligned [] (concat gs) s3"
      unfolding aligned_def using s3(2,3) gs(1-3)
      by (intro conjI exI [of _ "[] :: byte list list"] exI [of _ gs] exI [of _ rx]) simp_all
    then have al: "aligned [] (concat (map reply_messages replies) @ message (CHR ''Z'') st # msgs) s3"
      unfolding gs(4) .
    obtain results last s4 where q: "query_loop ((?conn, s3), [r])
          = (Done (), ((conn\<lparr>m_query_ready := True\<rparr>, s4), results @ [last]))"
        "list_all2 answers replies results" "passed msgs s3 s4"
      using query_loop_returns [OF al _ _ _ s3(6), of ?conn] h by auto
    have "query q (conn, s) = (Done results, (conn, s4))" using q(1) s3(1) assms(9) by simp
    then show "\<exists>results s'. query q (conn, s) = (Done results, (conn, s')) \<and> list_all2 answers replies results
              \<and> out_stream s' = out_stream s @ message (CHR ''Q'') (c_str q) \<and> aligned [] msgs s'"
      using q(2,3) s3(5) passed_out(1) [OF q(3)] by (auto simp: passed_def)
  qed
qed

text \<open>A row whose value reads as a completed command and a server that is ready, cut in front of that value.\<close>

definition forged_value :: "byte list" where
  "forged_value = message (CHR ''C'') (bytes ''DELETE 0'' @ [0]) @ message (CHR ''Z'') [0x49]"

definition forged_row :: "byte list" where
  "forged_row = message (CHR ''D'') (row_message [Some forged_value])"

theorem pg_query_split_row_witness:
  "fst (query ''q'' (\<lparr>m_query_ready = True\<rparr>, new_socket [Rx_data (take 11 forged_row)] [Tx_ok 100])) = Suspended
  \<and> (\<exists>results s'. query ''q'' (\<lparr>m_query_ready = True\<rparr>,
        new_socket [Rx_data (take 11 forged_row), Rx_data (drop 11 forged_row),
          Rx_data (message (CHR ''C'') (bytes ''SELECT 1'' @ [0]) @ message (CHR ''Z'') [0x49])] [Tx_ok 100])
      = (Done results, (\<lparr>m_query_ready = True\<rparr>, s'))
    \<and> list_all2 answers [Reply None [] (Completed ''DELETE 0'')] results)"
proof -
  let ?conn = "\<lparr>m_query_ready = True\<rparr>" and ?body = "row_message [Some forged_value]"
  let ?rest = "Rx_data (message (CHR ''C'') (bytes ''SELECT 1'' @ [0]) @ message (CHR ''Z'') [0x49])"
  let ?gs = "[[message (CHR ''C'') (bytes ''DELETE 0'' @ [0]), message (CHR ''Z'') [0x49]]]"
  let ?replies = "[Reply None [] (Completed ''DELETE 0'')]"
  have d: "drop 11 forged_row = forged_value" "length ?body = 26"
    by code_simp+
  have row: "CHR ''D'' = CHR ''T'' \<or> CHR ''D'' = CHR ''D''" "body_ok ?body" "(5 :: nat) \<le> 11" "11 < 5 + length ?body"
      "11 \<le> SOCKET_BUFFER_SIZE" "m_query_ready ?conn"
    by (simp_all add: d(2) body_ok_def SOCKET_BUFFER_SIZE_def)
  have slack: "int (length ''q'') + 6 \<le> slack (new_socket rx [Tx_ok 100])" for rx by simp
  have rx: "m_rx (new_socket (Rx_data (take 11 forged_row) # after) [Tx_ok 100]) = Rx_data (take 11 (message (CHR ''D'') ?body)) # after"
    and empty: "get_read_chunk (m_in_buffer (new_socket rx' [Tx_ok 100])) = []" for after rx'
    by (simp_all add: forged_row_def) (simp add: new_socket_def)
  have gs: "[Rx_data (drop 11 forged_row), ?rest] = map (\<lambda>g. Rx_data (concat g)) ?gs @ [?rest]
      \<and> list_all group_ok ?gs \<and> [] \<notin> set (concat ?gs)
      \<and> concat ?gs = concat (map reply_messages ?replies) @ message (CHR ''Z'') [0x49] # []
      \<and> list_all reply_ok ?replies \<and> body_ok [0x49]"
    by (simp add: d(1) forged_value_def group_ok_def SOCKET_BUFFER_SIZE_def columns_messages_def body_ok_def)
  note waits = pg_query_split_row [OF sock_wf_new empty rx row slack, of "[]", THEN conjunct1]
  note forged = pg_query_split_row [OF sock_wf_new empty rx row slack, of "[Rx_data (drop 11 forged_row), ?rest]", THEN conjunct2,
      rule_format, of ?gs "[?rest]" ?replies "[0x49]" "[]", OF gs]
  show ?thesis using waits forged by auto
qed

text \<open>
  the loop of a simple query has no case for the other messages, which a server may send at any time, such as
  a change of a parameter: their body is not skipped, and the query goes on with the first bytes of that body taken
  for the header of the next message, whatever the segmentation.
\<close>

theorem pg_query_unread_body:
  assumes "sock_wf s" "incoming s = message c body @ rest" "body_ok body"
    and "response_type_of c \<in> {PARAMETER_STATUS, BACKEND_KEY_DATA, NEGOTIATE_PROTOCOL_VERSION, PARSE_COMPLETE,
           BIND_COMPLETE, PORTAL_SUSPENDED, AUTHENTICATION} \<or> (\<exists>x. response_type_of c = Other_response x)"
    and "\<not> m_query_ready conn" "take 5 body = byte_of_char d' # u32_bytes w'" "response_type_of d' \<noteq> NOTICE_RESPONSE"
  shows "\<exists>s' s''. query_loop ((conn, s), rs) = query_loop ((conn, s'), rs)
    \<and> get_response_info True (conn, s')
      = (Done \<lparr>m_info_type = response_type_of d', m_info_size = uint (w' - 4)\<rparr>, (conn, s''))
    \<and> incoming s'' = drop 5 body @ rest"
proof -
  let ?info = "\<lparr>m_info_type = response_type_of c, m_info_size = int (length body)\<rparr>"
  have nn: "response_type_of c \<noteq> NOTICE_RESPONSE" using assms(4) by auto
  obtain s1 where s1: "response_loop True 0 s = (Done ?info, s1)" "advanced s (body @ rest) s1"
    using response_loop_stream [of s "[]" "[]" c body rest True] assms(1-3) nn by (auto simp: notices_def)
  have "query_step ?info = return ()"
    using assms(4) by (auto simp: query_step_def)
  then have "query_loop ((conn, s), rs) = query_loop ((conn, s1), rs)"
    using assms(5) s1(1)
    by (subst query_loop.simps) (simp add: and_then_def on_fst_def on_snd_def get_response_info_def return_def)
  have inc: "incoming s1 = (byte_of_char d' # u32_bytes w') @ drop 5 body @ rest"
    using advancedD(2) [OF s1(2)] by (simp flip: assms(6))
  obtain s2 where s2: "read_mem (replicate 5 0) 0 (int (length (byte_of_char d' # u32_bytes w'))) True s1
      = (Done (byte_of_char d' # u32_bytes w', int (length (byte_of_char d' # u32_bytes w'))), s2)"
      "advanced s1 (drop 5 body @ rest) s2"
    by (rule read_mem_stream [OF advancedD(1) [OF s1(2)] inc, of "replicate 5 0"]) simp
  have "read_u32_be (byte_of_char d' # u32_bytes w') 1 = Some w'"
    using read_u32_be_bytes [of "[byte_of_char d']" w' "[]"] by simp
  then have "read_header s1 = (Done \<lparr>m_info_type = response_type_of d', m_info_size = uint (w' - 4)\<rparr>, s2)"
    using s2(1) by (simp add: read_header_def HEADER_SIZE_def INT_32_OCTETS_def and_then_def return_def)
  then have "get_response_info True (conn, s1)
      = (Done \<lparr>m_info_type = response_type_of d', m_info_size = uint (w' - 4)\<rparr>, (conn, s2))"
    using assms(7) by (simp add: get_response_info_def on_snd_def response_loop.simps [of _ 0] and_then_def return_def)
  then show ?thesis
    using \<open>query_loop ((conn, s), rs) = query_loop ((conn, s1), rs)\<close> advancedD(2) [OF s2(2)] by blast
qed

theorem pg_query_unread_body_witness:
  "\<exists>s' s''. query_loop ((\<lparr>m_query_ready = False\<rparr>,
      new_socket [Rx_data (message (CHR ''S'') (bytes ''DateStyle'' @ [0] @ bytes ''ISO'' @ [0])),
        Rx_data (message (CHR ''Z'') [0x49])] []), [new_pg_result])
      = query_loop ((\<lparr>m_query_ready = False\<rparr>, s'), [new_pg_result])
    \<and> get_response_info True (\<lparr>m_query_ready = False\<rparr>, s')
      = (Done \<lparr>m_info_type = DATA_ROW, m_info_size = 0x6174654F\<rparr>, (\<lparr>m_query_ready = False\<rparr>, s''))"
proof -
  let ?body = "bytes ''DateStyle'' @ [0] @ bytes ''ISO'' @ [0]"
  let ?s = "new_socket [Rx_data (message (CHR ''S'') ?body), Rx_data (message (CHR ''Z'') [0x49])] []"
  have t: "response_type_of (CHR ''S'') = PARAMETER_STATUS" "response_type_of (CHR ''D'') = DATA_ROW"
    "take 5 ?body = byte_of_char (CHR ''D'') # u32_bytes 0x61746553"
    by code_simp+
  have h: "incoming ?s = message (CHR ''S'') ?body @ message (CHR ''Z'') [0x49]" "body_ok ?body"
    "\<not> m_query_ready \<lparr>m_query_ready = False\<rparr>"
    by (simp_all add: body_ok_def)
  have c: "response_type_of (CHR ''S'') \<in> {PARAMETER_STATUS, BACKEND_KEY_DATA, NEGOTIATE_PROTOCOL_VERSION, PARSE_COMPLETE,
       BIND_COMPLETE, PORTAL_SUSPENDED, AUTHENTICATION} \<or> (\<exists>x. response_type_of (CHR ''S'') = Other_response x)"
    "response_type_of (CHR ''D'') \<noteq> NOTICE_RESPONSE"
    by (simp_all add: t)
  have w: "uint (0x61746553 - 4 :: 32 word) = 0x6174654F" by simp
  from pg_query_unread_body [OF sock_wf_new h(1,2) c(1) h(3) t(3) c(2), of "[new_pg_result]", unfolded t(2) w]
  show ?thesis by blast
qed

end
