(* ===== verification/Pg_Types.thy ===== *)
theory Pg_Types
  imports Pg_Rows
begin

text \<open>
  The types of \<open>get_row\<close>: whatever bytes the server sent, a variable only ever holds values of its type, and a result whose values lie
  inside the bytes of their rows is read without leaving them.
\<close>

section \<open>Typed targets and results\<close>

fun target_type :: "target \<Rightarrow> cell_type \<times> bool" where
  "target_type (Plain T t) = (T, False)"
| "target_type (Optional T opt) = (T, True)"

fun target_ok :: "target \<Rightarrow> bool" where
  "target_ok (Plain T t) \<longleftrightarrow> has_type T t"
| "target_ok (Optional T opt) \<longleftrightarrow> (case opt of None \<Rightarrow> True | Some t \<Rightarrow> has_type T t)"

definition value_inside :: "pg_result \<Rightarrow> pg_value \<Rightarrow> bool" where
  "value_inside r v \<longleftrightarrow> is_null v
     \<or> fst (m_ptr v) < length (m_row_data r) \<and> slice (m_row_data r ! fst (m_ptr v)) (snd (m_ptr v)) (m_size v) \<noteq> None"

definition row_inside :: "pg_result \<Rightarrow> int \<Rightarrow> nat \<Rightarrow> bool" where
  "row_inside r row_index n \<longleftrightarrow> 0 \<le> row_index \<and> nat row_index < length (m_rows r)
     \<and> n \<le> length (m_rows r ! nat row_index) \<and> (\<forall>v \<in> set (m_rows r ! nat row_index). value_inside r v)"

section \<open>One value\<close>

lemma out_bind_cases:
  "out_bind m f = Done b \<Longrightarrow> \<exists>a. m = Done a \<and> f a = Done b"
  "out_bind m f = Suspended \<Longrightarrow> m = Suspended \<or> (\<exists>a. m = Done a \<and> f a = Suspended)"
  "out_bind m f = Undefined \<Longrightarrow> m = Undefined \<or> (\<exists>a. m = Done a \<and> f a = Undefined)"
  by (cases m; simp)+

lemma pg_parse_number_type: "pg_parse_number lo hi data p sz = Done v \<Longrightarrow> lo \<le> v \<and> v \<le> hi"
  by (auto simp: pg_parse_number_def dest: from_chars_bounds split: option.splits from_chars_result.splits)

lemma pg_parse_type: "pg_parse T data p sz = Done c \<Longrightarrow> has_type T c"
  by (cases T) (auto dest!: out_bind_cases(1) pg_parse_number_type)

lemma pg_parse_settles:
  "pg_parse T data p sz \<noteq> Suspended" "slice data p sz \<noteq> None \<Longrightarrow> pg_parse T data p sz \<noteq> Undefined"
  by (cases T; auto simp: pg_parse_number_def pg_parse_string_def pg_parse_bool_def Let_def
      dest!: out_bind_cases(2,3) split: option.splits from_chars_result.splits if_splits)+

lemma parse_value_type: "parse_value T r v = Done c \<Longrightarrow> has_type T c"
  by (auto simp: parse_value_def split: if_splits dest: pg_parse_type)

lemma parse_value_settles:
  "parse_value T r v \<noteq> Suspended" "value_inside r v \<Longrightarrow> \<not> is_null v \<Longrightarrow> parse_value T r v \<noteq> Undefined"
  using pg_parse_settles by (auto simp: parse_value_def value_inside_def)

lemma get_row_one_type:
  assumes "target_ok t" "get_row_one r k i t = Done t'"
  shows "target_ok t' \<and> target_type t' = target_type t"
  using assms by (cases t) (auto split: option.splits if_splits dest!: out_bind_cases(1) parse_value_type)

lemma get_row_one_settles:
  "get_row_one r k i t \<noteq> Suspended"
  "row_inside r i n \<Longrightarrow> k < n \<Longrightarrow> get_row_one r k i t \<noteq> Undefined"
  using parse_value_settles
  by (cases t; fastforce simp: value_at_def row_inside_def dest!: out_bind_cases(2,3) split: option.splits if_splits)+

section \<open>Properties\<close>

text \<open>
  C28: whatever bytes came from the server, reading a row leaves every variable with a value of its type, also when it throws in the
  middle, and never waits; and when the values of the row lie inside its bytes, and the row has enough of them, it either assigns
  all or throws.
\<close>

theorem get_row_type_safe:
  assumes "\<forall>t \<in> set ts. target_ok t"
  shows "case get_row r k i ts of (res, ts') \<Rightarrow>
     (\<forall>t \<in> set ts'. target_ok t) \<and> map target_type ts' = map target_type ts \<and> res \<noteq> Suspended
   \<and> (row_inside r i (k + length ts) \<longrightarrow> res \<noteq> Undefined)"
  using assms
proof (induction ts arbitrary: k)
  case Nil
  then show ?case by simp
next
  case (Cons t ts)
  obtain res ts' where rec: "get_row r (k + 1) i ts = (res, ts')" by fastforce
  have IH: "(\<forall>t \<in> set ts'. target_ok t) \<and> map target_type ts' = map target_type ts \<and> res \<noteq> Suspended
    \<and> (row_inside r i (k + 1 + length ts) \<longrightarrow> res \<noteq> Undefined)"
    using Cons.IH [of "k + 1"] Cons.prems rec by simp
  have one: "get_row_one r k i t \<noteq> Suspended" "row_inside r i (k + length (t # ts)) \<longrightarrow> get_row_one r k i t \<noteq> Undefined"
    using get_row_one_settles by simp_all
  show ?case
  proof (cases "get_row_one r k i t")
    case (Done t')
    then have "target_ok t' \<and> target_type t' = target_type t" using get_row_one_type [OF _ Done] Cons.prems by simp
    then show ?thesis using IH Done rec by simp
  qed (use one Cons.prems in \<open>simp_all del: get_row_one.simps\<close>)
qed

theorem get_row_type_safe_witness:
  "list_all target_ok (snd (get_row (new_pg_result\<lparr>m_row_data := [row_message [Some [0x33, 0x30, 0x30], None]],
       m_rows := [row_values 0 2 [Some [0x33, 0x30, 0x30], None]]\<rparr>) 0 0
     [Plain (Integral (- 128) 127) (Num 5), Optional Text (Some (Str ''x''))]))"
  using get_row_type_safe [of "[Plain (Integral (- 128) 127) (Num 5), Optional Text (Some (Str ''x''))]"
      "new_pg_result\<lparr>m_row_data := [row_message [Some [0x33, 0x30, 0x30], None]],
       m_rows := [row_values 0 2 [Some [0x33, 0x30, 0x30], None]]\<rparr>" 0 0]
  by (simp add: case_prod_unfold list_all_iff)

end
