(* ===== verification/Pg_Pool.thy ===== *)
theory Pg_Pool
  imports Pg_Connection Events
begin

text \<open>
  \<open>cppevent_postgres/pg_database\<close>: the pool of connections, shared by coroutines that run on one event loop. What a
  coroutine does between two suspensions is one step; the steps of all coroutines and the turns of the loop
  interleave as the kernel and the clients please. Connecting and initialising only count by how they end. A client has
  one connection at a time, and stays until its wait is over: that a waiting coroutine is destroyed, which leaves its
  id in the queue, and that a connection is assigned to another (\<open>assign_connection\<close>) are not steps.
\<close>

section \<open>Connections as values\<close>

text \<open>
  A connection that is moved, with the socket that it owns, and with the count of the pool that it keeps. The socket is
  a number; a connection that has been moved away has none.
\<close>

record pool_connection = pg_connection +
  m_sock :: "nat option"

record pg_database =
  m_config :: pg_config
  m_conn_count :: int
  m_idle :: "pool_connection list"
  m_waiting :: "e_id list"

definition new_pg_database :: "pg_config \<Rightarrow> pg_database" where
  "new_pg_database config = \<lparr>m_config = config, m_conn_count = 0, m_idle = [], m_waiting = []\<rparr>"

definition construct_connection :: "nat \<Rightarrow> pg_database \<Rightarrow> pool_connection \<times> pg_database" where
  "construct_connection sock db =
     (pg_connection.extend new_pg_connection \<lparr>m_sock = Some sock\<rparr>, db\<lparr>m_conn_count := m_conn_count db + 1\<rparr>)"

definition destroy_connection :: "pool_connection \<Rightarrow> pg_database \<Rightarrow> pg_database" where
  "destroy_connection conn db =
     (if m_sock conn \<noteq> None then db\<lparr>m_conn_count := m_conn_count db - 1\<rparr> else db)"

text \<open>The new connection, and what is left of the other one.\<close>

definition move_connection :: "pool_connection \<Rightarrow> pool_connection \<times> pool_connection" where
  "move_connection other = (other, other\<lparr>m_sock := None\<rparr>)"

text \<open>Assignment drops the socket of the target, but not from the count.\<close>

definition assign_connection :: "pool_connection \<Rightarrow> pool_connection \<Rightarrow> pool_connection \<times> pool_connection" where
  "assign_connection this other =
     (this\<lparr>m_sock := m_sock other, m_query_ready := m_query_ready other\<rparr>, other\<lparr>m_sock := None\<rparr>)"

section \<open>The clients of a pool\<close>

text \<open>
  Where a client is: outside of the pool, in one of the suspensions of \<open>get_connection\<close>, with the callback that is a local variable
  there, or with a connection. \<open>Crashed\<close>: it has taken from an empty queue.
\<close>

datatype getter =
    Outside | Connecting | Initializing pool_connection | Waiting event_callback | Holding pool_connection | Crashed

record pool_world = event_loop +
  m_db :: pg_database
  m_getters :: "handle \<Rightarrow> getter"

definition set_getter :: "handle \<Rightarrow> getter \<Rightarrow> pool_world \<Rightarrow> pool_world" where
  "set_getter h g w = w\<lparr>m_getters := (m_getters w)(h := g)\<rparr>"

definition set_db :: "pg_database \<Rightarrow> pool_world \<Rightarrow> pool_world" where
  "set_db db w = w\<lparr>m_db := db\<rparr>"

text \<open>The end of \<open>get_connection\<close>: the first idle connection is moved out, twice, and what is left is destroyed.\<close>

definition take_idle :: "handle \<Rightarrow> pool_world \<Rightarrow> pool_world" where
  "take_idle h w =
     (let db = m_db w in
      case m_idle db of
        [] \<Rightarrow> set_getter h Crashed w
      | front # rest \<Rightarrow>
          (case move_connection front of (conn, front') \<Rightarrow>
           case move_connection conn of (result, conn') \<Rightarrow>
             set_getter h (Holding result)
               (set_db (destroy_connection conn' (destroy_connection front' (db\<lparr>m_idle := rest\<rparr>))) w)))"

definition get_event_callback :: "handle \<Rightarrow> pool_world \<Rightarrow> event_callback \<times> pool_world" where
  "get_event_callback h w =
     (case register_event_callback h (m_event_bus w) of
        (i, bus) \<Rightarrow> (new_event_callback i, w\<lparr>m_event_bus := bus\<rparr>))"

definition destroy_callback :: "event_callback \<Rightarrow> pool_world \<Rightarrow> pool_world" where
  "destroy_callback cb w = w\<lparr>m_event_bus := deregister_event_callback (m_id cb) (m_event_bus w)\<rparr>"

text \<open>Behind the wait: the callback goes out of scope, and the queue is not looked at again.\<close>

definition after_wait :: "handle \<Rightarrow> e_status outcome \<times> event_callback \<Rightarrow> pool_world \<Rightarrow> pool_world" where
  "after_wait h out w =
     (case out of
        (Suspended, cb) \<Rightarrow> set_getter h (Waiting cb) w
      | (Done _, cb) \<Rightarrow> take_idle h (destroy_callback cb w)
      | (Threw _, cb) \<Rightarrow> set_getter h Outside (destroy_callback cb w)
      | (Undefined, cb) \<Rightarrow> set_getter h Crashed w)"

definition get_connection :: "handle \<Rightarrow> pool_world \<Rightarrow> pool_world" where
  "get_connection h w =
     (let db = m_db w in
      if m_idle db = [] \<and> m_conn_count db < m_max_connections (m_config db) then set_getter h Connecting w
      else if m_idle db = []
      then (case get_event_callback h w of
              (callback, w1) \<Rightarrow>
                after_wait h (co_await h callback)
                  (set_db (db\<lparr>m_waiting := m_waiting db @ [m_id callback]\<rparr>) w1))
      else take_idle h w)"

text \<open>\<open>connect\<close> gives a socket or throws; then \<open>init\<close> returns or throws, which destroys the connection.\<close>

definition connected :: "handle \<Rightarrow> nat option \<Rightarrow> pool_world \<Rightarrow> pool_world" where
  "connected h answer w =
     (case answer of
        None \<Rightarrow> set_getter h Outside w
      | Some sock \<Rightarrow> (case construct_connection sock (m_db w) of
                       (conn, db) \<Rightarrow> set_getter h (Initializing conn) (set_db db w)))"

definition initialized :: "handle \<Rightarrow> pool_connection \<Rightarrow> bool \<Rightarrow> pool_world \<Rightarrow> pool_world" where
  "initialized h conn ok w =
     (if ok then (case move_connection (conn\<lparr>m_query_ready := True\<rparr>) of
                    (result, conn') \<Rightarrow> set_getter h (Holding result) (set_db (destroy_connection conn' (m_db w)) w))
      else set_getter h Outside (set_db (destroy_connection conn (m_db w)) w))"

text \<open>The client keeps the connection that it has given back, moved away, until it destroys it.\<close>

definition release :: "handle \<Rightarrow> pool_connection \<Rightarrow> pool_world \<Rightarrow> pool_world" where
  "release h conn w =
     (case move_connection conn of
        (queued, conn') \<Rightarrow>
          let db = m_db w; db1 = db\<lparr>m_idle := m_idle db @ [queued]\<rparr>; w1 = set_getter h (Holding conn') w in
          (case m_waiting db1 of
             [] \<Rightarrow> set_db db1 w1
           | i # rest \<Rightarrow> add_event \<lparr>ev_id = i, ev_status = 0\<rparr> (set_db (db1\<lparr>m_waiting := rest\<rparr>) w1)))"

definition drop_connection :: "handle \<Rightarrow> pool_connection \<Rightarrow> pool_world \<Rightarrow> pool_world" where
  "drop_connection h conn w = set_getter h Outside (set_db (destroy_connection conn (m_db w)) w)"

text \<open>An event that is delivered to a waiting client.\<close>

definition pool_notify :: "e_event \<Rightarrow> pool_world \<Rightarrow> pool_world" where
  "pool_notify ev w =
     (case bus_find (ev_id ev) (m_event_bus w) of
        None \<Rightarrow> w
      | Some h \<Rightarrow>
          (case m_getters w h of
             Waiting cb \<Rightarrow>
               (case cb_notify (ev_status ev) cb of
                  (None, cb') \<Rightarrow> set_getter h (Waiting cb') w
                | (Some h', cb') \<Rightarrow> after_wait h' (resumed cb') w)
           | _ \<Rightarrow> w))"

section \<open>Interleaving\<close>

primrec owned :: "getter \<Rightarrow> nat option" where
  "owned Outside = None"
| "owned Connecting = None"
| "owned (Initializing conn) = m_sock conn"
| "owned (Waiting cb) = None"
| "owned (Holding conn) = m_sock conn"
| "owned Crashed = None"

text \<open>The kernel gives a new connection a descriptor that is not in use.\<close>

definition unused :: "nat \<Rightarrow> pool_world \<Rightarrow> bool" where
  "unused sock w \<longleftrightarrow> (\<forall>h. owned (m_getters w h) \<noteq> Some sock) \<and> Some sock \<notin> set (map m_sock (m_idle (m_db w)))"

text \<open>
  Any client may ask for a connection at any time, fewer than \<open>2^64\<close> times; \<open>polite\<close> clients only do when no wake-up is
  under way. A client gives back only a connection that it has.
\<close>

inductive pool_step :: "bool \<Rightarrow> pool_world \<Rightarrow> pool_world \<Rightarrow> bool" for polite where
  get: "m_getters w h = Outside \<Longrightarrow> unat (m_id_counter (m_event_bus w)) + 1 < 2 ^ 64 \<Longrightarrow> polite \<longrightarrow> m_events w = []
    \<Longrightarrow> pool_step polite w (get_connection h w)"
| connect: "m_getters w h = Connecting \<Longrightarrow> pred_option (\<lambda>sock. unused sock w) answer
    \<Longrightarrow> pool_step polite w (connected h answer w)"
| initialize: "m_getters w h = Initializing conn \<Longrightarrow> pool_step polite w (initialized h conn ok w)"
| release: "m_getters w h = Holding conn \<Longrightarrow> m_sock conn \<noteq> None \<Longrightarrow> pool_step polite w (release h conn w)"
| drop: "m_getters w h = Holding conn \<Longrightarrow> pool_step polite w (drop_connection h conn w)"
| turn: "run_turn pool_notify (\<lambda>_. None) w = Some w' \<Longrightarrow> pool_step polite w w'"

inductive_cases pool_stepE: "pool_step polite w w'"

definition new_pool_world :: "pg_config \<Rightarrow> event_bus \<Rightarrow> pool_world" where
  "new_pool_world config bus =
     \<lparr>m_running = True, m_events = [], m_event_bus = bus, m_db = new_pg_database config, m_getters = (\<lambda>_. Outside)\<rparr>"

section \<open>Where the connections are\<close>

text \<open>Every connection is idle or has exactly one owner, and all of them are counted.\<close>

definition live :: "(handle \<Rightarrow> getter) \<Rightarrow> handle set" where
  "live g = {h. owned (g h) \<noteq> None}"

definition accounting :: "int \<Rightarrow> pool_connection list \<Rightarrow> (handle \<Rightarrow> getter) \<Rightarrow> bool" where
  "accounting n cs g \<longleftrightarrow> finite (live g) \<and> n = int (length cs) + int (card (live g))
     \<and> None \<notin> set (map m_sock cs) \<and> distinct (map m_sock cs)
     \<and> inj_on (\<lambda>h. owned (g h)) (live g) \<and> (\<lambda>h. owned (g h)) ` live g \<inter> set (map m_sock cs) = {}"

lemma live_upd: "live (g(h := x)) = (if owned x = None then live g - {h} else insert h (live g))"
  by (auto simp: live_def)

lemma accounting_new: "accounting 0 [] (\<lambda>_. Outside)"
  by (simp add: accounting_def live_def)

lemma accounting_same: "accounting n cs g \<Longrightarrow> owned x = owned (g h) \<Longrightarrow> accounting n cs (g(h := x))"
proof -
  assume a: "accounting n cs g" "owned x = owned (g h)"
  then have eq: "(\<lambda>k. owned ((g(h := x)) k)) = (\<lambda>k. owned (g k))" by auto
  then have l: "live (g(h := x)) = live g" by (simp add: live_def fun_eq_iff)
  show ?thesis using a(1) unfolding accounting_def l eq .
qed

lemma accounting_take:
  assumes "accounting n (c # cs) g" "owned (g h) = None" "owned x = m_sock c"
  shows "accounting n cs (g(h := x))"
proof -
  have h: "h \<notin> live g" using assms(2) by (simp add: live_def)
  have c: "m_sock c \<noteq> None" using assms(1) by (auto simp: accounting_def)
  have l: "live (g(h := x)) = insert h (live g)" using c assms(3) by (auto simp: live_upd)
  have "(\<lambda>k. owned ((g(h := x)) k)) ` live g = (\<lambda>k. owned (g k)) ` live g"
    using h by (intro image_cong) auto
  moreover have "inj_on (\<lambda>k. owned ((g(h := x)) k)) (live g) = inj_on (\<lambda>k. owned (g k)) (live g)"
    using h by (intro inj_on_cong) auto
  ultimately show ?thesis
    using assms(1,3) h unfolding accounting_def l by (auto simp: inj_on_insert)
qed

lemma accounting_open:
  assumes "accounting n cs g" "owned (g h) = None" "owned x = Some sock"
    and "\<forall>k. owned (g k) \<noteq> Some sock" "Some sock \<notin> set (map m_sock cs)"
  shows "accounting (n + 1) cs (g(h := x))"
proof -
  let ?c = "pg_connection.extend new_pg_connection \<lparr>m_sock = Some sock\<rparr>"
  have "m_sock ?c = Some sock" by (simp add: pg_connection.defs)
  moreover have "Some sock \<notin> (\<lambda>k. owned (g k)) ` live g" using assms(4) by (auto simp: eq_commute)
  ultimately have "accounting (n + 1) (?c # cs) g" using assms(1,5) by (auto simp: accounting_def)
  then show ?thesis by (rule accounting_take) (use assms(2,3) \<open>m_sock ?c = Some sock\<close> in simp_all)
qed

lemma accounting_close:
  assumes "accounting n cs g" "owned (g h) \<noteq> None" "owned x = None"
  shows "accounting (n - 1) cs (g(h := x))"
proof -
  have h: "h \<in> live g" using assms(2) by (simp add: live_def)
  have l: "live (g(h := x)) = live g - {h}" using assms(3) by (simp add: live_upd)
  have "(\<lambda>k. owned ((g(h := x)) k)) ` (live g - {h}) = (\<lambda>k. owned (g k)) ` (live g - {h})"
    by (intro image_cong) auto
  moreover have "inj_on (\<lambda>k. owned ((g(h := x)) k)) (live g - {h}) = inj_on (\<lambda>k. owned (g k)) (live g - {h})"
    by (intro inj_on_cong) auto
  moreover have "0 < card (live g)" using h assms(1) by (auto simp: accounting_def card_gt_0_iff)
  then have "int (card (live g - {h})) = int (card (live g)) - 1"
    using h by (simp add: card_Diff_singleton of_nat_diff)
  ultimately show ?thesis
    using assms(1) unfolding accounting_def l by (auto intro: inj_on_subset)
qed

lemma accounting_give:
  assumes "accounting n cs g" "owned (g h) = m_sock c" "m_sock c \<noteq> None" "owned x = None"
  shows "accounting n (cs @ [c]) (g(h := x))"
proof -
  have h: "h \<in> live g" using assms(2,3) by (simp add: live_def)
  have a: "accounting (n - 1) cs (g(h := x))" by (rule accounting_close [OF assms(1)]) (use assms in simp_all)
  have "m_sock c \<notin> (\<lambda>k. owned ((g(h := x)) k)) ` live (g(h := x))"
  proof
    assume "m_sock c \<in> (\<lambda>k. owned ((g(h := x)) k)) ` live (g(h := x))"
    then obtain k where k: "k \<in> live (g(h := x))" "m_sock c = owned ((g(h := x)) k)" by blast
    then have "k \<in> live g" "k \<noteq> h" "owned (g k) = owned (g h)"
      using assms(2,4) by (auto simp: live_upd)
    then show False using assms(1) h by (auto simp: accounting_def dest: inj_onD)
  qed
  moreover have "m_sock c \<notin> set (map m_sock cs)"
    using assms(1,2) h unfolding accounting_def by (metis (mono_tags, lifting) disjoint_iff image_eqI)
  ultimately show ?thesis using a assms(3) unfolding accounting_def by auto
qed

section \<open>Who waits\<close>

text \<open>
  Every waiting client has its own id, in the queue of the pool or in an event under way; nobody else has. While there
  is someone in the queue, every idle connection has a wake-up under way.
\<close>

definition wakes :: "e_event list \<Rightarrow> e_id list" where
  "wakes evs = map ev_id evs"

definition queueing :: "event_bus \<Rightarrow> e_id list \<Rightarrow> e_event list \<Rightarrow> nat \<Rightarrow> (handle \<Rightarrow> getter) \<Rightarrow> bool" where
  "queueing bus ws evs n g \<longleftrightarrow> bus_wf bus \<and> distinct (ws @ wakes evs)
     \<and> (\<forall>h cb. g h = Waiting cb \<longrightarrow> waiting h cb \<and> bus_find (m_id cb) bus = Some h \<and> m_id cb \<in> set (ws @ wakes evs))
     \<and> (\<forall>i \<in> set (ws @ wakes evs). \<exists>h cb. g h = Waiting cb \<and> m_id cb = i)
     \<and> (ws \<noteq> [] \<longrightarrow> n \<le> length evs)"

lemma queueingD:
  assumes "queueing bus ws evs n g"
  shows "bus_wf bus" "distinct (ws @ wakes evs)"
    "g h = Waiting cb \<Longrightarrow> waiting h cb" "g h = Waiting cb \<Longrightarrow> bus_find (m_id cb) bus = Some h"
    "g h = Waiting cb \<Longrightarrow> m_id cb \<in> set (ws @ wakes evs)"
    "i \<in> set (ws @ wakes evs) \<Longrightarrow> \<exists>h cb. g h = Waiting cb \<and> m_id cb = i"
    "ws \<noteq> [] \<Longrightarrow> n \<le> length evs"
  using assms by (simp_all add: queueing_def)

lemma queueingI:
  assumes "bus_wf bus" "distinct (ws @ wakes evs)"
    "\<And>h cb. g h = Waiting cb \<Longrightarrow> waiting h cb \<and> bus_find (m_id cb) bus = Some h \<and> m_id cb \<in> set (ws @ wakes evs)"
    "\<And>i. i \<in> set (ws @ wakes evs) \<Longrightarrow> \<exists>h cb. g h = Waiting cb \<and> m_id cb = i"
    "ws \<noteq> [] \<Longrightarrow> n \<le> length evs"
  shows "queueing bus ws evs n g"
  using assms by (simp add: queueing_def)

primrec waits :: "getter \<Rightarrow> bool" where
  "waits Outside = False" | "waits Connecting = False" | "waits (Initializing conn) = False"
| "waits (Waiting cb) = True" | "waits (Holding conn) = False" | "waits Crashed = False"

lemma waits_iff: "waits x \<longleftrightarrow> (\<exists>cb. x = Waiting cb)"
  by (cases x) simp_all

lemma queueing_same:
  assumes "queueing bus ws evs n g" "\<not> waits (g h)" "\<not> waits x" "m \<le> n \<or> ws = []"
  shows "queueing bus ws evs m (g(h := x))"
proof -
  have "(g(h := x)) k = Waiting cb \<longleftrightarrow> g k = Waiting cb" for k cb using assms(2,3) by (auto simp: waits_iff)
  then show ?thesis using assms(1,4) by (auto simp: queueing_def)
qed

lemma queueing_give:
  assumes "queueing bus (i # ws) evs n g" "\<not> waits (g h)" "\<not> waits x"
  shows "queueing bus ws (evs @ [\<lparr>ev_id = i, ev_status = st\<rparr>]) (Suc n) (g(h := x))"
proof -
  note q = queueingD [OF assms(1)]
  have w: "(g(h := x)) k = Waiting cb \<longleftrightarrow> g k = Waiting cb" for k cb using assms(2,3) by (auto simp: waits_iff)
  have e: "set (ws @ wakes (evs @ [\<lparr>ev_id = i, ev_status = st\<rparr>])) = set ((i # ws) @ wakes evs)"
    by (auto simp: wakes_def)
  have d: "distinct (ws @ wakes (evs @ [\<lparr>ev_id = i, ev_status = st\<rparr>]))"
    using q(2) by (simp add: wakes_def)
  show ?thesis
    by (rule queueingI, rule q(1), rule d) (use q(3-7) in \<open>simp_all only: w e list.simps length_append list.size simp_thms\<close>, simp)
qed

lemma queueing_wait:
  assumes "queueing bus ws evs n g" "\<not> waits (g h)" "unat (m_id_counter bus) + 1 < 2 ^ 64"
    and "register_event_callback h bus = (i, bus')" "waiting h cb" "m_id cb = i"
  shows "queueing bus' (ws @ [i]) evs 0 (g(h := Waiting cb))"
proof -
  note q = queueingD [OF assms(1)]
  note r = register_fresh [OF q(1) assms(3,4)]
  have new: "i \<notin> set (ws @ wakes evs)"
  proof
    assume "i \<in> set (ws @ wakes evs)"
    then obtain k c where "g k = Waiting c" "m_id c = i" using q(6) by blast
    then show False using q(4) r(1) by fastforce
  qed
  have set: "set ((ws @ [i]) @ wakes evs) = insert i (set (ws @ wakes evs))" by simp
  have other: "g k = Waiting c \<Longrightarrow> k \<noteq> h" for k c using assms(2) by (auto simp: waits_iff)
  show ?thesis
  proof (rule queueingI)
    show "bus_wf bus'" by (rule r(2))
    show "distinct ((ws @ [i]) @ wakes evs)" using new q(2) by auto
    fix k c assume k: "(g(h := Waiting cb)) k = Waiting c"
    show "waiting k c \<and> bus_find (m_id c) bus' = Some k \<and> m_id c \<in> set ((ws @ [i]) @ wakes evs)"
    proof (cases "k = h")
      case True
      then show ?thesis using k assms(5,6) by (simp add: r(5))
    next
      case False
      then have g: "g k = Waiting c" using k by simp
      then have "m_id c \<noteq> i" using q(5) new by blast
      then show ?thesis using q(3-5) [OF g] unfolding set r(5) by simp
    qed
  next
    fix j assume "j \<in> set ((ws @ [i]) @ wakes evs)"
    then consider "j = i" | "j \<in> set (ws @ wakes evs)" using set by blast
    then show "\<exists>k c. (g(h := Waiting cb)) k = Waiting c \<and> m_id c = j"
    proof cases
      case 1
      then show ?thesis using assms(6) by (intro exI [of _ h] exI [of _ cb]) simp
    next
      case 2
      then obtain k c where "g k = Waiting c" "m_id c = j" using q(6) by blast
      then show ?thesis using other by (intro exI [of _ k] exI [of _ c]) auto
    qed
  qed simp
qed

lemma queueing_wake:
  assumes "queueing bus ws (ev # evs) n g" "bus_find (ev_id ev) bus = Some h" "\<not> waits x" "m \<le> n - 1"
  shows "\<exists>cb. g h = Waiting cb \<and> waiting h cb \<and> m_id cb = ev_id ev
    \<and> queueing (deregister_event_callback (ev_id ev) bus) ws evs m (g(h := x))"
proof -
  note q = queueingD [OF assms(1)]
  have set: "set (ws @ wakes (ev # evs)) = insert (ev_id ev) (set (ws @ wakes evs))" by (simp add: wakes_def)
  have d: "ev_id ev \<notin> set (ws @ wakes evs)" "distinct (ws @ wakes evs)" using q(2) by (auto simp: wakes_def)
  obtain k cb where k: "g k = Waiting cb" "m_id cb = ev_id ev" using q(6) [of "ev_id ev"] set by blast
  have "k = h" using q(4) [OF k(1)] k(2) assms(2) by simp
  then have h: "g h = Waiting cb" "waiting h cb" using k(1) q(3) by simp_all
  have other: "(g(h := x)) j = Waiting c \<longleftrightarrow> j \<noteq> h \<and> g j = Waiting c" for j c using assms(3) by (auto simp: waits_iff)
  have ne: "m_id c \<noteq> ev_id ev" if "g j = Waiting c" "j \<noteq> h" for j c
    using that q(4) assms(2) by (metis option.inject)
  have "queueing (deregister_event_callback (ev_id ev) bus) ws evs m (g(h := x))"
  proof (rule queueingI)
    show "bus_wf (deregister_event_callback (ev_id ev) bus)" by (rule deregister_wf [OF q(1)])
    show "distinct (ws @ wakes evs)" by (rule d(2))
    fix j c assume "(g(h := x)) j = Waiting c"
    then have j: "j \<noteq> h" "g j = Waiting c" using other by blast+
    then have "m_id c \<in> set (ws @ wakes evs)" using q(5) set ne by blast
    then show "waiting j c \<and> bus_find (m_id c) (deregister_event_callback (ev_id ev) bus) = Some j \<and> m_id c \<in> set (ws @ wakes evs)"
      using q(3,4) [OF j(2)] ne [OF j(2,1)] by (simp only: deregister_find if_False simp_thms not_False_eq_True)
  next
    fix i assume i: "i \<in> set (ws @ wakes evs)"
    then obtain j c where j: "g j = Waiting c" "m_id c = i" using q(6) [of i] set by blast
    have "j \<noteq> h" using i d(1) j h(1) k(2) by auto
    then show "\<exists>j c. (g(h := x)) j = Waiting c \<and> m_id c = i" using j other by blast
  next
    assume "ws \<noteq> []"
    then show "m \<le> length evs" using q(7) assms(4) by simp
  qed
  then show ?thesis using h k(2) by blast
qed

section \<open>Every step keeps the invariant\<close>

definition pool_inv :: "pool_world \<Rightarrow> bool" where
  "pool_inv w \<longleftrightarrow> accounting (m_conn_count (m_db w)) (m_idle (m_db w)) (m_getters w)
     \<and> queueing (m_event_bus w) (m_waiting (m_db w)) (m_events w) (length (m_idle (m_db w))) (m_getters w)"

lemma take_idle_eq:
  "take_idle h w = (case m_idle (m_db w) of
     [] \<Rightarrow> set_getter h Crashed w
   | c # cs \<Rightarrow> set_getter h (Holding c) (set_db ((m_db w)\<lparr>m_idle := cs\<rparr>) w))"
  by (simp add: take_idle_def move_connection_def destroy_connection_def Let_def split: list.split)

lemma pool_inv_get:
  assumes "pool_inv w" "m_getters w h = Outside" "unat (m_id_counter (m_event_bus w)) + 1 < 2 ^ 64"
  shows "pool_inv (get_connection h w)"
proof (cases "m_idle (m_db w)")
  case Nil
  obtain i bus where r: "register_event_callback h (m_event_bus w) = (i, bus)" by fastforce
  let ?cb = "new_event_callback i\<lparr>m_suspended := store_handle h (m_suspended (new_event_callback i))\<rparr>"
  have cb: "co_await h (new_event_callback i) = (Suspended, ?cb)" "waiting h ?cb" "m_id ?cb = i"
    by (simp_all add: co_await_eq waiting_def) (simp_all add: new_event_callback_def new_suspended_coro_def)
  have out: "owned (m_getters w h) = None" "\<not> waits (m_getters w h)" by (simp_all add: assms(2))
  have q: "queueing (m_event_bus w) (m_waiting (m_db w)) (m_events w) (length (m_idle (m_db w))) (m_getters w)"
    and a: "accounting (m_conn_count (m_db w)) (m_idle (m_db w)) (m_getters w)"
    using assms(1) by (simp_all add: pool_inv_def)
  note wait = queueing_wait [OF q out(2) assms(3) r cb(2,3)]
  have "m_id (new_event_callback i) = i" by (simp add: new_event_callback_def)
  then show ?thesis
    using Nil out accounting_same [OF a, of _ h] queueing_same [OF q, of h Connecting] wait
    by (simp add: get_connection_def get_event_callback_def r cb(1) after_wait_def pool_inv_def set_getter_def set_db_def Let_def)
next
  case (Cons c cs)
  then show ?thesis
    using assms(1,2) accounting_take [of _ c cs "m_getters w" h "Holding c"]
      queueing_same [of "m_event_bus w" _ _ "Suc (length cs)" "m_getters w" h "Holding c" "length cs"]
    by (simp add: get_connection_def take_idle_eq pool_inv_def set_getter_def set_db_def)
qed

lemma pool_inv_connected:
  assumes "pool_inv w" "m_getters w h = Connecting" "pred_option (\<lambda>sock. unused sock w) answer"
  shows "pool_inv (connected h answer w)"
proof (cases answer)
  case None
  then show ?thesis
    using assms(1,2) by (auto simp: connected_def pool_inv_def set_getter_def intro: accounting_same queueing_same)
next
  case (Some sock)
  let ?c = "pg_connection.extend new_pg_connection \<lparr>m_sock = Some sock\<rparr>"
  have "m_sock ?c = Some sock" by (simp add: pg_connection.defs)
  then show ?thesis
    using assms Some accounting_open [of _ "m_idle (m_db w)" "m_getters w" h "Initializing ?c" sock]
    by (auto simp: connected_def construct_connection_def pool_inv_def set_getter_def set_db_def unused_def
        intro: queueing_same)
qed

lemma pool_inv_destroyed:
  assumes "pool_inv w" "owned (m_getters w h) = m_sock conn" "\<not> waits (m_getters w h)"
  shows "pool_inv (set_getter h Outside (set_db (destroy_connection conn (m_db w)) w))"
proof (cases "m_sock conn")
  case None
  then show ?thesis
    using assms by (auto simp: destroy_connection_def pool_inv_def set_getter_def set_db_def intro: accounting_same queueing_same)
next
  case (Some sock)
  then show ?thesis
    using assms accounting_close [of _ "m_idle (m_db w)" "m_getters w" h Outside]
    by (auto simp: destroy_connection_def pool_inv_def set_getter_def set_db_def intro: queueing_same)
qed

lemma pool_inv_initialized:
  assumes "pool_inv w" "m_getters w h = Initializing conn"
  shows "pool_inv (initialized h conn ok w)"
proof (cases ok)
  case True
  then show ?thesis
    using assms by (auto simp: initialized_def move_connection_def destroy_connection_def pool_inv_def set_getter_def set_db_def
        intro: accounting_same queueing_same)
next
  case False
  then show ?thesis using pool_inv_destroyed [OF assms(1), of h conn] assms(2) by (simp add: initialized_def)
qed

lemma pool_inv_release:
  assumes "pool_inv w" "m_getters w h = Holding conn" "m_sock conn \<noteq> None"
  shows "pool_inv (release h conn w)"
proof -
  let ?x = "Holding (conn\<lparr>m_sock := None\<rparr>)"
  have a: "accounting (m_conn_count (m_db w)) (m_idle (m_db w) @ [conn]) ((m_getters w)(h := ?x))"
    by (rule accounting_give) (use assms in \<open>simp_all add: pool_inv_def\<close>)
  have q: "queueing (m_event_bus w) (m_waiting (m_db w)) (m_events w) (length (m_idle (m_db w))) (m_getters w)"
    using assms(1) by (simp add: pool_inv_def)
  show ?thesis
  proof (cases "m_waiting (m_db w)")
    case Nil
    then show ?thesis
      using a queueing_same [OF q, of h ?x] assms(2)
      by (simp add: release_def move_connection_def pool_inv_def set_getter_def set_db_def Let_def)
  next
    case (Cons i ws)
    then show ?thesis
      using a queueing_give [OF q [unfolded Cons], of h ?x] assms(2)
      by (simp add: release_def move_connection_def pool_inv_def set_getter_def set_db_def add_event_def Let_def)
  qed
qed

text \<open>What an event under way does: exactly the coroutine that waits for it goes on, and takes what is idle.\<close>

lemma pool_turn:
  assumes "pool_inv w" "run_turn pool_notify (\<lambda>_. None) w = Some w'"
  obtains ev evs h where "m_events w = ev # evs" "waits (m_getters w h)"
    "w' = take_idle h (w\<lparr>m_events := evs, m_event_bus := deregister_event_callback (ev_id ev) (m_event_bus w)\<rparr>)"
    "bus_find (ev_id ev) (m_event_bus w) = Some h"
proof -
  obtain ev evs where e: "m_events w = ev # evs" and w': "w' = pool_notify ev (w\<lparr>m_events := evs\<rparr>)"
    using assms(2) by (auto simp: run_turn_def split: list.splits)
  have q: "queueing (m_event_bus w) (m_waiting (m_db w)) (ev # evs) (length (m_idle (m_db w))) (m_getters w)"
    using assms(1) e by (simp add: pool_inv_def)
  note q = queueingD [OF q]
  have "ev_id ev \<in> set (m_waiting (m_db w) @ wakes (ev # evs))" by (simp add: wakes_def)
  from q(6) [OF this] obtain h cb where h: "m_getters w h = Waiting cb" "m_id cb = ev_id ev" by blast
  have b: "bus_find (ev_id ev) (m_event_bus w) = Some h" "waiting h cb" using q(3,4) [OF h(1)] h(2) by simp_all
  have "w' = take_idle h (w\<lparr>m_events := evs, m_event_bus := deregister_event_callback (ev_id ev) (m_event_bus w)\<rparr>)"
    using w' b h by (simp add: pool_notify_def cb_notify_eq waiting_def resumed_eq after_wait_def destroy_callback_def)
  with e h(1) b(1) show thesis by (intro that) simp_all
qed

lemma pool_inv_turn:
  assumes "pool_inv w" "run_turn pool_notify (\<lambda>_. None) w = Some w'"
  shows "pool_inv w'"
proof -
  obtain ev evs h where e: "m_events w = ev # evs" "waits (m_getters w h)"
      "w' = take_idle h (w\<lparr>m_events := evs, m_event_bus := deregister_event_callback (ev_id ev) (m_event_bus w)\<rparr>)"
      "bus_find (ev_id ev) (m_event_bus w) = Some h"
    by (rule pool_turn [OF assms])
  have q: "queueing (m_event_bus w) (m_waiting (m_db w)) (ev # evs) (length (m_idle (m_db w))) (m_getters w)"
    using assms(1) e(1) by (simp add: pool_inv_def)
  have o: "owned (m_getters w h) = None" using e(2) by (auto simp: waits_iff)
  show ?thesis
  proof (cases "m_idle (m_db w)")
    case Nil
    then show ?thesis
      using assms(1) o queueing_wake [OF q e(4), of Crashed 0] accounting_same [of _ "[]" "m_getters w" Crashed h]
      by (auto simp: e(3) take_idle_eq pool_inv_def set_getter_def)
  next
    case (Cons c cs)
    then show ?thesis
      using assms(1) o queueing_wake [OF q e(4), of "Holding c" "length cs"] accounting_take [of _ c cs "m_getters w" h "Holding c"]
      by (auto simp: e(3) take_idle_eq pool_inv_def set_getter_def set_db_def)
  qed
qed

lemma pool_inv_step: "pool_step polite w w' \<Longrightarrow> pool_inv w \<Longrightarrow> pool_inv w'"
proof (induction rule: pool_step.induct)
  case (drop w h conn)
  then show ?case using pool_inv_destroyed [of w h conn] by (simp add: drop_connection_def)
qed (blast intro: pool_inv_get pool_inv_connected pool_inv_initialized pool_inv_release pool_inv_turn)+

lemma pool_inv_new: "bus_wf bus \<Longrightarrow> pool_inv (new_pool_world config bus)"
  by (simp add: pool_inv_def new_pool_world_def new_pg_database_def accounting_new queueing_def wakes_def)

lemma pool_inv_reachable:
  assumes "(pool_step polite)\<^sup>*\<^sup>* (new_pool_world config bus) w" "bus_wf bus"
  shows "pool_inv w"
  using assms(1) by (induction rule: rtranclp_induct) (auto intro: pool_inv_new [OF assms(2)] pool_inv_step)

text \<open>Among polite clients every wake-up finds a connection.\<close>

definition served :: "pool_world \<Rightarrow> bool" where
  "served w \<longleftrightarrow> length (m_events w) \<le> length (m_idle (m_db w)) \<and> (\<forall>h. m_getters w h \<noteq> Crashed)"

lemma served_get:
  assumes "served w" "m_events w = []"
  shows "served (get_connection h w)"
proof (cases "m_idle (m_db w)")
  case Nil
  obtain i bus where r: "register_event_callback h (m_event_bus w) = (i, bus)" by fastforce
  have "\<not> m_stored (m_suspended (new_event_callback i))" "m_status_opt (new_event_callback i) = None"
    by (simp_all add: new_event_callback_def new_suspended_coro_def)
  then show ?thesis
    using assms Nil
    by (simp add: get_connection_def get_event_callback_def r co_await_eq after_wait_def served_def set_getter_def set_db_def Let_def)
next
  case (Cons c cs)
  then show ?thesis
    using assms by (simp add: get_connection_def take_idle_eq served_def set_getter_def set_db_def)
qed

lemma served_turn:
  assumes "pool_inv w" "served w" "run_turn pool_notify (\<lambda>_. None) w = Some w'"
  shows "served w'"
proof -
  obtain ev evs h where e: "m_events w = ev # evs" "waits (m_getters w h)"
      "w' = take_idle h (w\<lparr>m_events := evs, m_event_bus := deregister_event_callback (ev_id ev) (m_event_bus w)\<rparr>)"
    by (rule pool_turn [OF assms(1,3)])
  obtain c cs where "m_idle (m_db w) = c # cs"
    using assms(2) e(1) by (cases "m_idle (m_db w)") (auto simp: served_def)
  then show ?thesis using assms(2) e(1) by (simp add: e(3) take_idle_eq served_def set_getter_def set_db_def)
qed

lemma served_step:
  assumes "pool_step True w w'" "pool_inv w" "served w"
  shows "served w'"
  using assms
proof (induction rule: pool_step.induct)
  case (get w h)
  then show ?case by (intro served_get) simp_all
next
  case (connect w h answer)
  then show ?case
    by (cases answer) (simp_all add: served_def connected_def construct_connection_def set_getter_def set_db_def)
next
  case (initialize w h conn ok)
  then show ?case
    by (cases ok) (simp_all add: served_def initialized_def move_connection_def destroy_connection_def set_getter_def set_db_def)
next
  case (release w h conn)
  then show ?case
    by (cases "m_waiting (m_db w)")
      (simp_all add: served_def release_def move_connection_def set_getter_def set_db_def add_event_def Let_def)
next
  case (drop w h conn)
  then show ?case
    by (cases "m_sock conn") (simp_all add: served_def drop_connection_def destroy_connection_def set_getter_def set_db_def)
next
  case (turn w w')
  show ?case by (rule served_turn [OF turn(2,3,1)])
qed

lemma served_reachable:
  assumes "(pool_step True)\<^sup>*\<^sup>* (new_pool_world config bus) w" "bus_wf bus"
  shows "pool_inv w \<and> served w"
  using assms(1)
proof (induction rule: rtranclp_induct)
  case base
  then show ?case using pool_inv_new [OF assms(2)] by (simp add: served_def new_pool_world_def)
next
  case (step w w')
  then show ?case using pool_inv_step [OF step.hyps(2)] served_step [OF step.hyps(2)] by simp
qed

section \<open>Histories\<close>

text \<open>One client that has got the only connection, and a second one that waits.\<close>

definition opened :: "nat \<Rightarrow> pool_connection" where
  "opened sock = (pg_connection.extend new_pg_connection \<lparr>m_sock = Some sock\<rparr>)\<lparr>m_query_ready := True\<rparr>"

lemma m_sock_opened [simp]: "m_sock (opened sock) = Some sock"
  by (simp add: opened_def pg_connection.defs)

definition pool_state :: "pg_config \<Rightarrow> event_bus \<Rightarrow> int \<Rightarrow> pool_connection list \<Rightarrow> e_id list \<Rightarrow> e_event list
    \<Rightarrow> (handle \<Rightarrow> getter) \<Rightarrow> pool_world" where
  "pool_state config bus n cs ws evs g =
     \<lparr>m_running = True, m_events = evs, m_event_bus = bus,
      m_db = \<lparr>m_config = config, m_conn_count = n, m_idle = cs, m_waiting = ws\<rparr>, m_getters = g\<rparr>"

lemma new_pool_state: "new_pool_world config bus = pool_state config bus 0 [] [] [] (\<lambda>_. Outside)"
  by (simp add: new_pool_world_def pool_state_def new_pg_database_def)

lemma step_connect:
  assumes "g h = Outside" "n < m_max_connections config" "unat (m_id_counter bus) + 1 < 2 ^ 64" "evs = []"
  shows "pool_step polite (pool_state config bus n [] ws evs g) (pool_state config bus n [] ws evs (g(h := Connecting)))"
  using pool_step.get [of "pool_state config bus n [] ws evs g" h polite] assms
  by (simp add: pool_state_def get_connection_def set_getter_def Let_def)

lemma step_connected:
  assumes "g h = Connecting" "\<forall>k. owned (g k) \<noteq> Some sock" "Some sock \<notin> set (map m_sock cs)"
  shows "(pool_step polite)\<^sup>*\<^sup>* (pool_state config bus n cs ws evs g) (pool_state config bus (n + 1) cs ws evs (g(h := Holding (opened sock))))"
proof -
  let ?w = "pool_state config bus n cs ws evs g"
  let ?c = "pg_connection.extend new_pg_connection \<lparr>m_sock = Some sock\<rparr>"
  have w: "m_getters ?w = g" "m_idle (m_db ?w) = cs" by (simp_all add: pool_state_def)
  have "unused sock ?w" using assms(2,3) unfolding unused_def w by blast
  then have "pool_step polite ?w (connected h (Some sock) ?w)"
    by (intro pool_step.connect) (simp_all add: w assms(1))
  moreover have "connected h (Some sock) ?w = pool_state config bus (n + 1) cs ws evs (g(h := Initializing ?c))"
    by (simp add: connected_def construct_connection_def pool_state_def set_getter_def set_db_def)
  moreover have "pool_step polite (pool_state config bus (n + 1) cs ws evs (g(h := Initializing ?c)))
      (initialized h ?c True (pool_state config bus (n + 1) cs ws evs (g(h := Initializing ?c))))"
    by (rule pool_step.initialize) (simp add: pool_state_def)
  moreover have "initialized h ?c True (pool_state config bus (n + 1) cs ws evs (g(h := Initializing ?c)))
      = pool_state config bus (n + 1) cs ws evs (g(h := Holding (opened sock)))"
    by (simp add: initialized_def move_connection_def destroy_connection_def pool_state_def set_getter_def set_db_def opened_def)
  ultimately show ?thesis by (metis converse_rtranclp_into_rtranclp r_into_rtranclp)
qed

lemma step_wait:
  assumes "g h = Outside" "m_max_connections config \<le> n" "unat (m_id_counter bus) + 1 < 2 ^ 64" "evs = []"
    and "register_event_callback h bus = (i, bus')"
  obtains cb where "waiting h cb" "m_id cb = i"
    "pool_step polite (pool_state config bus n [] ws evs g) (pool_state config bus' n [] (ws @ [i]) evs (g(h := Waiting cb)))"
proof -
  let ?cb = "new_event_callback i\<lparr>m_suspended := store_handle h (m_suspended (new_event_callback i))\<rparr>"
  have cb: "co_await h (new_event_callback i) = (Suspended, ?cb)" "waiting h ?cb" "m_id ?cb = i" "m_id (new_event_callback i) = i"
    by (simp_all add: co_await_eq waiting_def) (simp_all add: new_event_callback_def new_suspended_coro_def)
  let ?w = "pool_state config bus n [] ws evs g"
  have "get_connection h ?w = pool_state config bus' n [] (ws @ [i]) evs (g(h := Waiting ?cb))"
    using assms(2) by (simp add: get_connection_def get_event_callback_def pool_state_def assms(5) cb(1,4) after_wait_def
        set_getter_def set_db_def Let_def)
  moreover have "pool_step polite ?w (get_connection h ?w)"
    by (rule pool_step.get) (use assms in \<open>simp_all add: pool_state_def\<close>)
  ultimately show thesis using that cb(2,3) by metis
qed

lemma step_release:
  assumes "g h = Holding conn" "m_sock conn \<noteq> None"
  shows "pool_step polite (pool_state config bus n cs (i # ws) evs g)
    (pool_state config bus n (cs @ [conn]) ws (evs @ [\<lparr>ev_id = i, ev_status = 0\<rparr>]) (g(h := Holding (conn\<lparr>m_sock := None\<rparr>))))"
  using pool_step.release [of "pool_state config bus n cs (i # ws) evs g" h conn polite] assms
  by (simp add: pool_state_def release_def move_connection_def set_getter_def set_db_def add_event_def Let_def)

lemma step_take:
  assumes "g h = Outside" "unat (m_id_counter bus) + 1 < 2 ^ 64"
  shows "pool_step False (pool_state config bus n (c # cs) ws evs g) (pool_state config bus n cs ws evs (g(h := Holding c)))"
  using pool_step.get [of "pool_state config bus n (c # cs) ws evs g" h False] assms
  by (simp add: pool_state_def get_connection_def take_idle_eq set_getter_def set_db_def Let_def)

lemma step_drop:
  assumes "g h = Holding conn" "m_sock conn \<noteq> None"
  shows "pool_step polite (pool_state config bus n cs ws evs g) (pool_state config bus (n - 1) cs ws evs (g(h := Outside)))"
  using pool_step.drop [of "pool_state config bus n cs ws evs g" h conn polite] assms
  by (simp add: pool_state_def drop_connection_def destroy_connection_def set_getter_def set_db_def)

section \<open>Properties\<close>

text \<open>
  C7: whatever the clients, the kernel and the event loop do, the count of the pool is the number of connections that are
  idle or have an owner; every idle connection has a socket of its own, and no connection is owned by two clients, or owned
  and idle.
\<close>

theorem pool_accounts_connections:
  assumes "(pool_step polite)\<^sup>*\<^sup>* (new_pool_world config bus) w" "bus_wf bus"
  shows "m_conn_count (m_db w) = int (length (m_idle (m_db w))) + int (card {h. owned (m_getters w h) \<noteq> None})
    \<and> None \<notin> set (map m_sock (m_idle (m_db w))) \<and> distinct (map m_sock (m_idle (m_db w)))
    \<and> (\<forall>h h' sock. owned (m_getters w h) = Some sock
        \<longrightarrow> Some sock \<notin> set (map m_sock (m_idle (m_db w))) \<and> (owned (m_getters w h') = Some sock \<longrightarrow> h' = h))"
proof -
  have a: "accounting (m_conn_count (m_db w)) (m_idle (m_db w)) (m_getters w)"
    using pool_inv_reachable [OF assms] by (simp add: pool_inv_def)
  have "Some sock \<notin> set (map m_sock (m_idle (m_db w)))" if "owned (m_getters w h) = Some sock" for h sock
    using a that unfolding accounting_def live_def
    by (metis (mono_tags, lifting) disjoint_iff image_eqI mem_Collect_eq option.distinct(1))
  moreover have "h' = h" if "owned (m_getters w h) = Some sock" "owned (m_getters w h') = Some sock" for h h' sock
  proof -
    have "inj_on (\<lambda>h. owned (m_getters w h)) (live (m_getters w))" using a by (simp add: accounting_def)
    then show ?thesis by (rule inj_onD) (use that in \<open>simp_all add: live_def\<close>)
  qed
  ultimately show ?thesis using a unfolding accounting_def live_def by blast
qed

text \<open>
  C21: no wake-up is lost: every waiting client is in the queue of the pool, or the event that resumes it is under way, and
  while there is someone in the queue there are no more idle connections than events under way.
\<close>

theorem pool_no_lost_wakeup:
  assumes "(pool_step polite)\<^sup>*\<^sup>* (new_pool_world config bus) w" "bus_wf bus"
  shows "(\<forall>h cb. m_getters w h = Waiting cb
        \<longrightarrow> m_id cb \<in> set (m_waiting (m_db w)) \<or> (\<exists>ev \<in> set (m_events w). ev_id ev = m_id cb \<and> bus_find (m_id cb) (m_event_bus w) = Some h))
    \<and> (m_waiting (m_db w) \<noteq> [] \<longrightarrow> length (m_idle (m_db w)) \<le> length (m_events w))"
proof -
  have "queueing (m_event_bus w) (m_waiting (m_db w)) (m_events w) (length (m_idle (m_db w))) (m_getters w)"
    using pool_inv_reachable [OF assms] by (simp add: pool_inv_def)
  note q = queueingD [OF this]
  have "m_id cb \<in> set (m_waiting (m_db w)) \<or> (\<exists>ev \<in> set (m_events w). ev_id ev = m_id cb \<and> bus_find (m_id cb) (m_event_bus w) = Some h)"
    if "m_getters w h = Waiting cb" for h cb
    using q(4,5) [OF that] by (auto simp: wakes_def)
  then show ?thesis using q(7) by blast
qed

theorem pool_no_lost_wakeup_witness:
  "\<exists>w cb. (pool_step False)\<^sup>*\<^sup>* (new_pool_world \<lparr>m_user = ''u'', m_password = [], m_database = [], m_max_connections = 0\<rparr> new_event_bus) w
    \<and> m_getters w 3 = Waiting cb \<and> m_id cb \<in> set (m_waiting (m_db w))"
proof -
  let ?config = "\<lparr>m_user = ''u'', m_password = [], m_database = [], m_max_connections = 0\<rparr>"
  have r: "register_event_callback 3 new_event_bus = (1, snd (register_event_callback 3 new_event_bus))"
    by (simp add: register_event_callback_def new_event_bus_def Let_def)
  obtain cb where cb: "pool_step False (pool_state ?config new_event_bus 0 [] [] [] (\<lambda>_. Outside))
      (pool_state ?config (snd (register_event_callback 3 new_event_bus)) 0 [] ([] @ [1]) [] ((\<lambda>_. Outside)(3 := Waiting cb)))"
    by (rule step_wait [OF _ _ _ refl r, of "\<lambda>_. Outside" ?config 0 False "[]"]) (simp_all add: new_event_bus_def)
  let ?w = "pool_state ?config (snd (register_event_callback 3 new_event_bus)) 0 [] ([] @ [1]) [] ((\<lambda>_. Outside)(3 := Waiting cb))"
  have "(pool_step False)\<^sup>*\<^sup>* (new_pool_world ?config new_event_bus) ?w"
    unfolding new_pool_state using cb by (rule r_into_rtranclp)
  moreover have "m_getters ?w 3 = Waiting cb" "m_events ?w = []" by (simp_all add: pool_state_def)
  moreover from this have "m_id cb \<in> set (m_waiting (m_db ?w))"
    using pool_no_lost_wakeup [OF calculation(1) bus_wf_new] by fastforce
  ultimately show ?thesis by blast
qed

text \<open>
  as long as clients only ask for a connection when no wake-up is under way, no client takes from an empty queue, and
  there is an idle connection for every event under way.
\<close>

theorem pool_polite_clients_safe:
  assumes "(pool_step True)\<^sup>*\<^sup>* (new_pool_world config bus) w" "bus_wf bus"
  shows "m_getters w h \<noteq> Crashed \<and> length (m_events w) \<le> length (m_idle (m_db w))"
  using served_reachable [OF assms] by (simp add: served_def)

theorem pool_accounts_connections_witness:
  "\<exists>w. (pool_step False)\<^sup>*\<^sup>* (new_pool_world \<lparr>m_user = ''u'', m_password = [], m_database = [], m_max_connections = 1\<rparr> new_event_bus) w
    \<and> m_conn_count (m_db w) = 1 \<and> card {h. owned (m_getters w h) \<noteq> None} = 1"
proof -
  let ?config = "\<lparr>m_user = ''u'', m_password = [], m_database = [], m_max_connections = 1\<rparr>"
  let ?w = "pool_state ?config new_event_bus (0 + 1) [] [] [] ((\<lambda>_. Outside)(5 := Connecting, 5 := Holding (opened 9)))"
  have "(pool_step False)\<^sup>*\<^sup>* (new_pool_world ?config new_event_bus) ?w"
    unfolding new_pool_state
    by (rule converse_rtranclp_into_rtranclp [OF step_connect step_connected]) (simp_all add: new_event_bus_def)
  from this pool_accounts_connections [OF this bus_wf_new, THEN conjunct1] show ?thesis
    by (intro exI [of _ ?w]) (simp add: pool_state_def)
qed

theorem pool_polite_clients_safe_witness:
  "\<exists>w. (pool_step True)\<^sup>*\<^sup>* (new_pool_world \<lparr>m_user = ''u'', m_password = [], m_database = [], m_max_connections = 1\<rparr> new_event_bus) w
    \<and> m_conn_count (m_db w) = 1 \<and> m_getters w 5 \<noteq> Crashed"
proof -
  let ?config = "\<lparr>m_user = ''u'', m_password = [], m_database = [], m_max_connections = 1\<rparr>"
  let ?w = "pool_state ?config new_event_bus (0 + 1) [] [] [] ((\<lambda>_. Outside)(5 := Connecting, 5 := Holding (opened 9)))"
  have "(pool_step True)\<^sup>*\<^sup>* (new_pool_world ?config new_event_bus) ?w"
    unfolding new_pool_state
    by (rule converse_rtranclp_into_rtranclp [OF step_connect step_connected]) (simp_all add: new_event_bus_def)
  from this pool_polite_clients_safe [OF this bus_wf_new, of 5] show ?thesis
    by (intro exI [of _ ?w]) (simp add: pool_state_def)
qed

text \<open>
  the queue is not looked at again behind the wait, so a client that asks between a release and the turn of the loop that
  resumes a waiting client takes the connection away from it, and the waiting client takes from an empty queue.
\<close>

theorem pool_barging_crashes:
  assumes "m_max_connections config = 1" "bus_wf bus" "unat (m_id_counter bus) + 2 < 2 ^ 64" "distinct [h1, h2, h3]"
  shows "\<exists>w. (pool_step False)\<^sup>*\<^sup>* (new_pool_world config bus) w \<and> m_getters w h2 = Crashed"
proof -
  obtain i bus' where r: "register_event_callback h2 bus = (i, bus')" by fastforce
  have lt: "unat (m_id_counter bus) + 1 < 2 ^ 64" using assms(3) by simp
  note f = register_fresh [OF assms(2) lt r]
  have lt': "unat (m_id_counter bus') + 1 < 2 ^ 64" using assms(3) f(3,4) by simp
  let ?c = "opened 0"
  let ?g1 = "(\<lambda>_. Outside)(h1 := Connecting, h1 := Holding ?c)"
  let ?w1 = "pool_state config bus (0 + 1) [] [] [] ?g1"
  have w1: "(pool_step False)\<^sup>*\<^sup>* (new_pool_world config bus) ?w1"
    unfolding new_pool_state
    by (rule converse_rtranclp_into_rtranclp [OF step_connect step_connected]) (use assms(1) lt in simp_all)
  obtain cb where cb: "waiting h2 cb" "m_id cb = i"
      "pool_step False ?w1 (pool_state config bus' (0 + 1) [] ([] @ [i]) [] (?g1(h2 := Waiting cb)))"
    by (rule step_wait [of ?g1 h2 config "0 + 1" bus "[]" i bus' False "[]"]) (use assms(1,4) lt r in simp_all)
  let ?g3 = "?g1(h2 := Waiting cb, h1 := Holding (?c\<lparr>m_sock := None\<rparr>))"
  let ?ev = "\<lparr>ev_id = i, ev_status = 0\<rparr>"
  let ?w3 = "pool_state config bus' 1 [?c] [] [?ev] ?g3"
  have "pool_step False (pool_state config bus' 1 [] [i] [] (?g1(h2 := Waiting cb))) ?w3"
    using step_release [of "?g1(h2 := Waiting cb)" h1 ?c False config bus' 1 "[]" i "[]" "[]"] assms(4) by simp
  then have w3: "(pool_step False)\<^sup>*\<^sup>* (new_pool_world config bus) ?w3"
    using w1 cb(3) by (simp add: rtranclp.rtrancl_into_rtrancl)
  let ?w4 = "pool_state config bus' 1 [] [] [?ev] (?g3(h3 := Holding ?c))"
  have "pool_step False ?w3 ?w4"
    by (rule step_take) (use assms(4) lt' in simp_all)
  then have w4: "(pool_step False)\<^sup>*\<^sup>* (new_pool_world config bus) ?w4"
    using w3 by (rule rtranclp.rtrancl_into_rtrancl [rotated])
  let ?w5 = "take_idle h2 (pool_state config (deregister_event_callback i bus') 1 [] [] [] (?g3(h3 := Holding ?c)))"
  have "run_turn pool_notify (\<lambda>_. None) ?w4 = Some ?w5"
    using cb(1,2) assms(4) f(5) [of i]
    by (simp add: run_turn_def pool_notify_def pool_state_def cb_notify_eq waiting_def resumed_eq after_wait_def destroy_callback_def)
  then have "(pool_step False)\<^sup>*\<^sup>* (new_pool_world config bus) ?w5"
    using w4 pool_step.turn by (metis rtranclp.rtrancl_into_rtrancl)
  moreover have "m_getters ?w5 h2 = Crashed"
    by (simp add: take_idle_eq pool_state_def set_getter_def)
  ultimately show ?thesis by blast
qed

theorem pool_barging_crashes_witness:
  "\<exists>w. (pool_step False)\<^sup>*\<^sup>* (new_pool_world \<lparr>m_user = ''u'', m_password = [], m_database = [], m_max_connections = 1\<rparr> new_event_bus) w
    \<and> m_getters w 2 = Crashed"
  by (rule pool_barging_crashes [of _ new_event_bus 1 2 3]) (simp_all, simp add: new_event_bus_def)

text \<open>
  the limit of the configuration does not bound the number of connections: the count goes up only when a connection has been
  established, so that any number of clients may begin to connect before the first one has, and with any limit
  above zero, the pool may come to have any number of connections.
\<close>

theorem pool_limit_exceeded:
  assumes "0 < m_max_connections config" "unat (m_id_counter bus) + 1 < 2 ^ 64"
  shows "\<exists>w. (pool_step polite)\<^sup>*\<^sup>* (new_pool_world config bus) w \<and> m_conn_count (m_db w) = int n
    \<and> (\<forall>h < n. \<exists>conn. m_getters w h = Holding conn \<and> m_query_ready conn)"
proof -
  let ?connecting = "\<lambda>k h. if h < k then Connecting else Outside"
  let ?holding = "\<lambda>k h. if h < k then Holding (opened h) else ?connecting n h"
  have upd: "(?connecting k)(k := Connecting) = ?connecting (Suc k)" for k by auto
  have many: "(pool_step polite)\<^sup>*\<^sup>* (new_pool_world config bus) (pool_state config bus 0 [] [] [] (?connecting k))" for k
  proof (induction k)
    case 0
    then show ?case by (simp add: new_pool_state)
  next
    case (Suc k)
    have "pool_step polite (pool_state config bus 0 [] [] [] (?connecting k)) (pool_state config bus 0 [] [] [] ((?connecting k)(k := Connecting)))"
      by (rule step_connect) (use assms in simp_all)
    with Suc show ?case unfolding upd by (rule rtranclp.rtrancl_into_rtrancl)
  qed
  have upd': "(?holding k)(k := Holding (opened k)) = ?holding (Suc k)" for k by auto
  have "(pool_step polite)\<^sup>*\<^sup>* (new_pool_world config bus) (pool_state config bus (int k) [] [] [] (?holding k))" if "k \<le> n" for k
    using that
  proof (induction k)
    case 0
    then show ?case using many [of n] by simp
  next
    case (Suc k)
    have "owned (?holding k h) \<noteq> Some k" for h by simp
    then have "(pool_step polite)\<^sup>*\<^sup>* (pool_state config bus (int k) [] [] [] (?holding k))
        (pool_state config bus (int k + 1) [] [] [] ((?holding k)(k := Holding (opened k))))"
      by (intro step_connected) (use Suc.prems in simp_all)
    moreover have "int k + 1 = int (Suc k)" by simp
    ultimately have "(pool_step polite)\<^sup>*\<^sup>* (pool_state config bus (int k) [] [] [] (?holding k))
        (pool_state config bus (int (Suc k)) [] [] [] (?holding (Suc k)))"
      by (simp only: upd')
    with Suc.IH [OF Suc_leD [OF Suc.prems]] show ?case by (rule rtranclp_trans)
  qed
  from this [of n] show ?thesis
    by (intro exI [of _ "pool_state config bus (int n) [] [] [] (?holding n)"]) (simp add: pool_state_def opened_def)
qed

theorem pool_limit_exceeded_witness:
  "\<exists>w. (pool_step True)\<^sup>*\<^sup>* (new_pool_world \<lparr>m_user = ''u'', m_password = [], m_database = [], m_max_connections = 1\<rparr> new_event_bus) w
    \<and> m_conn_count (m_db w) = 5"
  using pool_limit_exceeded [of "\<lparr>m_user = ''u'', m_password = [], m_database = [], m_max_connections = 1\<rparr>" new_event_bus True 5]
  by (auto simp: new_event_bus_def)

text \<open>
  a connection that is destroyed instead of being given back makes room in the pool, but wakes nobody: a client that waits is left
  behind with no event under way, although nobody else has a connection.
\<close>

theorem pool_drop_strands_waiter:
  assumes "m_max_connections config = 1" "unat (m_id_counter bus) + 1 < 2 ^ 64" "h1 \<noteq> h2"
  shows "\<exists>w cb. (pool_step polite)\<^sup>*\<^sup>* (new_pool_world config bus) w \<and> m_getters w h2 = Waiting cb \<and> m_events w = []
    \<and> m_conn_count (m_db w) = 0 \<and> (\<forall>h. h \<noteq> h2 \<longrightarrow> m_getters w h = Outside)"
proof -
  obtain i bus' where r: "register_event_callback h2 bus = (i, bus')" by fastforce
  let ?g1 = "(\<lambda>_. Outside)(h1 := Connecting, h1 := Holding (opened 0))"
  let ?w1 = "pool_state config bus (0 + 1) [] [] [] ?g1"
  have w1: "(pool_step polite)\<^sup>*\<^sup>* (new_pool_world config bus) ?w1"
    unfolding new_pool_state
    by (rule converse_rtranclp_into_rtranclp [OF step_connect step_connected]) (use assms(1,2) in simp_all)
  obtain cb where cb: "pool_step polite ?w1 (pool_state config bus' (0 + 1) [] ([] @ [i]) [] (?g1(h2 := Waiting cb)))"
    by (rule step_wait [of ?g1 h2 config "0 + 1" bus "[]" i bus' polite "[]"]) (use assms r in simp_all)
  let ?w2 = "pool_state config bus' (0 + 1) [] ([] @ [i]) [] (?g1(h2 := Waiting cb))"
  let ?w3 = "pool_state config bus' (0 + 1 - 1) [] ([] @ [i]) [] (?g1(h2 := Waiting cb, h1 := Outside))"
  have "pool_step polite ?w2 ?w3" by (rule step_drop [of _ _ "opened 0"]) (use assms(3) in simp_all)
  then have "(pool_step polite)\<^sup>*\<^sup>* (new_pool_world config bus) ?w3"
    using w1 cb by (meson rtranclp.rtrancl_into_rtrancl)
  then show ?thesis
    using assms(3) by (intro exI [of _ ?w3] exI [of _ cb]) (simp add: pool_state_def)
qed

theorem pool_drop_strands_waiter_witness:
  "\<exists>w cb. (pool_step True)\<^sup>*\<^sup>* (new_pool_world \<lparr>m_user = ''u'', m_password = [], m_database = [], m_max_connections = 1\<rparr> new_event_bus) w
    \<and> m_getters w 2 = Waiting cb \<and> m_events w = [] \<and> m_conn_count (m_db w) = 0"
  using pool_drop_strands_waiter [of "\<lparr>m_user = ''u'', m_password = [], m_database = [], m_max_connections = 1\<rparr>" new_event_bus 1 2 True]
  by (auto simp: new_event_bus_def)

end
