(* ===== verification/Wiring.thy ===== *)
theory Wiring
  imports Net Pg_Pool Http_Server
begin

text \<open>
  The constructors that put the parts together: \<open>http_server\<close> is a server with a router, \<open>pg_database\<close> a pool with a client socket. What the
  construction has opened, and what it waits for, follows from the parts.
\<close>

section \<open>HTTP server\<close>

record 'e http_server_object =
  hs_serv :: server_socket
  hs_accept :: "e_status outcome"
  hs_router :: "'e http_router"

definition new_http_server_inet :: "'k posix \<Rightarrow> 'r liburing \<Rightarrow> handle \<Rightarrow> pointer \<Rightarrow> pointer \<Rightarrow> string \<Rightarrow> string \<Rightarrow> nat \<Rightarrow> 'e http_router
    \<Rightarrow> (('k, 'r) world, 'e http_server_object) comp" where
  "new_http_server_inet P U h addr_at len_at name service a router =
     and_then (new_server (new_server_inet P name service a) U h addr_at len_at)
       (\<lambda>(ss, res). return \<lparr>hs_serv = ss, hs_accept = res, hs_router = router\<rparr>)"

definition new_http_server_unix :: "'k posix \<Rightarrow> 'r liburing \<Rightarrow> handle \<Rightarrow> pointer \<Rightarrow> pointer \<Rightarrow> string \<Rightarrow> nat \<Rightarrow> 'e http_router
    \<Rightarrow> (('k, 'r) world, 'e http_server_object) comp" where
  "new_http_server_unix P U h addr_at len_at path a router =
     and_then (new_server (new_server_unix P path a) U h addr_at len_at)
       (\<lambda>(ss, res). return \<lparr>hs_serv = ss, hs_accept = res, hs_router = router\<rparr>)"

text \<open>A server that holds its descriptor, with one accept request in the ring since the world \<open>w\<close>.\<close>

definition serving :: "('k \<Rightarrow> resource multiset) \<Rightarrow> 'r liburing \<Rightarrow> 'r \<Rightarrow> io_label list \<Rightarrow> handle \<Rightarrow> pointer \<Rightarrow> pointer \<Rightarrow> ('k, 'r) world
    \<Rightarrow> server_socket \<times> e_status outcome \<Rightarrow> ('k, 'r) world \<Rightarrow> bool" where
  "serving held U r0 tr h addr_at len_at w ssr w1 \<longleftrightarrow> snd ssr = Suspended
      \<and> held (w_os w1) = add_mset (Fd (ss_fd (fst ssr))) (held (w_os w))
      \<and> (\<exists>i. io_history U r0 (tr @ [Opened i, Requested h i (Prep_accept (ss_fd (fst ssr)) addr_at len_at 0)]) (w_loop w1))"

text \<open>Both constructors end with a server that waits, or throw and leave the history of the loop as it was.\<close>

theorem http_server_waits:
  assumes P: "posix_contract P held" and hist: "io_history U r0 tr (w_loop w)" and free: "address_free a (w_loop w)"
    and room: "u_get_sqe U (m_ring (w_loop w)) = (Some sqe, r1)"
  shows "triple (new_http_server_inet P U h addr_at len_at name service a router) w
      (\<lambda>hs w1. hs_router hs = router \<and> serving held U r0 tr h addr_at len_at w (hs_serv hs, hs_accept hs) w1)
      (\<lambda>e w1. io_history U r0 tr (w_loop w1)) False"
    "triple (new_http_server_unix P U h addr_at len_at path a router) w
      (\<lambda>hs w1. hs_router hs = router \<and> serving held U r0 tr h addr_at len_at w (hs_serv hs, hs_accept hs) w1)
      (\<lambda>e w1. io_history U r0 tr (w_loop w1)) (108 \<le> length path)"
proof -
  have w: "holds_at held (held (w_os w)) (w_loop w) w" by (simp add: holds_at_def)
  show "triple (new_http_server_inet P U h addr_at len_at name service a router) w
      (\<lambda>hs w1. hs_router hs = router \<and> serving held U r0 tr h addr_at len_at w (hs_serv hs, hs_accept hs) w1)
      (\<lambda>e w1. io_history U r0 tr (w_loop w1)) False"
    unfolding new_http_server_inet_def serving_def
    by (rule triple_bind [OF new_server_history [OF server_inet_leaves [OF P w] hist free room]]) auto
  show "triple (new_http_server_unix P U h addr_at len_at path a router) w
      (\<lambda>hs w1. hs_router hs = router \<and> serving held U r0 tr h addr_at len_at w (hs_serv hs, hs_accept hs) w1)
      (\<lambda>e w1. io_history U r0 tr (w_loop w1)) (108 \<le> length path)"
    unfolding new_http_server_unix_def serving_def
    by (rule triple_bind [OF new_server_history [OF server_unix_leaves [OF P w] hist free room]]) auto
qed

section \<open>Pool\<close>

definition new_pg_database_inet :: "'k posix \<Rightarrow> string \<Rightarrow> string \<Rightarrow> pg_config
    \<Rightarrow> (('k, 'r) world, pg_database \<times> client_socket) comp" where
  "new_pg_database_inet P name service config =
     and_then (new_client_inet P name service) (\<lambda>cl. return (new_pg_database config, cl))"

definition new_pg_database_unix :: "string \<Rightarrow> pg_config \<Rightarrow> (('k, 'r) world, pg_database \<times> client_socket) comp" where
  "new_pg_database_unix path config = and_then (new_client_unix path) (\<lambda>cl. return (new_pg_database config, cl))"

text \<open>A pool starts without connections, and holds the list of addresses as long as its client socket lives.\<close>

theorem pg_database_starts_empty:
  assumes P: "posix_contract P held" and w: "holds_at held h l w"
  shows "triple (new_pg_database_inet P name service config) w
      (\<lambda>(db, cl) w1. db = new_pg_database config \<and> (\<exists>res. cl = Client_inet res \<and> holds_at held (add_mset (Info res) h) l w1
         \<and> triple (destroy_client P cl) w1 (\<lambda>_. holds_at held h l) (\<lambda>_ _. False) False))
      (\<lambda>e w1. (\<exists>msg. e = Runtime_error msg) \<and> holds_at held h l w1) False"
    "triple (new_pg_database_unix path config) w (\<lambda>(db, cl) w1. db = new_pg_database config \<and> w1 = w) (\<lambda>_ _. False) (108 \<le> length path)"
proof -
  have freed: "triple (destroy_client P (Client_inet res)) w1 (\<lambda>_. holds_at held h l) (\<lambda>_ _. False) False"
    if "holds_at held (add_mset (Info res) h) l w1" for res w1
    using free_info_leaves [OF P that, of res "\<lambda>_ _. False" False] by simp
  show "triple (new_pg_database_inet P name service config) w
      (\<lambda>(db, cl) w1. db = new_pg_database config \<and> (\<exists>res. cl = Client_inet res \<and> holds_at held (add_mset (Info res) h) l w1
         \<and> triple (destroy_client P cl) w1 (\<lambda>_. holds_at held h l) (\<lambda>_ _. False) False))
      (\<lambda>e w1. (\<exists>msg. e = Runtime_error msg) \<and> holds_at held h l w1) False"
    unfolding new_pg_database_inet_def new_client_inet_def and_then_assoc
    by (rule triple_bind [OF get_addrinfo_leaves [OF P w]]) (use freed in \<open>auto simp: triple_def comp_simps return_def\<close>)
  show "triple (new_pg_database_unix path config) w (\<lambda>(db, cl) w1. db = new_pg_database config \<and> w1 = w) (\<lambda>_ _. False) (108 \<le> length path)"
    by (simp add: triple_def new_pg_database_unix_def new_client_unix_def and_then_def unix_addr_def sun_path_of_def return_def)
qed

end
