(* ===== verification/Task_Value.thy ===== *)
theory Task_Value
  imports Task
begin

text \<open>
  The primary template of \<open>cppevent_base/task.hpp\<close>, \<open>task<T>\<close> for a coroutine with a value. Unlike
  \<open>task<>\<close>, the specialisation of theory \<open>Task\<close>, it cannot be let go of: its promise has no flag, its final suspension always
  suspends, and its destructor always frees the frame. It is shown to behave as a task of theory \<open>Task\<close> that stays linked, with the
  value of its body in addition. The result of an await is a reference to the value in the frame, which the awaiting coroutine may
  move from; so a task is awaited once.
\<close>

section \<open>Operations\<close>

record 'a value_promise =
  vp_val_opt :: "'a option"
  vp_exception :: "error option"
  vp_outer :: suspended_coro
  vp_place :: place

definition new_value_promise :: "'a value_promise" where
  "new_value_promise = \<lparr>vp_val_opt = None, vp_exception = None, vp_outer = new_suspended_coro, vp_place = In_body\<rparr>"

definition value_final_suspend :: "'a value_promise \<Rightarrow> final_awaiter" where
  "value_final_suspend p = \<lparr>m_final_linked = True\<rparr>"

definition value_unhandled_exception :: "error \<Rightarrow> 'a value_promise \<Rightarrow> 'a value_promise" where
  "value_unhandled_exception e p = p\<lparr>vp_exception := Some e\<rparr>"

definition value_return :: "'a \<Rightarrow> 'a value_promise \<Rightarrow> 'a value_promise" where
  "value_return val p = p\<lparr>vp_val_opt := Some val\<rparr>"

definition value_body_ends :: "error + 'a \<Rightarrow> 'a value_promise \<Rightarrow> handle option \<times> 'a value_promise" where
  "value_body_ends result p =
     (let p1 = (case result of Inl e \<Rightarrow> value_unhandled_exception e p | Inr val \<Rightarrow> value_return val p) in
      if final_ready (value_final_suspend p1) then (None, p1\<lparr>vp_place := Freed\<rparr>)
      else (case retrieve_handle (vp_outer p1) of (h, c) \<Rightarrow> (h, p1\<lparr>vp_outer := c, vp_place := At_final\<rparr>)))"

text \<open>A task is the handle of its frame; here it is the promise in it.\<close>

definition destroy_value_task :: "('a value_promise, unit) comp" where
  "destroy_value_task p = (if vp_place p = Freed then (Undefined, p) else (Done (), p\<lparr>vp_place := Freed\<rparr>))"

definition value_ready :: "'a value_promise \<Rightarrow> bool outcome" where
  "value_ready p = (case vp_place p of Freed \<Rightarrow> Undefined | At_final \<Rightarrow> Done True | In_body \<Rightarrow> Done False)"

definition value_suspend :: "handle \<Rightarrow> 'a value_promise \<Rightarrow> 'a value_promise" where
  "value_suspend h p = p\<lparr>vp_outer := store_handle h (vp_outer p)\<rparr>"

definition value_resume :: "'a value_promise \<Rightarrow> 'a outcome" where
  "value_resume p =
     (case vp_exception p of
        Some e \<Rightarrow> Threw e
      | None \<Rightarrow> (case vp_val_opt p of None \<Rightarrow> Threw (Runtime_error ''bad optional access'') | Some val \<Rightarrow> Done val))"

definition co_await_value :: "handle \<Rightarrow> ('a value_promise, 'a) comp" where
  "co_await_value h p =
     (case value_ready p of
        Done True \<Rightarrow> (value_resume p, p)
      | Done False \<Rightarrow> (Suspended, value_suspend h p)
      | _ \<Rightarrow> (Undefined, p))"

section \<open>A task that stays linked\<close>

text \<open>The task without its value, and how a body ends if its value does not count.\<close>

definition linked_task :: "'a value_promise \<Rightarrow> task" where
  "linked_task p = \<lparr>m_linked = True, m_promise = \<lparr>m_exception = vp_exception p, m_promise_linked = True, m_outer = vp_outer p, m_place = vp_place p\<rparr>\<rparr>"

definition without_value :: "error + 'a \<Rightarrow> error option" where
  "without_value result = (case result of Inl e \<Rightarrow> Some e | Inr val \<Rightarrow> None)"

definition value_ended_with :: "error + 'a \<Rightarrow> 'a outcome" where
  "value_ended_with result = (case result of Inl e \<Rightarrow> Threw e | Inr val \<Rightarrow> Done val)"

lemma linked_task_new: "linked_task new_value_promise = new_task"
  by (simp add: linked_task_def new_value_promise_def new_task_def new_promise_def)

lemma value_body_linked: "map_prod id linked_task (value_body_ends result p) = body_of (linked_task p) (without_value result)"
  by (cases result)
    (simp_all add: value_body_ends_def value_unhandled_exception_def value_return_def value_final_suspend_def final_ready_def
      retrieve_handle_def body_of_eq linked_task_def without_value_def Let_def)

lemma linked_task_simps [simp]:
  "m_linked (linked_task p)" "m_place (m_promise (linked_task p)) = vp_place p" "m_exception (m_promise (linked_task p)) = vp_exception p"
  by (simp_all add: linked_task_def)

lemma value_suspend_linked: "task_suspend h (linked_task p) = linked_task (value_suspend h p)"
  by (simp add: task_suspend_def value_suspend_def linked_task_def)

lemma co_await_value_state: "linked_task (snd (co_await_value h p)) = snd (co_await_task h (linked_task p))"
  by (cases "vp_place p") (simp_all add: co_await_value_def value_ready_def co_await_task_def task_ready_def value_suspend_linked)

lemma destroy_value_linked: "map_prod id linked_task (destroy_value_task p) = destroy_task (linked_task p)"
  by (simp add: destroy_value_task_def destroy_task_def linked_task_def)

text \<open>
  What can happen to it. \<open>alive\<close>: it has not been destroyed; \<open>ended\<close>: how its body has ended, if it has; \<open>asked\<close>: the coroutine that awaits it.
\<close>

inductive value_reached :: "'a value_promise \<Rightarrow> bool \<Rightarrow> (error + 'a) option \<Rightarrow> handle option \<Rightarrow> bool" where
  called: "value_reached new_value_promise True None None"
| ended: "value_reached p alive None asked \<Longrightarrow> vp_place p = In_body \<Longrightarrow> value_reached (snd (value_body_ends result p)) alive (Some result) asked"
| awaited: "value_reached p True ended None \<Longrightarrow> value_reached (snd (co_await_value h p)) True ended (Some h)"
| destroyed: "value_reached p True ended asked \<Longrightarrow> value_reached (snd (destroy_value_task p)) False ended asked"

lemma value_reached_linked: "value_reached p alive ended asked \<Longrightarrow> task_reached (linked_task p) alive False"
proof (induction rule: value_reached.induct)
  case called
  then show ?case using task_reached.called by (simp add: linked_task_new)
next
  case (ended p alive asked result)
  then have "task_reached (snd (body_of (linked_task p) (without_value result))) alive False" by (intro task_reached.ended) simp_all
  then show ?case by (simp flip: value_body_linked)
next
  case (awaited p ended h)
  then have "task_reached (snd (co_await_task h (linked_task p))) True False" by (intro task_reached.awaited) simp_all
  then show ?case by (simp add: co_await_value_state)
next
  case (destroyed p ended asked)
  then have "task_reached (snd (destroy_task (linked_task p))) False False" by (intro task_reached.destroyed)
  then show ?case by (simp flip: destroy_value_linked)
qed

text \<open>The frame has the result of the body, and whom to resume.\<close>

definition promise_holds :: "'a value_promise \<Rightarrow> bool \<Rightarrow> (error + 'a) option \<Rightarrow> handle option \<Rightarrow> bool" where
  "promise_holds p alive ended asked \<longleftrightarrow>
     (case ended of
        None \<Rightarrow> vp_place p = (if alive then In_body else Freed) \<and> vp_exception p = None \<and> m_handle (vp_outer p) = asked
      | Some result \<Rightarrow> vp_place p = (if alive then At_final else Freed)
          \<and> (case result of Inl e \<Rightarrow> vp_exception p = Some e | Inr val \<Rightarrow> vp_exception p = None \<and> vp_val_opt p = Some val))"

lemma promise_holds_resume: "promise_holds p alive (Some result) asked \<Longrightarrow> value_resume p = value_ended_with result"
  by (cases result) (simp_all add: promise_holds_def value_resume_def value_ended_with_def)

lemma value_body_ends_eq:
  "value_body_ends result p = (m_handle (vp_outer p),
     (case result of Inl e \<Rightarrow> p\<lparr>vp_exception := Some e\<rparr> | Inr val \<Rightarrow> p\<lparr>vp_val_opt := Some val\<rparr>)
       \<lparr>vp_outer := coro_reset (vp_outer p), vp_place := At_final\<rparr>)"
  by (cases result) (simp_all add: value_body_ends_def value_unhandled_exception_def value_return_def value_final_suspend_def
      final_ready_def retrieve_handle_def Let_def)

lemma value_reached_holds: "value_reached p alive ended asked \<Longrightarrow> promise_holds p alive ended asked"
proof (induction rule: value_reached.induct)
  case called
  then show ?case by (simp add: promise_holds_def new_value_promise_def new_suspended_coro_def)
next
  case (ended p alive asked result)
  then show ?case
    by (cases result) (auto simp: promise_holds_def value_body_ends_eq split: if_splits)
next
  case (awaited p ended h)
  then show ?case
    by (cases ended) (auto simp: promise_holds_def co_await_value_def value_ready_def value_suspend_def)
next
  case (destroyed p ended asked)
  then show ?case by (cases ended) (auto simp: promise_holds_def destroy_value_task_def split: if_splits sum.splits)
qed

section \<open>Properties\<close>

text \<open>
  C20: whatever happens to a task with a value, its body, its awaiter and its destructor do to its frame what those of a task without a
  value do that is never let go of; so its frame lives exactly as long as the task, it is neither used nor freed twice, and never left
  behind. The awaiter gets what the body ended with, the value or the exception: at once when the body has ended; otherwise it is
  suspended, the end of the body resumes it and no other, and then it gets the result.
\<close>

theorem value_task_as_linked:
  assumes "value_reached p alive ended asked"
  shows "map_prod id linked_task (value_body_ends result p) = body_of (linked_task p) (without_value result)
   \<and> map_prod id linked_task (destroy_value_task p) = destroy_task (linked_task p)
   \<and> task_reached (linked_task p) alive False \<and> (vp_place p = Freed \<longleftrightarrow> \<not> alive)
   \<and> (alive \<longrightarrow> co_await_task h (linked_task p) = map_prod (map_outcome (\<lambda>_. ())) linked_task (co_await_value h p))
   \<and> (alive \<longrightarrow> (case ended of
        Some r \<Rightarrow> co_await_value h p = (value_ended_with r, p)
      | None \<Rightarrow> fst (co_await_value h p) = Suspended \<and> fst (value_body_ends result p) = asked
          \<and> fst (value_body_ends result (snd (co_await_value h p))) = Some h
          \<and> value_resume (snd (value_body_ends result (snd (co_await_value h p)))) = value_ended_with result))"
proof -
  note h = value_reached_holds [OF assms, unfolded promise_holds_def]
  have frame: "vp_place p = Freed \<longleftrightarrow> \<not> alive" using h by (auto split: option.splits if_splits)
  have get: "co_await_value h p = (value_ended_with r, p)" if "alive" "ended = Some r" for r
    using h that promise_holds_resume [of p alive r asked] value_reached_holds [OF assms]
    by (simp add: co_await_value_def value_ready_def)
  have wait: "co_await_value h p = (Suspended, value_suspend h p)" "m_handle (vp_outer p) = asked" "vp_exception p = None"
    if "alive" "ended = None"
    using h that by (simp_all add: co_await_value_def value_ready_def)
  have same: "co_await_task h (linked_task p) = map_prod (map_outcome (\<lambda>_. ())) linked_task (co_await_value h p)" if "alive"
  proof (cases ended)
    case None
    then show ?thesis using wait that h by (simp add: co_await_task_def task_ready_def value_suspend_linked)
  next
    case (Some r)
    then have "task_resume (linked_task p) = map_outcome (\<lambda>_. ()) (value_resume p)"
      using h by (cases r) (simp_all add: task_resume_def value_resume_def)
    then show ?thesis using Some that h by (simp add: co_await_task_def task_ready_def co_await_value_def value_ready_def)
  qed
  have result: "value_resume (snd (value_body_ends result (value_suspend h p))) = value_ended_with result"
    "fst (value_body_ends result (value_suspend h p)) = Some h" if "vp_exception p = None"
    using that by (cases result; simp add: value_body_ends_eq value_suspend_def value_resume_def value_ended_with_def)+
  have outcome: "case ended of
        Some r \<Rightarrow> co_await_value h p = (value_ended_with r, p)
      | None \<Rightarrow> fst (co_await_value h p) = Suspended \<and> fst (value_body_ends result p) = asked
          \<and> fst (value_body_ends result (snd (co_await_value h p))) = Some h
          \<and> value_resume (snd (value_body_ends result (snd (co_await_value h p)))) = value_ended_with result" if "alive"
  proof (cases ended)
    case None
    with wait that result show ?thesis by (simp add: value_body_ends_eq [of result p])
  qed (use get that in simp)
  show ?thesis using value_body_linked destroy_value_linked value_reached_linked [OF assms] frame same outcome by blast
qed

theorem value_task_as_linked_witness:
  "co_await_value 7 (snd (value_body_ends (Inr (3 :: nat)) new_value_promise)) = (Done 3, snd (value_body_ends (Inr 3) new_value_promise))
   \<and> vp_place (snd (destroy_value_task (snd (value_body_ends (Inr (3 :: nat)) new_value_promise)))) = Freed"
proof -
  let ?p = "snd (value_body_ends (Inr (3 :: nat)) new_value_promise)"
  have r: "value_reached ?p True (Some (Inr 3)) None"
    by (rule value_reached.ended [OF value_reached.called]) (simp add: new_value_promise_def)
  show ?thesis
    using value_task_as_linked [OF r, of "Inr 3" 7] value_task_as_linked [OF value_reached.destroyed [OF r], of "Inr 3" 7]
    by (simp add: value_ended_with_def)
qed

end
