(* ===== verification/Pg_Floats.thy ===== *)
theory Pg_Floats
  imports Pg_Rows
begin

text \<open>
  The templates of \<open>cppevent_postgres/pg_conv.hpp\<close> for floating-point numbers, and what the parameters and the rows are when some of
  their values are such numbers. Theory \<open>Pg_Values\<close> has the other types. The conversions themselves are those of the standard library
  and a parameter here; what the code relies on is that the shortest text of a number is read back as that number.
\<close>

section \<open>The conversions of the standard library\<close>

datatype floating = Float | Double | Long_double

datatype 'f float_read = Read 'f string | Read_invalid | Read_out_of_range

text \<open>\<open>std::from_chars\<close> and \<open>std::to_chars\<close>, the latter with the size of the buffer, for each of the types.\<close>

record 'f charconv =
  fp_from_chars :: "floating \<Rightarrow> string \<Rightarrow> 'f float_read"
  fp_to_chars :: "floating \<Rightarrow> nat \<Rightarrow> 'f \<Rightarrow> string option"

text \<open>
  The standard's promise, for the numbers that are equal to themselves: what was written stays inside the buffer, and reading it
  gives the number that was written.
\<close>

definition charconv_contract :: "'f charconv \<Rightarrow> (floating \<Rightarrow> 'f \<Rightarrow> bool) \<Rightarrow> bool" where
  "charconv_contract F ordinary \<longleftrightarrow>
     (\<forall>k n v s. fp_to_chars F k n v = Some s \<longrightarrow> length s \<le> n \<and> (ordinary k v \<longrightarrow> fp_from_chars F k s = Read v []))"

section \<open>Parsing and serializing\<close>

datatype wide_type = Of cell_type | Real floating

datatype 'f wide = Cell cell | Real_cell floating 'f

definition pg_parse_float :: "'f charconv \<Rightarrow> floating \<Rightarrow> byte list \<Rightarrow> nat \<Rightarrow> int \<Rightarrow> 'f outcome" where
  "pg_parse_float F k data ptr sz =
     (case slice data ptr sz of
        None \<Rightarrow> Undefined
      | Some bs \<Rightarrow>
          (case fp_from_chars F k (chars bs) of
             Read_out_of_range \<Rightarrow> Threw (Runtime_error ''pg_parser parse: value out of range'')
           | Read_invalid \<Rightarrow> Threw (Runtime_error ''pg_parser parse: invalid argument'')
           | Read val _ \<Rightarrow> Done val))"

primrec wide_parse :: "'f charconv \<Rightarrow> wide_type \<Rightarrow> byte list \<Rightarrow> nat \<Rightarrow> int \<Rightarrow> 'f wide outcome" where
  "wide_parse F (Of T) data ptr sz = out_bind (pg_parse T data ptr sz) (\<lambda>v. Done (Cell v))"
| "wide_parse F (Real k) data ptr sz = out_bind (pg_parse_float F k data ptr sz) (\<lambda>v. Done (Real_cell k v))"

definition pg_serialize_float :: "'f charconv \<Rightarrow> floating \<Rightarrow> 'f \<Rightarrow> (byte list, unit) comp" where
  "pg_serialize_float F k val =
     (case fp_to_chars F k SERIALIZE_BUFFER_OCTETS val of
        None \<Rightarrow> throw (Runtime_error ''pg_serializer serialize: value too large'')
      | Some temp \<Rightarrow> put_sized (bytes temp))"

primrec wide_serialize :: "'f charconv \<Rightarrow> 'f wide \<Rightarrow> (byte list, unit) comp" where
  "wide_serialize F (Cell c) = pg_serialize c"
| "wide_serialize F (Real_cell k v) = pg_serialize_float F k v"

section \<open>Parameters and rows\<close>

definition wide_store :: "'f charconv \<Rightarrow> 'f wide \<Rightarrow> (pg_params, unit) comp" where
  "wide_store F val = and_then increment (\<lambda>_. on_param_buffer (wide_serialize F val))"

definition wide_store_opt :: "'f charconv \<Rightarrow> 'f wide option \<Rightarrow> (pg_params, unit) comp" where
  "wide_store_opt F val_opt =
     (case val_opt of
        None \<Rightarrow> and_then increment (\<lambda>_. on_param_buffer put_null)
      | Some val \<Rightarrow> wide_store F val)"

fun wide_store_args :: "'f charconv \<Rightarrow> 'f wide option list \<Rightarrow> (pg_params, unit) comp" where
  "wide_store_args F [] = return ()"
| "wide_store_args F (val # args) = and_then (wide_store_opt F val) (\<lambda>_. wide_store_args F args)"

definition wide_value :: "'f charconv \<Rightarrow> wide_type \<Rightarrow> pg_result \<Rightarrow> pg_value \<Rightarrow> 'f wide outcome" where
  "wide_value F T r v =
     (if fst (m_ptr v) < length (m_row_data r)
      then wide_parse F T (m_row_data r ! fst (m_ptr v)) (snd (m_ptr v)) (m_size v)
      else Undefined)"

datatype 'f wide_target = Plain_var wide_type "'f wide" | Optional_var wide_type "'f wide option"

fun wide_row_one :: "'f charconv \<Rightarrow> pg_result \<Rightarrow> nat \<Rightarrow> int \<Rightarrow> 'f wide_target \<Rightarrow> 'f wide_target outcome" where
  "wide_row_one F r val_index row_index (Plain_var T t) =
     (case value_at r row_index val_index of
        None \<Rightarrow> Undefined
      | Some val \<Rightarrow>
          if is_null val then Threw (Runtime_error ''pg_result get_row: assigning null to non-optional type'')
          else out_bind (wide_value F T r val) (\<lambda>v. Done (Plain_var T v)))"
| "wide_row_one F r val_index row_index (Optional_var T opt) =
     (case value_at r row_index val_index of
        None \<Rightarrow> Undefined
      | Some val \<Rightarrow>
          if is_null val then Done (Optional_var T opt)
          else out_bind (wide_value F T r val) (\<lambda>v. Done (Optional_var T (Some v))))"

fun wide_row :: "'f charconv \<Rightarrow> pg_result \<Rightarrow> nat \<Rightarrow> int \<Rightarrow> ('f wide_target list, unit) comp" where
  "wide_row F r val_index row_index [] = (Done (), [])"
| "wide_row F r val_index row_index (t # args) =
     (case wide_row_one F r val_index row_index t of
        Done t' \<Rightarrow> (case wide_row F r (val_index + 1) row_index args of (res, args') \<Rightarrow> (res, t' # args'))
      | Threw e \<Rightarrow> (Threw e, t # args)
      | Suspended \<Rightarrow> (Suspended, t # args)
      | Undefined \<Rightarrow> (Undefined, t # args))"

section \<open>The text of a value\<close>

primrec wide_text :: "'f charconv \<Rightarrow> 'f wide \<Rightarrow> byte list option" where
  "wide_text F (Cell c) = (if cell_ok c then Some (cell_text c) else None)"
| "wide_text F (Real_cell k v) = map_option bytes (fp_to_chars F k SERIALIZE_BUFFER_OCTETS v)"

fun wide_has_type :: "(floating \<Rightarrow> 'f \<Rightarrow> bool) \<Rightarrow> wide_type \<Rightarrow> 'f wide \<Rightarrow> bool" where
  "wide_has_type ordinary (Of T) (Cell c) \<longleftrightarrow> has_type T c"
| "wide_has_type ordinary (Real k) (Real_cell k' v) \<longleftrightarrow> k' = k \<and> ordinary k v"
| "wide_has_type ordinary _ _ \<longleftrightarrow> False"

lemma wide_serialize_eq: "wide_text F w = Some bs \<Longrightarrow> wide_serialize F w buf = (Done (), buf @ field_bytes (Some bs))"
  by (cases w) (auto simp: pg_serialize_eq pg_serialize_float_def put_sized_eq split: if_splits)

lemma wide_parse_text:
  assumes "charconv_contract F ordinary" "wide_has_type ordinary T w" "wide_text F w = Some bs"
  shows "wide_parse F T (pre @ bs @ post) (length pre) (int (length bs)) = Done w"
proof (cases "(ordinary, T, w)" rule: wide_has_type.cases)
  case (1 ordinary T c)
  then show ?thesis using assms pg_parse_cell_text [of T c pre post] by (simp split: if_splits)
next
  case (2 ordinary k k' v)
  then obtain s where s: "fp_to_chars F k SERIALIZE_BUFFER_OCTETS v = Some s" "bs = bytes s" using assms(2,3) by auto
  then have "fp_from_chars F k s = Read v []" using assms(1,2) 2 by (auto simp: charconv_contract_def)
  then show ?thesis using s assms(2) 2 by (simp add: pg_parse_float_def slice_def)
qed (use assms(2) in simp_all)

definition wide_field :: "'f charconv \<Rightarrow> 'f wide option \<Rightarrow> byte list option" where
  "wide_field F v = Option.bind v (wide_text F)"

text \<open>Values whose text fits the buffer and the 32 bits of its size.\<close>

definition wide_ok :: "'f charconv \<Rightarrow> 'f wide \<Rightarrow> bool" where
  "wide_ok F w \<longleftrightarrow> (case wide_text F w of None \<Rightarrow> False | Some bs \<Rightarrow> length bs < 2 ^ 31)"

lemma wide_store_opt_eq:
  assumes "params_hold fs p" "pred_option (wide_ok F) v"
  shows "\<exists>p'. wide_store_opt F v p = (Done (), p') \<and> params_hold (fs @ [wide_field F v]) p'"
  using assms
  by (cases v)
    (auto simp: wide_store_opt_def wide_store_def and_then_Done [where m = increment, OF increment_eq [OF assms(1)]]
      on_param_buffer_def put_null_eq wide_serialize_eq params_hold_def wide_field_def wide_ok_def split: option.splits)

lemma wide_store_args_eq:
  assumes "params_hold fs p" "list_all (pred_option (wide_ok F)) vs"
  shows "\<exists>p'. wide_store_args F vs p = (Done (), p') \<and> params_hold (fs @ map (wide_field F) vs) p'"
  using assms
proof (induction vs arbitrary: fs p)
  case Nil
  then show ?case by (simp add: return_def)
next
  case (Cons v vs)
  then obtain p1 where p1: "wide_store_opt F v p = (Done (), p1)" "params_hold (fs @ [wide_field F v]) p1"
    using wide_store_opt_eq [of fs p F v] by auto
  with Cons.IH [OF p1(2)] Cons.prems(2) show ?case
    by (simp add: and_then_Done [where m = "wide_store_opt F v", OF p1(1)])
qed

section \<open>Reading a row\<close>

text \<open>Where the value at an index of a row is, whatever type it is read into.\<close>

lemma holds_row_value:
  assumes "holds_row r row_index fs" "i < length fs"
  obtains val where "value_at r row_index i = Some val" "is_null val \<longleftrightarrow> fs ! i = None"
    "\<And>bs. fs ! i = Some bs \<Longrightarrow> fst (m_ptr val) < length (m_row_data r)
      \<and> (\<exists>pre post. m_row_data r ! fst (m_ptr val) = pre @ bs @ post \<and> snd (m_ptr val) = length pre \<and> m_size val = int (length bs))"
proof -
  obtain blk post where b: "m_rows r ! nat row_index = row_values blk 2 fs" "blk < length (m_row_data r)"
      "m_row_data r ! blk = row_message fs @ post"
    using assms(1) by (auto simp: holds_row_def)
  let ?val = "\<lparr>m_ptr = (blk, 2 + length (concat (map field_bytes (take i fs))) + 4), m_size = field_size (fs ! i)\<rparr>"
  have val: "value_at r row_index i = Some ?val"
    using assms b(1) by (simp only: value_at_def holds_row_def length_row_values row_values_nth [OF assms(2)]) simp
  have null: "is_null ?val \<longleftrightarrow> fs ! i = None" by (cases "fs ! i") (simp_all add: is_null_def field_size_def)
  have "\<exists>pre post. m_row_data r ! blk = pre @ bs @ post \<and> 2 + length (concat (map field_bytes (take i fs))) + 4 = length pre"
    if "fs ! i = Some bs" for bs
    using row_message_at [of i fs bs post] assms(2) that b(3) by metis
  then show thesis using that [OF val null] b(2) by (simp add: field_size_def)
qed

fun wide_assignable :: "(floating \<Rightarrow> 'f \<Rightarrow> bool) \<Rightarrow> 'f wide option \<Rightarrow> 'f wide_target \<Rightarrow> bool" where
  "wide_assignable ordinary v (Optional_var T old) \<longleftrightarrow> pred_option (wide_has_type ordinary T) v"
| "wide_assignable ordinary v (Plain_var T old) \<longleftrightarrow> (\<exists>w. v = Some w \<and> wide_has_type ordinary T w)"

fun wide_assign :: "'f wide option \<Rightarrow> 'f wide_target \<Rightarrow> 'f wide_target" where
  "wide_assign (Some w) (Optional_var T old) = Optional_var T (Some w)"
| "wide_assign None (Optional_var T old) = Optional_var T old"
| "wide_assign (Some w) (Plain_var T old) = Plain_var T w"
| "wide_assign None (Plain_var T old) = Plain_var T old"

lemma wide_row_one_assign:
  assumes "charconv_contract F ordinary" "holds_row r row_index fs" "i < length fs" "fs ! i = wide_field F v"
    "pred_option (wide_ok F) v" "wide_assignable ordinary v t"
  shows "wide_row_one F r i row_index t = Done (wide_assign v t)"
proof -
  obtain val where val: "value_at r row_index i = Some val" "is_null val \<longleftrightarrow> fs ! i = None"
    "\<And>bs. fs ! i = Some bs \<Longrightarrow> fst (m_ptr val) < length (m_row_data r)
      \<and> (\<exists>pre post. m_row_data r ! fst (m_ptr val) = pre @ bs @ post \<and> snd (m_ptr val) = length pre \<and> m_size val = int (length bs))"
    using holds_row_value [OF assms(2,3)] by blast
  show ?thesis
  proof (cases v)
    case None
    then show ?thesis using assms(4,6) val(1,2) by (cases t) (simp_all add: wide_field_def)
  next
    case (Some w)
    then obtain bs where bs: "wide_text F w = Some bs" "fs ! i = Some bs"
      using assms(4,5) by (auto simp: wide_field_def wide_ok_def split: option.splits)
    have "wide_value F T r val = Done w" if "wide_has_type ordinary T w" for T
      using val(3) [OF bs(2)] wide_parse_text [OF assms(1) that bs(1)] by (auto simp: wide_value_def)
    then show ?thesis using Some assms(6) val(1,2) bs(2) by (cases t) simp_all
  qed
qed

lemma wide_row_assign:
  assumes "charconv_contract F ordinary" "holds_row r row_index fs" "list_all2 (wide_assignable ordinary) vs ts"
    "list_all (pred_option (wide_ok F)) vs" "drop k fs = map (wide_field F) vs"
  shows "wide_row F r k row_index ts = (Done (), map2 wide_assign vs ts)"
  using assms(3-)
proof (induction vs ts arbitrary: k rule: list_all2_induct)
  case Nil
  then show ?case by simp
next
  case (Cons v vs t ts)
  have k: "k < length fs" using Cons.prems(2) by (metis drop_all list.discI list.simps(9) not_le)
  then have d: "fs ! k = wide_field F v" "drop (k + 1) fs = map (wide_field F) vs"
    using Cons.prems(2) by (simp_all add: Cons_nth_drop_Suc [symmetric])
  have "wide_row_one F r k row_index t = Done (wide_assign v t)"
    by (rule wide_row_one_assign [OF assms(1,2) k d(1)]) (use Cons in simp_all)
  then show ?case using Cons.IH [OF _ d(2)] Cons.prems(1) by simp
qed

section \<open>Properties\<close>

text \<open>
  C18: the round trip of parameters and rows with floating-point numbers among the values: a DataRow that carries the block built by
  \<open>pg_params::store\<close> is cut into as many values as were stored and \<open>get_row\<close> assigns to each variable the value stored at
  its place. A number whose text does not fit the buffer of 256 characters, should there be one, is not stored: \<open>store\<close> throws, but has
  counted it already, so the block announces a value that is not there.
\<close>

theorem pg_floats_roundtrip:
  assumes "charconv_contract F ordinary" "list_all (pred_option (wide_ok F)) vs" "length vs < 65536"
    "list_all2 (wide_assignable ordinary) vs ts"
    "0 \<le> n" "nat n < length (m_rows r)" "blk < length (m_row_data r)"
  shows "\<exists>p row. wide_store_args F vs new_pg_params = (Done (), p)
    \<and> parse_data_row (m_param_buffer p @ post) blk = Done row \<and> length row = length vs
    \<and> (m_row_data r ! blk = m_param_buffer p @ post \<and> m_rows r ! nat n = row
        \<longrightarrow> wide_row F r 0 n ts = (Done (), map2 wide_assign vs ts))
    \<and> (fp_to_chars F k SERIALIZE_BUFFER_OCTETS v = None \<longrightarrow>
        wide_store F (Real_cell k v) p = (Threw (Runtime_error ''pg_serializer serialize: value too large''),
          p\<lparr>m_count := int (length vs) + 1, m_param_buffer := u16_bytes (of_nat (length vs + 1)) @ drop 2 (m_param_buffer p)\<rparr>))"
proof -
  let ?fs = "map (wide_field F) vs"
  obtain p where p: "wide_store_args F vs new_pg_params = (Done (), p)" "params_hold ?fs p"
    using wide_store_args_eq [OF params_hold_new assms(2)] by auto
  have buf: "m_param_buffer p = row_message ?fs" using p(2) by (simp add: params_hold_def row_message_def)
  have ok: "list_all field_ok ?fs"
    using assms(2) by (auto simp: list_all_iff field_ok_def wide_field_def wide_ok_def pred_option_def split: option.splits bind_splits)
  have row: "parse_data_row (m_param_buffer p @ post) blk = Done (row_values blk 2 ?fs)"
    using parse_data_row_message [OF ok, of post blk] assms(3) by (simp add: buf)
  have get: "wide_row F r 0 n ts = (Done (), map2 wide_assign vs ts)"
    if "m_row_data r ! blk = m_param_buffer p @ post" "m_rows r ! nat n = row_values blk 2 ?fs"
  proof (rule wide_row_assign [OF assms(1) _ assms(4,2)])
    show "holds_row r n ?fs" unfolding holds_row_def using assms(5-7) that buf by (intro conjI exI [of _ blk] exI [of _ post]) simp_all
  qed simp
  have full: "wide_store F (Real_cell k v) p = (Threw (Runtime_error ''pg_serializer serialize: value too large''),
      p\<lparr>m_count := int (length vs) + 1, m_param_buffer := u16_bytes (of_nat (length vs + 1)) @ drop 2 (m_param_buffer p)\<rparr>)"
    if "fp_to_chars F k SERIALIZE_BUFFER_OCTETS v = None"
    using that p(2)
    by (simp add: wide_store_def and_then_Done [where m = increment, OF increment_eq [OF p(2)]] on_param_buffer_def pg_serialize_float_def
      throw_def params_hold_def u16_bytes_def)
  show ?thesis using p(1) row get full by (intro exI [of _ p] exI [of _ "row_values blk 2 ?fs"]) simp
qed

text \<open>The whole numbers among the floating-point numbers, which are written without a fraction.\<close>

definition whole_numbers :: "int charconv" where
  "whole_numbers = \<lparr>fp_from_chars = (\<lambda>k s. case from_chars (- (2 ^ 24)) (2 ^ 24) 10 s of
       Parsed v rest \<Rightarrow> Read v rest | Invalid_argument \<Rightarrow> Read_invalid | Result_out_of_range \<Rightarrow> Read_out_of_range),
     fp_to_chars = (\<lambda>k n v. if length (to_chars 10 v) \<le> n then Some (to_chars 10 v) else None)\<rparr>"

lemma whole_numbers_contract: "charconv_contract whole_numbers (\<lambda>k v. \<bar>v\<bar> \<le> 2 ^ 24)"
proof -
  have "from_chars (- (2 ^ 24)) (2 ^ 24) 10 (to_chars 10 v) = Parsed v []" if "\<bar>v\<bar> \<le> 2 ^ 24" for v
    using from_chars_to_chars [of 10 "- (2 ^ 24)" v "2 ^ 24" "[]"] that by simp
  then show ?thesis by (simp add: charconv_contract_def whole_numbers_def)
qed

theorem pg_floats_roundtrip_witness:
  "\<exists>p row. wide_store_args whole_numbers [Some (Real_cell Double (- 150)), None, Some (Cell (Str ''x''))] new_pg_params = (Done (), p)
    \<and> parse_data_row (m_param_buffer p) 0 = Done row
    \<and> wide_row whole_numbers (new_pg_result\<lparr>m_row_data := [m_param_buffer p], m_rows := [row]\<rparr>) 0 0
        [Plain_var (Real Double) (Real_cell Double 0), Optional_var (Real Float) None, Plain_var (Of Text) (Cell (Str []))]
      = (Done (), [Plain_var (Real Double) (Real_cell Double (- 150)), Optional_var (Real Float) None, Plain_var (Of Text) (Cell (Str ''x''))])"
proof -
  let ?vs = "[Some (Real_cell Double (- 150)), None, Some (Cell (Str ''x''))]"
  let ?ts = "[Plain_var (Real Double) (Real_cell Double 0), Optional_var (Real Float) None, Plain_var (Of Text) (Cell (Str []))]"
  have l: "length (to_chars 10 (- 150)) = 4" by code_simp
  have ok: "list_all (pred_option (wide_ok whole_numbers)) ?vs"
    using l by (simp add: wide_ok_def whole_numbers_def SERIALIZE_BUFFER_OCTETS_def)
  obtain p where p: "wide_store_args whole_numbers ?vs new_pg_params = (Done (), p)"
    using wide_store_args_eq [OF params_hold_new ok] by auto
  obtain row where row: "parse_data_row (m_param_buffer p) 0 = Done row"
    using pg_floats_roundtrip [OF whole_numbers_contract ok, of ?ts 0 "new_pg_result\<lparr>m_row_data := [m_param_buffer p], m_rows := [[]]\<rparr>" 0 "[]"]
      p by auto
  show ?thesis
    using pg_floats_roundtrip [OF whole_numbers_contract ok, of ?ts 0 "new_pg_result\<lparr>m_row_data := [m_param_buffer p], m_rows := [row]\<rparr>" 0 "[]"]
      p row by auto
qed

end
