(* ===== verification/Crypto_Life.thy ===== *)
theory Crypto_Life
  imports Scram "HOL-Library.Multiset" "HOL-Library.List_Lexorder" "HOL-Library.Char_ord"
begin

text \<open>
  What the wrappers of OpenSSL hold: the constructors and destructors of \<open>sha256\<close>, \<open>hmac\<close>, \<open>pbkdf2\<close> and \<open>crypto\<close> with the objects of the
  library they are given and free. The state is the cache of theory \<open>Crypto\<close> with a multiset of what is held; freeing
  something that is not held is undefined.
\<close>

section \<open>What is held\<close>

datatype 'h lib_ref = Md 'h | Kdf 'h | Mac 'h | Md_ctx | Kdf_ctx | Mac_ctx

type_synonym 'h holding = "'h crypto \<times> 'h lib_ref multiset"

definition hold :: "'h lib_ref \<Rightarrow> ('h holding, unit) comp" where
  "hold x st = (Done (), (fst st, add_mset x (snd st)))"

definition let_go :: "'h lib_ref \<Rightarrow> ('h holding, unit) comp" where
  "let_go x st = (if x \<in># snd st then (Done (), (fst st, snd st - {#x#})) else (Undefined, st))"

text \<open>A fetch holds what the library gave; what is in the cache is held already.\<close>

definition held_fetch :: "('h crypto \<Rightarrow> string \<rightharpoonup> 'h) \<Rightarrow> (string \<Rightarrow> ('h crypto, 'h) comp) \<Rightarrow> ('h \<Rightarrow> 'h lib_ref) \<Rightarrow> string
    \<Rightarrow> ('h holding, 'h) comp" where
  "held_fetch algos fetch ref algo st =
     (case on_fst (fetch algo) st of
        (Done h, st') \<Rightarrow> (case algos (fst st) algo of
            None \<Rightarrow> and_then (hold (ref h)) (\<lambda>_. return h) st'
          | Some _ \<Rightarrow> (Done h, st'))
      | r \<Rightarrow> r)"

section \<open>Constructors and destructors\<close>

text \<open>
  A constructor that throws does not run the destructor of its object: the context that \<open>sha256\<close> has by then stays. Those of \<open>hmac\<close>
  and \<open>pbkdf2\<close> get their context last.
\<close>

definition construct_sha256 :: "('h, 'c) openssl \<Rightarrow> ('h holding, 'c) comp" where
  "construct_sha256 ossl =
     and_then (hold Md_ctx) (\<lambda>_.
     and_then (held_fetch m_md_algos (fetch_md ossl) Md SHA256_NAME) (\<lambda>md.
       case checked ''sha25g constructor error'' (EVP_DigestInit ossl md) (EVP_MD_CTX_new ossl) of
         (r, ctx) \<Rightarrow> Pair (out_bind r (\<lambda>_. Done ctx))))"

definition construct_hmac :: "('h, 'c) openssl \<Rightarrow> ('h holding, 'c) comp" where
  "construct_hmac ossl =
     and_then (held_fetch m_mac_algos (fetch_mac ossl) Mac ''HMAC'') (\<lambda>mac.
     and_then (hold Mac_ctx) (\<lambda>_. return (EVP_MAC_CTX_new ossl mac)))"

definition construct_pbkdf2 :: "('h, 'c) openssl \<Rightarrow> ('h holding, 'c) comp" where
  "construct_pbkdf2 ossl =
     and_then (held_fetch m_kdf_algos (fetch_kdf ossl) Kdf ''PBKDF2'') (\<lambda>kdf.
     and_then (hold Kdf_ctx) (\<lambda>_. return (EVP_KDF_CTX_new ossl kdf)))"

definition destroy_sha256 :: "('h holding, unit) comp" where
  "destroy_sha256 = let_go Md_ctx"

definition destroy_hmac :: "('h holding, unit) comp" where
  "destroy_hmac = let_go Mac_ctx"

definition destroy_pbkdf2 :: "('h holding, unit) comp" where
  "destroy_pbkdf2 = let_go Kdf_ctx"

text \<open>The loops of the destructor of \<open>crypto\<close>, over the entries of a map in the order of its iteration.\<close>

fun free_algos :: "('h \<Rightarrow> 'h lib_ref) \<Rightarrow> (string \<rightharpoonup> 'h) \<Rightarrow> string list \<Rightarrow> ('h holding, unit) comp" where
  "free_algos ref algos [] = return ()"
| "free_algos ref algos (a # as) =
     and_then (case algos a of None \<Rightarrow> Pair Undefined | Some h \<Rightarrow> let_go (ref h)) (\<lambda>_. free_algos ref algos as)"

definition destroy_crypto :: "((string \<rightharpoonup> 'h) \<Rightarrow> string list) \<Rightarrow> ('h holding, unit) comp" where
  "destroy_crypto order st =
     (let k = fst st in
      and_then (free_algos Md (m_md_algos k) (order (m_md_algos k))) (\<lambda>_.
      and_then (free_algos Kdf (m_kdf_algos k) (order (m_kdf_algos k))) (\<lambda>_.
      free_algos Mac (m_mac_algos k) (order (m_mac_algos k)))) st)"

text \<open>Iteration meets every entry of a map once.\<close>

definition iterates :: "((string \<rightharpoonup> 'h) \<Rightarrow> string list) \<Rightarrow> bool" where
  "iterates order \<longleftrightarrow> (\<forall>m. finite (dom m) \<longrightarrow> distinct (order m) \<and> set (order m) = dom m)"

section \<open>A wrapper that lives for a call\<close>

text \<open>The destructor runs behind the call, also when it throws. What the call does with the context is any function of it.\<close>

fun leave :: "'a outcome \<Rightarrow> ('s, unit) comp \<Rightarrow> ('s, 'a) comp" where
  "leave (Done a) dtor = and_then dtor (\<lambda>_. return a)"
| "leave (Threw e) dtor = and_then dtor (\<lambda>_. throw e)"
| "leave r dtor = Pair r"

datatype ('c, 'a) wrapper_use = Digest "'c \<Rightarrow> 'a outcome" | Sign "'c \<Rightarrow> 'a outcome" | Derive "'c \<Rightarrow> 'a outcome"

primrec run_use :: "('h, 'c) openssl \<Rightarrow> ('c, 'a) wrapper_use \<Rightarrow> ('h holding, 'a) comp" where
  "run_use ossl (Digest body) = and_then (construct_sha256 ossl) (\<lambda>ctx. leave (body ctx) destroy_sha256)"
| "run_use ossl (Sign body) = and_then (construct_hmac ossl) (\<lambda>ctx. leave (body ctx) destroy_hmac)"
| "run_use ossl (Derive body) = and_then (construct_pbkdf2 ossl) (\<lambda>ctx. leave (body ctx) destroy_pbkdf2)"

text \<open>Calls one after another with the same \<open>crypto\<close>, whether they throw or not.\<close>

fun run_uses :: "('h, 'c) openssl \<Rightarrow> ('c, 'a) wrapper_use list \<Rightarrow> 'h holding \<Rightarrow> 'h holding" where
  "run_uses ossl [] st = st"
| "run_uses ossl (u # us) st = run_uses ossl us (snd (run_use ossl u st))"

text \<open>The three calls of \<open>scram\<close>.\<close>

definition sha_use :: "('h, 'c) openssl \<Rightarrow> byte list \<Rightarrow> ('c, byte list) wrapper_use" where
  "sha_use ossl data = Digest (\<lambda>ctx. fst (and_then (sha256_update ossl data) (\<lambda>_. and_then (sha256_derive ossl) key_buffer) ctx))"

definition hmac_use :: "('h, 'c) openssl \<Rightarrow> byte list \<Rightarrow> string \<Rightarrow> ('c, byte list) wrapper_use" where
  "hmac_use ossl key message = Sign (\<lambda>ctx. fst (and_then (hmac_init ossl key SHA256_NAME) (\<lambda>_.
     and_then (hmac_update ossl (bytes message)) (\<lambda>_. and_then (hmac_derive ossl SHA256_OUTPUT_OCTETS) key_buffer)) ctx))"

definition password_use :: "('h, 'c) openssl \<Rightarrow> string \<Rightarrow> scram \<Rightarrow> ('c, byte list) wrapper_use" where
  "password_use ossl password s = Derive (\<lambda>ctx. fst (and_then (pbkdf2_derive ossl SHA256_OUTPUT_OCTETS (bytes password) (m_salt s)
     (of_int (m_iterations s)) SHA256_NAME) key_buffer ctx))"

section \<open>Invariant\<close>

definition refs_of :: "('h \<Rightarrow> 'h lib_ref) \<Rightarrow> (string \<rightharpoonup> 'h) \<Rightarrow> 'h lib_ref multiset" where
  "refs_of ref algos = image_mset (\<lambda>a. ref (the (algos a))) (mset_set (dom algos))"

definition cached :: "'h crypto \<Rightarrow> 'h lib_ref multiset" where
  "cached k = refs_of Md (m_md_algos k) + refs_of Kdf (m_kdf_algos k) + refs_of Mac (m_mac_algos k)"

definition holds_cached :: "'h lib_ref multiset \<Rightarrow> 'h holding \<Rightarrow> bool" where
  "holds_cached rest st \<longleftrightarrow> finite (dom (m_md_algos (fst st))) \<and> finite (dom (m_kdf_algos (fst st))) \<and> finite (dom (m_mac_algos (fst st)))
     \<and> snd st = cached (fst st) + rest"

lemma refs_of_upd: "finite (dom m) \<Longrightarrow> m a = None \<Longrightarrow> refs_of ref (m(a \<mapsto> h)) = add_mset (ref h) (refs_of ref m)"
proof -
  assume m: "finite (dom m)" "m a = None"
  have "image_mset (\<lambda>x. ref (the ((m(a \<mapsto> h)) x))) (mset_set (dom m)) = image_mset (\<lambda>x. ref (the (m x))) (mset_set (dom m))"
    using m by (intro image_mset_cong) (auto simp: domIff)
  moreover have "a \<notin> dom m" using m(2) by (simp add: domIff)
  ultimately show ?thesis using m(1) by (simp add: refs_of_def)
qed

lemma hold_cached: "holds_cached rest st \<Longrightarrow> hold x st = (Done (), snd (hold x st)) \<and> holds_cached (add_mset x rest) (snd (hold x st))"
  by (simp add: hold_def holds_cached_def)

lemma let_go_cached:
  "holds_cached (add_mset x rest) st \<Longrightarrow> let_go x st = (Done (), snd (let_go x st)) \<and> holds_cached rest (snd (let_go x st))"
  by (simp add: let_go_def holds_cached_def)

lemma free_algos_frees:
  assumes "set as \<subseteq> dom algos"
  shows "free_algos ref algos as (k, image_mset (\<lambda>a. ref (the (algos a))) (mset as) + rest) = (Done (), (k, rest))"
  using assms by (induction as) (auto simp: return_def and_then_def let_go_def dom_def)

lemma held_fetch_cached:
  assumes "holds_cached rest (k, refs)" "crypto_wf ossl k"
  shows "\<exists>st. held_fetch m_md_algos (fetch_md ossl) Md a (k, refs) = (fst (fetch_md ossl a k), st) \<and> fst st = snd (fetch_md ossl a k)
      \<and> holds_cached rest st"
    "\<exists>st. held_fetch m_kdf_algos (fetch_kdf ossl) Kdf a (k, refs) = (fst (fetch_kdf ossl a k), st) \<and> fst st = snd (fetch_kdf ossl a k)
      \<and> holds_cached rest st"
    "\<exists>st. held_fetch m_mac_algos (fetch_mac ossl) Mac a (k, refs) = (fst (fetch_mac ossl a k), st) \<and> fst st = snd (fetch_mac ossl a k)
      \<and> holds_cached rest st"
  using assms
  by (auto simp: held_fetch_def on_fst_def fetch_md_def fetch_kdf_def fetch_mac_def holds_cached_def cached_def and_then_def hold_def
      return_def refs_of_upd split: option.splits)

text \<open>When \<open>sha256\<close> cannot be constructed.\<close>

definition digest_fails :: "('h, 'c) openssl \<Rightarrow> bool" where
  "digest_fails ossl \<longleftrightarrow> (case EVP_MD_fetch ossl SHA256_NAME of
     None \<Rightarrow> True | Some md \<Rightarrow> fst (EVP_DigestInit ossl md (EVP_MD_CTX_new ossl)) \<noteq> 1)"

text \<open>The contexts that a use leaves behind, and whether what it does with a context ends.\<close>

primrec leaked :: "('h, 'c) openssl \<Rightarrow> ('c, 'a) wrapper_use \<Rightarrow> 'h lib_ref multiset" where
  "leaked ossl (Digest body) = (if digest_fails ossl then {#Md_ctx#} else {#})"
| "leaked ossl (Sign body) = {#}"
| "leaked ossl (Derive body) = {#}"

definition settles :: "'a outcome \<Rightarrow> bool" where
  "settles r \<longleftrightarrow> (case r of Done _ \<Rightarrow> True | Threw _ \<Rightarrow> True | Suspended \<Rightarrow> False | Undefined \<Rightarrow> False)"

primrec use_settles :: "('c, 'a) wrapper_use \<Rightarrow> bool" where
  "use_settles (Digest body) \<longleftrightarrow> (\<forall>ctx. settles (body ctx))"
| "use_settles (Sign body) \<longleftrightarrow> (\<forall>ctx. settles (body ctx))"
| "use_settles (Derive body) \<longleftrightarrow> (\<forall>ctx. settles (body ctx))"

lemma leave_cached:
  assumes "holds_cached (add_mset x rest) st"
  shows "\<exists>st'. leave r (let_go x) st = (r, st') \<and> (settles r \<longrightarrow> holds_cached rest st') \<and> fst st' = fst st"
proof -
  obtain st' where "let_go x st = (Done (), st')" "holds_cached rest st'" "fst st' = fst st"
    using let_go_cached [OF assms(1)] by (auto simp: let_go_def split: if_splits)
  then show ?thesis by (cases r) (auto simp: settles_def and_then_def return_def throw_def)
qed

lemma construct_sha256_cached:
  assumes "holds_cached rest (k, refs)" "crypto_wf ossl k"
  shows "\<exists>r st. construct_sha256 ossl (k, refs) = (r, st) \<and> r = fst (new_sha256 ossl k) \<and> holds_cached (add_mset Md_ctx rest) st
    \<and> crypto_wf ossl (fst st) \<and> (if digest_fails ossl then \<exists>e. r = Threw e else \<exists>ctx. r = Done ctx)"
proof -
  have h: "hold Md_ctx (k, refs) = (Done (), (k, add_mset Md_ctx refs))" by (simp add: hold_def)
  have c: "holds_cached (add_mset Md_ctx rest) (k, add_mset Md_ctx refs)" using hold_cached [OF assms(1)] by (simp add: hold_def)
  obtain st where f: "held_fetch m_md_algos (fetch_md ossl) Md SHA256_NAME (k, add_mset Md_ctx refs) = (fst (fetch_md ossl SHA256_NAME k), st)"
    "fst st = snd (fetch_md ossl SHA256_NAME k)" "holds_cached (add_mset Md_ctx rest) st"
    using held_fetch_cached(1) [OF c assms(2)] by blast
  show ?thesis
  proof (cases "EVP_MD_fetch ossl SHA256_NAME")
    case None
    then show ?thesis
      using f fetch_cases(1) [OF assms(2), of SHA256_NAME] h assms(2)
      by (auto simp: construct_sha256_def and_then_def new_sha256_def digest_fails_def)
  next
    case (Some md)
    then obtain k' where k': "fetch_md ossl SHA256_NAME k = (Done md, k')" "crypto_wf ossl k'"
      using fetch_cases(1) [OF assms(2), of SHA256_NAME] by auto
    obtain status ctx where i: "EVP_DigestInit ossl md (EVP_MD_CTX_new ossl) = (status, ctx)" by fastforce
    show ?thesis
      using f k' h i Some by (auto simp: construct_sha256_def and_then_def new_sha256_def digest_fails_def checked_def)
  qed
qed

lemma construct_hmac_cached:
  assumes "holds_cached rest (k, refs)" "crypto_wf ossl k"
  shows "\<exists>r st. construct_hmac ossl (k, refs) = (r, st) \<and> r = fst (new_hmac ossl k) \<and> crypto_wf ossl (fst st)
    \<and> (case r of Done _ \<Rightarrow> holds_cached (add_mset Mac_ctx rest) st | Threw _ \<Rightarrow> holds_cached rest st | _ \<Rightarrow> False)"
proof -
  obtain st where f: "held_fetch m_mac_algos (fetch_mac ossl) Mac ''HMAC'' (k, refs) = (fst (fetch_mac ossl ''HMAC'' k), st)"
    "fst st = snd (fetch_mac ossl ''HMAC'' k)" "holds_cached rest st"
    using held_fetch_cached(3) [OF assms] by blast
  then show ?thesis
    using fetch_cases(3) [OF assms(2), of "''HMAC''"] hold_cached [OF f(3), of Mac_ctx] assms(2)
    by (cases "EVP_MAC_fetch ossl ''HMAC''") (auto simp: construct_hmac_def and_then_def new_hmac_def return_def hold_def)
qed

lemma construct_pbkdf2_cached:
  assumes "holds_cached rest (k, refs)" "crypto_wf ossl k"
  shows "\<exists>r st. construct_pbkdf2 ossl (k, refs) = (r, st) \<and> r = fst (new_pbkdf2 ossl k) \<and> crypto_wf ossl (fst st)
    \<and> (case r of Done _ \<Rightarrow> holds_cached (add_mset Kdf_ctx rest) st | Threw _ \<Rightarrow> holds_cached rest st | _ \<Rightarrow> False)"
proof -
  obtain st where f: "held_fetch m_kdf_algos (fetch_kdf ossl) Kdf ''PBKDF2'' (k, refs) = (fst (fetch_kdf ossl ''PBKDF2'' k), st)"
    "fst st = snd (fetch_kdf ossl ''PBKDF2'' k)" "holds_cached rest st"
    using held_fetch_cached(2) [OF assms] by blast
  then show ?thesis
    using fetch_cases(2) [OF assms(2), of "''PBKDF2''"] hold_cached [OF f(3), of Kdf_ctx] assms(2)
    by (cases "EVP_KDF_fetch ossl ''PBKDF2''") (auto simp: construct_pbkdf2_def and_then_def new_pbkdf2_def return_def hold_def)
qed

text \<open>The result of the constructor that a use begins with, in theory \<open>Crypto\<close>, and what the use does with it.\<close>

primrec use_result :: "('h, 'c) openssl \<Rightarrow> 'h crypto \<Rightarrow> ('c, 'a) wrapper_use \<Rightarrow> 'a outcome" where
  "use_result ossl k (Digest body) = out_bind (fst (new_sha256 ossl k)) body"
| "use_result ossl k (Sign body) = out_bind (fst (new_hmac ossl k)) body"
| "use_result ossl k (Derive body) = out_bind (fst (new_pbkdf2 ossl k)) body"

lemma run_use_cached:
  assumes "holds_cached rest (k, refs)" "crypto_wf ossl k"
  shows "\<exists>st. run_use ossl u (k, refs) = (use_result ossl k u, st) \<and> crypto_wf ossl (fst st)
    \<and> (use_settles u \<longrightarrow> holds_cached (leaked ossl u + rest) st)"
proof (cases u)
  case (Digest body)
  obtain r st where c: "construct_sha256 ossl (k, refs) = (r, st)" "r = fst (new_sha256 ossl k)" "holds_cached (add_mset Md_ctx rest) st"
    "crypto_wf ossl (fst st)" "if digest_fails ossl then \<exists>e. r = Threw e else \<exists>ctx. r = Done ctx"
    using construct_sha256_cached [OF assms(1,2)] by blast
  show ?thesis
  proof (cases r)
    case (Done ctx)
    show ?thesis using leave_cached [OF c(3), of "body ctx"] c Done Digest by (auto simp: and_then_def destroy_sha256_def split: if_splits)
  qed (use c Digest in \<open>auto simp: and_then_def split: if_splits\<close>)
next
  case (Sign body)
  obtain r st where c: "construct_hmac ossl (k, refs) = (r, st)" "r = fst (new_hmac ossl k)" "crypto_wf ossl (fst st)"
    "case r of Done _ \<Rightarrow> holds_cached (add_mset Mac_ctx rest) st | Threw _ \<Rightarrow> holds_cached rest st | _ \<Rightarrow> False"
    using construct_hmac_cached [OF assms(1,2)] by blast
  show ?thesis
  proof (cases r)
    case (Done ctx)
    have "holds_cached (add_mset Mac_ctx rest) st" using c(4) Done by simp
    then show ?thesis using leave_cached [of _ rest st "body ctx"] c Done Sign by (fastforce simp: and_then_def destroy_hmac_def)
  qed (use c Sign in \<open>auto simp: and_then_def\<close>)
next
  case (Derive body)
  obtain r st where c: "construct_pbkdf2 ossl (k, refs) = (r, st)" "r = fst (new_pbkdf2 ossl k)" "crypto_wf ossl (fst st)"
    "case r of Done _ \<Rightarrow> holds_cached (add_mset Kdf_ctx rest) st | Threw _ \<Rightarrow> holds_cached rest st | _ \<Rightarrow> False"
    using construct_pbkdf2_cached [OF assms(1,2)] by blast
  show ?thesis
  proof (cases r)
    case (Done ctx)
    have "holds_cached (add_mset Kdf_ctx rest) st" using c(4) Done by simp
    then show ?thesis using leave_cached [of _ rest st "body ctx"] c Done Derive by (fastforce simp: and_then_def destroy_pbkdf2_def)
  qed (use c Derive in \<open>auto simp: and_then_def\<close>)
qed

lemma run_uses_cached:
  assumes "holds_cached rest st" "crypto_wf ossl (fst st)" "list_all use_settles us"
  shows "holds_cached (sum_list (map (leaked ossl) us) + rest) (run_uses ossl us st) \<and> crypto_wf ossl (fst (run_uses ossl us st))"
  using assms
proof (induction us arbitrary: st rest)
  case Nil
  then show ?case by simp
next
  case (Cons u us)
  obtain st1 where r: "snd (run_use ossl u st) = st1" "holds_cached (leaked ossl u + rest) st1" "crypto_wf ossl (fst st1)"
    using run_use_cached [of rest "fst st" "snd st" ossl u] Cons.prems by auto
  show ?case using Cons.IH [OF r(2,3)] Cons.prems(3) r(1) by (simp add: ac_simps)
qed

lemma sum_leaked:
  "sum_list (map (leaked ossl) us)
     = replicate_mset (if digest_fails ossl then length (filter (\<lambda>u. \<exists>body. u = Digest body) us) else 0) Md_ctx"
proof (induction us)
  case (Cons u us)
  then show ?case by (cases u) simp_all
qed simp

lemma destroy_crypto_frees:
  assumes "holds_cached rest (k, refs)" "iterates order"
  shows "destroy_crypto order (k, refs) = (Done (), (k, rest))"
proof -
  have o: "image_mset f (mset (order m)) = image_mset f (mset_set (dom m))" "set (order m) \<subseteq> dom m" if "finite (dom m)"
    for m and f :: "string \<Rightarrow> 'a lib_ref"
    using assms(2) that by (auto simp: iterates_def mset_set_set [symmetric])
  have fin: "finite (dom (m_md_algos k))" "finite (dom (m_kdf_algos k))" "finite (dom (m_mac_algos k))"
    and refs: "refs = cached k + rest"
    using assms(1) by (simp_all add: holds_cached_def)
  have free: "free_algos ref m (order m) (k, refs_of ref m + x) = (Done (), (k, x))" if "finite (dom m)" for ref m x
    using free_algos_frees [OF o(2) [OF that], of ref k x] o(1) [OF that] by (simp add: refs_of_def)
  have a: "free_algos Md (m_md_algos k) (order (m_md_algos k)) (k, refs)
      = (Done (), (k, refs_of Kdf (m_kdf_algos k) + (refs_of Mac (m_mac_algos k) + rest)))"
    using free [OF fin(1), of Md "refs_of Kdf (m_kdf_algos k) + (refs_of Mac (m_mac_algos k) + rest)"]
    by (simp add: refs cached_def ac_simps)
  show ?thesis
    unfolding destroy_crypto_def Let_def fst_conv by (simp add: and_then_def a free [OF fin(2)] free [OF fin(3)])
qed

lemma use_results:
  "use_result ossl k (sha_use ossl data) = fst (generate_sha ossl data (k, s))"
  "use_result ossl k (hmac_use ossl key message) = fst (generate_hmac ossl key message (k, s))"
  "use_result ossl k (password_use ossl password s) = fst (generate_salted_password ossl password (k, s))"
proof -
  have o: "fst (and_then (on_fst m) (on_context f) (k, s)) = out_bind (fst (m k)) (\<lambda>ctx. fst (f ctx))"
    for m :: "('a crypto, 'b) comp" and f :: "('b, 'e) comp"
    by (cases "m k"; cases "fst (m k)") (auto simp: and_then_def on_fst_def on_context_def)
  show "use_result ossl k (sha_use ossl data) = fst (generate_sha ossl data (k, s))"
    "use_result ossl k (hmac_use ossl key message) = fst (generate_hmac ossl key message (k, s))"
    "use_result ossl k (password_use ossl password s) = fst (generate_salted_password ossl password (k, s))"
    by (simp_all add: generate_sha_def sha_use_def generate_hmac_def hmac_use_def generate_salted_password_def password_use_def o)
qed

section \<open>Properties\<close>

text \<open>
  C25: what the wrappers hold of the library, over any calls made with one \<open>crypto\<close>, whether they throw or not: its destructor frees every
  algorithm that was fetched exactly once, every context has been freed by then, and nothing is freed twice. The exception is the
  context of a \<open>sha256\<close> that could not be constructed, one for each attempt. The calls are those of \<open>scram\<close> with the results they
  have there.
\<close>

theorem crypto_frees_what_it_holds:
  fixes ossl :: "('h, 'c) openssl"
  assumes "list_all use_settles us" "iterates order"
  shows "case run_uses ossl us (new_crypto, {#}) of (k, refs) \<Rightarrow>
     destroy_crypto order (k, refs) = (Done (), (k, replicate_mset
       (if digest_fails ossl then length (filter (\<lambda>u. \<exists>body. u = Digest body) us) else 0) Md_ctx))
   \<and> fst (run_use ossl (sha_use ossl data) (k, refs)) = fst (generate_sha ossl data (k, s))
   \<and> fst (run_use ossl (hmac_use ossl key message) (k, refs)) = fst (generate_hmac ossl key message (k, s))
   \<and> fst (run_use ossl (password_use ossl password s) (k, refs)) = fst (generate_salted_password ossl password (k, s))"
proof -
  obtain k refs where st: "run_uses ossl us (new_crypto, {#}) = (k, refs)" by fastforce
  have "holds_cached {#} (new_crypto, {#})" by (simp add: holds_cached_def new_crypto_def cached_def refs_of_def)
  from run_uses_cached [OF this _ assms(1), of ossl]
  have inv: "holds_cached (sum_list (map (leaked ossl) us)) (k, refs)" "crypto_wf ossl k" using st by (simp_all add: crypto_wf_new)
  have "fst (run_use ossl u (k, refs)) = use_result ossl k u" for u :: "('c, byte list) wrapper_use"
    using run_use_cached [OF inv, of u] by auto
  then show ?thesis
    using destroy_crypto_frees [OF inv(1) assms(2)]
    by (simp add: st sum_leaked use_results [where s = s])
qed

text \<open>An order of iteration.\<close>

definition sorted_keys :: "(string \<rightharpoonup> 'h) \<Rightarrow> string list" where
  "sorted_keys m = sorted_list_of_set (dom m)"

text \<open>A library whose digest cannot be initialised, with two attempts at it between other calls.\<close>

definition no_digest :: "(unit, byte list) openssl" where
  "no_digest = sum_openssl\<lparr>EVP_DigestInit := (\<lambda>_ c. (0, c))\<rparr>"

theorem crypto_frees_what_it_holds_witness:
  "(let us = [Digest Done, Sign Done, Digest Done, Derive (\<lambda>_. Threw Length_error), Sign Done];
         st = run_uses no_digest us (new_crypto, {#})
      in destroy_crypto sorted_keys st = (Done (), (fst st, {#Md_ctx, Md_ctx#})))"
proof -
  let ?us = "[Digest Done, Sign Done, Digest Done, Derive (\<lambda>_. Threw Length_error), Sign Done] :: (byte list, byte list) wrapper_use list"
  have o: "iterates sorted_keys" by (simp add: iterates_def sorted_keys_def)
  have us: "list_all use_settles ?us" by (simp add: settles_def)
  have f: "digest_fails no_digest" by (simp add: digest_fails_def no_digest_def sum_openssl_def)
  have n: "length (filter (\<lambda>u. \<exists>body. u = Digest body) ?us) = 2" by simp
  show ?thesis
    using crypto_frees_what_it_holds [OF us o, of no_digest] f n
    by (simp add: Let_def case_prod_unfold numeral_2_eq_2 del: run_uses.simps)
qed

end
