(* ===== verification/Echo.thy ===== *)
theory Echo
  imports Http_Line
begin

text \<open>
  \<open>examples/echo\<close>: a server that sends every line back, until the line \<open>close\<close>. The line is read byte by byte with
  \<open>read_c\<close>; the client of \<open>examples/telnet\<close> reads its lines in the same way. The answer is a function of the
  bytes of the stream, however the kernel has cut them.
\<close>

section \<open>Reading a byte\<close>

text \<open>What \<open>read_c\<close> with a mandatory byte does to a socket, in terms of the stream.\<close>

definition byte_read :: "socket \<Rightarrow> int outcome \<times> socket \<Rightarrow> bool" where
  "byte_read s res \<longleftrightarrow>
     (case incoming s of
        b # bs \<Rightarrow> fst res = Done (uint b) \<and> consumed 1 s (snd res)
      | [] \<Rightarrow> (case rx_stop (m_rx s) of
          None \<Rightarrow> fst res = Suspended \<and> consumed 0 s (snd res)
        | Some st \<Rightarrow> exhausted s (snd res) \<and>
            fst res = (if st < 0 then Threw (Errno_error ''socket read_c failed: '' (0 - st))
                       else Threw (Runtime_error ''socket read_c failed: socket closed''))))"

lemma on_in_read_c:
  assumes "sock_wf s" "get_read_chunk (m_in_buffer s) = b # bs"
  shows "on_in bb_read_c s = (Done (uint b), seek 1 s)" "consumed 1 s (seek 1 s)"
proof -
  have "bb_wf (m_in_buffer s)" using assms(1) by (simp add: sock_wf_def)
  then show "on_in bb_read_c s = (Done (uint b), seek 1 s)"
    using bb_read_c_eq [of "m_in_buffer s"] assms(2) by (simp add: on_in_def seek_def)
  show "consumed 1 s (seek 1 s)"
    using seek_consumed(1) [OF assms(1), of 1] assms(2) by simp
qed

lemma read_c_byte_read:
  assumes wf: "sock_wf s"
  shows "byte_read s (read_c True s)"
proof (cases "get_read_chunk (m_in_buffer s)")
  case (Cons b bs)
  then have "available (m_in_buffer s) \<noteq> 0"
    using wf read_chunk_empty_iff [of "m_in_buffer s"] by (simp add: sock_wf_def)
  then show ?thesis
    using on_in_read_c [OF wf Cons] Cons by (simp add: read_c_def byte_read_def incoming_def)
next
  case Nil
  then have av: "available (m_in_buffer s) = 0"
    using wf read_chunk_empty_iff [of "m_in_buffer s"] by (simp add: sock_wf_def)
  show ?thesis
  proof (cases "rx_bytes (m_rx s) = []")
    case True
    have "incoming s = []" using Nil True by (simp add: incoming_def)
    then show ?thesis
      using recv_incoming_stop [OF wf Nil True] exhausted_stop [OF wf Nil True] rx_stop_nonpos [of "m_rx s"]
        consumed_0 [OF wf] av
      by (auto simp: read_c_def byte_read_def and_then_def throw_def split: option.splits)
  next
    case False
    obtain k s1 where r: "recv_incoming s = (Done (int k), s1)" "0 < k" "consumed 0 s s1"
      "length (get_read_chunk (m_in_buffer s1)) = k"
      by (rule recv_incoming_data [OF wf Nil False])
    obtain b bs where c: "get_read_chunk (m_in_buffer s1) = b # bs"
      using r(2,4) by (cases "get_read_chunk (m_in_buffer s1)") auto
    have "incoming s = b # bs @ rx_bytes (m_rx s1)"
      using r(3) c by (simp add: consumed_def incoming_def)
    then show ?thesis
      using r(1,2) av on_in_read_c [OF consumed_wf [OF r(3)] c] consumed_trans [OF r(3), of 1 "seek 1 s1"]
      by (simp add: read_c_def byte_read_def and_then_def)
  qed
qed

text \<open>
  What a byte costs, on every state: a completion, or a byte of the buffer. This is the measure by which the
  loops over \<open>read_c\<close> end.
\<close>

definition unread :: "byte_buffer \<Rightarrow> nat" where
  "unread b = (if available b = 0 then 0 else Suc (nat (int (length (m_buffer b)) - m_start b)))"

definition reads_left :: "(socket \<times> socket) set" where
  "reads_left = inv_image (less_than <*lex*> less_than) (\<lambda>s. (rx_weight (m_rx s), unread (m_in_buffer s)))"

lemma wf_reads_left: "wf reads_left"
  by (auto simp: reads_left_def)

lemma bb_read_c_unread:
  "bb_read_c b = (Done i, b') \<Longrightarrow> available b \<noteq> 0 \<Longrightarrow> unread b' < unread b"
  by (auto simp: bb_read_c_def unread_def increment_read_p_def available_def read_ptr_def Let_def split: if_splits)

lemma read_c_left:
  assumes "read_c True s = (Done i, s')"
  shows "(s', s) \<in> reads_left"
proof (cases "available (m_in_buffer s) = 0")
  case False
  then obtain b where "bb_read_c (m_in_buffer s) = (Done i, b)" "s' = s\<lparr>m_in_buffer := b\<rparr>"
    using assms by (auto simp: read_c_def on_in_def split: prod.splits)
  then show ?thesis using bb_read_c_unread [of "m_in_buffer s" i b] False by (simp add: reads_left_def)
next
  case True
  then obtain status s1 where r: "recv_incoming s = (Done status, s1)" "\<not> status < 0" "status \<noteq> 0"
    "on_in bb_read_c s1 = (Done i, s')"
    using assms by (auto simp: read_c_def throw_def elim!: and_then_DoneE split: if_splits)
  then have "rx_weight (m_rx s1) < rx_weight (m_rx s)" by (intro recv_incoming_weight) auto
  then show ?thesis using on_in_rx [OF r(4)] by (simp add: reads_left_def)
qed

section \<open>Reading a line\<close>

text \<open>The loop over the bytes of a line; a carriage return is dropped wherever it stands.\<close>

function read_line :: "string \<Rightarrow> (socket, string) comp" where
  "read_line result s =
     (case read_c True s of
        (Done i, s1) \<Rightarrow>
          if i \<noteq> 10
          then read_line (if i \<noteq> 13 then result @ [char_of (nat i)] else result) s1
          else (Done result, s1)
      | (Threw e, s1) \<Rightarrow> (Threw e, s1)
      | (Suspended, s1) \<Rightarrow> (Suspended, s1)
      | (Undefined, s1) \<Rightarrow> (Undefined, s1))"
  by pat_completeness auto
termination
  by (relation "inv_image reads_left snd") (auto simp: wf_reads_left intro: read_c_left [OF sym])

declare read_line.simps [simp del]

section \<open>The connection\<close>

definition ECHO_NEWLINE :: string where
  "ECHO_NEWLINE = [CHR 0x0D, CHR 0x0A]"

text \<open>\<open>message += newline\<close>, \<open>write\<close> and \<open>flush\<close>.\<close>

definition send_line :: "string \<Rightarrow> (socket, unit) comp" where
  "send_line message =
     (let message = message @ ECHO_NEWLINE
      in and_then (sock_write (bytes message) (int (length message))) (\<lambda>_. flush))"

lemma read_line_left: "read_line result s = (Done message, s') \<Longrightarrow> (s', s) \<in> reads_left"
proof (induction result s rule: read_line.induct)
  case (1 result s)
  obtain r s1 where rc: "read_c True s = (r, s1)" by fastforce
  with 1(2) obtain i where r: "r = Done i" by (subst (asm) read_line.simps) (cases r; simp)
  show ?case
  proof (cases "i = 10")
    case True
    then show ?thesis using 1(2) rc r read_c_left [of s i s1] by (subst (asm) read_line.simps) simp
  next
    case False
    have "read_line (if i \<noteq> 13 then result @ [char_of (nat i)] else result) s1 = (Done message, s')"
      using 1(2) rc r False by (subst (asm) read_line.simps) simp
    from 1(1) [OF rc [symmetric] r False this] have "(s', s1) \<in> reads_left" .
    then show ?thesis using read_c_left [of s i s1] rc r by (auto simp: reads_left_def)
  qed
qed

lemma send_line_same_in: "same_in s (snd (send_line message s))"
proof -
  obtain r s1 where w: "sock_write (bytes (message @ ECHO_NEWLINE)) (int (length (message @ ECHO_NEWLINE))) s = (r, s1)"
    by fastforce
  have "same_in s s1" using sock_write_same_in [of s "bytes (message @ ECHO_NEWLINE)" "int (length (message @ ECHO_NEWLINE))"]
    by (simp only: w snd_conv)
  then show ?thesis
    using same_in_trans [OF _ flush_same_in [of s1]] by (cases r) (simp_all add: send_line_def and_then_def w [simplified])
qed

function echo_connection :: "(socket, unit) comp" where
  "echo_connection s =
     (case read_line [] s of
        (Done message, s1) \<Rightarrow>
          if message = ''close'' then (Done (), s1)
          else (case send_line message s1 of
              (Done _, s2) \<Rightarrow> echo_connection s2
            | (Threw e, s2) \<Rightarrow> (Threw e, s2)
            | (Suspended, s2) \<Rightarrow> (Suspended, s2)
            | (Undefined, s2) \<Rightarrow> (Undefined, s2))
      | (Threw e, s1) \<Rightarrow> (Threw e, s1)
      | (Suspended, s1) \<Rightarrow> (Suspended, s1)
      | (Undefined, s1) \<Rightarrow> (Undefined, s1))"
  by pat_completeness auto
termination
proof (relation reads_left, goal_cases)
  case 1
  show ?case by (rule wf_reads_left)
next
  case (2 s r s1 message r2 s2 u)
  then have eqs: "read_line [] s = (Done message, s1)" "send_line message s1 = (Done (), s2)" by simp_all
  have "(s1, s) \<in> reads_left" "same_in s1 s2"
    using read_line_left [OF eqs(1)] send_line_same_in [of s1 message] eqs(2) by simp_all
  then show ?case by (simp add: reads_left_def same_in_def)
qed

declare echo_connection.simps [simp del]

section \<open>Lines of the stream\<close>

definition line_text :: "byte list \<Rightarrow> string" where
  "line_text bs = filter (\<lambda>c. c \<noteq> CHR 0x0D) (chars bs)"

definition read_error :: "int \<Rightarrow> error" where
  "read_error st = (if st < 0 then Errno_error ''socket read_c failed: '' (0 - st)
     else Runtime_error ''socket read_c failed: socket closed'')"

text \<open>The texts of the lines that are complete in a sequence of bytes.\<close>

function lines_of :: "byte list \<Rightarrow> string list" where
  "lines_of bs =
     (if newline \<in> set bs then line_text (first_line bs) # lines_of (drop (Suc (length (first_line bs))) bs) else [])"
  by pat_completeness auto
termination by (relation "measure length") (auto intro: diff_less dest: length_pos_if_in_set)

declare lines_of.simps [simp del]

text \<open>What reading a line does to a socket, with the text read so far.\<close>

definition text_read :: "string \<Rightarrow> socket \<Rightarrow> string outcome \<times> socket \<Rightarrow> bool" where
  "text_read result s res \<longleftrightarrow>
     (if newline \<in> set (incoming s)
      then fst res = Done (result @ line_text (first_line (incoming s)))
        \<and> consumed (Suc (length (first_line (incoming s)))) s (snd res)
      else case rx_stop (m_rx s) of
        None \<Rightarrow> fst res = Suspended \<and> consumed (length (incoming s)) s (snd res)
      | Some st \<Rightarrow> fst res = Threw (read_error st) \<and> exhausted s (snd res))"

lemma line_text_Cons: "line_text (b # bs) = (if b = 13 then line_text bs else char_of_byte b # line_text bs)"
proof -
  have "byte_of_char (CHR 0x0D) = 13" by (simp add: byte_of_char_def)
  then have "char_of_byte b = CHR 0x0D \<longleftrightarrow> b = 13" by (metis byte_of_char_of_byte char_of_byte_of_char)
  then show ?thesis by (simp add: line_text_def chars_def)
qed

lemma line_text_Nil [simp]: "line_text [] = []"
  by (simp add: line_text_def)

lemma uint_eq_byte: "uint (b :: byte) = 10 \<longleftrightarrow> b = 10" "uint (b :: byte) = 13 \<longleftrightarrow> b = 13"
proof -
  have "uint (10 :: byte) = 10" "uint (13 :: byte) = 13" by simp_all
  then show "uint (b :: byte) = 10 \<longleftrightarrow> b = 10" "uint (b :: byte) = 13 \<longleftrightarrow> b = 13"
    by (metis word_eq_iff_unsigned)+
qed

lemma text_read_step:
  assumes c: "consumed 1 s s1" and i: "incoming s = b # bs" and b: "b \<noteq> newline"
    and t: "text_read (if b \<noteq> 13 then result @ [char_of_byte b] else result) s1 res"
  shows "text_read result s res"
proof -
  have i1: "incoming s1 = bs" using c i by (simp add: consumed_def)
  have fl: "first_line (b # bs) = b # first_line bs" using b by (simp add: first_line_def)
  show ?thesis
  proof (cases "newline \<in> set bs")
    case True
    then show ?thesis
      using t consumed_trans [OF c, of "Suc (length (first_line bs))" "snd res"]
      by (simp add: text_read_def i i1 fl line_text_Cons)
  next
    case False
    then show ?thesis
      using t b consumed_stop [OF c] consumed_trans [OF c, of "length bs" "snd res"] consumed_exhausted [OF c, of "snd res"]
      by (auto simp: text_read_def i i1 split: option.splits)
  qed
qed

lemma read_line_text_read:
  assumes "sock_wf s"
  shows "text_read result s (read_line result s)"
  using assms
proof (induction result s rule: read_line.induct)
  case (1 result s)
  obtain r s1 where rc: "read_c True s = (r, s1)" by fastforce
  have br: "byte_read s (r, s1)" using read_c_byte_read [OF 1(2)] by (simp add: rc)
  show ?case
  proof (cases "incoming s")
    case Nil
    then show ?thesis
      using br by (subst read_line.simps) (auto simp: rc byte_read_def text_read_def read_error_def split: option.splits)
  next
    case (Cons b bs)
    then have r: "r = Done (uint b)" and c: "consumed 1 s s1" using br by (simp_all add: byte_read_def)
    have ch: "char_of (nat (uint b)) = char_of_byte b" by (simp add: char_of_byte_def)
    show ?thesis
    proof (cases "b = newline")
      case True
      then have "uint b = 10" by (simp add: newline_def)
      then show ?thesis using c True Cons
        by (subst read_line.simps) (simp add: rc r text_read_def first_line_def)
    next
      case False
      then have n: "uint b \<noteq> 10" by (simp add: uint_eq_byte newline_def)
      show ?thesis
      proof (rule text_read_step [OF c Cons False])
        show "text_read (if b \<noteq> 13 then result @ [char_of_byte b] else result) s1 (read_line result s)"
          using 1(1) [OF rc [symmetric] r n consumed_wf [OF c]] n
          unfolding ch uint_eq_byte read_line.simps [of result s] by (cases "b = 13") (simp_all add: rc r ch [simplified] uint_eq_byte)
      qed
    qed
  qed
qed

section \<open>What the server answers\<close>

definition line_bytes :: "string \<Rightarrow> byte list" where
  "line_bytes m = bytes (m @ ECHO_NEWLINE)"

definition echoed_lines :: "byte list \<Rightarrow> string list" where
  "echoed_lines bs = takeWhile (\<lambda>m. m \<noteq> ''close'') (lines_of bs)"

definition echo_answer :: "byte list \<Rightarrow> byte list" where
  "echo_answer bs = concat (map line_bytes (echoed_lines bs))"

definition echo_end :: "byte list \<Rightarrow> int option \<Rightarrow> unit outcome" where
  "echo_end bs stop =
     (if ''close'' \<in> set (lines_of bs) then Done ()
      else case stop of None \<Rightarrow> Suspended | Some st \<Rightarrow> Threw (read_error st))"

text \<open>
  A run on a socket whose output buffer is empty: what has been sent is a prefix of the answer; with room at the
  kernel it is the answer, and the run ends as the stream says.
\<close>

definition echoed :: "socket \<Rightarrow> unit outcome \<times> socket \<Rightarrow> bool" where
  "echoed s res \<longleftrightarrow>
     (\<exists>k. out_stream (snd res) = out_stream s @ take k (echo_answer (incoming s)))
   \<and> (int (length (echo_answer (incoming s))) \<le> slack s \<longrightarrow>
        fst res = echo_end (incoming s) (rx_stop (m_rx s))
      \<and> out_stream (snd res) = out_stream s @ echo_answer (incoming s)
      \<and> get_read_chunk (m_out_buffer (snd res)) = [])"

lemma consumed_out: "consumed n s s' \<Longrightarrow> out_stream s' = out_stream s \<and> slack s' = slack s
    \<and> m_out_buffer s' = m_out_buffer s"
  by (simp add: consumed_def same_out_def out_stream_def slack_def)

lemma exhausted_out: "exhausted s s' \<Longrightarrow> out_stream s' = out_stream s \<and> slack s' = slack s
    \<and> m_out_buffer s' = m_out_buffer s"
  by (simp add: exhausted_def same_out_def out_stream_def slack_def)

lemma send_line_handed:
  assumes "sock_wf s"
  obtains r s' k where "send_line m s = (r, s')" "r \<noteq> Undefined" "handed (take k (line_bytes m)) s s'"
    "r = Done () \<Longrightarrow> sent (line_bytes m) s s' \<and> get_read_chunk (m_out_buffer s') = []"
    "int (length (line_bytes m)) \<le> slack s \<Longrightarrow> r = Done ()"
proof -
  have l: "int (length (m @ ECHO_NEWLINE)) = int (length (line_bytes m))" by (simp add: line_bytes_def)
  obtain r1 s1 k where w: "sock_write (line_bytes m) (int (length (line_bytes m))) s = (r1, s1)" "r1 \<noteq> Undefined"
    "handed (take k (line_bytes m)) s s1" "r1 = Done () \<longrightarrow> sent (line_bytes m) s s1"
    "int (length (line_bytes m)) \<le> slack s \<longrightarrow> r1 = Done ()"
    using sock_write_handed [OF assms, of "line_bytes m"] by blast
  have eq: "send_line m s = pass_on r1 s1 (\<lambda>_. flush)"
    by (simp only: send_line_def Let_def and_then_def l line_bytes_def [symmetric] w(1) prod.case)
  show thesis
  proof (cases "r1 = Done ()")
    case False
    then have "send_line m s = (r1, s1)" using eq w(2) by (cases r1) simp_all
    then show thesis using that w False by blast
  next
    case True
    then have s1: "sent (line_bytes m) s s1" using w(4) by simp
    obtain r s' where f: "flush s1 = (r, s')" "handed [] s1 s'" "r \<noteq> Undefined"
      "r = Done () \<longrightarrow> get_read_chunk (m_out_buffer s') = [] \<and> slack s' = slack s1"
      "0 \<le> slack s1 \<longrightarrow> r = Done ()"
      using flush_handed [OF sent_wf [OF s1]] by blast
    have h: "handed (line_bytes m) s s'" using handed_trans [of "line_bytes m" s s1 "[]"] s1 f(2) by (simp add: sent_def)
    show thesis
    proof (rule that [of r s' "length (line_bytes m)"])
      show "send_line m s = (r, s')" using eq True f(1) by simp
    qed (use f h s1 sent_slack [OF s1] in \<open>simp_all add: sent_def\<close>)
  qed
qed

lemma echo_answer_line:
  assumes "newline \<in> set bs" "line_text (first_line bs) = m" "bs' = drop (Suc (length (first_line bs))) bs"
  shows "echo_answer bs = (if m = ''close'' then [] else line_bytes m @ echo_answer bs')"
    "echo_end bs stop = (if m = ''close'' then Done () else echo_end bs' stop)"
  using assms by (simp_all add: echo_answer_def echoed_lines_def echo_end_def lines_of.simps [of bs])

lemma echo_answer_no_line:
  assumes "newline \<notin> set bs"
  shows "echo_answer bs = []" "echo_end bs stop = (case stop of None \<Rightarrow> Suspended | Some st \<Rightarrow> Threw (read_error st))"
  using assms by (simp_all add: echo_answer_def echoed_lines_def echo_end_def lines_of.simps [of bs])

text \<open>One turn of the loop, for a line that is not the last one.\<close>

lemma echoed_turn:
  assumes c: "out_stream s1 = out_stream s \<and> slack s1 = slack s"
    and a: "echo_answer (incoming s) = line_bytes m @ ans" "echo_end (incoming s) (rx_stop (m_rx s)) = fin"
    and h: "handed (take k (line_bytes m)) s1 s2" "int (length (line_bytes m)) \<le> slack s1 \<Longrightarrow> r2 = Done ()"
    and d: "r2 = Done () \<Longrightarrow> sent (line_bytes m) s1 s2 \<and> (\<exists>j. out_stream (snd res) = out_stream s2 @ take j ans)
        \<and> (int (length ans) \<le> slack s2 \<longrightarrow> fst res = fin \<and> out_stream (snd res) = out_stream s2 @ ans
          \<and> get_read_chunk (m_out_buffer (snd res)) = [])"
    and n: "r2 \<noteq> Done () \<Longrightarrow> res = (r2, s2)"
  shows "echoed s res"
proof (cases "r2 = Done ()")
  case False
  then have "out_stream (snd res) = out_stream s @ take k (line_bytes m)" using n h(1) c by (simp add: handed_def)
  then have "out_stream (snd res) = out_stream s @ take (min k (length (line_bytes m))) (line_bytes m @ ans)" by simp
  then have "\<exists>k. out_stream (snd res) = out_stream s @ take k (line_bytes m @ ans)" by (rule exI)
  moreover have "slack s < int (length (line_bytes m))" using h(2) c False by fastforce
  ultimately show ?thesis using a(1) by (simp add: echoed_def)
next
  case True
  obtain j where j: "out_stream (snd res) = out_stream s2 @ take j ans" using d [OF True] by blast
  have o2: "out_stream s2 = out_stream s @ line_bytes m" "slack s2 = slack s - int (length (line_bytes m))"
    using d [OF True] c by (simp_all add: sent_def handed_def)
  have "out_stream (snd res) = out_stream s @ take (length (line_bytes m) + j) (line_bytes m @ ans)"
    using j o2(1) by simp
  then have "\<exists>k. out_stream (snd res) = out_stream s @ take k (line_bytes m @ ans)" by (rule exI)
  then show ?thesis using d [OF True] a o2 by (simp add: echoed_def)
qed

lemma echo_connection_echoed:
  assumes "sock_wf s" "get_read_chunk (m_out_buffer s) = []"
  shows "echoed s (echo_connection s)"
  using assms
proof (induction s rule: echo_connection.induct)
  case (1 s)
  obtain r s1 where rl: "read_line [] s = (r, s1)" by fastforce
  have tr: "text_read [] s (r, s1)" using read_line_text_read [OF 1(2), of "[]"] by (simp add: rl)
  show ?case
  proof (cases "newline \<in> set (incoming s)")
    case False
    have o: "out_stream s1 = out_stream s \<and> m_out_buffer s1 = m_out_buffer s"
      using tr False consumed_out exhausted_out by (auto simp: text_read_def split: option.splits)
    moreover have "echo_connection s = (echo_end (incoming s) (rx_stop (m_rx s)), s1)"
      using tr False by (subst echo_connection.simps) (auto simp: rl text_read_def echo_answer_no_line split: option.splits)
    ultimately show ?thesis using 1(3) by (simp add: echoed_def echo_answer_no_line [OF False])
  next
    case True
    define m where "m = line_text (first_line (incoming s))"
    define rest where "rest = drop (Suc (length (first_line (incoming s)))) (incoming s)"
    note ans = echo_answer_line [OF True m_def [symmetric] rest_def]
    have r: "r = Done m" and c: "consumed (Suc (length (first_line (incoming s)))) s s1"
      using tr True by (simp_all add: text_read_def m_def)
    note o = consumed_out [OF c]
    show ?thesis
    proof (cases "m = ''close''")
      case True
      then have "echo_connection s = (Done (), s1)" by (subst echo_connection.simps) (simp add: rl r)
      then show ?thesis using o 1(3) True by (simp add: echoed_def ans)
    next
      case False
      obtain r2 s2 k where sl: "send_line m s1 = (r2, s2)" "r2 \<noteq> Undefined" "handed (take k (line_bytes m)) s1 s2"
        "r2 = Done () \<Longrightarrow> sent (line_bytes m) s1 s2 \<and> get_read_chunk (m_out_buffer s2) = []"
        "int (length (line_bytes m)) \<le> slack s1 \<Longrightarrow> r2 = Done ()"
        using send_line_handed [OF consumed_wf [OF c], of m] by metis
      have i2: "incoming s2 = rest" "rx_stop (m_rx s2) = rx_stop (m_rx s)"
        using sl(3) c consumed_stop [OF c]
        by (simp_all add: handed_def same_in_def incoming_def consumed_def rest_def)
      show ?thesis
      proof (rule echoed_turn [of s1 s m "echo_answer rest" "echo_end rest (rx_stop (m_rx s))" k s2 r2 "echo_connection s"])
        assume d: "r2 = Done ()"
        have eq: "echo_connection s = echo_connection s2"
          using False d by (subst echo_connection.simps) (simp add: rl r sl(1))
        have "echoed s2 (echo_connection s2)"
          using 1(1) [OF rl [symmetric] r False, of r2 s2 "()"] sl(1) sl(4) [OF d] d by (simp add: sent_wf [of "line_bytes m" s1 s2])
        then show "sent (line_bytes m) s1 s2 \<and> (\<exists>j. out_stream (snd (echo_connection s)) = out_stream s2 @ take j (echo_answer rest))
          \<and> (int (length (echo_answer rest)) \<le> slack s2 \<longrightarrow> fst (echo_connection s) = echo_end rest (rx_stop (m_rx s))
            \<and> out_stream (snd (echo_connection s)) = out_stream s2 @ echo_answer rest
            \<and> get_read_chunk (m_out_buffer (snd (echo_connection s))) = [])"
          using sl(4) [OF d] by (simp add: echoed_def i2 eq)
      next
        assume "r2 \<noteq> Done ()"
        then show "echo_connection s = (r2, s2)"
          using sl(1,2) False by (subst echo_connection.simps) (cases r2; simp add: rl r)
      qed (use ans False o sl in simp_all)
    qed
  qed
qed

section \<open>Properties\<close>

lemma new_socket_out [simp]:
  "out_stream (new_socket rx tx) = []" "get_read_chunk (m_out_buffer (new_socket rx tx)) = []"
  "slack (new_socket rx tx) = int (tx_room tx)" "m_sent (new_socket rx tx) = []"
  by (simp_all add: new_socket_def out_stream_def slack_def new_byte_buffer_def get_read_chunk_def available_def)

lemma echoed_new_socket:
  "(\<exists>k. m_sent (snd (echo_connection (new_socket rx tx))) = take k (echo_answer (rx_bytes rx)))
   \<and> (length (echo_answer (rx_bytes rx)) \<le> tx_room tx \<longrightarrow>
        fst (echo_connection (new_socket rx tx)) = echo_end (rx_bytes rx) (rx_stop rx)
      \<and> m_sent (snd (echo_connection (new_socket rx tx))) = echo_answer (rx_bytes rx))"
proof -
  obtain r s' where e: "echo_connection (new_socket rx tx) = (r, s')" by fastforce
  have "echoed (new_socket rx tx) (r, s')"
    using echo_connection_echoed [of "new_socket rx tx"] by (simp add: e)
  then have o: "\<exists>k. out_stream s' = take k (echo_answer (rx_bytes rx))"
    and full: "length (echo_answer (rx_bytes rx)) \<le> tx_room tx \<longrightarrow> r = echo_end (rx_bytes rx) (rx_stop rx)
      \<and> m_sent s' = echo_answer (rx_bytes rx)"
    unfolding echoed_def by (auto simp: out_stream_def)
  from o obtain k where k: "m_sent s' @ get_read_chunk (m_out_buffer s') = take k (echo_answer (rx_bytes rx))"
    by (auto simp: out_stream_def)
  have "m_sent s' = take (min (length (m_sent s')) k) (echo_answer (rx_bytes rx))"
    using arg_cong [OF k, of "take (length (m_sent s'))"] by (simp add: take_take)
  then have "\<exists>k. m_sent s' = take k (echo_answer (rx_bytes rx))" by (rule exI)
  then show ?thesis using full by (simp add: e)
qed

text \<open>
  C22: the echo server answers every stream, however it is cut, with its lines in order up to the first one that says
  \<open>close\<close>, each without carriage returns and followed by CRLF: what has been sent is a prefix of this at any time, and with
  room at the kernel it is all of it. Then the connection ends at \<open>close\<close>; without such a line it waits for
  more bytes, or ends with the exception of the last completion. Bytes behind the last newline are never answered.
\<close>

theorem echo_connection_answers:
  "(\<exists>k. m_sent (snd (echo_connection (new_socket rx tx))) = take k (echo_answer (rx_bytes rx)))
   \<and> (length (echo_answer (rx_bytes rx)) \<le> tx_room tx \<longrightarrow>
        fst (echo_connection (new_socket rx tx)) = echo_end (rx_bytes rx) (rx_stop rx)
      \<and> m_sent (snd (echo_connection (new_socket rx tx))) = echo_answer (rx_bytes rx))"
  by (rule echoed_new_socket)

theorem echo_connection_answers_witness:
  "(let rx = [Rx_data (bytes ''on''), Rx_data (bytes (''e'' @ [CHR 0x0D, CHR 0x0A] @ ''close'' @ [CHR 0x0A]))]; tx = [Tx_ok 3, Tx_ok 9]
    in fst (echo_connection (new_socket rx tx)) = Done ()
     \<and> m_sent (snd (echo_connection (new_socket rx tx))) = bytes (''one'' @ [CHR 0x0D, CHR 0x0A]))"
proof -
  let ?rx = "[Rx_data (bytes ''on''), Rx_data (bytes (''e'' @ [CHR 0x0D, CHR 0x0A] @ ''close'' @ [CHR 0x0A]))]"
  have "echo_answer (rx_bytes ?rx) = bytes (''one'' @ [CHR 0x0D, CHR 0x0A])" "echo_end (rx_bytes ?rx) (rx_stop ?rx) = Done ()"
    by code_simp+
  then show ?thesis using echo_connection_answers [of ?rx "[Tx_ok 3, Tx_ok 9]"] by (simp add: Let_def)
qed

end
