(* ===== verification/Telnet.thy ===== *)
theory Telnet
  imports Echo Socket_Io
begin

text \<open>
  \<open>examples/telnet\<close>: a client that prints the lines of a server and sends it the lines of its standard input. The standard input
  is read through a listener, at most 512 bytes at a time; what these reads deliver is an argument of the model, as
  for the socket. The coroutine that receives uses the reading side of the socket and the one that sends its writing side; both
  run here until they wait or end.
\<close>

section \<open>The standard input\<close>

definition TELNET_BUFFER_SIZE :: nat where
  "TELNET_BUFFER_SIZE = 512"

text \<open>The loop over the bytes of a read: the line so far, and whether its end was there.\<close>

fun scan_typed :: "byte list \<Rightarrow> string \<Rightarrow> string \<times> bool" where
  "scan_typed [] result = (result, False)"
| "scan_typed (b # bs) result =
     (let c = char_of_byte b in
      if c = CHR 0x0A then (result, True)
      else if c \<noteq> CHR 0x0D then scan_typed bs (result @ [c])
      else scan_typed bs result)"

lemma on_recv_weight_any: "on_recv (Suc n) rx = Some (status, data, rx') \<Longrightarrow> rx_weight rx' < rx_weight rx"
  by (cases "(Suc n, rx)" rule: on_recv.cases) (auto split: if_splits)

text \<open>
  A read that fails or finds the end of the input has a status that is not positive, so the loop over its bytes
  does nothing; its status is not looked at otherwise.
\<close>

function read_typed :: "string \<Rightarrow> (rx_event list, string) comp" where
  "read_typed result rx =
     (case on_recv TELNET_BUFFER_SIZE rx of
        None \<Rightarrow> (Suspended, rx)
      | Some (len, data, rx') \<Rightarrow>
          (case scan_typed (take (nat len) data) result of
             (result', line_ended) \<Rightarrow> if line_ended then (Done result', rx') else read_typed result' rx'))"
  by pat_completeness auto
termination
  by (relation "measure (\<lambda>(_, rx). rx_weight rx)")
    (auto simp: TELNET_BUFFER_SIZE_def dest: on_recv_weight_any [of 511, simplified])

declare read_typed.simps [simp del]

lemma read_typed_weight: "read_typed result rx = (Done message, rx') \<Longrightarrow> rx_weight rx' < rx_weight rx"
proof (induction result rx rule: read_typed.induct)
  case (1 result rx)
  obtain len data rx1 where o: "on_recv TELNET_BUFFER_SIZE rx = Some (len, data, rx1)"
    using 1(2) by (subst (asm) read_typed.simps) (auto split: option.splits)
  have less: "rx_weight rx1 < rx_weight rx"
    using o on_recv_weight_any [of 511] by (simp add: TELNET_BUFFER_SIZE_def)
  obtain result' e where sc: "scan_typed (take (nat len) data) result = (result', e)" by fastforce
  show ?case
  proof (cases e)
    case True
    then show ?thesis using 1(2) o sc less by (subst (asm) read_typed.simps) simp
  next
    case False
    have "read_typed result' rx1 = (Done message, rx')"
      using 1(2) o sc False by (subst (asm) read_typed.simps) simp
    with 1(1) [OF o refl refl sc [symmetric] False] less show ?thesis by simp
  qed
qed

section \<open>The client\<close>

record telnet =
  net_sock :: socket
  tn_stdin :: "rx_event list"
  tn_cout :: string
  tn_running :: bool

definition print :: "string \<Rightarrow> telnet \<Rightarrow> telnet" where
  "print s t = t\<lparr>tn_cout := tn_cout t @ s\<rparr>"

definition endl :: string where
  "endl = [CHR 0x0A]"

function receive_lines :: "(telnet, unit) comp" where
  "receive_lines t =
     (case read_line [] (net_sock t) of
        (Done message, s) \<Rightarrow> receive_lines (print (''remote> '' @ message @ endl) (t\<lparr>net_sock := s\<rparr>))
      | (Threw e, s) \<Rightarrow> (Threw e, t\<lparr>net_sock := s\<rparr>)
      | (Suspended, s) \<Rightarrow> (Suspended, t\<lparr>net_sock := s\<rparr>)
      | (Undefined, s) \<Rightarrow> (Undefined, t\<lparr>net_sock := s\<rparr>))"
  by pat_completeness auto
termination
  by (relation "inv_image reads_left net_sock") (auto simp: wf_reads_left print_def intro: read_line_left [OF sym])

declare receive_lines.simps [simp del]

text \<open>\<open>what\<close> of an exception; \<open>strerror\<close> is the C library's.\<close>

fun error_what :: "(int \<Rightarrow> string) \<Rightarrow> error \<Rightarrow> string option" where
  "error_what strerror (Runtime_error m) = Some m"
| "error_what strerror (Errno_error prefix n) = Some (prefix @ strerror n)"
| "error_what strerror Length_error = None"

text \<open>The handler takes a \<open>std::runtime_error\<close>; another exception leaves the coroutine.\<close>

definition incoming_message :: "(int \<Rightarrow> string) \<Rightarrow> (telnet, unit) comp" where
  "incoming_message strerror t =
     (case receive_lines t of
        (Threw e, t1) \<Rightarrow>
          (case error_what strerror e of
             Some what \<Rightarrow> (Done (), (print (what @ endl) t1)\<lparr>tn_running := False\<rparr>)
           | None \<Rightarrow> (Threw e, t1))
      | (Done _, t1) \<Rightarrow> (Done (), t1\<lparr>tn_running := False\<rparr>)
      | (Suspended, t1) \<Rightarrow> (Suspended, t1)
      | (Undefined, t1) \<Rightarrow> (Undefined, t1))"

text \<open>The loop of \<open>start_client\<close>.\<close>

function send_typed :: "(telnet, unit) comp" where
  "send_typed t =
     (case read_typed [] (tn_stdin t) of
        (Done message, rx) \<Rightarrow>
          (case send_line message (net_sock t) of
             (Done _, s) \<Rightarrow> send_typed (t\<lparr>tn_stdin := rx, net_sock := s\<rparr>)
           | (Threw e, s) \<Rightarrow> (Threw e, t\<lparr>tn_stdin := rx, net_sock := s\<rparr>)
           | (Suspended, s) \<Rightarrow> (Suspended, t\<lparr>tn_stdin := rx, net_sock := s\<rparr>)
           | (Undefined, s) \<Rightarrow> (Undefined, t\<lparr>tn_stdin := rx, net_sock := s\<rparr>))
      | (Threw e, rx) \<Rightarrow> (Threw e, t\<lparr>tn_stdin := rx\<rparr>)
      | (Suspended, rx) \<Rightarrow> (Suspended, t\<lparr>tn_stdin := rx\<rparr>)
      | (Undefined, rx) \<Rightarrow> (Undefined, t\<lparr>tn_stdin := rx\<rparr>))"
  by pat_completeness auto
termination
  by (relation "measure (\<lambda>t. rx_weight (tn_stdin t))") (auto dest: read_typed_weight [OF sym])

declare send_typed.simps [simp del]

section \<open>Starting the client\<close>

text \<open>
  The state is the world of the operating system and the loop, with what has been printed. When an exception leaves the coroutine
  its locals are destroyed; behind the connection these have destructors of their own, before it there is the client socket.
\<close>

definition STDIN_FILENO :: int where
  "STDIN_FILENO = 0"

definition say :: "string \<Rightarrow> ('w \<times> string, unit) comp" where
  "say s p = (Done (), (fst p, snd p @ s))"

definition with_client :: "'k posix \<Rightarrow> client_socket \<Rightarrow> (('k, 'r) world \<times> string, 'a) comp \<Rightarrow> (('k, 'r) world \<times> string, 'a) comp" where
  "with_client P cl m p =
     (case m p of
        (Threw e, p1) \<Rightarrow> and_then (on_fst (destroy_client P cl)) (\<lambda>_. throw e) p1
      | (Done a, p1) \<Rightarrow> (Done a, p1)
      | (Suspended, p1) \<Rightarrow> (Suspended, p1)
      | (Undefined, p1) \<Rightarrow> (Undefined, p1))"

text \<open>\<open>start_client\<close> up to its suspension in \<open>connect\<close>: the client socket, the descriptor, and how the request for the connection went.\<close>

definition start_client :: "'k posix \<Rightarrow> 'r liburing \<Rightarrow> handle \<Rightarrow> pointer \<Rightarrow> nat \<Rightarrow> nat \<Rightarrow> string \<Rightarrow> string
    \<Rightarrow> (('k, 'r) world \<times> string, client_socket \<times> int \<times> e_status outcome) comp" where
  "start_client P U h addr_at rl wl name service =
     and_then (on_fst (new_client_inet P name service)) (\<lambda>cl.
     and_then (say (''Connecting...'' @ endl)) (\<lambda>_.
     and_then (with_client P cl (on_fst (connect_start P U h addr_at rl wl cl))) (\<lambda>(fd, r). return (cl, fd, r))))"

text \<open>
  Behind it: \<open>incoming_message\<close> is called and runs, with the handle \<open>hin\<close>, to its first wait, a receive into the buffer at
  \<open>base\<close>; then the listener of the standard input is made at \<open>a\<close>, and read into the buffer at \<open>buf\<close>.
\<close>

definition incoming_message_start :: "'r liburing \<Rightarrow> handle \<Rightarrow> pointer \<Rightarrow> socket_ends \<Rightarrow> (('k, 'r) world, e_status outcome) comp" where
  "incoming_message_start U hin base so w = (case recv_start U hin base so (new_socket [] []) w of (r, w1) \<Rightarrow> (Done r, w1))"

definition client_connected :: "'k posix \<Rightarrow> 'r liburing \<Rightarrow> handle \<Rightarrow> handle \<Rightarrow> pointer \<Rightarrow> pointer \<Rightarrow> client_socket \<Rightarrow> int
    \<Rightarrow> nat \<Rightarrow> nat \<Rightarrow> nat \<Rightarrow> e_status \<Rightarrow> (('k, 'r) world \<times> string, e_status) comp" where
  "client_connected P U h hin base buf cl fd rl wl a status =
     with_client P cl
       (and_then (on_fst (connect_resumed fd rl wl status)) (\<lambda>so.
        and_then (say (''Connected (Enter the messages to send to the server)'' @ endl)) (\<lambda>_.
        and_then (on_fst (incoming_message_start U hin base so)) (\<lambda>_.
        and_then (on_fst (make_listener a STDIN_FILENO)) (\<lambda>_.
        on_fst (on_loop (await_request U h a (Read buf (int TELNET_BUFFER_SIZE)))))))))"

section \<open>What the client reads from its input\<close>

lemma scan_typed_Cons:
  "scan_typed (b # bs) result =
     (if b = newline then (result, True) else scan_typed bs (if b \<noteq> 13 then result @ [char_of_byte b] else result))"
proof -
  have "byte_of_char (CHR 0x0D) = 13" by (simp add: byte_of_char_def)
  then have cr: "char_of_byte b = CHR 0x0D \<longleftrightarrow> b = 13" by (metis byte_of_char_of_byte char_of_byte_of_char)
  show ?thesis by (simp only: scan_typed.simps Let_def cr char_newline if_distrib [of "scan_typed bs"])
qed

lemma scan_typed_eq:
  "scan_typed bs result = (if newline \<in> set bs then (result @ line_text (first_line bs), True) else (result @ line_text bs, False))"
proof (induction bs arbitrary: result)
  case Nil
  then show ?case by simp
next
  case (Cons b bs)
  have "(13 :: byte) \<noteq> newline" by (simp add: newline_def)
  then show ?case
    unfolding scan_typed_Cons Cons.IH by (auto simp: first_line_def line_text_Cons)
qed

lemma read_typed_Nil: "read_typed result [] = (Suspended, [])"
  by (subst read_typed.simps) simp

lemma read_typed_end: "ev = Rx_data [] \<or> ev = Rx_err e \<Longrightarrow> read_typed result (ev # rx) = read_typed result rx"
  by (subst read_typed.simps) auto

lemma read_typed_data:
  assumes "length bs \<le> TELNET_BUFFER_SIZE"
  shows "read_typed result (Rx_data bs # rx) =
     (if newline \<in> set bs then (Done (result @ line_text (first_line bs)), rx) else read_typed (result @ line_text bs) rx)"
  using assms by (subst read_typed.simps) (simp add: scan_typed_eq)

lemma read_typed_ends:
  "list_all (\<lambda>ev. ev = Rx_data [] \<or> (\<exists>e. ev = Rx_err e)) evs \<Longrightarrow> read_typed result (evs @ rx) = read_typed result rx"
  by (induction evs) (auto simp: read_typed_end)

section \<open>What the client sends and prints\<close>

text \<open>A line as a terminal delivers it: in one read, with its newline.\<close>

definition typed :: "string \<Rightarrow> rx_event" where
  "typed l = Rx_data (bytes (l @ endl))"

definition plain_line :: "string \<Rightarrow> bool" where
  "plain_line l \<longleftrightarrow> CHR 0x0A \<notin> set l \<and> CHR 0x0D \<notin> set l \<and> length l < TELNET_BUFFER_SIZE"

definition remote_lines :: "string list \<Rightarrow> string" where
  "remote_lines ls = concat (map (\<lambda>l. ''remote> '' @ l @ endl) ls)"

lemma bytes_newline: "newline \<in> set (bytes l) \<longleftrightarrow> CHR 0x0A \<in> set l"
proof -
  have "newline = byte_of_char (CHR 0x0A)" by (simp add: newline_def byte_of_char_def)
  then show ?thesis unfolding bytes_def set_map by (metis char_of_byte_of_char image_iff)
qed

lemma first_line_plain: "newline \<notin> set xs \<Longrightarrow> first_line (xs @ newline # ys) = xs"
  by (simp add: first_line_append) (simp add: first_line_def)

lemma line_text_plain: "plain_line l \<Longrightarrow> line_text (bytes l) = l" "plain_line l \<Longrightarrow> line_text (bytes l @ [13]) = l"
proof -
  have cr: "line_text [13] = []" by (simp add: line_text_Cons)
  assume "plain_line l"
  then show "line_text (bytes l) = l" "line_text (bytes l @ [13]) = l"
    using cr by (auto simp: plain_line_def line_text_def filter_id_conv)
qed

lemma read_typed_line:
  assumes "plain_line l"
  shows "read_typed [] (typed l # rx) = (Done l, rx)"
proof -
  have n: "newline \<notin> set (bytes l)" using assms by (simp add: plain_line_def bytes_newline)
  have e: "bytes (l @ endl) = bytes l @ newline # []" by (simp add: endl_def bytes_def newline_def byte_of_char_def)
  show ?thesis
    using read_typed_data [of "bytes l @ newline # []" "[]" rx] assms n line_text_plain(1) [OF assms]
    unfolding typed_def e by (simp add: first_line_plain plain_line_def)
qed

lemma lines_of_line_bytes:
  assumes "plain_line l"
  shows "lines_of (line_bytes l @ bs) = l # lines_of bs"
proof -
  have n: "newline \<notin> set (bytes l @ [13])"
    using assms by (simp add: plain_line_def bytes_newline) (simp add: newline_def)
  have e: "line_bytes l @ bs = (bytes l @ [13]) @ newline # bs"
    by (simp add: line_bytes_def ECHO_NEWLINE_def bytes_def newline_def byte_of_char_def)
  have d: "drop (Suc (length (bytes l @ [13]))) ((bytes l @ [13]) @ newline # bs) = bs" by simp
  show ?thesis
    unfolding e by (subst lines_of.simps, subst first_line_plain [OF n], subst first_line_plain [OF n], subst d)
      (simp add: line_text_plain(2) [OF assms])
qed

lemma lines_of_sent: "list_all plain_line ls \<Longrightarrow> lines_of (concat (map line_bytes ls)) = ls"
proof (induction ls)
  case Nil
  then show ?case by (simp add: lines_of.simps)
next
  case (Cons l ls)
  then show ?case by (simp add: lines_of_line_bytes)
qed

lemma send_typed_lines:
  assumes "list_all plain_line ls" "sock_wf (net_sock t)" "get_read_chunk (m_out_buffer (net_sock t)) = []" "tn_stdin t = map typed ls"
    "int (length (concat (map line_bytes ls))) \<le> slack (net_sock t)"
  shows "case send_typed t of (r, t') \<Rightarrow> r = Suspended \<and> tn_stdin t' = [] \<and> tn_cout t' = tn_cout t
    \<and> m_sent (net_sock t') = m_sent (net_sock t) @ concat (map line_bytes ls) \<and> same_in (net_sock t) (net_sock t')
    \<and> sock_wf (net_sock t') \<and> tn_running t' = tn_running t"
  using assms
proof (induction ls arbitrary: t)
  case Nil
  then show ?case by (subst send_typed.simps) (simp add: read_typed_Nil same_in_def)
next
  case (Cons l ls)
  have rd: "read_typed [] (tn_stdin t) = (Done l, map typed ls)"
    using Cons.prems(1,4) read_typed_line by simp
  obtain r s k where sl: "send_line l (net_sock t) = (r, s)" "r \<noteq> Undefined" "handed (take k (line_bytes l)) (net_sock t) s"
    "r = Done () \<Longrightarrow> sent (line_bytes l) (net_sock t) s \<and> get_read_chunk (m_out_buffer s) = []"
    "int (length (line_bytes l)) \<le> slack (net_sock t) \<Longrightarrow> r = Done ()"
    using send_line_handed [OF Cons.prems(2), of l] by metis
  have r: "r = Done ()" using sl(5) Cons.prems(5) by simp
  have s: "sent (line_bytes l) (net_sock t) s" "get_read_chunk (m_out_buffer s) = []" using sl(4) [OF r] by simp_all
  let ?t = "t\<lparr>tn_stdin := map typed ls, net_sock := s\<rparr>"
  have eq: "send_typed t = send_typed ?t"
    by (subst send_typed.simps) (simp add: rd sl(1) r)
  have m: "m_sent s = m_sent (net_sock t) @ line_bytes l" "same_in (net_sock t) s"
    using s Cons.prems(3) by (simp_all add: sent_def handed_def out_stream_def)
  have "case send_typed ?t of (r, t') \<Rightarrow> r = Suspended \<and> tn_stdin t' = [] \<and> tn_cout t' = tn_cout ?t
    \<and> m_sent (net_sock t') = m_sent (net_sock ?t) @ concat (map line_bytes ls) \<and> same_in (net_sock ?t) (net_sock t')
    \<and> sock_wf (net_sock t') \<and> tn_running t' = tn_running ?t"
    by (rule Cons.IH) (use Cons.prems s sent_wf [OF s(1)] sent_slack [OF s(1)] in simp_all)
  then show ?case unfolding eq using m same_in_trans by (auto split: prod.splits)
qed

lemma remote_lines_Cons: "remote_lines (l # ls) = ''remote> '' @ l @ endl @ remote_lines ls"
  by (simp add: remote_lines_def)

lemma receive_lines_printed:
  assumes "sock_wf (net_sock t)"
  shows "case receive_lines t of (r, t') \<Rightarrow>
     r = (case rx_stop (m_rx (net_sock t)) of None \<Rightarrow> Suspended | Some st \<Rightarrow> Threw (read_error st))
   \<and> tn_cout t' = tn_cout t @ remote_lines (lines_of (incoming (net_sock t)))
   \<and> tn_running t' = tn_running t \<and> tn_stdin t' = tn_stdin t \<and> same_out (net_sock t) (net_sock t')"
  using assms
proof (induction t rule: receive_lines.induct)
  case (1 t)
  let ?s = "net_sock t"
  obtain r s1 where rl: "read_line [] ?s = (r, s1)" by fastforce
  have tr: "text_read [] ?s (r, s1)" using read_line_text_read [OF 1(2), of "[]"] by (simp add: rl)
  show ?case
  proof (cases "newline \<in> set (incoming ?s)")
    case False
    then show ?thesis
      using tr by (subst receive_lines.simps)
        (auto simp: rl text_read_def lines_of.simps [of "incoming ?s"] remote_lines_def consumed_def exhausted_def split: option.splits)
  next
    case True
    define m where "m = line_text (first_line (incoming ?s))"
    have r: "r = Done m" and c: "consumed (Suc (length (first_line (incoming ?s)))) ?s s1"
      using tr True by (simp_all add: text_read_def m_def)
    let ?t = "print (''remote> '' @ m @ endl) (t\<lparr>net_sock := s1\<rparr>)"
    have eq: "receive_lines t = receive_lines ?t" by (subst receive_lines.simps) (simp add: rl r)
    have l: "lines_of (incoming ?s) = m # lines_of (incoming s1)"
      using True c by (subst lines_of.simps) (simp add: m_def consumed_def)
    have so: "same_out ?s s1" using c by (simp add: consumed_def)
    have IH: "case receive_lines ?t of (r, t') \<Rightarrow>
        r = (case rx_stop (m_rx (net_sock ?t)) of None \<Rightarrow> Suspended | Some st \<Rightarrow> Threw (read_error st))
      \<and> tn_cout t' = tn_cout ?t @ remote_lines (lines_of (incoming (net_sock ?t)))
      \<and> tn_running t' = tn_running ?t \<and> tn_stdin t' = tn_stdin ?t \<and> same_out (net_sock ?t) (net_sock t')"
      by (rule 1(1) [OF rl [symmetric] r]) (simp add: print_def consumed_wf [OF c])
    obtain r' t' where t': "receive_lines ?t = (r', t')" by fastforce
    show ?thesis
      using IH so consumed_stop [OF c] same_out_trans [OF so, of "net_sock t'"]
      unfolding eq l t' by (simp add: print_def remote_lines_Cons)
  qed
qed

definition new_telnet :: "rx_event list \<Rightarrow> rx_event list \<Rightarrow> tx_event list \<Rightarrow> telnet" where
  "new_telnet stdin rx tx = \<lparr>net_sock = new_socket rx tx, tn_stdin = stdin, tn_cout = [], tn_running = True\<rparr>"

lemma incoming_message_eq:
  assumes "sock_wf (net_sock t)"
  shows "case incoming_message strerror t of (r, t') \<Rightarrow>
     (let stop = rx_stop (m_rx (net_sock t)); printed = tn_cout t @ remote_lines (lines_of (incoming (net_sock t))) in
      case stop of
        None \<Rightarrow> r = Suspended \<and> tn_running t' = tn_running t \<and> tn_cout t' = printed
      | Some st \<Rightarrow> r = Done () \<and> \<not> tn_running t' \<and> tn_cout t' = printed @ the (error_what strerror (read_error st)) @ endl)"
  using receive_lines_printed [OF assms]
  by (auto simp: incoming_message_def print_def read_error_def Let_def split: prod.splits option.splits)

section \<open>Properties\<close>

lemma echo_of_lines:
  assumes "list_all plain_line ls"
  shows "echo_answer (concat (map line_bytes ls)) = concat (map line_bytes (takeWhile (\<lambda>m. m \<noteq> ''close'') ls))"
    "echo_end (concat (map line_bytes ls)) None = (if ''close'' \<in> set ls then Done () else Suspended)"
  using lines_of_sent [OF assms] by (simp_all add: echo_answer_def echoed_lines_def echo_end_def)

lemma typed_sent:
  assumes "list_all plain_line ls" "length (concat (map line_bytes ls)) \<le> tx_room tx"
    "t = snd (send_typed (new_telnet (map typed ls) rx tx))"
  shows "m_sent (net_sock t) = concat (map line_bytes ls)" "sock_wf (net_sock t)" "same_in (new_socket rx tx) (net_sock t)"
    "tn_cout t = []" "tn_running t"
proof -
  obtain r t1 where "send_typed (new_telnet (map typed ls) rx tx) = (r, t1)" by fastforce
  then show "m_sent (net_sock t) = concat (map line_bytes ls)" "sock_wf (net_sock t)" "same_in (new_socket rx tx) (net_sock t)"
    "tn_cout t = []" "tn_running t"
    using send_typed_lines [OF assms(1), of "new_telnet (map typed ls) rx tx"] assms(2,3) by (simp_all add: new_telnet_def)
qed

lemma length_echo_answer_le:
  "length (concat (map line_bytes (takeWhile P ls))) \<le> length (concat (map line_bytes ls))"
  by (induction ls) auto

text \<open>
  C23: the client run against the echo server: the lines typed at the client, however the network cuts the two streams between them,
  are printed by the client in order up to a line \<open>close\<close>; that line ends the connection at the server, which the client
  reports, and then it stops its loop. Without such a line both wait for more.
\<close>

theorem telnet_echo_session:
  assumes "list_all plain_line ls" "length (concat (map line_bytes ls)) \<le> tx_room tx" "length (concat (map line_bytes ls)) \<le> tx_room stx"
    "t = snd (send_typed (new_telnet (map typed ls) rx tx))"
    "rx_bytes srx = m_sent (net_sock t)" "rx_stop srx = None"
    "rx_bytes rx = m_sent (snd (echo_connection (new_socket srx stx)))"
    "rx_stop rx = (if fst (echo_connection (new_socket srx stx)) = Done () then Some 0 else None)"
  shows "let said = remote_lines (takeWhile (\<lambda>l. l \<noteq> ''close'') ls); t' = snd (incoming_message strerror t) in
     if ''close'' \<in> set ls
     then tn_cout t' = said @ ''socket read_c failed: socket closed'' @ endl \<and> \<not> tn_running t'
     else tn_cout t' = said \<and> tn_running t'"
proof -
  let ?said = "takeWhile (\<lambda>l. l \<noteq> ''close'') ls"
  note t = typed_sent [OF assms(1,2,4)]
  have c2s: "rx_bytes srx = concat (map line_bytes ls)" using t(1) assms(5) by simp
  have answer: "fst (echo_connection (new_socket srx stx)) = (if ''close'' \<in> set ls then Done () else Suspended)"
    "m_sent (snd (echo_connection (new_socket srx stx))) = concat (map line_bytes ?said)"
    using echoed_new_socket [of srx stx] length_echo_answer_le [of "\<lambda>l. l \<noteq> ''close''" ls] assms(3,6)
    by (simp_all add: c2s echo_of_lines [OF assms(1)])
  have plain: "list_all plain_line ?said" using assms(1) by (auto simp: list_all_iff dest: set_takeWhileD)
  have stop: "rx_stop (m_rx (net_sock t)) = (if ''close'' \<in> set ls then Some 0 else None)"
    "incoming (net_sock t) = concat (map line_bytes ?said)"
    using t(3) assms(7,8) answer incoming_new [of rx tx] by (simp_all add: same_in_def incoming_def)
  obtain r1 t1 where i: "incoming_message strerror t = (r1, t1)" by fastforce
  show ?thesis
    using incoming_message_eq [OF t(2), of strerror] stop t(4,5) lines_of_sent [OF plain]
    by (auto simp: i Let_def read_error_def)
qed

theorem telnet_echo_session_witness:
  "(let rx = [Rx_data (bytes ''h''), Rx_data (bytes (''i'' @ ECHO_NEWLINE)), Rx_data []];
        t = snd (send_typed (new_telnet [typed ''hi'', typed ''close''] rx [Tx_ok 20]))
    in tn_cout (snd (incoming_message (\<lambda>_. []) t)) = ''remote> hi'' @ endl @ ''socket read_c failed: socket closed'' @ endl)"
proof -
  let ?ls = "[''hi'', ''close'']"
  let ?srx = "[Rx_data (bytes (''hi'' @ ECHO_NEWLINE @ ''close'' @ ECHO_NEWLINE))]"
  let ?rx = "[Rx_data (bytes ''h''), Rx_data (bytes (''i'' @ ECHO_NEWLINE)), Rx_data []]"
  have p: "list_all plain_line ?ls" by code_simp
  have l: "length (concat (map line_bytes ?ls)) \<le> tx_room [Tx_ok 20]" by code_simp
  have b: "rx_bytes ?srx = concat (map line_bytes ?ls)" "rx_stop ?srx = None" by code_simp+
  have e: "m_sent (snd (echo_connection (new_socket ?srx [Tx_ok 20]))) = concat (map line_bytes [''hi''])"
    "fst (echo_connection (new_socket ?srx [Tx_ok 20])) = Done ()"
    using echoed_new_socket [of ?srx "[Tx_ok 20]"] l b echo_of_lines [OF p] length_echo_answer_le [of "\<lambda>l. l \<noteq> ''close''" ?ls]
    by simp_all
  have r: "rx_bytes ?rx = concat (map line_bytes [''hi''])" "rx_stop ?rx = Some 0" by code_simp+
  show ?thesis
    using telnet_echo_session [where srx = ?srx and rx = ?rx and strerror = "\<lambda>_. []", OF p l l refl]
      typed_sent(1) [OF p l refl, of ?rx] b e r
    by (simp add: Let_def remote_lines_def)
qed

text \<open>
  What the client does with its input, read by read: everything behind the first newline of a read is lost, so several lines that
  arrive together (from a pipe, say) are sent as one; and the end of the input, or an error, is not noticed: the client
  asks again at once, as often as it is told.
\<close>

theorem telnet_input_lost:
  assumes "newline \<notin> set l" "length l + Suc (length rest) \<le> TELNET_BUFFER_SIZE"
    "list_all (\<lambda>ev. ev = Rx_data [] \<or> (\<exists>e. ev = Rx_err e)) ends"
  shows "read_typed [] (Rx_data (l @ newline # rest) # rx) = (Done (line_text l), rx)
    \<and> read_typed [] (ends @ rx) = read_typed [] rx \<and> read_typed [] ends = (Suspended, [])"
  using assms read_typed_data [of "l @ newline # rest" "[]" rx] read_typed_ends [OF assms(3), of "[]"]
    read_typed_ends [OF assms(3), of "[]" "[]"]
  by (simp_all add: first_line_plain read_typed_Nil)

theorem telnet_input_lost_witness:
  "read_typed [] [Rx_data (bytes (''one'' @ endl @ ''two'' @ endl)), Rx_data []] = (Done ''one'', [Rx_data []])
    \<and> read_typed [] (replicate 5 (Rx_data [])) = (Suspended, [])"
proof -
  have n: "newline \<notin> set (bytes ''one'')" "length (bytes ''one'') + Suc (length (bytes (''two'' @ endl))) \<le> TELNET_BUFFER_SIZE"
    by code_simp+
  have e: "list_all (\<lambda>ev. ev = Rx_data [] \<or> (\<exists>e. ev = Rx_err e)) (replicate 5 (Rx_data []))" by (simp add: list_all_iff)
  have b: "bytes (''one'' @ endl @ ''two'' @ endl) = bytes ''one'' @ newline # bytes (''two'' @ endl)" "line_text (bytes ''one'') = ''one''"
    by code_simp+
  show ?thesis
    unfolding b(1) using telnet_input_lost [OF n e, where rx = "[Rx_data []]"] b(2) by simp
qed

text \<open>
  How a client starts: with a connection it waits at once for bytes of the server, into the whole empty buffer of its socket, and
  for its standard input. When the connection is refused, nothing is printed: the exception ends the coroutine, whose task the program
  does not look at, and the loop goes on without anything to wait for; the address is given back, the descriptor is not.
\<close>

theorem telnet_client_starts:
  assumes "posix_contract P held" "io_history U r0 tr (w_loop w)" "rl \<noteq> wl"
    "m_listeners (w_loop w) rl = Some lr" "idle (l_callback lr)" "m_status_opt (l_callback lr) = None"
    "m_listeners (w_loop w) wl = Some lw" "u_get_sqe U (m_ring (w_loop w)) = (Some sqe, r1)"
    "snd (incoming_message_start U hin base \<lparr>so_fd = fd, so_read_listener = rl, so_write_listener = wl\<rparr> w) = w1"
    "address_free a (w_loop w1)" "u_get_sqe U (m_ring (w_loop w1)) = (Some sqe', r2)"
  shows "case client_connected P U h hin base buf (Client_inet res) fd rl wl a status (w, printed) of (out, (w', printed')) \<Rightarrow>
     if 0 \<le> status
     then out = Suspended \<and> printed' = printed @ ''Connected (Enter the messages to send to the server)'' @ endl
       \<and> (\<exists>k. io_history U r0 (tr @ [Requested hin (m_id (l_callback lr)) (Prep_recv (l_fd lr) base 8192 0), Opened k,
              Requested h k (Prep_read STDIN_FILENO buf 512 0)]) (w_loop w'))
     else out = Threw (Errno_error ''client_socket failed to connect: '' (- status)) \<and> printed' = printed
       \<and> held (w_os w') = held (w_os w) - {#Info res#}"
proof (cases "0 \<le> status")
  case True
  let ?so = "\<lparr>so_fd = fd, so_read_listener = rl, so_write_listener = wl\<rparr>"
  let ?hello = "''Connected (Enter the messages to send to the server)'' @ endl"
  have c: "on_fst (connect_resumed fd rl wl status) (w, printed) = (Done ?so, (w, printed))"
    using True by (simp add: on_fst_def connect_resumed_def socket_of_listeners_def return_def)
  have wc: "get_write_chunk (m_in_buffer (new_socket [] [])) = (0, 8192)"
    by (simp add: new_socket_def new_byte_buffer_def get_write_chunk_def write_ptr_def capacity_def SOCKET_BUFFER_SIZE_def)
  obtain r where q: "on_loop (await_request U hin rl (Recv base 8192 0)) w = (r, w1)"
    using assms(9) by (auto simp: incoming_message_start_def recv_start_def wc split: prod.splits)
  have i: "on_fst (incoming_message_start U hin base ?so) (w, printed @ ?hello) = (Done r, (w1, printed @ ?hello))"
    using q by (simp add: on_fst_def incoming_message_start_def recv_start_def wc)
  have h1: "io_history U r0 (tr @ [Requested hin (m_id (l_callback lr)) (Prep_recv (l_fd lr) base 8192 0)]) (w_loop w1)"
    using idle_request_history(3) [OF assms(2,4-6,8) q] by simp
  obtain m w2 where m: "make_listener a STDIN_FILENO w1 = (m, w2)" by fastforce
  note M = make_listener_history [OF h1 assms(10) m]
  obtain k where k: "io_history U r0 ((tr @ [Requested hin (m_id (l_callback lr)) (Prep_recv (l_fd lr) base 8192 0)]) @ [Opened k]) (w_loop w2)"
    "m_listeners (w_loop w2) a = Some \<lparr>l_callback = new_event_callback k, l_fd = STDIN_FILENO\<rparr>"
    using M(4) by auto
  obtain out w3 where rd: "on_loop (await_request U h a (Read buf (int TELNET_BUFFER_SIZE))) w2 = (out, w3)" by fastforce
  note R = await_request_history [OF k _ rd, of sqe' r2]
  have "client_connected P U h hin base buf (Client_inet res) fd rl wl a status (w, printed)
      = (Suspended, (w3, printed @ ?hello))"
    using c i m M(1,3) R(1) rd assms(11)
    by (simp add: client_connected_def with_client_def and_then_def say_def) (simp add: on_fst_def)
  then show ?thesis
    using True R(3) M(3) assms(11) by (auto simp: TELNET_BUFFER_SIZE_def)
next
  case False
  have t: "triple (connect_resumed fd rl wl status) w (\<lambda>_ _. False)
    (\<lambda>e w1. e = Errno_error ''client_socket failed to connect: '' (- status) \<and> w_os w1 = w_os w) False"
    using connect_resumed_history [OF assms(2,4,7,3), of fd status False] False
    by (auto simp: triple_def split: prod.splits outcome.splits)
  obtain w2 where c: "connect_resumed fd rl wl status w = (Threw (Errno_error ''client_socket failed to connect: '' (- status)), w2)"
    "w_os w2 = w_os w"
    using t by (auto simp: triple_def split: prod.splits outcome.splits)
  have "held (p_freeaddrinfo P res (w_os w)) = held (w_os w) - {#Info res#}"
    using posix_contractD(12) [OF assms(1)] by simp
  then show ?thesis
    using False c by (simp add: client_connected_def with_client_def and_then_def on_fst_def free_info_def throw_def)
qed

end
