(* ===== verification/Hello.thy ===== *)
theory Hello
  imports Http_Server
begin

text \<open>
  \<open>examples/http_hello\<close>: the whole of an HTTP server, with its router and its endpoint, from the bytes of a connection to
  the bytes of its answers. The endpoint is \<open>hello_serve\<close> of theory \<open>Http_Server\<close>; here are the router and the run of a
  connection over any number of requests.
\<close>

section \<open>The program\<close>

definition hello_router :: "unit http_router" where
  "hello_router = snd (router_get ''/api/hello'' (Some ()) new_http_router)"

text \<open>Its answer. The two headers come in the order of the map.\<close>

definition hello_headers :: header_map where
  "hello_headers = [(''content-length'', ''16''), (''content-type'', ''text/plain'')]"

definition hello_text :: "(header_map \<Rightarrow> header_map) \<Rightarrow> string" where
  "hello_text order =
     ''HTTP/1.1 200 OK'' @ CRLF_SEPARATOR @ header_text (order hello_headers) @ CRLF_SEPARATOR @ RES_MESSAGE"

section \<open>The endpoint answers\<close>

definition hello_output :: http_output where
  "hello_output = set_header ''content-type'' ''text/plain''
     (snd (set_content_length (int (length RES_MESSAGE)) (set_status OK new_http_output)))"

lemma hello_output:
  "set_content_length (int (length RES_MESSAGE)) (set_status OK new_http_output)
     = (Done (), set_header ''content-length'' ''16'' (set_status OK new_http_output))"
  "m_status hello_output = OK" "m_headers hello_output = hello_headers" "\<not> m_headers_written hello_output"
  "\<not> chunked_headers hello_headers"
proof -
  have n: "int (length RES_MESSAGE) = 16" "to_chars 10 16 = ''16''" by code_simp+
  then show c: "set_content_length (int (length RES_MESSAGE)) (set_status OK new_http_output)
     = (Done (), set_header ''content-length'' ''16'' (set_status OK new_http_output))"
    by (simp add: set_content_length_def Let_def SERIALIZE_BUFFER_SIZE_def)
  have "\<not> case_insensitive_equality ''content-length'' ''content-type''" by code_simp
  then show "m_status hello_output = OK" "m_headers hello_output = hello_headers" "\<not> m_headers_written hello_output"
    unfolding hello_output_def c by (simp_all add: set_header_def set_status_def new_http_output_def hello_headers_def)
  show "\<not> chunked_headers hello_headers" by code_simp
qed

lemma http_writes_single: "http_writes order [d] = http_write order d (int (length d))"
proof
  fix p
  obtain r p' where "http_write order d (int (length d)) p = (r, p')" by (cases "http_write order d (int (length d)) p")
  then show "http_writes order [d] p = http_write order d (int (length d)) p"
    by (cases r) (simp_all add: and_then_def return_def)
qed

lemma hello_answers: "http_answers order (hello_serve order e req) (bytes (hello_text order))"
  unfolding http_answers_def
proof (intro allI impI)
  fix b :: http_body and s
  assume wf: "sock_wf s" and room: "int (length (bytes (hello_text order))) \<le> slack s"
  let ?p = "(hello_output, s)" and ?d = "bytes RES_MESSAGE"
  have bs: "bytes (hello_text order) = bytes (head_text order ''200 OK'' (fst ?p)) @ content (chunked_headers (m_headers (fst ?p))) [?d]"
    using hello_output(3,5) by (simp add: hello_text_def head_text_def HTTP_1_1_STR_def content_def flip: bytes_append)
  have pre: "sock_wf (snd ?p)" "get_status_reason_phrase (m_status (fst ?p)) = Done ''200 OK''" "list_all chunk_ok [?d]"
    "\<not> m_headers_written (fst ?p)" "int (length (bytes (hello_text order))) \<le> slack (snd ?p)"
    using wf hello_output(2,4) room by (simp_all add: chunk_ok_def RES_MESSAGE_def LONG_MAX_def)
  obtain p' where e: "respond order [?d] ?p = (Done (), p')" "m_sent (snd p') = out_stream s @ bytes (hello_text order)"
    "sent (bytes (hello_text order)) s (snd p')"
    using respond_sent [OF pre(1-4) bs pre(5)] unfolding snd_conv by metis
  then have w: "and_then (http_write order ?d (int (length ?d))) (\<lambda>_. http_end order) ?p = (Done (), p')"
    by (simp only: respond_def http_writes_single)
  have "hello_serve order e req (b, new_http_output, s) = on_res (http_write order ?d (int (length ?d))) (b, hello_output, s)"
    using hello_output(1)
    by (simp add: hello_serve_def on_res_def and_then_def update_def on_fst_def http_write_sv_def hello_output_def)
  then have "and_then (hello_serve order e req) (\<lambda>_. on_res (http_end order)) (b, new_http_output, s)
      = and_then (on_res (http_write order ?d (int (length ?d)))) (\<lambda>_. on_res (http_end order)) (b, hello_output, s)"
    by (simp only: and_then_def)
  also have "\<dots> = (Done (), (b, fst p', snd p'))"
  proof -
    obtain r p1 where h: "http_write order ?d (int (length ?d)) ?p = (r, p1)" by (cases "http_write order ?d (int (length ?d)) ?p")
    then have "r = Done ()" "http_end order p1 = (Done (), p')"
      using w by (cases r; simp add: and_then_def)+
    with h show ?thesis by (cases p1; cases p') (simp add: and_then_def on_res_def)
  qed
  finally show "\<exists>res' s'. and_then (hello_serve order e req) (\<lambda>_. on_res (http_end order)) (b, new_http_output, s) = (Done (), (b, res', s'))
      \<and> sent (bytes (hello_text order)) s s' \<and> m_sent s' = out_stream s @ bytes (hello_text order)"
    using e(2,3) by blast
qed

section \<open>The router chooses\<close>

lemma hello_router: "hello_router =
  Router None None [(''api'', Router None None [(''hello'', Router (Some ()) None [] [] None)] [] None)] [] None"
  by code_simp

lemma hello_router_match:
  "\<exists>ps. router_match GET path hello_router [] = (Done (if segments path = [''api'', ''hello''] then Some () else None), ps)"
proof -
  have "\<exists>ps. match_segments GET ss hello_router [] = (Done (if ss = [''api'', ''hello''] then Some () else None), ps)" for ss
  proof (cases ss)
    case Nil
    then show ?thesis by (simp add: hello_router)
  next
    case (Cons a as)
    then show ?thesis by (cases as; cases "tl as") (auto simp: hello_router)
  qed
  then show ?thesis by (simp add: router_match_segments)
qed

section \<open>A connection\<close>

text \<open>A request without content: its target and its headers.\<close>

type_synonym get_request = "string \<times> (string \<times> string) list"

definition get_line :: "get_request \<Rightarrow> string" where
  "get_line r = ''GET '' @ fst r @ '' HTTP/1.1''"

definition get_text :: "get_request \<Rightarrow> byte list" where
  "get_text r = bytes (request_text (get_line r) (snd r))"

definition parsed :: "get_request \<Rightarrow> http_request" where
  "parsed r = (let req = snd (process_req_line (get_line r) new_http_request) in
     req\<lparr>m_req_headers := fold (\<lambda>(k, v). hm_assign k v) (snd r) (m_req_headers req)\<rparr>)"

definition get_ok :: "get_request \<Rightarrow> bool" where
  "get_ok r \<longleftrightarrow> fst r \<noteq> [] \<and> CHR '' '' \<notin> set (fst r) \<and> no_newline (fst r)
     \<and> list_all header_ok (snd r) \<and> list_all (no_newline \<circ> header_line) (snd r) \<and> content_framing (parsed r) = Some (0, True)"

definition kept :: "get_request \<Rightarrow> bool" where
  "kept r \<longleftrightarrow> find_case_insensitive (case get_header (parsed r) ''connection'' of None \<Rightarrow> ''keep-alive'' | Some v \<Rightarrow> v) ''keep-alive'' \<noteq> None"

definition hello_response :: "(header_map \<Rightarrow> header_map) \<Rightarrow> get_request \<Rightarrow> byte list" where
  "hello_response order r =
     bytes (if segments (get_path (parsed r)) = [''api'', ''hello''] then hello_text order else NOT_FOUND_TEXT)"

text \<open>The requests that are served: up to the first that ends the connection.\<close>

fun served_requests :: "get_request list \<Rightarrow> get_request list" where
  "served_requests [] = []"
| "served_requests (r # rs) = r # (if kept r then served_requests rs else [])"

definition hello_end :: "get_request list \<Rightarrow> int option \<Rightarrow> (socket, unit) comp \<Rightarrow> (socket, unit) comp" where
  "hello_end rs stop shut =
     (if \<not> list_all kept rs then shut
      else case stop of
        None \<Rightarrow> Pair Suspended
      | Some st \<Rightarrow> if st < 0 then throw (Errno_error ''socket peek failed: '' (0 - st)) else shut)"

lemma get_line_parsed:
  assumes "get_ok r"
  shows "process_req_line (get_line r) new_http_request = (True, snd (process_req_line (get_line r) new_http_request))"
    "no_newline (get_line r)" "get_line r \<noteq> []"
    "get_method (parsed r) = Done GET" "get_version (parsed r) = Done HTTP_1_1"
proof -
  have u: "fst r \<noteq> []" "CHR '' '' \<notin> set (fst r)" "no_newline (fst r)" using assms by (simp_all add: get_ok_def)
  have l: "get_line r = method_text GET @ '' '' @ fst r @ '' '' @ version_text HTTP_1_1" by (simp add: get_line_def)
  have sp: "split_string (get_line r) CHR '' '' = [method_text GET, fst r, version_text HTTP_1_1]"
    unfolding l by (rule split_req_line [OF u(1,2)])
  have m: "um_find method_map ''GET'' = Some GET" "um_find version_map ''HTTP/1.1'' = Some HTTP_1_1"
    by (simp_all add: method_map_def version_map_def)
  have p: "process_req_line (get_line r) new_http_request
      = (True, (process_uri (fst r) (new_http_request\<lparr>m_method := Some GET\<rparr>))\<lparr>m_version := Some HTTP_1_1\<rparr>)"
    by (simp add: process_req_line_def sp m)
  then show "process_req_line (get_line r) new_http_request = (True, snd (process_req_line (get_line r) new_http_request))"
    by simp
  show "no_newline (get_line r)" "get_line r \<noteq> []" using u(3) by (auto simp: no_newline_def get_line_def)
  have "m_method (process_uri (fst r) req) = m_method req" for req by (simp add: process_uri_def Let_def)
  then show "get_method (parsed r) = Done GET" "get_version (parsed r) = Done HTTP_1_1"
    by (simp_all add: parsed_def p get_method_def get_version_def)
qed

lemma keep_connection_kept:
  assumes "get_ok r"
  shows "keep_connection (set_path_params ps (parsed r)) False = Done (kept r)"
proof -
  have "get_header (set_path_params ps (parsed r)) k = get_header (parsed r) k"
    "get_version (set_path_params ps (parsed r)) = get_version (parsed r)" for k
    by (simp_all add: get_header_def get_version_def set_path_params_def)
  then show ?thesis
    using get_line_parsed(5) [OF assms]
    by (cases "get_header (parsed r) ''connection''") (simp_all add: keep_connection_def kept_def get_default_conn_type_def)
qed

lemma serve_request_hello:
  assumes "sock_wf s" "incoming s = get_text r @ rest" "get_ok r" "order [(''content-length'', ''0'')] = [(''content-length'', ''0'')]"
    "int (length (hello_response order r)) \<le> slack s"
  shows "\<exists>s'. serve_request order (hello_serve order) hello_router s = (Done (kept r), s') \<and> answered (hello_response order r) rest s s'"
proof -
  have ok: "list_all header_ok (snd r)" "list_all (no_newline \<circ> header_line) (snd r)" "content_framing (parsed r) = Some (0, True)"
    using assms(3) by (simp_all add: get_ok_def)
  note g = get_line_parsed [OF assms(3)]
  have inc: "incoming s = bytes (request_text (get_line r) (snd r)) @ rest" using assms(2) by (simp add: get_text_def)
  have req: "parsed r = (snd (process_req_line (get_line r) new_http_request))
      \<lparr>m_req_headers := fold (\<lambda>(k, v). hm_assign k v) (snd r) (m_req_headers (snd (process_req_line (get_line r) new_http_request)))\<rparr>"
    by (simp add: parsed_def Let_def)
  let ?found = "if segments (get_path (parsed r)) = [''api'', ''hello''] then Some () else None"
  obtain ps where m: "router_match GET (get_path (parsed r)) hello_router [] = (Done ?found, ps)"
    using hello_router_match by blast
  have a: "http_answers order (case ?found of Some e \<Rightarrow> hello_serve order e (set_path_params ps (parsed r)) | None \<Rightarrow> on_res not_found)
      (hello_response order r)"
    using hello_answers [of order "()" "set_path_params ps (parsed r)"] not_found_answers [where order = order, OF assms(4)] by (simp add: hello_response_def)
  show ?thesis
    by (rule serve_request_answer [where order = order and serve = "hello_serve order" and bs = "hello_response order r", OF assms(1) inc g(2,3,1) ok(1,2) req ok(3) g(4) m a assms(5) keep_connection_kept [OF assms(3)]])
qed

text \<open>Behind the last request.\<close>

lemma serve_request_no_more:
  assumes "sock_wf s" "incoming s = []"
  shows "\<exists>s'. out_stream s' = out_stream s \<and> m_out_buffer s' = m_out_buffer s \<and> serve_request order serve router s =
     (case rx_stop (m_rx s) of
        None \<Rightarrow> (Suspended, s')
      | Some st \<Rightarrow> if st < 0 then (Threw (Errno_error ''socket peek failed: '' (0 - st)), s') else (Done False, s'))"
proof -
  obtain r s' where l: "read_http_line s = (r, s')" by fastforce
  have "line_read s (r, s')" using read_http_line_read [OF assms(1)] by (simp add: l)
  then have "m_out_buffer s' = m_out_buffer s \<and> out_stream s' = out_stream s" and
    "r = (case rx_stop (m_rx s) of None \<Rightarrow> Suspended
      | Some st \<Rightarrow> if st < 0 then Threw (Errno_error ''socket peek failed: '' (0 - st)) else Done \<lparr>m_val = [], m_received = False\<rparr>)"
    by (auto simp: line_read_def assms(2) consumed_def exhausted_def same_out_def out_stream_def split: option.splits)
  then show ?thesis
    by (intro exI [of _ s']) (auto simp: serve_request_def read_request_def and_then_def l has_value_def return_def split: option.splits)
qed

lemma hello_connection:
  assumes "sock_wf s" "incoming s = concat (map get_text rs)" "list_all get_ok rs"
    "order [(''content-length'', ''0'')] = [(''content-length'', ''0'')]"
    "int (length (concat (map (hello_response order) (served_requests rs)))) \<le> slack s" "m_sent s = out_stream s" "length rs < fuel"
  shows "\<exists>s'. on_connection fuel order (hello_serve order) hello_router shut s = Some (hello_end rs (rx_stop (m_rx s)) shut s')
    \<and> m_sent s' = m_sent s @ concat (map (hello_response order) (served_requests rs))"
  using assms
proof (induction rs arbitrary: s fuel)
  case Nil
  obtain k where k: "fuel = Suc k" using Nil.prems(7) by (cases fuel) auto
  obtain s' where s': "out_stream s' = out_stream s" "m_out_buffer s' = m_out_buffer s"
    "serve_request order (hello_serve order) hello_router s = (case rx_stop (m_rx s) of None \<Rightarrow> (Suspended, s')
      | Some st \<Rightarrow> if st < 0 then (Threw (Errno_error ''socket peek failed: '' (0 - st)), s') else (Done False, s'))"
    using serve_request_no_more [OF Nil.prems(1), of order "hello_serve order" hello_router] Nil.prems(2) by auto
  have "m_sent s' = m_sent s" using s'(1,2) by (simp add: out_stream_def)
  then show ?case
    using s'(3) by (intro exI [of _ s']) (auto simp: k hello_end_def throw_def split: option.splits)
next
  case (Cons r rs)
  obtain k where k: "fuel = Suc k" "length rs < k" using Cons.prems(7) by (cases fuel) auto
  have inc: "incoming s = get_text r @ concat (map get_text rs)" and ok: "get_ok r" "list_all get_ok rs"
    using Cons.prems(2,3) by simp_all
  have room: "int (length (hello_response order r)) \<le> slack s" using Cons.prems(5) by simp
  obtain s1 where s1: "serve_request order (hello_serve order) hello_router s = (Done (kept r), s1)"
    "answered (hello_response order r) (concat (map get_text rs)) s s1"
    using serve_request_hello [OF Cons.prems(1) inc ok(1) Cons.prems(4) room] by blast
  show ?case
  proof (cases "kept r")
    case False
    then show ?thesis
      using s1 Cons.prems(6) by (intro exI [of _ s1]) (simp add: k(1) hello_end_def answered_def)
  next
    case True
    have "\<exists>s'. on_connection k order (hello_serve order) hello_router shut s1 = Some (hello_end rs (rx_stop (m_rx s1)) shut s')
      \<and> m_sent s' = m_sent s1 @ concat (map (hello_response order) (served_requests rs))"
      by (rule Cons.IH) (use s1(2) ok Cons.prems k(2) True in \<open>simp_all add: answered_def\<close>)
    moreover have "rx_stop (m_rx s1) = rx_stop (m_rx s)" using s1(2) by (simp add: answered_def rx_stop_def)
    moreover have "m_sent s1 = m_sent s @ hello_response order r" using s1(2) Cons.prems(6) by (simp add: answered_def)
    ultimately show ?thesis using s1(1) True by (simp add: k(1) hello_end_def)
  qed
qed

section \<open>Properties\<close>

text \<open>
  C5: the HTTP server of the example, from bytes to bytes: any number of \<open>GET\<close> requests of HTTP/1.1 without content that arrive on a
  connection, pipelined and cut as the network likes, is answered in order, one answer each: the greeting for every path with the
  segments \<open>api\<close> and \<open>hello\<close>, with a content length that is that of its text, and 404 for every other. It goes on up to
  the first request that asks to close, and shuts the connection down then, or when the client has closed it; otherwise it waits.
  (A \<open>HEAD\<close> or \<open>OPTIONS\<close> request to the path of the greeting makes the router throw, and drops the connection.)
\<close>

theorem hello_server_pipeline:
  assumes "rx_bytes rx = concat (map get_text rs)" "list_all get_ok rs" "\<And>hdrs. mset (order hdrs) = mset hdrs"
    "length (concat (map (hello_response order) (served_requests rs))) \<le> tx_room tx" "length rs < fuel"
  shows "\<exists>s'. on_connection fuel order (hello_serve order) hello_router shut (new_socket rx tx) = Some (hello_end rs (rx_stop rx) shut s')
    \<and> m_sent s' = concat (map (hello_response order) (served_requests rs))"
proof -
  have "mset (order [(''content-length'', ''0'')]) = {#(''content-length'', ''0'')#}"
    using assms(3) [of "[(''content-length'', ''0'')]"] by simp
  then have o: "order [(''content-length'', ''0'')] = [(''content-length'', ''0'')]" by (rule mset_single_list)
  have n: "out_stream (new_socket rx tx) = []" "slack (new_socket rx tx) = int (tx_room tx)" "m_sent (new_socket rx tx) = []"
    by (simp_all add: new_socket_def out_stream_def slack_def new_byte_buffer_def get_read_chunk_def available_def)
  show ?thesis
    using hello_connection [where s = "new_socket rx tx" and order = order and shut = shut, OF sock_wf_new _ assms(2) o _ _ assms(5)] assms(1,4)
    by (simp add: n)
qed

text \<open>Two requests in one segment: the greeting, and a path that is not there with a request to close.\<close>

definition demo_requests :: "get_request list" where
  "demo_requests = [(''/api//hello?x=1'', []), (''/'', [(''Connection'', ''close'')]), (''/api/hello'', [])]"

theorem hello_server_pipeline_witness:
  "\<exists>s'. on_connection 4 id (hello_serve id) hello_router (return ()) (new_socket [Rx_data (concat (map get_text demo_requests))] [Tx_ok 500])
      = Some (Done (), s') \<and> m_sent s' = bytes (hello_text id) @ bytes NOT_FOUND_TEXT"
proof -
  let ?rx = "[Rx_data (concat (map get_text demo_requests))]"
  have b: "rx_bytes ?rx = concat (map get_text demo_requests)" by simp
  have ok: "list_all get_ok demo_requests" by code_simp
  have k: "map kept demo_requests = [True, False, True]" by code_simp
  then have s: "served_requests demo_requests = take 2 demo_requests" "\<not> list_all kept demo_requests" by (simp_all add: demo_requests_def)
  have r: "concat (map (hello_response id) (served_requests demo_requests)) = bytes (hello_text id) @ bytes NOT_FOUND_TEXT"
    unfolding s(1) by code_simp
  have room: "length (concat (map (hello_response id) (served_requests demo_requests))) \<le> tx_room [Tx_ok 500]"
    unfolding r by code_simp
  show ?thesis
    using hello_server_pipeline [where order = id and shut = "return ()" and fuel = 4, OF b ok _ room] s(2) r
    by (simp add: demo_requests_def hello_end_def return_def)
qed

end
