(* ===== verification/Timed.thy ===== *)
theory Timed
  imports Async_Queue Charconv Timer
begin

text \<open>
  \<open>examples/timer\<close>: a coroutine that waits for a timer six times, and after each of the first five pushes two numbers into a queue, from
  which another coroutine takes and prints them. The two, the loop and the timer take their steps in any order; the world of
  the queue is that of theory \<open>Async_Queue\<close>. What is printed is a list of lines.
\<close>

section \<open>The program\<close>

record timed =
  tq :: "int queue_world"
  t_count :: nat
  t_out :: "string list"
  t_over :: bool

definition TIMER_INTERVAL :: int where
  "TIMER_INTERVAL = 2 * NANOS_PER_SEC"

definition received_line :: "int \<Rightarrow> string" where
  "received_line x = ''Received item in async queue: '' @ to_chars 10 x"

definition triggered_line :: "nat \<Rightarrow> string" where
  "triggered_line i = ''Timer triggered: '' @ to_chars 10 (int i)"

text \<open>The start of \<open>timed_coroutine\<close>: the queue is made, its consumer runs until it waits, and the timer is made.\<close>

definition new_timed :: "e_id \<Rightarrow> event_bus \<Rightarrow> timed" where
  "new_timed i bus =
     (let w = new_queue_world i bus in
      \<lparr>tq = settle (await_items consumer_handle (m_queue w)) w, t_count = 1,
       t_out = [''Starting timed coroutine which triggers every 2 secs 5 times''], t_over = False\<rparr>)"

text \<open>The end of \<open>timed_coroutine\<close>, which destroys the consumer and the queue.\<close>

definition timed_ends :: "timed \<Rightarrow> timed" where
  "timed_ends t = t\<lparr>tq := (tq t)\<lparr>m_event_bus := deregister_event_callback (m_id (m_callback (m_queue (tq t)))) (m_event_bus (tq t))\<rparr>,
     t_over := True\<rparr>"

text \<open>Behind a wait for the timer: a failed one ends the coroutine with an exception.\<close>

definition timer_fired :: "e_status \<Rightarrow> timed \<Rightarrow> timed" where
  "timer_fired status t =
     (if status < 0 then timed_ends t
      else if t_count t \<le> 5
      then let i = t_count t in
        t\<lparr>t_out := t_out t @ [triggered_line i], tq := queue_push (int i * 2) (queue_push (int i) (tq t)), t_count := Suc i\<rparr>
      else timed_ends (t\<lparr>tq := loop_stop (tq t)\<rparr>))"

inductive timed_step :: "timed \<Rightarrow> timed \<Rightarrow> bool" where
  fired: "\<not> t_over t \<Longrightarrow> timed_step t (timer_fired status t)"
| received: "\<not> t_over t \<Longrightarrow> m_consumer (tq t) = consumer.Running \<Longrightarrow> queue_front (m_queue (tq t)) = (Done x, q) \<Longrightarrow> queue_pop q = (Done (), q')
    \<Longrightarrow> timed_step t (t\<lparr>t_out := t_out t @ [received_line x], tq := (tq t)\<lparr>m_queue := q', m_taken := m_taken (tq t) @ [x]\<rparr>\<rparr>)"
| awaited: "\<not> t_over t \<Longrightarrow> m_consumer (tq t) = consumer.Running
    \<Longrightarrow> timed_step t (t\<lparr>tq := settle (await_items consumer_handle (m_queue (tq t))) (tq t)\<rparr>)"
| turn: "\<not> t_over t \<Longrightarrow> run_turn bus_notify (\<lambda>_. None) (tq t) = Some w \<Longrightarrow> timed_step t (t\<lparr>tq := w\<rparr>)"

inductive timed_reachable :: "e_id \<Rightarrow> event_bus \<Rightarrow> timed \<Rightarrow> bool" for i bus where
  start: "timed_reachable i bus (new_timed i bus)"
| step: "timed_reachable i bus t \<Longrightarrow> timed_step t t' \<Longrightarrow> timed_reachable i bus t'"

section \<open>Invariant\<close>

definition numbers :: "nat \<Rightarrow> int list" where
  "numbers n = concat (map (\<lambda>i. [int i, int i * 2]) [1..<n])"

definition timed_inv :: "timed \<Rightarrow> bool" where
  "timed_inv t \<longleftrightarrow>
     (\<not> t_over t \<longrightarrow> queue_inv (tq t))
   \<and> m_taken (tq t) @ m_items (m_queue (tq t)) = numbers (t_count t)
   \<and> filter (\<lambda>l. hd l = CHR ''R'') (t_out t) = map received_line (m_taken (tq t))
   \<and> filter (\<lambda>l. hd l = CHR ''T'') (t_out t) = map triggered_line [1..<t_count t]
   \<and> 1 \<le> t_count t \<and> t_count t \<le> 6
   \<and> (\<not> m_running (tq t) \<longrightarrow> t_count t = 6 \<and> t_over t)"

lemma numbers_Suc: "1 \<le> i \<Longrightarrow> numbers (Suc i) = numbers i @ [int i, int i * 2]"
  by (simp add: numbers_def)

lemma line_heads: "hd (received_line x) = CHR ''R''" "hd (triggered_line i) = CHR ''T''"
  by (simp_all add: received_line_def triggered_line_def)

lemma queue_push_simps [simp]:
  "m_items (m_queue (queue_push x w)) = m_items (m_queue w) @ [x]" "m_taken (queue_push x w) = m_taken w"
  "m_running (queue_push x w) = m_running w"
  by (simp_all add: queue_push_def add_event_def Let_def)

lemma queue_turn_keeps:
  assumes "queue_inv w" "run_turn bus_notify (\<lambda>_. None) w = Some w'"
  shows "m_taken w' = m_taken w" "m_items (m_queue w') = m_items (m_queue w)" "m_running w' = m_running w"
proof -
  obtain ev evs where e: "m_events w = ev # evs" and w': "w' = bus_notify ev (w\<lparr>m_events := evs\<rparr>)"
    using assms(2) by (auto simp: run_turn_def split: list.splits)
  have "bus_notify ev (w\<lparr>m_events := evs\<rparr>) = (bus_notify ev w)\<lparr>m_events := evs\<rparr>"
    by (auto simp: bus_notify_def settle_def Let_def split: option.split prod.split)
  then have n: "w' = (bus_notify ev w)\<lparr>m_events := evs\<rparr>" using w' by simp
  show "m_taken w' = m_taken w" "m_items (m_queue w') = m_items (m_queue w)"
    using bus_notify_cases [OF assms(1), of ev] unfolding n by auto
  show "m_running w' = m_running w"
    by (auto simp: n bus_notify_def settle_def Let_def split: option.split prod.split)
qed

lemma await_keeps:
  assumes "queue_inv w" "m_consumer w = consumer.Running"
  shows "m_items (snd (await_items consumer_handle (m_queue w))) = m_items (m_queue w)"
  using await_items_idle [of "m_queue w" consumer_handle] assms by (auto simp: queue_inv_def split: prod.splits)

lemma timed_inv_new:
  assumes "bus_find i bus = Some queue_ref"
  shows "timed_inv (new_timed i bus)"
proof -
  let ?w = "new_queue_world i bus :: int queue_world"
  have q: "queue_inv ?w" "m_consumer ?w = consumer.Running" using queue_inv_new [OF assms] by (auto simp: new_queue_world_def)
  show ?thesis
    using queue_inv_await [OF q] await_keeps [OF q]
    by (simp add: timed_inv_def new_timed_def Let_def settle_def numbers_def new_queue_world_def new_async_queue_def)
qed

lemma timed_inv_step: "timed_step t t' \<Longrightarrow> timed_inv t \<Longrightarrow> timed_inv t'"
proof (induction rule: timed_step.induct)
  case (fired t status)
  then show ?case
    by (auto simp: timer_fired_def timed_inv_def timed_ends_def loop_stop_def Let_def numbers_Suc line_heads queue_inv_push)
next
  case (received t x q q')
  then obtain xs where "m_items (m_queue (tq t)) = x # xs" "q' = (m_queue (tq t))\<lparr>m_items := xs\<rparr>"
    by (auto simp: queue_front_def queue_pop_def split: list.splits)
  moreover have "queue_inv ((tq t)\<lparr>m_queue := q', m_taken := m_taken (tq t) @ [x]\<rparr>)"
    using received by (intro queue_inv_step [OF queue_step.take]) (auto simp: timed_inv_def)
  ultimately show ?case using received by (simp add: timed_inv_def line_heads)
next
  case (awaited t)
  then have q: "queue_inv (tq t)" by (simp add: timed_inv_def)
  show ?case
    using awaited queue_inv_await [OF q awaited(2)] await_keeps [OF q awaited(2)] by (simp add: timed_inv_def settle_def)
next
  case (turn t w)
  then have q: "queue_inv (tq t)" by (simp add: timed_inv_def)
  show ?case
    using turn queue_turn_keeps [OF q turn(2)] queue_inv_turn [OF q turn(2) refl] by (simp add: timed_inv_def)
qed

section \<open>Properties\<close>

text \<open>
  C24: whatever the order of the steps of the loop, the timer and the two coroutines: the ticks are printed in order, five at most; the
  numbers that are printed are those that were pushed, in their order, none lost or repeated, and all of them once the consumer
  waits and nothing is on its way. The loop runs as long as the coroutine does; the sixth tick ends the coroutine and stops
  the loop, each tick before it only counts, and a failed wait ends the coroutine without stopping the loop.
\<close>

theorem timed_program_output:
  assumes "timed_reachable i bus t" "bus_find i bus = Some queue_ref"
  shows "(\<exists>k. filter (\<lambda>l. hd l = CHR ''R'') (t_out t) = map received_line (take k (numbers (t_count t))))
    \<and> filter (\<lambda>l. hd l = CHR ''T'') (t_out t) = map triggered_line [1..<t_count t] \<and> t_count t \<le> 6
    \<and> (\<not> t_over t \<and> m_consumer (tq t) = Awaiting \<and> m_events (tq t) = []
        \<longrightarrow> filter (\<lambda>l. hd l = CHR ''R'') (t_out t) = map received_line (numbers (t_count t)))
    \<and> (\<not> m_running (tq t) \<longrightarrow> t_count t = 6 \<and> t_over t)
    \<and> (\<not> t_over t \<longrightarrow> (if 0 \<le> status \<and> t_count t = 6 then t_over (timer_fired status t) \<and> \<not> m_running (tq (timer_fired status t))
        else m_running (tq (timer_fired status t)) \<and> (t_over (timer_fired status t) \<longleftrightarrow> status < 0)
          \<and> t_count (timer_fired status t) = (if status < 0 then t_count t else Suc (t_count t))))"
proof -
  have inv: "timed_inv t"
    using assms(1) by (induction rule: timed_reachable.induct) (auto intro: timed_inv_new [OF assms(2)] timed_inv_step)
  then have n: "m_taken (tq t) @ m_items (m_queue (tq t)) = numbers (t_count t)" by (simp add: timed_inv_def)
  then have "m_taken (tq t) = take (length (m_taken (tq t))) (numbers (t_count t))" by (metis append_eq_conv_conj)
  then have "\<exists>k. map received_line (m_taken (tq t)) = map received_line (take k (numbers (t_count t)))" by metis
  moreover have "m_items (m_queue (tq t)) = []" if "\<not> t_over t" "m_consumer (tq t) = Awaiting" "m_events (tq t) = []"
    using that inv by (auto simp: timed_inv_def queue_inv_def)
  moreover have "t_count t \<le> 6" "\<not> t_over t \<longrightarrow> m_running (tq t)" using inv by (auto simp: timed_inv_def)
  then have "\<not> t_over t \<longrightarrow> (if 0 \<le> status \<and> t_count t = 6 then t_over (timer_fired status t) \<and> \<not> m_running (tq (timer_fired status t))
        else m_running (tq (timer_fired status t)) \<and> (t_over (timer_fired status t) \<longleftrightarrow> status < 0)
          \<and> t_count (timer_fired status t) = (if status < 0 then t_count t else Suc (t_count t)))"
    by (auto simp: timer_fired_def timed_ends_def loop_stop_def Let_def)
  ultimately show ?thesis using inv n by (auto simp: timed_inv_def)
qed

text \<open>The first tick, on the bus of theory \<open>Async_Queue\<close>.\<close>

theorem timed_program_output_witness:
  "t_out (timer_fired 8 (new_timed 1 example_bus))
     = [''Starting timed coroutine which triggers every 2 secs 5 times'', ''Timer triggered: 1'']
   \<and> filter (\<lambda>l. hd l = CHR ''T'') (t_out (timer_fired 8 (new_timed 1 example_bus))) = map triggered_line [1]"
proof -
  have o: "t_count (new_timed 1 example_bus) = 1" "\<not> t_over (new_timed 1 example_bus)"
    by (simp_all add: new_timed_def Let_def)
  have "timed_reachable 1 example_bus (timer_fired 8 (new_timed 1 example_bus))"
    by (rule timed_reachable.step [OF timed_reachable.start timed_step.fired]) (rule o(2))
  from timed_program_output [OF this example_world(1)]
  have f: "filter (\<lambda>l. hd l = CHR ''T'') (t_out (timer_fired 8 (new_timed 1 example_bus))) = map triggered_line [1]"
    using o(1) by (simp add: timer_fired_def Let_def)
  have "to_chars 10 1 = ''1''" by code_simp
  then show ?thesis using f o(1) by (simp add: timer_fired_def Let_def new_timed_def triggered_line_def)
qed

end
