(* ===== verification/Pg_App.thy ===== *)
theory Pg_App
  imports Pg_Replies
begin

text \<open>
  \<open>examples/pg_app\<close>: a client of the database from its first query to the last row it prints. The connection is the one that
  \<open>get_connection\<close> of the pool has given it (theory \<open>Pg_Pool\<close>); the state is that connection with what has been printed.
\<close>

section \<open>The program\<close>

type_synonym app = "conn \<times> string"

definition make_car_table :: string where
  "make_car_table =
     ''CREATE TABLE cars (id serial PRIMARY KEY, brand TEXT, model TEXT, year INTEGER);'' @
     ''INSERT INTO cars (brand, model, year) VALUES ('' @ [CHR 0x27] @ ''MB'' @ [CHR 0x27] @ '', '' @ [CHR 0x27] @ ''E300'' @ [CHR 0x27] @ '', 2020), ('' @
     [CHR 0x27] @ ''BMW'' @ [CHR 0x27] @ '', '' @ [CHR 0x27] @ ''M5'' @ [CHR 0x27] @ '', 2020), '' @
     ''('' @ [CHR 0x27] @ ''TOYOTA'' @ [CHR 0x27] @ '', '' @ [CHR 0x27] @ ''CAMRY'' @ [CHR 0x27] @ '', 2023), ('' @ [CHR 0x27] @ ''MB'' @ [CHR 0x27] @
     '', '' @ [CHR 0x27] @ ''E250'' @ [CHR 0x27] @ '', 2023), ('' @ [CHR 0x27] @ ''MB'' @ [CHR 0x27] @ '', '' @ [CHR 0x27] @ ''S400'' @ [CHR 0x27] @ '', 2023);''"

definition select_cars :: string where
  "select_cars = ''SELECT id, brand, model, year FROM cars WHERE brand=$1 AND year=$2;''"

definition eol :: string where
  "eol = [CHR 0x0A]"

definition put :: "string \<Rightarrow> (app, unit) comp" where
  "put text p = (Done (), (fst p, snd p @ text))"

text \<open>\<open>results[i]\<close> outside the vector is undefined.\<close>

definition result_at :: "pg_result list \<Rightarrow> nat \<Rightarrow> pg_result outcome" where
  "result_at results i = (if i < length results then Done (results ! i) else Undefined)"

definition get_command_tag :: "pg_result \<Rightarrow> string" where
  "get_command_tag r = m_cmd_tag r"

definition get_type :: "pg_result \<Rightarrow> result_type" where
  [simp]: "get_type r = m_type r"

definition int_cell :: cell_type where
  "int_cell = Integral (- (2 ^ 31)) (2 ^ 31 - 1)"

text \<open>The variables of a row, two numbers without a value yet and two empty strings; and the line that is printed.\<close>

definition car_targets :: "target list" where
  "car_targets = [Plain int_cell (Num 0), Plain Text (Str []), Plain Text (Str []), Plain int_cell (Num 0)]"

fun car_line :: "target list \<Rightarrow> string" where
  "car_line [Plain _ (Num i), Plain _ (Str brand), Plain _ (Str model), Plain _ (Num year)] =
     to_chars 10 i @ '' '' @ brand @ '' '' @ model @ '' '' @ to_chars 10 year @ eol"
| "car_line _ = []"

text \<open>The loop over the rows from the \<open>i\<close>-th on, of which \<open>n\<close> are left.\<close>

fun print_rows :: "pg_result \<Rightarrow> nat \<Rightarrow> nat \<Rightarrow> (app, unit) comp" where
  "print_rows selection i 0 = return ()"
| "print_rows selection i (Suc n) =
     and_then (Pair (case get_row selection 0 (int i) car_targets of (r, ts) \<Rightarrow>
         (case r of Done _ \<Rightarrow> Done ts | Threw e \<Rightarrow> Threw e | Suspended \<Rightarrow> Suspended | Undefined \<Rightarrow> Undefined))) (\<lambda>row.
     and_then (put (car_line row)) (\<lambda>_.
     print_rows selection (Suc i) n))"

lemma execute_loop_work:
  "execute_loop st = (Done u, st') \<Longrightarrow> rx_work (snd (fst st')) \<le> rx_work (snd (fst st))
     \<and> (m_type (snd st) = PENDING \<longrightarrow> rx_work (snd (fst st')) < rx_work (snd (fst st)))"
proof (induction st rule: execute_loop.induct)
  case (1 st)
  show ?case
  proof (cases "m_type (snd st) = PENDING")
    case False
    then show ?thesis using 1(2) by (simp add: execute_loop.simps)
  next
    case True
    then have "and_then (on_fst (get_response_info True)) (\<lambda>info. and_then (execute_step info) (\<lambda>_. execute_loop)) st = (Done u, st')"
      using 1(2) by (simp add: execute_loop.simps)
    then obtain info st1 st2 v where g: "on_fst (get_response_info True) st = (Done info, st1)"
      "execute_step info st1 = (Done v, st2)" "execute_loop st2 = (Done u, st')"
      by (auto elim!: and_then_DoneE)
    have w: "rx_work (snd (fst st1)) < rx_work (snd (fst st))" "0 \<le> m_info_size info"
      using g(1) by (auto simp: on_fst_def dest!: get_response_info_Done split: prod.splits)
    have "rx_work (snd (fst st2)) \<le> rx_work (snd (fst st1))"
      by (rule frugalD [OF frugal_execute_step [OF w(2)] g(2)])
    moreover have "rx_work (snd (fst st')) \<le> rx_work (snd (fst st2))"
      using 1(1) [of info st1 v st2] True g by simp
    ultimately show ?thesis using w(1) by simp
  qed
qed

lemma execute_work:
  assumes "execute n p = (Done r, p')"
  shows "rx_work (snd p') < rx_work (snd p)"
proof -
  obtain v p1 where s: "send_execute n p = (Done v, p1)" and e: "(case execute_loop (p1, new_pg_result) of
       (Done _, (p2, result)) \<Rightarrow>
         if m_type result = SUSPENDED then (Done result, p2) else and_then close_sync (\<lambda>_. return result) p2
     | (Threw e, (p2, result)) \<Rightarrow> (Threw e, p2)
     | (Suspended, (p2, result)) \<Rightarrow> (Suspended, p2)
     | (Undefined, (p2, result)) \<Rightarrow> (Undefined, p2)) = (Done r, p')"
    using assms unfolding execute_sends by (auto elim!: and_then_DoneE)
  obtain u p2 result where l: "execute_loop (p1, new_pg_result) = (Done u, (p2, result))"
    using e by (auto split: prod.splits outcome.splits)
  have "frugal snd (send_execute n)" unfolding send_execute_def by (intro frugal_intros)
  then have "rx_work (snd p1) \<le> rx_work (snd p)" using s by (rule frugalD)
  moreover have "rx_work (snd p2) < rx_work (snd p1)"
    using execute_loop_work [OF l] by (simp add: new_pg_result_def)
  moreover have "rx_work (snd p') \<le> rx_work (snd p2)"
  proof (cases "m_type result = SUSPENDED")
    case True
    then show ?thesis using e l by simp
  next
    case False
    have sy: "frugal snd sync_loop"
      unfolding frugal_def
    proof (intro allI impI)
      fix q v q' show "sync_loop q = (Done v, q') \<Longrightarrow> rx_work (snd q') \<le> rx_work (snd q)"
      proof (induction q rule: sync_loop.induct)
        case (1 q)
        let ?skip = "\<lambda>info. if m_info_size info > 0 then and_then (on_snd (skip (m_info_size info) True)) (\<lambda>_. return ()) else return () :: (conn, unit) comp"
        obtain info q1 w q2 where g: "get_response_info True q = (Done info, q1)" "?skip info q1 = (Done w, q2)"
          "(if m_info_type info \<noteq> READY_FOR_QUERY then sync_loop q2 else (Done (), q2)) = (Done v, q')"
          using 1(2) by (subst (asm) sync_loop.simps) (auto elim!: and_then_DoneE)
        have "frugal snd (?skip info)" by (auto intro!: frugal_intros)
        then have "rx_work (snd q2) \<le> rx_work (snd q1)" using g(2) by (rule frugalD)
        moreover have "rx_work (snd q1) < rx_work (snd q)" using get_response_info_Done [OF g(1)] by simp
        ultimately show ?case
          using 1(1) [OF g(1), of w q2] g by (cases "m_info_type info = READY_FOR_QUERY") auto
      qed
    qed
    have "frugal snd close_sync" unfolding close_sync_def by (intro frugal_intros sy)
    moreover obtain w where "close_sync p2 = (Done w, p')"
      using e l False by (auto simp: return_def elim!: and_then_DoneE)
    ultimately show ?thesis by (rule frugalD)
  qed
  ultimately show ?thesis by simp
qed

lemma print_rows_conn: "fst (snd (print_rows selection i n p)) = fst p"
proof (induction n arbitrary: i p)
  case 0
  then show ?case by (simp add: return_def)
next
  case (Suc n)
  let ?g = "case get_row selection 0 (int i) car_targets of (r, ts) \<Rightarrow>
      (case r of Done _ \<Rightarrow> Done ts | Threw e \<Rightarrow> Threw e | Suspended \<Rightarrow> Suspended | Undefined \<Rightarrow> Undefined)"
  show ?case using Suc [of "Suc i" "snd (put (car_line (case ?g of Done ts \<Rightarrow> ts)) p)"]
    by (cases ?g) (simp_all add: and_then_def put_def)
qed

text \<open>The loop over the results of the portal.\<close>

function portal_loop :: "(app, unit) comp" where
  "portal_loop p =
     (case on_fst (execute 1) p of
        (Done selection, p1) \<Rightarrow>
          (case print_rows selection 0 (nat (get_num_rows selection)) p1 of
             (Done _, p2) \<Rightarrow> if get_type selection = SUSPENDED then portal_loop p2 else (Done (), p2)
           | (Threw e, p2) \<Rightarrow> (Threw e, p2)
           | (Suspended, p2) \<Rightarrow> (Suspended, p2)
           | (Undefined, p2) \<Rightarrow> (Undefined, p2))
      | (Threw e, p1) \<Rightarrow> (Threw e, p1)
      | (Suspended, p1) \<Rightarrow> (Suspended, p1)
      | (Undefined, p1) \<Rightarrow> (Undefined, p1))"
  by pat_completeness auto
termination
proof (relation "measure (\<lambda>p. rx_work (snd (fst p)))", goal_cases)
  case 1
  show ?case by simp
next
  case (2 p r p1 selection r2 p2 u)
  then have "on_fst (execute 1) p = (Done selection, p1)" by simp
  then have "rx_work (snd (fst p1)) < rx_work (snd (fst p))"
    by (auto simp: on_fst_def dest: execute_work split: prod.splits)
  moreover have "fst p2 = fst p1"
    using 2 print_rows_conn [of selection 0 "nat (get_num_rows selection)" p1] by (metis snd_conv)
  ultimately show ?case by simp
qed

declare portal_loop.simps [simp del]

text \<open>\<open>connect_to_database\<close>, between \<open>get_connection\<close> and \<open>release\<close>.\<close>

definition connect_to_database :: "(app, unit) comp" where
  "connect_to_database =
     and_then (on_fst (query make_car_table)) (\<lambda>results.
     and_then (Pair (result_at results 0)) (\<lambda>r0.
     and_then (put (get_command_tag r0 @ eol)) (\<lambda>_.
     and_then (Pair (result_at results 1)) (\<lambda>r1.
     and_then (put (get_command_tag r1 @ eol)) (\<lambda>_.
     case store_args [Some (Str ''MB''), Some (Num 2023)] new_pg_params of
       (Done _, params) \<Rightarrow> and_then (on_fst (prepare_query select_cars params)) (\<lambda>_. portal_loop)
     | (Threw e, params) \<Rightarrow> throw e
     | (Suspended, params) \<Rightarrow> Pair Suspended
     | (Undefined, params) \<Rightarrow> Pair Undefined)))))"

section \<open>The answers of a server\<close>

text \<open>A row of the table, as the server sends it and as it is printed.\<close>

type_synonym car = "int \<times> string \<times> string \<times> int"

definition car_cells :: "car \<Rightarrow> cell list" where
  "car_cells c = (case c of (i, brand, model, year) \<Rightarrow> [Num i, Str brand, Str model, Num year])"

definition car_fields :: "car \<Rightarrow> byte list option list" where
  "car_fields c = map (\<lambda>v. Some (cell_text v)) (car_cells c)"

definition car_text :: "car \<Rightarrow> string" where
  "car_text c = (case c of (i, brand, model, year) \<Rightarrow>
     to_chars 10 i @ '' '' @ brand @ '' '' @ model @ '' '' @ to_chars 10 year @ eol)"

definition car_ok :: "car \<Rightarrow> bool" where
  "car_ok c \<longleftrightarrow> row_ok (car_fields c) \<and> (case c of (i, brand, model, year) \<Rightarrow>
     - (2 ^ 31) \<le> i \<and> i \<le> 2 ^ 31 - 1 \<and> - (2 ^ 31) \<le> year \<and> year \<le> 2 ^ 31 - 1)"

text \<open>The messages behind the requests to execute: parts of the rows, each behind acknowledgements, until the command is complete.\<close>

type_synonym part = "string \<times> car list"

definition part_messages :: "part \<Rightarrow> byte list list" where
  "part_messages pt = acknowledged (fst pt) @ map (\<lambda>c. message (CHR ''D'') (row_message (car_fields c))) (snd pt)"

definition part_ok :: "part \<Rightarrow> bool" where
  "part_ok pt \<longleftrightarrow> list_all ack_ok (fst pt) \<and> list_all car_ok (snd pt)"

definition portal_messages :: "part list \<Rightarrow> part \<Rightarrow> string \<Rightarrow> byte list \<Rightarrow> byte list list" where
  "portal_messages pts final tag st =
     concat (map (\<lambda>pt. part_messages pt @ [message (CHR ''s'') []]) pts)
     @ part_messages final @ [ending_message (Completed tag), message (CHR ''3'') [], message (CHR ''Z'') st]"

definition cars_text :: "car list \<Rightarrow> string" where
  "cars_text cs = concat (map car_text cs)"

section \<open>What is printed\<close>

lemma get_row_car:
  assumes "holds_row r (int i) (car_fields c)" "car_ok c"
  shows "get_row r 0 (int i) car_targets = (Done (), map2 assign (map Some (car_cells c)) car_targets)"
    "car_line (map2 assign (map Some (car_cells c)) car_targets) = car_text c"
proof -
  obtain n brand model year where c: "c = (n, brand, model, year)" by (cases c) auto
  show "get_row r 0 (int i) car_targets = (Done (), map2 assign (map Some (car_cells c)) car_targets)"
  proof (rule get_row_assign [OF assms(1)])
    fix j assume j: "j < length (map Some (car_cells c))"
    then have j4: "j = 0 \<or> j = 1 \<or> j = 2 \<or> j = 3" by (auto simp: c car_cells_def)
    show "car_fields c ! (0 + j) = map_option cell_text (map Some (car_cells c) ! j)"
      using j by (simp add: car_fields_def)
    show "assignable (map Some (car_cells c) ! j) (car_targets ! j)"
      using j4 assms(2) by (auto simp: c car_cells_def car_targets_def int_cell_def car_ok_def)
  qed (simp_all add: c car_cells_def car_fields_def car_targets_def)
  show "car_line (map2 assign (map Some (car_cells c)) car_targets) = car_text c"
    by (simp add: c car_cells_def car_targets_def car_text_def)
qed

lemma print_rows_from:
  assumes "holds_rows (map car_fields cs) r" "list_all car_ok cs" "i + n = length cs"
  shows "print_rows r i n p = (Done (), (fst p, snd p @ cars_text (drop i cs)))"
  using assms(3)
proof (induction n arbitrary: i p)
  case 0
  then show ?case by (simp add: return_def cars_text_def)
next
  case (Suc n)
  then have i: "i < length cs" by simp
  have h: "holds_row r (int i) (car_fields (cs ! i))"
    using assms(1) i by (auto simp: holds_rows_def list_all_iff)
  have ok: "car_ok (cs ! i)" using assms(2) i by (simp add: list_all_length)
  have d: "drop i cs = cs ! i # drop (Suc i) cs" using i by (rule Cons_nth_drop_Suc [symmetric])
  show ?case
    using Suc.IH [of "Suc i"] Suc.prems get_row_car [OF h ok]
    by (simp add: and_then_def put_def d cars_text_def)
qed

lemma print_rows_all:
  assumes "holds_rows (map car_fields cs) r" "list_all car_ok cs"
  shows "print_rows r 0 (nat (get_num_rows r)) p = (Done (), (fst p, snd p @ cars_text cs))"
  using print_rows_from [OF assms, of 0 "length cs"] assms(1) by (simp add: holds_rows_def)

text \<open>One call of \<open>execute\<close> and the printing of its rows.\<close>

lemma portal_turn:
  assumes "aligned [] (part_messages pt @ final) s" "part_ok pt"
    and "final = message (CHR ''s'') [] # msgs \<and> susp
      \<or> final = ending_message (Completed tag) # map (\<lambda>(c, body). message c body) [(CHR ''3'', [])] @ message (CHR ''Z'') st # msgs \<and> \<not> susp"
    and "body_ok (bytes tag @ [0])" "body_ok st" "27 \<le> slack s"
  shows "\<exists>s'. portal_loop ((conn, s), out)
      = (if susp then portal_loop ((conn, s'), out @ cars_text (snd pt))
         else (Done (), ((conn\<lparr>m_query_ready := True\<rparr>, s'), out @ cars_text (snd pt))))
    \<and> out_stream s' = out_stream s @ execute_request 1 @ (if susp then [] else close_request)
    \<and> aligned [] msgs s' \<and> slack s' = slack s - (if susp then 15 else 27)"
proof -
  let ?rows = "map car_fields (snd pt)"
  have al: "aligned [] (acknowledged (fst pt) @ map (\<lambda>fs. message (CHR ''D'') (row_message fs)) ?rows @ final) s"
    using assms(1) by (simp add: part_messages_def comp_def)
  have acks: "list_all ack_ok (fst pt)" and cars: "list_all car_ok (snd pt)" using assms(2) by (simp_all add: part_ok_def)
  have rows: "list_all row_ok ?rows" using cars by (auto simp: list_all_iff car_ok_def)
  have e: "ending_ok (Completed tag)" using assms(4) by simp
  have sk: "list_all skipped_ok [(CHR ''3'', [])]"
    unfolding list.pred_inject skipped_ok_def fst_conv snd_conv response_types by (simp add: body_ok_def)
  obtain r s' where x: "execute 1 (conn, s) = (Done r, (if susp then conn else conn\<lparr>m_query_ready := True\<rparr>, s'))"
    "if susp then m_type r = SUSPENDED else ended (Completed tag) r" "holds_rows ?rows r"
    "out_stream s' = out_stream s @ execute_request 1 @ (if susp then [] else close_request)"
    "aligned [] msgs s'" "slack s' = slack s - (if susp then 15 else 27)"
    using execute_returns [OF al acks rows assms(3) e sk assms(5,6)] by blast
  have "portal_loop ((conn, s), out)
      = (if susp then portal_loop ((conn, s'), out @ cars_text (snd pt))
         else (Done (), ((conn\<lparr>m_query_ready := True\<rparr>, s'), out @ cars_text (snd pt))))"
    using x(1,2) print_rows_all [OF x(3) cars]
    by (subst portal_loop.simps) (cases susp; simp add: on_fst_def)
  then show ?thesis using x(4-6) by blast
qed

lemma portal_loop_prints:
  assumes "aligned [] (portal_messages pts final tag st @ msgs) s" "list_all part_ok pts" "part_ok final"
    "body_ok (bytes tag @ [0])" "body_ok st" "15 * int (length pts) + 27 \<le> slack s"
  shows "\<exists>s'. portal_loop ((conn, s), out)
      = (Done (), ((conn\<lparr>m_query_ready := True\<rparr>, s'), out @ cars_text (concat (map snd (pts @ [final])))))
    \<and> out_stream s' = out_stream s @ concat (replicate (Suc (length pts)) (execute_request 1)) @ close_request
    \<and> aligned [] msgs s'"
  using assms
proof (induction pts arbitrary: s out)
  case Nil
  have al: "aligned [] (part_messages final @ ending_message (Completed tag)
      # map (\<lambda>(c, body). message c body) [(CHR ''3'', [])] @ message (CHR ''Z'') st # msgs) s"
    using Nil.prems(1) by (simp add: portal_messages_def)
  show ?case
    using portal_turn [OF al Nil.prems(3) _ Nil.prems(4,5), of msgs False conn out] Nil.prems(6) by auto
next
  case (Cons pt pts)
  have al: "aligned [] (part_messages pt @ message (CHR ''s'') [] # (portal_messages pts final tag st @ msgs)) s"
    using Cons.prems(1) by (simp add: portal_messages_def)
  have ok: "part_ok pt" "list_all part_ok pts" using Cons.prems(2) by simp_all
  obtain s1 where s1: "portal_loop ((conn, s), out) = portal_loop ((conn, s1), out @ cars_text (snd pt))"
    "out_stream s1 = out_stream s @ execute_request 1" "aligned [] (portal_messages pts final tag st @ msgs) s1"
    "slack s1 = slack s - 15"
    using portal_turn [OF al ok(1) _ Cons.prems(4,5), of "portal_messages pts final tag st @ msgs" True conn out] Cons.prems(6) by auto
  have "15 * int (length pts) + 27 \<le> slack s1" using s1(4) Cons.prems(6) by simp
  from Cons.IH [OF s1(3) ok(2) Cons.prems(3-5) this, of "out @ cars_text (snd pt)"]
  show ?case unfolding s1(1) using s1(2) by (auto simp: cars_text_def)
qed

section \<open>Properties\<close>

definition app_params :: "cell option list" where
  "app_params = [Some (Str ''MB''), Some (Num 2023)]"

definition prepare_request :: "byte list \<Rightarrow> byte list" where
  "prepare_request params =
     message (CHR ''P'') ([0] @ c_str select_cars @ [0, 0]) @ message (CHR ''B'') ([0, 0] @ [0, 0] @ params @ [0, 0])"

definition param_bytes :: "byte list" where
  "param_bytes = [0, 2, 0, 0, 0, 2] @ bytes ''MB'' @ [0, 0, 0, 4] @ bytes ''2023''"

lemma app_params_stored:
  obtains params where "store_args app_params new_pg_params = (Done (), params)" "m_param_buffer params = param_bytes"
proof -
  have ok: "list_all (pred_option cell_ok) app_params" by (simp add: app_params_def)
  have p0: "params_hold [] new_pg_params" by (simp add: params_hold_def new_pg_params_def u16_bytes_def)
  obtain p where "store_args app_params new_pg_params = (Done (), p)" "params_hold (map (map_option cell_text) app_params) p"
    using store_args_eq [OF p0 ok] by auto
  moreover have "u16_bytes (of_nat (length (map (map_option cell_text) app_params)))
      @ concat (map field_bytes (map (map_option cell_text) app_params)) = param_bytes"
    by code_simp
  ultimately show thesis using that by (simp add: params_hold_def)
qed

lemma connect_to_database_queries:
  assumes "aligned [] (concat (map reply_messages replies) @ message (CHR ''Z'') st # msgs) s"
    "list_all reply_ok replies" "body_ok st" "m_query_ready conn" "int (length make_car_table) + 6 \<le> slack s"
  obtains results s1 where "on_fst (query make_car_table) ((conn, s), out) = (Done results, ((conn, s1), out))"
    "list_all2 answers replies results" "out_stream s1 = out_stream s @ message (CHR ''Q'') (c_str make_car_table)" "aligned [] msgs s1"
    "slack s1 = slack s - (int (length make_car_table) + 6)"
  using query_returns [OF assms] that by (auto simp: on_fst_def)

text \<open>
  C12: the program against a server that completes both commands of its first query and whose completions bring whole messages, at
  most 8192 bytes together (\<open>aligned\<close>): it prints the two tags, then every row of the selection in order, however the
  server divides the rows over the executions; it sends the query, the prepared statement with its parameters, one request
  to execute for each part and the request to close, and nothing else; then the connection is ready. When the server reports
  an error in the first query instead, see \<open>pg_app_second_run\<close>; a row that is cut between two completions is lost,
  as the theory of the replies shows.
\<close>

theorem pg_app_prints_rows:
  assumes "aligned [] (reply_messages (Reply cs1 rows1 (Completed t1)) @ reply_messages (Reply cs2 rows2 (Completed t2))
      @ message (CHR ''Z'') st # (portal_messages pts final tag st' @ msgs)) s"
    "list_all reply_ok [Reply cs1 rows1 (Completed t1), Reply cs2 rows2 (Completed t2)]" "body_ok st" "m_query_ready conn"
    "list_all part_ok pts" "part_ok final" "body_ok (bytes tag @ [0])" "body_ok st'"
    "int (length make_car_table + length (prepare_request param_bytes)) + 33 + 15 * int (length pts) \<le> slack s"
  shows "\<exists>s'. connect_to_database ((conn, s), out) = (Done (), ((conn\<lparr>m_query_ready := True\<rparr>, s'),
      out @ t1 @ eol @ t2 @ eol @ cars_text (concat (map snd (pts @ [final])))))
    \<and> out_stream s' = out_stream s @ message (CHR ''Q'') (c_str make_car_table) @ prepare_request param_bytes
        @ concat (replicate (Suc (length pts)) (execute_request 1)) @ close_request
    \<and> aligned [] msgs s'"
proof -
  let ?rs = "[Reply cs1 rows1 (Completed t1), Reply cs2 rows2 (Completed t2)]"
  let ?conn = "conn\<lparr>m_query_ready := False\<rparr>"
  have al: "aligned [] (concat (map reply_messages ?rs) @ message (CHR ''Z'') st # (portal_messages pts final tag st' @ msgs)) s"
    using assms(1) by simp
  have room: "int (length make_car_table) + 6 \<le> slack s" using assms(9) by simp
  obtain results s1 where q: "on_fst (query make_car_table) ((conn, s), out) = (Done results, ((conn, s1), out))"
    "list_all2 answers ?rs results" "out_stream s1 = out_stream s @ message (CHR ''Q'') (c_str make_car_table)"
    "aligned [] (portal_messages pts final tag st' @ msgs) s1" "slack s1 = slack s - (int (length make_car_table) + 6)"
    by (rule connect_to_database_queries [OF al assms(2-4) room])
  obtain r0 r1 where r: "results = [r0, r1]" "ended (Completed t1) r0" "ended (Completed t2) r1"
    using q(2) by (auto simp: list_all2_Cons1)
  then have tags: "get_command_tag r0 = t1" "get_command_tag r1 = t2" by (simp_all add: get_command_tag_def)
  obtain params where ps: "store_args app_params new_pg_params = (Done (), params)" "m_param_buffer params = param_bytes"
    by (rule app_params_stored)
  have wf: "sock_wf s1" using q(4) by (simp add: aligned_def)
  have em: "emits (prepare_request param_bytes) ?conn (conn, s1) (prepare_query select_cars params (conn, s1))"
    unfolding prepare_request_def ps(2) [symmetric] by (rule prepare_query_emits) (simp_all add: wf assms(4))
  have room1: "int (length (prepare_request param_bytes)) \<le> slack s1" using q(5) assms(9) by simp
  obtain u s2 where p: "prepare_query select_cars params (conn, s1) = (Done u, (?conn, s2))" "sent (prepare_request param_bytes) s1 s2"
    using emits_sent [OF em] room1 by auto
  note a2 = sent_aligned [OF p(2) q(4)]
  have room2: "15 * int (length pts) + 27 \<le> slack s2" using a2(3) q(5) assms(9) by simp
  obtain s3 where l: "portal_loop ((?conn, s2), out @ t1 @ eol @ t2 @ eol)
      = (Done (), ((?conn\<lparr>m_query_ready := True\<rparr>, s3), (out @ t1 @ eol @ t2 @ eol) @ cars_text (concat (map snd (pts @ [final])))))"
    "out_stream s3 = out_stream s2 @ concat (replicate (Suc (length pts)) (execute_request 1)) @ close_request" "aligned [] msgs s3"
    using portal_loop_prints [OF a2(1) assms(5-8) room2] by blast
  have "connect_to_database ((conn, s), out) = portal_loop ((?conn, s2), out @ t1 @ eol @ t2 @ eol)"
    using q(1) r(1) tags ps(1) p(1)
    by (simp add: connect_to_database_def and_then_def put_def result_at_def app_params_def) (simp add: on_fst_def)
  then show ?thesis using l a2(2) q(3) by auto
qed

text \<open>Two cars, one for each execution.\<close>

definition demo_cars :: "part list" where
  "demo_cars = [(''12'', [(4, ''MB'', ''E250'', 2023)]), ([], [(5, ''MB'', ''S400'', 2023)])]"

definition demo_answers :: "byte list list list" where
  "demo_answers = [reply_messages (Reply None [] (Completed ''CREATE TABLE'')), reply_messages (Reply None [] (Completed ''INSERT 0 5'')),
     [message (CHR ''Z'') [0x49]]] @ map (\<lambda>pt. part_messages pt @ [message (CHR ''s'') []]) demo_cars
     @ [[ending_message (Completed ''SELECT 2''), message (CHR ''3'') [], message (CHR ''Z'') [0x49]]]"

theorem pg_app_prints_rows_witness:
  "\<exists>s'. connect_to_database ((\<lparr>m_query_ready = True\<rparr>, new_socket (map (\<lambda>g. Rx_data (concat g)) demo_answers) [Tx_ok 1000]), [])
    = (Done (), ((\<lparr>m_query_ready = True\<rparr>, s'), ''CREATE TABLE'' @ eol @ ''INSERT 0 5'' @ eol
        @ ''4 MB E250 2023'' @ eol @ ''5 MB S400 2023'' @ eol))"
proof -
  let ?s = "new_socket (map (\<lambda>g. Rx_data (concat g)) demo_answers) [Tx_ok 1000]"
  have d: "to_chars 10 4 = ''4''" "to_chars 10 5 = ''5''" "to_chars 10 2023 = ''2023''" by code_simp+
  have f: "car_fields (4, ''MB'', ''E250'', 2023) = [Some (bytes ''4''), Some (bytes ''MB''), Some (bytes ''E250''), Some (bytes ''2023'')]"
    "car_fields (5, ''MB'', ''S400'', 2023) = [Some (bytes ''5''), Some (bytes ''MB''), Some (bytes ''S400''), Some (bytes ''2023'')]"
    by (simp_all add: car_fields_def car_cells_def d)
  note parts = demo_answers_def demo_cars_def part_messages_def acknowledged_def columns_messages_def
  have len: "length (row_message [Some (bytes a), Some (bytes b), Some (bytes c), Some (bytes d)]) = 18 + length (a @ b @ c @ d)" for a b c d
    by (simp add: row_message_def field_bytes_def)
  have g: "list_all group_ok demo_answers"
    by (simp add: parts f len group_ok_def SOCKET_BUFFER_SIZE_def)
  have "[] \<notin> set (concat demo_answers)" by (simp add: parts)
  from aligned_new [OF g this] have "aligned [] (concat demo_answers) ?s" .
  moreover have "concat demo_answers = reply_messages (Reply None [] (Completed ''CREATE TABLE'')) @ reply_messages (Reply None [] (Completed ''INSERT 0 5''))
      @ message (CHR ''Z'') [0x49] # (portal_messages demo_cars ([], []) ''SELECT 2'' [0x49] @ [])"
    by (simp add: parts portal_messages_def)
  ultimately have al: "aligned [] (reply_messages (Reply None [] (Completed ''CREATE TABLE'')) @ reply_messages (Reply None [] (Completed ''INSERT 0 5''))
      @ message (CHR ''Z'') [0x49] # (portal_messages demo_cars ([], []) ''SELECT 2'' [0x49] @ [])) ?s"
    by (simp only:)
  have r: "list_all reply_ok [Reply None [] (Completed ''CREATE TABLE''), Reply None [] (Completed ''INSERT 0 5'')]"
    by (simp add: body_ok_def)
  have row: "row_ok [Some (bytes a), Some (bytes b), Some (bytes c), Some (bytes d)]" if "length (a @ b @ c @ d) < 100" for a b c d
    using that by (simp add: row_ok_def field_ok_def body_ok_def row_message_def field_bytes_def)
  have c: "list_all part_ok demo_cars" "part_ok ([], [])"
    using f row by (simp_all add: demo_cars_def part_ok_def car_ok_def ack_ok_def)
  have b: "body_ok [0x49]" "body_ok (bytes ''SELECT 2'' @ [0])" by (simp_all add: body_ok_def)
  have room: "int (length make_car_table + length (prepare_request param_bytes)) + 33 + 15 * int (length demo_cars) \<le> slack ?s"
    by (simp add: make_car_table_def prepare_request_def param_bytes_def select_cars_def c_str_def demo_cars_def)
  have t: "cars_text (concat (map snd (demo_cars @ [([], [])]))) = ''4 MB E250 2023'' @ eol @ ''5 MB S400 2023'' @ eol"
    by (simp add: cars_text_def car_text_def demo_cars_def d)
  show ?thesis
    using pg_app_prints_rows [OF al r b(1) _ c b(2,1) room, of "\<lparr>m_query_ready = True\<rparr>" "[]"] unfolding t by auto
qed

text \<open>
  When the first command fails, as it does on every run but the first since the table exists then, the server gives up the rest
  of the query and there is one result: the program prints an empty tag and reads behind the end of the results.
\<close>

theorem pg_app_second_run:
  assumes "aligned [] (message (CHR ''E'') body # message (CHR ''Z'') st # msgs) s" "body_ok body" "body_ok st" "m_query_ready conn"
    "int (length make_car_table) + 6 \<le> slack s"
  shows "fst (connect_to_database ((conn, s), out)) = Undefined"
proof -
  have al: "aligned [] (concat (map reply_messages [Reply None [] (Failed (CHR ''E'') body)]) @ message (CHR ''Z'') st # msgs) s"
    using assms(1) by (simp add: columns_messages_def)
  have ok: "list_all reply_ok [Reply None [] (Failed (CHR ''E'') body)]" using assms(2) by simp
  obtain results s1 where q: "on_fst (query make_car_table) ((conn, s), out) = (Done results, ((conn, s1), out))"
    "list_all2 answers [Reply None [] (Failed (CHR ''E'') body)] results"
    by (rule connect_to_database_queries [OF al ok assms(3-5)]) blast
  then have "length results = 1" by (auto dest: list_all2_lengthD)
  then show ?thesis using q(1) by (simp add: connect_to_database_def and_then_def put_def result_at_def)
qed

theorem pg_app_second_run_witness:
  "fst (connect_to_database ((\<lparr>m_query_ready = True\<rparr>,
      new_socket (map (\<lambda>g. Rx_data (concat g)) [[message (CHR ''E'') [0], message (CHR ''Z'') [0x49]]]) [Tx_ok 1000]), [])) = Undefined"
proof -
  let ?gs = "[[message (CHR ''E'') [0], message (CHR ''Z'') [0x49]]]"
  have "aligned [] (concat ?gs) (new_socket (map (\<lambda>g. Rx_data (concat g)) ?gs) [Tx_ok 1000])"
    by (rule aligned_new) (simp_all add: group_ok_def SOCKET_BUFFER_SIZE_def)
  then have al: "aligned [] (message (CHR ''E'') [0] # message (CHR ''Z'') [0x49] # [])
      (new_socket (map (\<lambda>g. Rx_data (concat g)) ?gs) [Tx_ok 1000])" by simp
  have "int (length make_car_table) + 6 \<le> slack (new_socket (map (\<lambda>g. Rx_data (concat g)) ?gs) [Tx_ok 1000])"
    by (simp add: make_car_table_def)
  then show ?thesis by (intro pg_app_second_run [OF al]) (simp_all add: body_ok_def)
qed

end
