(* ===== verification/Spec2Isabelle.thy ===== *)
theory Spec2Isabelle
  imports Cpp_Util Encoding Socket_Io Http_Server Async_Queue Async_Signal Io_Fair Timer Net Pg_Login Pg_Replies Pg_Types Pg_Pool Wiring
    Task_Value Pg_Floats Crypto_Life Telnet Hello Timed Pg_App
begin

text \<open>
  A verification library for cppevent, a C++20 coroutine library over io\_uring (sources under \<open>src/src\<close>), with an
  event loop, buffered sockets, an HTTP/1.1 server and a PostgreSQL client, and of the programs under \<open>src/examples\<close> that use it.

  \<^bold>\<open>The program.\<close> \<open>cppevent_base\<close> has the event loop: completions and internal events are dispatched by the event bus to
  callbacks, each of which resumes at most one coroutine (\<open>status_awaiter\<close>). \<open>cppevent_net\<close> wraps a connected file
  descriptor as \<open>socket\<close>, with a \<open>byte_buffer\<close> for each direction. \<open>cppevent_http\<close> reads requests from a socket
  (\<open>http_line\<close>, \<open>http_request\<close>, \<open>http_body\<close>), finds the endpoint (\<open>http_router\<close>), and writes the response
  (\<open>http_output\<close>); \<open>http_server::on_connection\<close> is the loop over the requests of a connection. \<open>cppevent_crypto\<close>
  has base64 and wrappers of OpenSSL. \<open>cppevent_postgres\<close> is the client: parameters and results in text format
  (\<open>pg_conv\<close>, \<open>pg_params\<close>, \<open>pg_result\<close>), the SCRAM exchange (\<open>scram\<close>), the protocol on a connection
  (\<open>pg_connection\<close>) and a pool of connections (\<open>pg_database\<close>).

  \<^bold>\<open>The model.\<close> A coroutine is a computation \<open>('s, 'a) comp\<close> (theory \<open>Prelude\<close>): a function from a state to an outcome and a
  state. The outcome is a value (\<open>Done\<close>), an exception (\<open>Threw\<close>), \<open>Suspended\<close> when it waits for a completion that does not
  come, or \<open>Undefined\<close> when the code reads out of bounds or has undefined behaviour otherwise; \<open>and_then\<close> is \<open>co_await\<close>
  followed by the rest. What the kernel does is a script in the state of the socket: a list of completions of receives (data,
  or an error) and one of sends, so that a property that holds for all states holds for every segmentation. Integers that wrap
  are words; \<open>long\<close> is \<open>int\<close>, with its bounds where they are checked. A class is a record, its members with the
  names of the source, and its operations are definitions with their names, with a prefix where HOL has the name.

  \<^item> \<open>Cpp_Util\<close>: \<open>cppevent_base/util.cpp\<close>, the big-endian readers and writers, which read back what they wrote.
  \<^item> \<open>Byte_Buffer\<close>: \<open>byte_buffer.hpp\<close>; every sequence of writes and reads does exactly what a bounded queue does, and nothing is undefined.
  \<^item> \<open>Encoding\<close>: \<open>cppevent_crypto/encoding.cpp\<close>; the accumulator loops compute the base64 of RFC 4648, both directions are inverse, and decoding is total.
  \<^item> \<open>Socket\<close>: \<open>cppevent_net/socket.cpp\<close>; reads refine the stream of bytes, writes go out in order. \<open>Socket_Calls\<close> has the
    lemmas for the clients: what a sequence of writes emits, and the measure by which reading loops end.
  \<^item> \<open>Charconv\<close>: \<open>std::from_chars\<close> and \<open>std::to_chars\<close> for integers.
  \<^item> \<open>Http_Util\<close>, \<open>Http_Types\<close>, \<open>Http_Line\<close>, \<open>Http_Body\<close>, \<open>Http_Output\<close>, \<open>Http_Request\<close>, \<open>Http_Router\<close>, \<open>Http_Server\<close>:
    the files of \<open>cppevent_http\<close> of the same names.
  \<^item> \<open>Events\<close>: \<open>event_callback\<close>, \<open>status_awaiter\<close>, \<open>suspended_coro\<close>, \<open>event_bus\<close> and \<open>event_loop\<close>; \<open>Async_Queue\<close>: \<open>async_queue.hpp\<close>, as steps
    that interleave with the loop, with an invariant that no wake-up is lost.
  \<^item> \<open>Async_Signal\<close>: \<open>async_signal\<close>; \<open>Task\<close>: \<open>task<>\<close> of \<open>task.hpp\<close>, the life of the frame of a coroutine, whatever the order of the end of its
    body, an await, letting go and the destructor; \<open>Task_Value\<close>: \<open>task<T>\<close>, whose frame lives as that of a task that is not let go of, and
    which gives its awaiter the value of the body; \<open>Server\<close>: the loop of \<open>server::accept_connections\<close>.
  \<^item> \<open>Io_Uring\<close>: \<open>io_listener\<close>, \<open>io_service\<close> and the loop with its listeners, over liburing as a parameter. \<open>Io_Loop\<close>: the histories of the
    loop, a specification of what every listener is doing, and the simulation that shows that completions reach the coroutines that asked for
    them, under \<open>uring_contract\<close>. \<open>Io_Fair\<close>: a completed operation is not starved.
  \<^item> \<open>Os\<close>: the calls of the operating system as a parameter, with the contract \<open>posix_contract\<close> on what is held open, triples for
    operations that may throw, and the operations of the loop as steps of a history. \<open>Timer\<close>: \<open>timer\<close>; \<open>Net\<close>: \<open>client_socket\<close>,
    \<open>server_socket\<close>, \<open>get_addrinfo\<close>, the constructors of \<open>server\<close> and the ends of \<open>socket\<close>: which calls and requests they make, in
    which order, how they fail and what they leave behind. \<open>Wiring\<close>: the constructors of \<open>http_server\<close> and \<open>pg_database\<close>, composed of these.
    \<open>Socket_Io\<close>: \<open>recv_incoming\<close> and \<open>flush\<close> on the ring; the script of theory \<open>Socket\<close> is what the kernel answers.
  \<^item> \<open>Pg_Values\<close> (\<open>pg_conv.hpp\<close>, \<open>pg_params\<close>, \<open>pg_result\<close>) and \<open>Pg_Rows\<close> (the two loops of \<open>populate_result\<close>): what is stored as
    parameters is read back from a row, and what a malformed row makes the parser read. \<open>Pg_Types\<close>: \<open>get_row\<close> keeps the types of its variables.
    \<open>Pg_Floats\<close>: floating-point numbers among the values, with the conversions of the standard library as a parameter and its promise on
    the shortest text, \<open>charconv_contract\<close>, as hypothesis.
  \<^item> \<open>Crypto\<close> (\<open>crypto\<close>, \<open>sha256\<close>, \<open>hmac\<close>, \<open>pbkdf2\<close>) and \<open>Scram\<close>: OpenSSL is the parameter \<open>openssl\<close>, and the hypothesis
    \<open>openssl_computes\<close> says that its calls succeed and compute a hash, a MAC and a key derivation of 32 bytes, whichever; a derivation
    with no iteration fails.
    \<open>Crypto_Life\<close>: the constructors and destructors of these, with what they hold of OpenSSL and free.
  \<^item> \<open>Pg_Connection\<close> (messages, authentication, \<open>init\<close>) and \<open>Pg_Query\<close> (\<open>query\<close>, \<open>prepare_query\<close>, \<open>execute\<close>, \<open>close_sync\<close>) are
    \<open>pg_connection\<close>; \<open>Pg_Login\<close> and \<open>Pg_Replies\<close> show what they send and return for a server that follows the protocol, and what goes
    wrong when it does not. The results of \<open>query\<close> and \<open>execute\<close> are right when every completion brings whole messages (\<open>aligned\<close>):
    \<open>populate_result\<close> is started but not awaited, so a row that is cut in two by the kernel is lost and the rest of it is read as
    messages. After such a cut one receive more is under way than the program waits for; the script of the socket stands for a
    kernel that writes into the buffer only when the program waits for it again.
  \<^item> \<open>Pg_Pool\<close>: \<open>pg_database\<close>, and the constructors, destructor and moves of \<open>pg_connection\<close>. The state has the pool, the events under
    way, the bus and where every client is; the steps of the clients, the answers of the kernel and the turns of the loop are an
    inductive relation. The invariant counts the connections and follows the ids of the clients that wait. Histories that go wrong are
    theorems too: a client that barges in, and a limit that is exceeded. A waiting client that is destroyed, and the assignment of one
    connection to another, are not steps.
  \<^item> \<open>Echo\<close>, \<open>Telnet\<close>, \<open>Hello\<close>, \<open>Timed\<close>, \<open>Pg_App\<close>: the programs under \<open>examples\<close>, each from its input to its output. They compose the parts:
    \<open>Echo\<close> and \<open>Hello\<close> are servers from the bytes of a connection to the bytes of the answers, \<open>Telnet\<close> is a client run against the
    server of \<open>Echo\<close>, \<open>Timed\<close> has two coroutines with a queue and a timer in every interleaving, \<open>Pg_App\<close> goes from a query to the rows
    it prints. Text written to the standard output is part of the state, and what a terminal delivers is a script like that of a socket.

  \<^bold>\<open>Termination and fuel.\<close> A loop that reads from a socket ends because each turn takes bytes or completions off the script:
  the measure is \<open>rx_work\<close>, and the loops are total functions. \<open>on_connection\<close> calls endpoints, which are
  arbitrary, so it has fuel; \<open>Suc (rx_work s)\<close> is enough for every endpoint that keeps the contract of the locale
  (\<open>http_server_connection_ends\<close>). The event loop has fuel as well, one unit for each event that is handled.

  \<^bold>\<open>Parameters.\<close> The iteration order of \<open>std::unordered_map\<close>, the hash of a character, the endpoints of the HTTP server, OpenSSL and its
  random bytes, liburing, the system calls. Addresses of objects and of memory are arguments of the operations that create them.

  \<^bold>\<open>Not modelled.\<close> What the body of a coroutine does between two suspensions is the model of that coroutine, not of its frame, and
  the loops of \<open>http_server\<close>, \<open>pg_connection\<close> and the examples run on the script of a socket, not on turns of the loop (\<open>Socket_Io\<close> relates the
  two for one receive or send). The functions \<open>main\<close> of the examples, which construct what
  the theories begin with and run the loop; the test programs. Freeing memory other than the objects of OpenSSL and the frames of coroutines is not followed.
\<close>

end
